(* ===== verification/Prelude.thy ===== *)
theory Prelude
  imports Main "HOL-Library.Word"
begin

unbundle bit_operations_syntax

text \<open>
  Shared vocabulary of the development: the C integer types as words, the flat byte memory of
  the bare-metal targets, and the generic lemmas on words, powers of two and lists that the
  component theories use.

  The collections: \<open>word_nat\<close> moves a word goal to \<open>nat\<close>; \<open>c_shift\<close> evaluates
  shifts and masks by constants to division and remainder.
\<close>

named_theorems word_nat \<open>move arithmetic on words to the natural numbers\<close>
named_theorems c_shift \<open>C shifts and masks as division and remainder by powers of two\<close>

type_synonym u8 = "8 word"
type_synonym u16 = "16 word"
type_synonym u32 = "32 word"
type_synonym u64 = "64 word"

section \<open>Words read as natural numbers\<close>

declare word_le_nat_alt [word_nat]
declare word_less_nat_alt [word_nat]
declare unat_word_ariths [word_nat]
declare word_unat_eq_iff [word_nat]

lemma unat_drop_bit [c_shift]: "unat (drop_bit n (x :: 'a::len word)) = unat x div 2 ^ n"
  by (metis drop_bit_eq_div unat_drop_bit_eq)

lemma unat_push_bit [c_shift]:
  "unat (push_bit n (x :: 'a::len word)) = unat x * 2 ^ n mod 2 ^ LENGTH('a)"
  by (metis push_bit_eq_mult take_bit_eq_mod unsigned_push_bit_eq)

lemma unat_ucast_mod [c_shift]:
  "unat (ucast (x :: 'a::len word) :: 'b::len word) = unat x mod 2 ^ LENGTH('b)"
  by (simp add: unsigned_ucast_eq take_bit_eq_mod)

lemma unat_less_exp [simp]: "unat (x :: 'a::len word) < 2 ^ LENGTH('a)"
  by (rule unsigned_less)

lemma unat_u8_less: "unat (x :: u8) < 256"
  using unsigned_less [of x] by simp

lemma unat_u16_less: "unat (x :: u16) < 65536"
  using unsigned_less [of x] by simp

lemma unat_u32_less: "unat (x :: u32) < 4294967296"
  using unsigned_less [of x] by simp

lemma unat_u64_less: "unat (x :: u64) < 18446744073709551616"
  using unsigned_less [of x] by simp

lemma unat_ucast_u32_u64 [simp]: "unat (ucast (x :: u32) :: u64) = unat x"
  unfolding unat_ucast_mod by (rule mod_less, rule less_trans [OF unat_u32_less]) simp

lemma unat_of_nat_u32: "n < 2 ^ 32 \<Longrightarrow> unat (of_nat n :: u32) = n"
  by (simp only: unat_of_nat) simp

section \<open>Disjoint bits add up\<close>

lemma unat_or_add:
  fixes x y :: "'a::len word"
  assumes "x AND y = 0"
  shows "unat (x OR y) = unat x + unat y"
proof -
  have "unat (x OR y) = unat x OR unat y" by (simp add: unsigned_or_eq)
  moreover have "unat x AND unat y = 0"
    using assms by (metis unsigned_and_eq unsigned_0)
  ultimately show ?thesis
    by (simp add: disjunctive_add_eq_or)
qed

lemma funnel_disjoint:
  fixes x y :: "'a::len word"
  assumes "k \<le> LENGTH('a)"
  shows "push_bit k x AND drop_bit (LENGTH('a) - k) y = 0"
  by (rule bit_eqI) (auto simp: bit_simps dest: bit_imp_le_length)

text \<open>A funnel shift: the low bits of \<open>x\<close> above the high bits of \<open>y\<close>.\<close>

lemma unat_funnel:
  fixes x y :: "'a::len word"
  assumes "k \<le> LENGTH('a)"
  shows "unat (push_bit k x OR drop_bit (LENGTH('a) - k) y)
    = (unat x * 2 ^ k) mod 2 ^ LENGTH('a) + unat y div 2 ^ (LENGTH('a) - k)"
  using funnel_disjoint [OF assms, of x y]
  by (simp only: unat_or_add unat_push_bit unat_drop_bit)

section \<open>Masks and powers of two\<close>

lemma div_exp_div_exp: "(n::nat) div 2 ^ a div 2 ^ b = n div 2 ^ (a + b)"
  by (simp add: div_mult2_eq power_add)

lemma and_mask_eq_0_iff_dvd:
  fixes x :: "'a::len word"
  shows "x AND mask k = 0 \<longleftrightarrow> 2 ^ k dvd unat x"
proof -
  have "x AND mask k = 0 \<longleftrightarrow> unat (take_bit k x) = 0"
    by (simp add: take_bit_eq_mask unsigned_eq_0_iff)
  also have "\<dots> \<longleftrightarrow> 2 ^ k dvd unat x"
    by (simp add: unsigned_take_bit_eq take_bit_eq_0_iff)
  finally show ?thesis .
qed

lemma and_high_mask:
  fixes x :: "'a::len word"
  assumes "unat x < 2 ^ (2 * k)"
  shows "x AND push_bit k (mask k) = push_bit k (drop_bit k x)"
proof (rule bit_eqI)
  fix i
  have "\<not> bit x i" if "2 * k \<le> i"
  proof -
    have "unat x < 2 ^ i"
      using assms that by (meson less_le_trans one_le_numeral power_increasing)
    then have "\<not> bit (unat x) i"
      by (simp add: bit_iff_odd)
    then show ?thesis by (simp add: bit_unsigned_iff)
  qed
  then show "bit (x AND push_bit k (mask k)) i = bit (push_bit k (drop_bit k x)) i"
    by (cases "2 * k \<le> i") (auto simp: bit_simps dest: bit_imp_le_length)
qed

lemma and_high_mask_eq_0_iff:
  fixes x :: "'a::len word"
  assumes "unat x < 2 ^ (2 * k)"
  shows "x AND push_bit k (mask k) = 0 \<longleftrightarrow> unat x < 2 ^ k"
proof -
  have "unat (push_bit k (drop_bit k x)) = unat x div 2 ^ k * 2 ^ k"
    unfolding unat_push_bit unat_drop_bit
    by (rule mod_less) (meson div_times_less_eq_dividend le_less_trans unat_less_exp)
  then show ?thesis
    using and_high_mask [OF assms] by (metis div_eq_0_iff mult_eq_0_iff power_not_zero unat_eq_zero zero_neq_numeral)
qed

lemma nat_and_pred_eq_0:
  fixes n :: nat
  assumes "0 < n" "n AND (n - 1) = 0"
  shows "\<exists>k. n = 2 ^ k"
  using assms
proof (induction n rule: less_induct)
  case (less n)
  show ?case
  proof (cases "even n")
    case True
    then obtain m where m: "n = 2 * m" by (elim evenE)
    with less.prems have pos: "0 < m" by simp
    then have "n - 1 = 2 * (m - 1) + 1" using m by simp
    then have "n AND (n - 1) = 2 * (m AND (m - 1))"
      using m by (simp add: and_nat_rec [of "2 * m"])
    then have "m AND (m - 1) = 0" using less.prems by simp
    then obtain k where "m = 2 ^ k" using less.IH [of m] m pos by auto
    then have "n = 2 ^ Suc k" using m by simp
    then show ?thesis by blast
  next
    case False
    then obtain m where m: "n = 2 * m + 1" by (elim oddE)
    then have "n AND (n - 1) = 2 * m"
      using and_nat_rec [of "Suc (2 * m)" "2 * m"] by simp
    then have "n = 2 ^ 0" using less.prems m by simp
    then show ?thesis by blast
  qed
qed

lemma word_and_pred_eq_0:
  fixes d :: "'a::len word"
  assumes "d \<noteq> 0" "d AND (d - 1) = 0"
  shows "\<exists>k. unat d = 2 ^ k"
proof -
  have "0 < unat d" using assms(1) by (simp add: unat_gt_0)
  moreover have "unat (d - 1) = unat d - 1"
    using assms(1) by (simp add: unat_minus_one)
  ultimately show ?thesis
    using nat_and_pred_eq_0 [of "unat d"] assms(2)
    by (metis unsigned_and_eq unsigned_0)
qed

lemma unat_and_mask: "unat (x AND mask k) = unat x mod 2 ^ k"
proof -
  have "x AND mask k = take_bit k x" by (simp add: take_bit_eq_mask)
  moreover have "unat (take_bit k x) = take_bit k (unat x)" by (rule unsigned_take_bit_eq)
  ultimately show ?thesis by (simp only: take_bit_eq_mod)
qed

lemma unat_and_not_mask: "unat (x AND NOT (mask k)) = unat x - unat x mod 2 ^ k"
proof -
  have d: "(x AND NOT (mask k)) AND (x AND mask k) = 0"
    by (rule bit_word_eqI) (auto simp: bit_simps)
  have "(x AND NOT (mask k)) OR (x AND mask k) = x"
    by (rule bit_word_eqI) (auto simp: bit_simps)
  then have "unat x = unat (x AND NOT (mask k)) + unat x mod 2 ^ k"
    using unat_or_add [OF d] by (simp add: unat_and_mask)
  then show ?thesis by simp
qed

lemma sint_u32_neg_iff: "sint (x :: u32) < 0 \<longleftrightarrow> 2 ^ 31 \<le> unat x"
proof -
  have "sint x < 0 \<longleftrightarrow> bit x 31" using bit_last_iff [of x] by simp
  also have "\<dots> \<longleftrightarrow> bit (unat x) 31" by (simp add: bit_simps)
  also have "\<dots> \<longleftrightarrow> odd (unat x div 2 ^ 31)" by (simp only: bit_iff_odd)
  also have "\<dots> \<longleftrightarrow> 2 ^ 31 \<le> unat x"
  proof -
    have "unat x div 2 ^ 31 < 2" using unat_u32_less [of x] by (simp add: less_mult_imp_div_less)
    then have "odd (unat x div 2 ^ 31) \<longleftrightarrow> 0 < unat x div 2 ^ 31" by (auto simp: odd_pos less_2_cases_iff)
    then show ?thesis by (simp add: div_greater_zero_iff)
  qed
  finally show ?thesis .
qed
section \<open>Byte stores\<close>

text \<open>
  Little-endian access to a store of bytes, and the contract of the store: a byte put is the byte
  got back, other bytes and the valid addresses stay.
\<close>

primrec le_read :: "('m \<Rightarrow> nat \<Rightarrow> u8) \<Rightarrow> 'm \<Rightarrow> nat \<Rightarrow> nat \<Rightarrow> nat" where
  "le_read g m a 0 = 0"
| "le_read g m a (Suc n) = unat (g m a) + 256 * le_read g m (Suc a) n"

primrec le_write :: "('m \<Rightarrow> nat \<Rightarrow> u8 \<Rightarrow> 'm) \<Rightarrow> 'm \<Rightarrow> nat \<Rightarrow> nat \<Rightarrow> nat \<Rightarrow> 'm" where
  "le_write p m a 0 v = m"
| "le_write p m a (Suc n) v = le_write p (p m a (word_of_nat v)) (Suc a) n (v div 256)"

lemma le_read_less: "le_read g m a n < 256 ^ n"
proof (induction n arbitrary: a)
  case (Suc n)
  have "Suc (le_read g m (Suc a) n) \<le> 256 ^ n" using Suc.IH [of "Suc a"] by (rule Suc_leI)
  then have "256 * Suc (le_read g m (Suc a) n) \<le> 256 * 256 ^ n" by (rule mult_le_mono2)
  then show ?case using unat_u8_less [of "g m a"] by simp
qed simp

locale byte_store =
  fixes valid :: "'m \<Rightarrow> nat \<Rightarrow> bool"
    and get :: "'m \<Rightarrow> nat \<Rightarrow> u8"
    and put :: "'m \<Rightarrow> nat \<Rightarrow> u8 \<Rightarrow> 'm"
  assumes get_put_same: "valid m a \<Longrightarrow> get (put m a v) a = v"
    and get_put_other: "b \<noteq> a \<Longrightarrow> get (put m a v) b = get m b"
    and valid_put: "valid (put m a v) b \<longleftrightarrow> valid m b"
begin

lemma valid_le_write: "valid (le_write put m a n v) b \<longleftrightarrow> valid m b"
  by (induction n arbitrary: m a v) (simp_all add: valid_put)

lemma get_le_write_other: "b < a \<or> a + n \<le> b \<Longrightarrow> get (le_write put m a n v) b = get m b"
  by (induction n arbitrary: m a v) (auto simp: get_put_other)

lemma le_read_cong:
  "(\<And>i. i < n \<Longrightarrow> get m (a + i) = get m' (a + i)) \<Longrightarrow> le_read get m a n = le_read get m' a n"
proof (induction n arbitrary: a)
  case (Suc n)
  have "get m a = get m' a" using Suc.prems [of 0] by simp
  moreover have "le_read get m (Suc a) n = le_read get m' (Suc a) n"
  proof (rule Suc.IH)
    fix i assume "i < n"
    then show "get m (Suc a + i) = get m' (Suc a + i)" using Suc.prems [of "Suc i"] by simp
  qed
  ultimately show ?case by simp
qed simp

lemma le_read_write_other:
  "b + k \<le> a \<or> a + n \<le> b \<Longrightarrow> le_read get (le_write put m a n v) b k = le_read get m b k"
  by (rule le_read_cong) (auto intro: get_le_write_other)

lemma le_read_write_same:
  "(\<And>i. i < n \<Longrightarrow> valid m (a + i)) \<Longrightarrow> le_read get (le_write put m a n v) a n = v mod 256 ^ n"
proof (induction n arbitrary: m a v)
  case (Suc n)
  let ?m = "put m a (word_of_nat v)"
  have "get (le_write put ?m (Suc a) n (v div 256)) a = word_of_nat v"
    using Suc.prems [of 0] by (simp add: get_le_write_other get_put_same)
  moreover have "le_read get (le_write put ?m (Suc a) n (v div 256)) (Suc a) n = v div 256 mod 256 ^ n"
  proof (rule Suc.IH)
    fix i assume "i < n"
    then show "valid ?m (Suc a + i)" using Suc.prems [of "Suc i"] by (simp add: valid_put)
  qed
  ultimately show ?case
    by (simp add: unat_of_nat mod_mult2_eq)
qed simp

end

section \<open>Signed integers\<close>

text \<open>The result of an operation on \<open>int\<close> or \<open>long long\<close>: \<open>None\<close> when it does not fit, since signed overflow is
  undefined.\<close>

definition i32 :: "int \<Rightarrow> int option" where
  "i32 x = (if - (2 ^ 31) \<le> x \<and> x < 2 ^ 31 then Some x else None)"

definition i64 :: "int \<Rightarrow> int option" where
  "i64 x = (if - (2 ^ 63) \<le> x \<and> x < 2 ^ 63 then Some x else None)"

lemma i32_Some: "- (2 ^ 31) \<le> x \<Longrightarrow> x < 2 ^ 31 \<Longrightarrow> i32 x = Some x"
  by (simp add: i32_def)

lemma i32_bind_None: "f x = None \<Longrightarrow> Option.bind (i32 x) f = None"
  by (simp add: i32_def)

lemma i32_overflow: "2 ^ 31 \<le> x \<Longrightarrow> i32 x = None"
  by (simp add: i32_def)

end
