(* ===== verification/Tests_Sort.thy ===== *)
theory Tests_Sort
  imports Prelude "HOL-Library.Monad_Syntax" "HOL-Library.Multiset"
begin

text \<open>
  The sorting programs among the processor tests: \<open>software-test/cpu-tests/tests/bubble-sort.c\<close>,
  \<open>select-sort.c\<close> and \<open>quick-sort.c\<close>, with \<open>check\<close> of \<open>include/trap.h\<close>.

  An array of \<open>int\<close> is the list of its values; the programs only compare and move them.  Reading or
  writing outside the array makes the computation \<open>None\<close>, and so does a loop that does not end.
  The macro \<open>N\<close> is an argument of the sorting routines and is 20 in the programs.  A program's
  result is the code it passes to \<open>halt\<close>: 1 from a failing \<open>check\<close>, the result of \<open>main\<close> otherwise.

  The theorems: each routine sorts every array, without leaving it, and every test ends with code 0.
\<close>

section \<open>Model\<close>

definition check :: "bool \<Rightarrow> int option \<Rightarrow> int option" where
  "check cond rest = (if cond then rest else Some 1)"

definition aget :: "'a list \<Rightarrow> int \<Rightarrow> 'a option" where
  "aget a i = (if 0 \<le> i \<and> i < int (length a) then Some (a ! nat i) else None)"

definition aset :: "'a list \<Rightarrow> int \<Rightarrow> 'a \<Rightarrow> 'a list option" where
  "aset a i x = (if 0 \<le> i \<and> i < int (length a) then Some (a[nat i := x]) else None)"

subsection \<open>bubble-sort.c\<close>

definition array_init :: "int list" where
  "array_init = [2, 12, 14, 6, 13, 15, 16, 10, 0, 18, 11, 19, 9, 1, 7, 5, 4, 3, 8, 17]"

function bubble_inner :: "int \<Rightarrow> int \<Rightarrow> int list \<Rightarrow> int list option" where
  "bubble_inner m i a =
    (if i < m then do {
       x \<leftarrow> aget a i;
       y \<leftarrow> aget a (i + 1);
       a \<leftarrow> (if x > y then do {
              let t = x;
              a \<leftarrow> aset a i y;
              aset a (i + 1) t
            } else Some a);
       bubble_inner m (i + 1) a
     } else Some a)"
  by pat_completeness auto
termination by (relation "measure (\<lambda>(m, i, a). nat (m - i))") auto

function bubble_outer :: "int \<Rightarrow> int \<Rightarrow> int list \<Rightarrow> int list option" where
  "bubble_outer N j a =
    (if j < N then do {
       a \<leftarrow> bubble_inner (N - 1 - j) 0 a;
       bubble_outer N (j + 1) a
     } else Some a)"
  by pat_completeness auto
termination by (relation "measure (\<lambda>(N, j, a). nat (N - j))") auto

definition bubble_sort :: "int \<Rightarrow> int list \<Rightarrow> int list option" where
  "bubble_sort N a = bubble_outer N 0 a"

text \<open>The loop of \<open>main\<close> that checks the array, shared by the three programs.\<close>

function check_ascending :: "int \<Rightarrow> int \<Rightarrow> int list \<Rightarrow> int option \<Rightarrow> int option" where
  "check_ascending N i a rest =
    (if i < N then do {
       x \<leftarrow> aget a i;
       check (x = i) (check_ascending N (i + 1) a rest)
     } else check (i = N) rest)"
  by pat_completeness auto
termination by (relation "measure (\<lambda>(N, i, a, rest). nat (N - i))") auto

definition sort_main :: "(int \<Rightarrow> int list \<Rightarrow> int list option) \<Rightarrow> int option" where
  "sort_main sort_fun = do {
     a \<leftarrow> sort_fun 20 array_init;
     check_ascending 20 0 a (do {
       a \<leftarrow> sort_fun 20 a;
       check_ascending 20 0 a (Some 0)
     })
   }"

definition bubble_sort_main :: "int option" where
  "bubble_sort_main = sort_main bubble_sort"

subsection \<open>select-sort.c\<close>

function select_inner :: "int \<Rightarrow> int \<Rightarrow> int \<Rightarrow> int list \<Rightarrow> int option" where
  "select_inner N j k a =
    (if j < N then do {
       x \<leftarrow> aget a j;
       y \<leftarrow> aget a k;
       select_inner N (j + 1) (if x < y then j else k) a
     } else Some k)"
  by pat_completeness auto
termination by (relation "measure (\<lambda>(N, j, k, a). nat (N - j))") auto

function select_outer :: "int \<Rightarrow> int \<Rightarrow> int list \<Rightarrow> int list option" where
  "select_outer N i a =
    (if i < N - 1 then do {
       k \<leftarrow> select_inner N (i + 1) i a;
       t \<leftarrow> aget a i;
       x \<leftarrow> aget a k;
       a \<leftarrow> aset a i x;
       a \<leftarrow> aset a k t;
       select_outer N (i + 1) a
     } else Some a)"
  by pat_completeness auto
termination by (relation "measure (\<lambda>(N, i, a). nat (N - i))") auto

definition select_sort :: "int \<Rightarrow> int list \<Rightarrow> int list option" where
  "select_sort N a = select_outer N 0 a"

definition select_sort_main :: "int option" where
  "select_sort_main = sort_main select_sort"

subsection \<open>quick-sort.c\<close>

function scan_down :: "int list \<Rightarrow> int \<Rightarrow> int \<Rightarrow> int \<Rightarrow> int option" where
  "scan_down a pivot i j =
    (if i < j then do {
       x \<leftarrow> aget a j;
       if x > pivot then scan_down a pivot i (j - 1) else Some j
     } else Some j)"
  by pat_completeness auto
termination by (relation "measure (\<lambda>(a, pivot, i, j). nat (j - i))") auto

function scan_up :: "int list \<Rightarrow> int \<Rightarrow> int \<Rightarrow> int \<Rightarrow> int option" where
  "scan_up a pivot i j =
    (if i < j then do {
       x \<leftarrow> aget a i;
       if x \<le> pivot then scan_up a pivot (i + 1) j else Some i
     } else Some i)"
  by pat_completeness auto
termination by (relation "measure (\<lambda>(a, pivot, i, j). nat (j - i))") auto

partial_function (option) partition_loop :: "int \<Rightarrow> int \<Rightarrow> int \<Rightarrow> int list \<Rightarrow> (int \<times> int list) option" where
  "partition_loop pivot i j a =
    (if i < j then do {
       j \<leftarrow> scan_down a pivot i j;
       x \<leftarrow> aget a j;
       a \<leftarrow> aset a i x;
       i \<leftarrow> scan_up a pivot i j;
       x \<leftarrow> aget a i;
       a \<leftarrow> aset a j x;
       partition_loop pivot i j a
     } else Some (i, a))"

definition partition_array :: "int list \<Rightarrow> int \<Rightarrow> int \<Rightarrow> (int \<times> int list) option" where
  "partition_array a p q = do {
     pivot \<leftarrow> aget a p;
     (i, a) \<leftarrow> partition_loop pivot p q a;
     a \<leftarrow> aset a i pivot;
     Some (i, a)
   }"

partial_function (option) quick_sort :: "int list \<Rightarrow> int \<Rightarrow> int \<Rightarrow> int list option" where
  "quick_sort a p q =
    (if p \<ge> q then Some a
     else do {
       (m, a) \<leftarrow> partition_array a p q;
       a \<leftarrow> quick_sort a p (m - 1);
       quick_sort a (m + 1) q
     })"

definition quick_sort_main :: "int option" where
  "quick_sort_main = sort_main (\<lambda>N a. quick_sort a 0 (N - 1))"

declare bubble_inner.simps [simp del] bubble_outer.simps [simp del] check_ascending.simps [simp del]
  select_inner.simps [simp del] select_outer.simps [simp del] scan_down.simps [simp del]
  scan_up.simps [simp del]

section \<open>Arrays\<close>

lemma aget_nat [simp]: "i < length a \<Longrightarrow> aget a (int i) = Some (a ! i)"
  by (simp add: aget_def)

lemma aset_nat [simp]: "i < length a \<Longrightarrow> aset a (int i) x = Some (a[i := x])"
  by (simp add: aset_def)

lemma aget_Suc [simp]: "Suc i < length a \<Longrightarrow> aget a (1 + int i) = Some (a ! Suc i)"
  using aget_nat [of "Suc i" a] by simp

lemma aset_Suc [simp]: "Suc i < length a \<Longrightarrow> aset a (1 + int i) x = Some (a[Suc i := x])"
  using aset_nat [of "Suc i" a] by simp

text \<open>Two arrays with the same elements that agree outside the positions from \<open>l\<close> up to, but
  not including, \<open>h\<close>.\<close>

definition perm_on :: "nat \<Rightarrow> nat \<Rightarrow> 'a list \<Rightarrow> 'a list \<Rightarrow> bool" where
  "perm_on l h a a' \<longleftrightarrow> length a' = length a \<and> mset a' = mset a
    \<and> (\<forall>k < length a. k < l \<or> h \<le> k \<longrightarrow> a' ! k = a ! k)"

lemma perm_on_refl [simp]: "perm_on l h a a"
  by (simp add: perm_on_def)

lemma perm_on_trans: "perm_on l h a b \<Longrightarrow> perm_on l h b c \<Longrightarrow> perm_on l h a c"
  by (simp add: perm_on_def)

lemma perm_on_wider: "perm_on l h a b \<Longrightarrow> l' \<le> l \<Longrightarrow> h \<le> h' \<Longrightarrow> perm_on l' h' a b"
  by (auto simp: perm_on_def)

lemma perm_on_length: "perm_on l h a a' \<Longrightarrow> length a' = length a"
  by (simp add: perm_on_def)

lemma perm_on_mset: "perm_on l h a a' \<Longrightarrow> mset a' = mset a"
  by (simp add: perm_on_def)

lemma perm_on_outside: "perm_on l h a a' \<Longrightarrow> k < length a \<Longrightarrow> k < l \<or> h \<le> k \<Longrightarrow> a' ! k = a ! k"
  by (auto simp: perm_on_def)

lemma perm_on_swap:
  assumes "l \<le> i" "i < h" "l \<le> k" "k < h" "i < length a" "k < length a"
  shows "perm_on l h a (a[i := a ! k, k := a ! i])"
proof -
  have "mset (a[i := a ! k, k := a ! i]) = mset a"
    using assms by (subst mset_swap) auto
  then show ?thesis using assms by (auto simp: perm_on_def nth_list_update)
qed

lemma perm_on_segment:
  assumes p: "perm_on l h a a'" and "l \<le> h" "h \<le> length a"
  shows "mset (drop l (take h a')) = mset (drop l (take h a))"
proof -
  have split: "xs = take l xs @ drop l (take h xs) @ drop h xs" for xs :: "'a list"
    using \<open>l \<le> h\<close> by (metis append.assoc append_take_drop_id min.absorb1 take_take)
  have "take l a' = take l a" "drop h a' = drop h a"
    using assms by (auto simp: perm_on_def intro!: nth_equalityI)
  moreover have "mset (take l a' @ drop l (take h a') @ drop h a') = mset (take l a @ drop l (take h a) @ drop h a)"
    using perm_on_mset [OF p] split [of a] split [of a'] by simp
  ultimately show ?thesis by simp
qed

lemma perm_on_inside:
  assumes p: "perm_on l h a a'" and "h \<le> length a" "l \<le> i" "i < h"
  obtains k where "l \<le> k" "k < h" "a' ! i = a ! k"
proof -
  have "drop l (take h a') ! (i - l) \<in> set (drop l (take h a'))"
    using assms perm_on_length [OF p] by (intro nth_mem) simp
  then have "a' ! i \<in> set (drop l (take h a'))"
    using assms perm_on_length [OF p] by simp
  then have "a' ! i \<in> set (drop l (take h a))"
    using perm_on_segment [OF p] assms by (metis le_less_trans less_imp_le mset_eq_setD)
  then obtain n where "n < length (drop l (take h a))" "drop l (take h a) ! n = a' ! i"
    by (metis in_set_conv_nth)
  then show thesis using that [of "l + n"] assms by (simp add: less_diff_conv)
qed

lemma perm_on_all_bounds:
  assumes "perm_on l h a a'" "h \<le> length a" "\<And>k. l \<le> k \<Longrightarrow> k < h \<Longrightarrow> P (a ! k)" "l \<le> i" "i < h"
  shows "P (a' ! i)"
  using assms perm_on_inside [OF assms(1,2,4,5)] by metis

text \<open>The specification of a sorting routine.\<close>

lemma perm_on_sort:
  assumes "perm_on l h a a'" "\<And>i k. i \<le> k \<Longrightarrow> k < length a \<Longrightarrow> a' ! i \<le> a' ! k"
  shows "a' = sort (a :: int list)"
proof -
  have "sorted a'" using assms by (auto simp: sorted_iff_nth_mono perm_on_length)
  then show ?thesis using perm_on_mset [OF assms(1)] by (metis properties_for_sort)
qed

section \<open>Bubble sort\<close>

lemma bubble_inner_correct:
  assumes "i \<le> m" "m < length a" "\<And>k. k < i \<Longrightarrow> a ! k \<le> a ! i"
  shows "\<exists>a'. bubble_inner (int m) (int i) a = Some a' \<and> perm_on 0 (Suc m) a a' \<and> (\<forall>k \<le> m. a' ! k \<le> a' ! m)"
  using assms
proof (induction "m - i" arbitrary: i a)
  case 0
  then have "i = m" by simp
  then show ?case using 0 by (subst bubble_inner.simps) (auto simp: le_less)
next
  case (Suc n)
  then have im: "i < m" "Suc i < length a" and n: "n = m - Suc i" by simp_all
  define b where "b = (if a ! i > a ! Suc i then a[i := a ! Suc i, Suc i := a ! i] else a)"
  have step: "bubble_inner (int m) (int i) a = bubble_inner (int m) (int (Suc i)) b"
    using im by (subst bubble_inner.simps) (simp add: b_def add.commute)
  have pb: "perm_on 0 (Suc m) a b"
    using im perm_on_swap [of 0 i "Suc m" "Suc i" a] by (simp add: b_def)
  have "b ! k \<le> b ! Suc i" if "k < Suc i" for k
    using that Suc.prems(3) [of k] im by (auto simp: b_def nth_list_update less_Suc_eq)
  then obtain a' where "bubble_inner (int m) (int (Suc i)) b = Some a'" "perm_on 0 (Suc m) b a'"
      "\<forall>k \<le> m. a' ! k \<le> a' ! m"
    using Suc.hyps(1) [OF n, of b] im pb Suc.prems(2) by (auto simp: perm_on_length)
  then show ?case using step perm_on_trans [OF pb] by auto
qed

lemma bubble_outer_correct:
  assumes "length a = N" "j \<le> N" "\<And>i k. N - j \<le> k \<Longrightarrow> k < N \<Longrightarrow> i \<le> k \<Longrightarrow> a ! i \<le> a ! k"
  shows "\<exists>a'. bubble_outer (int N) (int j) a = Some a' \<and> perm_on 0 N a a'
    \<and> (\<forall>k < N. \<forall>i \<le> k. a' ! i \<le> a' ! k)"
  using assms
proof (induction "N - j" arbitrary: j a)
  case 0
  then show ?case by (subst bubble_outer.simps) auto
next
  case (Suc n)
  define m where "m = N - 1 - j"
  have m: "int N - 1 - int j = int m" "m < length a" "N - Suc j = m" "N - j = Suc m" "j < N"
    using Suc.hyps(2) Suc.prems by (auto simp: m_def)
  obtain b where b: "bubble_inner (int m) 0 a = Some b" "perm_on 0 (Suc m) a b" "\<forall>k \<le> m. b ! k \<le> b ! m"
    using bubble_inner_correct [of 0 m a] m by auto
  have out: "b ! k = a ! k" if "m < k" "k < N" for k
    using perm_on_outside [OF b(2)] that Suc.prems by simp
  have *: "b ! i \<le> b ! k" if "m \<le> k" "k < N" "i \<le> k" for i k
  proof (cases "k = m")
    case False
    show ?thesis
    proof (cases "m < i")
      case True
      then show ?thesis using out [of i] out [of k] that Suc.prems(3) [of k i] m False by simp
    next
      case le: False
      have "b ! i \<le> a ! k"
        by (rule perm_on_all_bounds [OF b(2)]) (use that m le False Suc.prems in auto)
      then show ?thesis using out [of k] that False by simp
    qed
  qed (use b that in auto)
  have "\<exists>a'. bubble_outer (int N) (int (Suc j)) b = Some a' \<and> perm_on 0 N b a' \<and> (\<forall>k < N. \<forall>i \<le> k. a' ! i \<le> a' ! k)"
    by (rule Suc.hyps(1)) (use Suc.hyps(2) Suc.prems m b * in \<open>auto simp: perm_on_length\<close>)
  moreover have "perm_on 0 N a b" using b(2) by (rule perm_on_wider) (use m in auto)
  moreover have "bubble_outer (int N) (int j) a = bubble_outer (int N) (int (Suc j)) b"
    using m b by (subst bubble_outer.simps) (simp add: add.commute)
  ultimately show ?case using perm_on_trans by metis
qed

lemma bubble_sort_sorts: "length a = N \<Longrightarrow> bubble_sort (int N) a = Some (sort a)"
  using bubble_outer_correct [of a N 0] perm_on_sort [of 0 N a] by (auto simp: bubble_sort_def)

section \<open>Selection sort\<close>

lemma select_inner_correct:
  assumes "length a = N" "i \<le> k" "k < j" "j \<le> N" "\<And>l. i \<le> l \<Longrightarrow> l < j \<Longrightarrow> a ! k \<le> a ! l"
  shows "\<exists>r. select_inner (int N) (int j) (int k) a = Some (int r) \<and> i \<le> r \<and> r < N
    \<and> (\<forall>l. i \<le> l \<and> l < N \<longrightarrow> a ! r \<le> a ! l)"
  using assms
proof (induction "N - j" arbitrary: j k)
  case 0
  then show ?case by (subst select_inner.simps) auto
next
  case (Suc n)
  then have j: "j < N" "k < N" by simp_all
  define k' where "k' = (if a ! j < a ! k then j else k)"
  have min: "a ! k' \<le> a ! l" if "i \<le> l" "l < Suc j" for l
    using that Suc.prems(5) [of l] by (auto simp: k'_def less_Suc_eq)
  have "\<exists>r. select_inner (int N) (int (Suc j)) (int k') a = Some (int r) \<and> i \<le> r \<and> r < N
    \<and> (\<forall>l. i \<le> l \<and> l < N \<longrightarrow> a ! r \<le> a ! l)"
    by (rule Suc.hyps(1)) (use Suc.hyps(2) Suc.prems j min in \<open>auto simp: k'_def\<close>)
  moreover have "select_inner (int N) (int j) (int k) a = select_inner (int N) (int (Suc j)) (int k') a"
    using j Suc.prems(1) by (subst select_inner.simps) (simp add: k'_def add.commute)
  ultimately show ?case by simp
qed

lemma select_outer_correct:
  assumes "length a = N" "i \<le> N" "\<And>k l. k < i \<Longrightarrow> k \<le> l \<Longrightarrow> l < N \<Longrightarrow> a ! k \<le> a ! l"
  shows "\<exists>a'. select_outer (int N) (int i) a = Some a' \<and> perm_on 0 N a a'
    \<and> (\<forall>k l. k \<le> l \<and> l < N \<longrightarrow> a' ! k \<le> a' ! l)"
  using assms
proof (induction "N - i" arbitrary: i a)
  case 0
  then show ?case by (subst select_outer.simps) auto
next
  case (Suc n)
  show ?case
  proof (cases "Suc i < N")
    case False
    then have "i = N - 1" using Suc by simp
    then have "a ! k \<le> a ! l" if "k \<le> l" "l < N" for k l
      using that Suc.prems(3) [of k l] by (cases "k = l") auto
    then show ?thesis using False by (subst select_outer.simps) auto
  next
    case True
    obtain r where r: "select_inner (int N) (int (Suc i)) (int i) a = Some (int r)" "i \<le> r" "r < N"
        "\<And>l. i \<le> l \<Longrightarrow> l < N \<Longrightarrow> a ! r \<le> a ! l"
      using select_inner_correct [of a N i i "Suc i"] True Suc.prems by (auto simp: less_Suc_eq)
    define b where "b = a[i := a ! r, r := a ! i]"
    have pb: "perm_on i N a b" using perm_on_swap [of i i N r a] r True Suc.prems by (simp add: b_def)
    have step: "select_outer (int N) (int i) a = select_outer (int N) (int (Suc i)) b"
      using r True Suc.prems aset_nat [of r "a[i := a ! r]"]
      by (subst select_outer.simps) (simp add: b_def add.commute)
    have bi: "b ! i = a ! r" using r True Suc.prems by (auto simp: b_def nth_list_update)
    have "b ! k \<le> b ! l" if k: "k < Suc i" "k \<le> l" "l < N" for k l
    proof (cases "l < i")
      case True
      then show ?thesis using k Suc.prems perm_on_outside [OF pb] by simp
    next
      case False
      show ?thesis
      proof (cases "k = i")
        case True
        show ?thesis unfolding True bi
          by (rule perm_on_all_bounds [OF pb]) (use r k True Suc.prems in auto)
      next
        case neq: False
        have "b ! k = a ! k" using k neq perm_on_outside [OF pb, of k] Suc.prems by simp
        moreover have "a ! k \<le> b ! l"
          by (rule perm_on_all_bounds [OF pb]) (use k neq False Suc.prems in auto)
        ultimately show ?thesis by simp
      qed
    qed
    then have "\<exists>a'. select_outer (int N) (int (Suc i)) b = Some a' \<and> perm_on 0 N b a'
        \<and> (\<forall>k l. k \<le> l \<and> l < N \<longrightarrow> a' ! k \<le> a' ! l)"
      by (intro Suc.hyps(1)) (use Suc.hyps(2) Suc.prems True pb in \<open>auto simp: perm_on_length\<close>)
    then show ?thesis
      using step perm_on_wider [OF pb, of 0 N] perm_on_trans [of 0 N a b] by auto
  qed
qed

lemma select_sort_sorts: "length a = N \<Longrightarrow> select_sort (int N) a = Some (sort a)"
  using select_outer_correct [of a N 0] perm_on_sort [of 0 N a] by (auto simp: select_sort_def)

section \<open>Quick sort\<close>

lemma scan_down_correct:
  assumes "i \<le> j" "j < length a"
  shows "\<exists>r. scan_down a pivot (int i) (int j) = Some (int r) \<and> i \<le> r \<and> r \<le> j
    \<and> (\<forall>k. r < k \<and> k \<le> j \<longrightarrow> pivot < a ! k) \<and> (i < r \<longrightarrow> a ! r \<le> pivot)"
  using assms
proof (induction "j - i" arbitrary: j)
  case 0
  then show ?case by (subst scan_down.simps) auto
next
  case (Suc n)
  show ?case
  proof (cases "pivot < a ! j")
    case False
    then show ?thesis using Suc.prems by (subst scan_down.simps) (auto intro!: exI [of _ j])
  next
    case True
    obtain k where k: "j = Suc k" using Suc.hyps(2) by (cases j) auto
    have ij: "i < j" "n = k - i" "i \<le> k" using Suc.hyps(2) k by auto
    then have "scan_down a pivot (int i) (int j) = scan_down a pivot (int i) (int k)"
      using True Suc.prems k by (subst scan_down.simps) simp
    moreover obtain r where "scan_down a pivot (int i) (int k) = Some (int r)" "i \<le> r" "r \<le> k"
        "\<forall>l. r < l \<and> l \<le> k \<longrightarrow> pivot < a ! l" "i < r \<longrightarrow> a ! r \<le> pivot"
      using Suc.hyps(1) [of k] ij Suc.prems(2) k by auto
    ultimately show ?thesis using True k by (auto simp: le_Suc_eq)
  qed
qed

lemma scan_up_correct:
  assumes "i \<le> j" "j < length a"
  shows "\<exists>r. scan_up a pivot (int i) (int j) = Some (int r) \<and> i \<le> r \<and> r \<le> j
    \<and> (\<forall>k. i \<le> k \<and> k < r \<longrightarrow> a ! k \<le> pivot) \<and> (r < j \<longrightarrow> pivot < a ! r)"
  using assms
proof (induction "j - i" arbitrary: i)
  case 0
  then show ?case by (subst scan_up.simps) auto
next
  case (Suc n)
  show ?case
  proof (cases "a ! i \<le> pivot")
    case False
    then show ?thesis using Suc.prems Suc.hyps(2) by (subst scan_up.simps) (auto intro!: exI [of _ i])
  next
    case True
    have ij: "i < j" "n = j - Suc i" using Suc.hyps(2) by auto
    then have "scan_up a pivot (int i) (int j) = scan_up a pivot (int (Suc i)) (int j)"
      using True Suc.prems by (subst scan_up.simps) (simp add: add.commute)
    moreover obtain r where "scan_up a pivot (int (Suc i)) (int j) = Some (int r)" "Suc i \<le> r" "r \<le> j"
        "\<forall>l. Suc i \<le> l \<and> l < r \<longrightarrow> a ! l \<le> pivot" "r < j \<longrightarrow> pivot < a ! r"
      using Suc.hyps(1) [of "Suc i"] ij Suc.prems(2) by auto
    moreover from this have "a ! k \<le> pivot" if "i \<le> k" "k < r" for k
      using True that by (cases "k = i") auto
    ultimately show ?thesis by (intro exI [of _ r]) auto
  qed
qed

text \<open>
  The loop moves a hole: at the head of the loop the element at \<open>i\<close> is a duplicate, and putting
  the pivot there gives back the elements of the original array.
\<close>

definition hole_inv :: "int list \<Rightarrow> nat \<Rightarrow> nat \<Rightarrow> int \<Rightarrow> nat \<Rightarrow> nat \<Rightarrow> int list \<Rightarrow> bool" where
  "hole_inv a0 p q pivot i j a \<longleftrightarrow> p \<le> i \<and> i \<le> j \<and> j \<le> q \<and> q < length a0
    \<and> perm_on p (Suc q) a0 (a[i := pivot])
    \<and> (\<forall>k. p \<le> k \<and> k < i \<longrightarrow> a ! k \<le> pivot) \<and> (\<forall>k. j < k \<and> k \<le> q \<longrightarrow> pivot < a ! k)"

lemma hole_moves:
  assumes "i < length a" "j < length a"
  shows "(a[i := a ! j])[j := v] = (a[i := v])[i := a[i := v] ! j, j := a[i := v] ! i]"
  using assms by (cases "i = j") (simp_all add: list_update_swap)

lemma perm_on_hole:
  assumes "perm_on l h a0 (a[i := v])" "l \<le> i" "i < h" "l \<le> j" "j < h" "i < length a" "j < length a"
  shows "perm_on l h a0 ((a[i := a ! j])[j := v])"
proof -
  have "perm_on l h (a[i := v]) ((a[i := v])[i := a[i := v] ! j, j := a[i := v] ! i])"
    by (rule perm_on_swap) (use assms in simp_all)
  then show ?thesis unfolding hole_moves [OF assms(6,7)] by (rule perm_on_trans [OF assms(1)])
qed

lemma partition_round:
  assumes inv: "hole_inv a0 p q pivot i j a" and ij: "i < j"
  obtains i' j' a' where "partition_loop pivot (int i) (int j) a = partition_loop pivot (int i') (int j') a'"
    "hole_inv a0 p q pivot i' j' a'" "j' - i' < j - i"
proof -
  have len: "length a = length a0" using inv by (auto simp: hole_inv_def dest: perm_on_length)
  have b: "p \<le> i" "i \<le> j" "j \<le> q" "q < length a" using inv len by (simp_all add: hole_inv_def)
  obtain r where r: "scan_down a pivot (int i) (int j) = Some (int r)" "i \<le> r" "r \<le> j"
      "\<And>k. r < k \<Longrightarrow> k \<le> j \<Longrightarrow> pivot < a ! k" "i < r \<Longrightarrow> a ! r \<le> pivot"
    using scan_down_correct [of i j a pivot] b by auto
  define c where "c = a[i := a ! r]"
  obtain s where s: "scan_up c pivot (int i) (int r) = Some (int s)" "i \<le> s" "s \<le> r"
      "\<And>k. i \<le> k \<Longrightarrow> k < s \<Longrightarrow> c ! k \<le> pivot" "s < r \<Longrightarrow> pivot < c ! s"
    using scan_up_correct [of i r c pivot] b r by (auto simp: c_def)
  have lc: "length c = length a" by (simp add: c_def)
  define d where "d = c[r := c ! s]"
  have "partition_loop pivot (int i) (int j) a = partition_loop pivot (int s) (int r) d"
    using ij r(1-3) s(1-3) b lc by (subst partition_loop.simps) (simp add: c_def [symmetric] d_def)
  moreover have "hole_inv a0 p q pivot s r d"
  proof -
    have "perm_on p (Suc q) a0 (c[r := pivot])"
      unfolding c_def by (rule perm_on_hole) (use inv b r in \<open>auto simp: hole_inv_def\<close>)
    then have "perm_on p (Suc q) a0 (d[s := pivot])"
      unfolding d_def by (rule perm_on_hole) (use b r s in \<open>auto simp: c_def\<close>)
    moreover have "d ! k \<le> pivot" if "p \<le> k" "k < s" for k
    proof (cases "k < i")
      case True
      then show ?thesis using inv that r s by (simp add: hole_inv_def c_def d_def)
    next
      case False
      then show ?thesis using s(4) [of k] that s by (simp add: d_def)
    qed
    moreover have "pivot < d ! k" if "r < k" "k \<le> q" for k
    proof (cases "j < k")
      case True
      then show ?thesis using inv that r s by (simp add: hole_inv_def c_def d_def)
    next
      case False
      then show ?thesis using r(4) [of k] that r s by (simp add: c_def d_def)
    qed
    ultimately show ?thesis using b r s len by (simp add: hole_inv_def)
  qed
  moreover have "r - s < j - i"
  proof (cases "i < r")
    case True
    then have "c ! i \<le> pivot" using r(5) b by (simp add: c_def)
    then have "s \<noteq> i" using s(5) True by auto
    then show ?thesis using True s r by simp
  next
    case False
    then show ?thesis using s r ij by simp
  qed
  ultimately show thesis by (rule that)
qed

lemma partition_loop_correct:
  assumes "hole_inv a0 p q pivot i j a"
  shows "\<exists>m a'. partition_loop pivot (int i) (int j) a = Some (int m, a') \<and> hole_inv a0 p q pivot m m a'"
  using assms
proof (induction "j - i" arbitrary: i j a rule: less_induct)
  case less
  show ?case
  proof (cases "i < j")
    case True
    obtain i' j' a' where "partition_loop pivot (int i) (int j) a = partition_loop pivot (int i') (int j') a'"
        "hole_inv a0 p q pivot i' j' a'" "j' - i' < j - i"
      using partition_round [OF less.prems True] .
    then show ?thesis using less.hyps [of j' i' a'] by auto
  next
    case False
    then have "j = i" using less.prems by (simp add: hole_inv_def)
    then show ?thesis using less.prems by (subst partition_loop.simps) auto
  qed
qed

lemma partition_array_correct:
  assumes "p \<le> q" "q < length a"
  obtains m a' where "partition_array a (int p) (int q) = Some (int m, a')" "p \<le> m" "m \<le> q"
    "perm_on p (Suc q) a a'" "\<And>k. p \<le> k \<Longrightarrow> k < m \<Longrightarrow> a' ! k \<le> a' ! m" "\<And>k. m < k \<Longrightarrow> k \<le> q \<Longrightarrow> a' ! m < a' ! k"
proof -
  have "hole_inv a p q (a ! p) p q a" using assms by (simp add: hole_inv_def)
  then obtain m b where loop: "partition_loop (a ! p) (int p) (int q) a = Some (int m, b)"
      and inv: "hole_inv a p q (a ! p) m m b"
    using partition_loop_correct by blast
  have len: "length b = length a" using inv by (auto simp: hole_inv_def dest: perm_on_length)
  show thesis
    by (rule that [of m "b[m := a ! p]"])
      (use assms inv loop len in \<open>auto simp: partition_array_def hole_inv_def\<close>)
qed

lemma quick_sort_segment:
  assumes "0 \<le> p" "q < int (length a)"
  shows "\<exists>a'. quick_sort a p q = Some a' \<and> perm_on (nat p) (nat (q + 1)) a a'
    \<and> (\<forall>i k. nat p \<le> i \<and> i \<le> k \<and> int k \<le> q \<longrightarrow> a' ! i \<le> a' ! k)"
  using assms
proof (induction "nat (q - p + 1)" arbitrary: a p q rule: less_induct)
  case less
  show ?case
  proof (cases "p < q")
    case False
    then have "i = k" if "nat p \<le> i" "i \<le> k" "int k \<le> q" for i k using that less.prems by linarith
    then show ?thesis using False by (subst quick_sort.simps) auto
  next
    case True
    define P Q where "P = nat p" and "Q = nat q"
    have PQ: "p = int P" "q = int Q" "P < Q" "Q < length a" using True less.prems by (simp_all add: P_def Q_def)
    obtain m b where m: "partition_array a p q = Some (int m, b)" "P \<le> m" "m \<le> Q" "perm_on P (Suc Q) a b"
        "\<And>k. P \<le> k \<Longrightarrow> k < m \<Longrightarrow> b ! k \<le> b ! m" "\<And>k. m < k \<Longrightarrow> k \<le> Q \<Longrightarrow> b ! m < b ! k"
      using partition_array_correct [of P Q a] PQ by auto
    have lb: "length b = length a" using perm_on_length [OF m(4)] .
    have "\<exists>c. quick_sort b p (int m - 1) = Some c \<and> perm_on (nat p) (nat (int m - 1 + 1)) b c
        \<and> (\<forall>i k. nat p \<le> i \<and> i \<le> k \<and> int k \<le> int m - 1 \<longrightarrow> c ! i \<le> c ! k)"
      by (rule less.hyps) (use m(2,3) PQ lb in auto)
    then obtain c where c: "quick_sort b p (int m - 1) = Some c" "perm_on P m b c"
        "\<And>i k. P \<le> i \<Longrightarrow> i \<le> k \<Longrightarrow> k < m \<Longrightarrow> c ! i \<le> c ! k"
      unfolding P_def by auto
    have lc: "length c = length a" using perm_on_length [OF c(2)] lb by simp
    have "\<exists>d. quick_sort c (int m + 1) q = Some d \<and> perm_on (nat (int m + 1)) (nat (q + 1)) c d
        \<and> (\<forall>i k. nat (int m + 1) \<le> i \<and> i \<le> k \<and> int k \<le> q \<longrightarrow> d ! i \<le> d ! k)"
      by (rule less.hyps) (use m(2,3) PQ lc in auto)
    moreover have "nat (int m + 1) = Suc m" "nat (q + 1) = Suc Q" using PQ by simp_all
    ultimately obtain d where d: "quick_sort c (int m + 1) q = Some d" "perm_on (Suc m) (Suc Q) c d"
        "\<And>i k. m < i \<Longrightarrow> i \<le> k \<Longrightarrow> k \<le> Q \<Longrightarrow> d ! i \<le> d ! k"
      using PQ by (auto simp: Suc_le_eq)
    have "quick_sort a p q = Some d" using True m(1) c(1) d(1) by (subst quick_sort.simps) simp
    moreover have "perm_on P (Suc Q) a d"
      using m(4) perm_on_wider [OF c(2), of P "Suc Q"] perm_on_wider [OF d(2), of P "Suc Q"] m(2,3)
      by (auto intro: perm_on_trans)
    moreover have "d ! i \<le> d ! k" if "P \<le> i" "i \<le> k" "k \<le> Q" for i k
    proof -
      have dc: "d ! x = c ! x" if "x \<le> m" for x
        using that perm_on_outside [OF d(2), of x] lc m(3) PQ by simp
      have cb: "c ! x = b ! x" if "m \<le> x" "x \<le> Q" for x
        using that perm_on_outside [OF c(2), of x] lb PQ by simp
      have low: "d ! x \<le> b ! m" if "P \<le> x" "x \<le> m" for x
      proof (cases "x = m")
        case False
        have "c ! x \<le> b ! m" by (rule perm_on_all_bounds [OF c(2)]) (use m that False lb PQ in auto)
        then show ?thesis using dc that by simp
      qed (use dc cb m(3) in simp)
      have high: "b ! m \<le> d ! x" if "m < x" "x \<le> Q" for x
        by (rule perm_on_all_bounds [OF d(2)]) (use m that cb lc PQ in \<open>auto simp: less_imp_le Suc_le_eq\<close>)
      consider "m < i" | "i \<le> m" "m < k" | "k < m" | "k = m" using \<open>i \<le> k\<close> by linarith
      then show ?thesis
      proof cases
        case 1
        then show ?thesis using that d(3) by simp
      next
        case 2
        then show ?thesis using order_trans [OF low [of i] high [of k]] that by simp
      next
        case 3
        then show ?thesis using that c(3) [of i k] dc [of i] dc [of k] by simp
      next
        case 4
        then show ?thesis using low [of i] that dc [of m] cb [of m] m(3) by simp
      qed
    qed
    moreover have "nat p = P" "nat (q + 1) = Suc Q" "\<And>k. int k \<le> q \<longleftrightarrow> k \<le> Q" using PQ by simp_all
    ultimately show ?thesis by (intro exI [of _ d]) simp
  qed
qed

lemma quick_sort_sorts: "length a = N \<Longrightarrow> quick_sort a 0 (int N - 1) = Some (sort a)"
  using quick_sort_segment [of 0 "int N - 1" a] perm_on_sort [of 0 N a] by auto

section \<open>Properties\<close>

text \<open>
  C28: bubble sort, selection sort and quick sort, as written in the three test programs, sort every
  array of every length: each returns without leaving the array, and the result is the sorted
  permutation.
\<close>
theorem sorts_correct:
  assumes "length a = N"
  shows "bubble_sort (int N) a = Some (sort a) \<and> select_sort (int N) a = Some (sort a)
    \<and> quick_sort a 0 (int N - 1) = Some (sort a)"
  using bubble_sort_sorts [OF assms] select_sort_sorts [OF assms] quick_sort_sorts [OF assms] by simp

theorem sorts_correct_witness:
  "bubble_sort 3 [5, -2, 5] = Some [-2, 5, 5] \<and> select_sort 3 [5, -2, 5] = Some [-2, 5, 5]
    \<and> quick_sort [5, -2, 5] 0 2 = Some [-2, 5, 5]"
  using sorts_correct [of "[5, -2, 5]" 3] by simp

lemma sort_main_passes:
  assumes "\<And>a. length a = 20 \<Longrightarrow> sort_fun 20 a = Some (sort a)"
  shows "sort_main sort_fun = Some 0"
proof -
  have s: "sort array_init = map int [0..<20]" "sort (map int [0..<20]) = map int [0..<20]"
    by code_simp+
  have "check_ascending 20 0 (map int [0..<20]) rest = rest" for rest
  proof -
    have "check_ascending 20 (int i) (map int [0..<20]) rest = rest" if "i \<le> 20" for i
      using that
    proof (induction "20 - i" arbitrary: i)
      case 0
      then show ?case by (subst check_ascending.simps) (simp add: check_def)
    next
      case (Suc n)
      then show ?case using aget_nat [of i "map int [0..<20]"] Suc.hyps(1) [of "Suc i"]
        by (subst check_ascending.simps) (simp add: check_def add.commute)
    qed
    from this [of 0] show ?thesis by simp
  qed
  then show ?thesis using assms [of array_init] assms [of "map int [0..<20]"] s
    by (simp add: sort_main_def array_init_def)
qed

lemma sort_programs_pass:
  "bubble_sort_main = Some 0" "select_sort_main = Some 0" "quick_sort_main = Some 0"
  unfolding bubble_sort_main_def select_sort_main_def quick_sort_main_def
  using bubble_sort_sorts [where N = 20] select_sort_sorts [where N = 20] quick_sort_sorts [where N = 20]
  by (auto intro!: sort_main_passes)

end
