(* ===== verification/Tests_Number.thy ===== *)
theory Tests_Number
  imports Tests_Sort "HOL-Library.Signed_Division"
begin

text \<open>
  The programs among the processor tests that compute with integers:
  \<open>software-test/cpu-tests/tests\<close>, the files \<open>fact.c\<close>, \<open>fib.c\<close>, \<open>pascal.c\<close>, \<open>goldbach.c\<close>, \<open>prime.c\<close>,
  \<open>mersenne.c\<close>, \<open>leap-year.c\<close>, \<open>shuixianhua.c\<close>, \<open>wanshu.c\<close>, \<open>sum.c\<close>, \<open>recursion.c\<close>, \<open>div.c\<close>,
  \<open>matrix-mul.c\<close>, \<open>if-else.c\<close> and \<open>switch.c\<close>.

  An \<open>int\<close> is an integer; \<open>i32\<close> of the prelude checks that a result fits in 32 bits and is \<open>None\<close> otherwise, since
  signed overflow is undefined.  The operators \<open>/\<close> and \<open>%\<close> are \<open>sdiv\<close> and \<open>smod\<close>, which truncate
  towards zero.  A counting loop with checks in its body is \<open>for_to\<close>: the body gets the state of the
  loop and what follows it, so that a failing \<open>check\<close> ends the program at once.
\<close>

section \<open>Model\<close>

function for_to :: "int \<Rightarrow> int \<Rightarrow> int \<Rightarrow> (int \<Rightarrow> 's \<Rightarrow> ('s \<Rightarrow> int option) \<Rightarrow> int option)
    \<Rightarrow> 's \<Rightarrow> (int \<Rightarrow> 's \<Rightarrow> int option) \<Rightarrow> int option" where
  "for_to step i n body s k =
    (if i < n \<and> 0 < step then body i s (\<lambda>s. for_to step (i + step) n body s k) else k i s)"
  by pat_completeness auto
termination by (relation "measure (\<lambda>(step, i, n, body, s, k). nat (n - i))") auto

subsection \<open>fact.c\<close>

definition fact_ans :: "int list" where
  "fact_ans = [1, 1, 2, 6, 24, 120, 720, 5040, 40320, 362880, 3628800, 39916800, 479001600]"

partial_function (option) fact_c :: "int \<Rightarrow> int option" where
  "fact_c n =
    (if n = 0 \<or> n = 1 then Some 1
     else do {
       m \<leftarrow> i32 (n - 1);
       x \<leftarrow> fact_c m;
       i32 (x * n)
     })"

definition fact_main :: "int option" where
  "fact_main = for_to 1 0 13 (\<lambda>i f k. do {
     x \<leftarrow> fact_c i;
     f \<leftarrow> aset f i x;
     y \<leftarrow> aget f i;
     z \<leftarrow> aget fact_ans i;
     check (y = z) (k f)
   }) (replicate 15 0) (\<lambda>i f. Some 0)"

subsection \<open>fib.c\<close>

definition fib_ans :: "int list" where
  "fib_ans = [1, 1, 2, 3, 5, 8, 13, 21, 34, 55, 89, 144, 233, 377, 610, 987, 1597, 2584, 4181, 6765,
    10946, 17711, 28657, 46368, 75025, 121393, 196418, 317811, 514229, 832040, 1346269, 2178309,
    3524578, 5702887, 9227465, 14930352, 24157817, 39088169, 63245986, 102334155]"

definition fib_main :: "int option" where
  "fib_main = for_to 1 2 40 (\<lambda>i fib k. do {
     x \<leftarrow> aget fib (i - 1);
     y \<leftarrow> aget fib (i - 2);
     z \<leftarrow> i32 (x + y);
     fib \<leftarrow> aset fib i z;
     u \<leftarrow> aget fib i;
     v \<leftarrow> aget fib_ans i;
     check (u = v) (k fib)
   }) ([1, 1] @ replicate 38 0) (\<lambda>i fib. check (i = 40) (Some 0))"

subsection \<open>pascal.c\<close>

definition pascal_ans :: "int list" where
  "pascal_ans = [1, 30, 435, 4060, 27405, 142506, 593775, 2035800, 5852925, 14307150, 30045015,
    54627300, 86493225, 119759850, 145422675, 155117520, 145422675, 119759850, 86493225, 54627300,
    30045015, 14307150, 5852925, 2035800, 593775, 142506, 27405, 4060, 435, 30, 1]"

function pascal_inner :: "int \<Rightarrow> int \<Rightarrow> int \<Rightarrow> int list \<Rightarrow> int list option" where
  "pascal_inner i j t0 a =
    (if j < i then do {
       t1 \<leftarrow> aget a j;
       x \<leftarrow> i32 (t0 + t1);
       a \<leftarrow> aset a j x;
       pascal_inner i (j + 1) t1 a
     } else Some a)"
  by pat_completeness auto
termination by (relation "measure (\<lambda>(i, j, t0, a). nat (i - j))") auto

function pascal_outer :: "int \<Rightarrow> int \<Rightarrow> int list \<Rightarrow> int list option" where
  "pascal_outer N i a =
    (if i < N then do {
       a \<leftarrow> pascal_inner i 1 1 a;
       a \<leftarrow> aset a i 1;
       pascal_outer N (i + 1) a
     } else Some a)"
  by pat_completeness auto
termination by (relation "measure (\<lambda>(N, i, a). nat (N - i))") auto

definition pascal_main :: "int option" where
  "pascal_main = do {
     a \<leftarrow> aset (replicate 31 0) 1 1;
     a \<leftarrow> aset a 0 1;
     a \<leftarrow> pascal_outer 31 2 a;
     for_to 1 0 31 (\<lambda>j _ k. do {
       x \<leftarrow> aget a j;
       y \<leftarrow> aget pascal_ans j;
       check (x = y) (k ())
     }) () (\<lambda>j _. check (j = 31) (Some 0))
   }"

subsection \<open>goldbach.c\<close>

function is_prime_loop :: "int \<Rightarrow> int \<Rightarrow> int" where
  "is_prime_loop n i =
    (if i < n then if n smod i = 0 then 0 else is_prime_loop n (i + 1) else 1)"
  by pat_completeness auto
termination by (relation "measure (\<lambda>(n, i). nat (n - i))") auto

definition is_prime :: "int \<Rightarrow> int" where
  "is_prime n = (if n < 2 then 0 else is_prime_loop n 2)"

function goldbach_loop :: "int \<Rightarrow> int \<Rightarrow> int" where
  "goldbach_loop n i =
    (if i < n then
       if is_prime i \<noteq> 0 \<and> is_prime (n - i) \<noteq> 0 then 1 else goldbach_loop n (i + 1)
     else 0)"
  by pat_completeness auto
termination by (relation "measure (\<lambda>(n, i). nat (n - i))") auto

definition goldbach :: "int \<Rightarrow> int" where
  "goldbach n = goldbach_loop n 2"

definition goldbach_main :: "int option" where
  "goldbach_main = for_to 2 4 31 (\<lambda>n _ k. check (goldbach n = 1) (k ())) () (\<lambda>_ _. Some 0)"

subsection \<open>prime.c\<close>

definition prime_ans :: "int list" where
  "prime_ans = [101, 103, 107, 109, 113, 127, 131, 137, 139, 149]"

text \<open>The inner loop gives \<open>prime\<close> and the value of \<open>i\<close> it leaves with.\<close>

function prime_inner :: "int \<Rightarrow> int \<Rightarrow> bool \<times> int" where
  "prime_inner m i =
    (if i < m then if m smod i = 0 then (False, i) else prime_inner m (i + 1) else (True, i))"
  by pat_completeness auto
termination by (relation "measure (\<lambda>(m, i). nat (m - i))") auto

definition prime_main :: "int option" where
  "prime_main = for_to 2 101 151 (\<lambda>m n k.
     case prime_inner m 2 of (prime, i) \<Rightarrow>
       if prime then do {
         x \<leftarrow> aget prime_ans n;
         check (i = x) (k (n + 1))
       } else k n) 0 (\<lambda>_ n. check (n = 10) (Some 0))"

subsection \<open>mersenne.c\<close>

partial_function (option) isPrime_loop :: "int \<Rightarrow> int \<Rightarrow> int option" where
  "isPrime_loop n d = do {
     sq \<leftarrow> i32 (d * d);
     if sq \<le> n then
       if n smod d = 0 then Some 0
       else do {
         d \<leftarrow> i32 (d + 2);
         if n smod d = 0 then Some 0
         else do {
           d \<leftarrow> i32 (d + 4);
           isPrime_loop n d
         }
       }
     else Some 1
   }"

definition isPrime :: "int \<Rightarrow> int option" where
  "isPrime n =
    (if n smod 2 = 0 then Some (if n = 2 then 1 else 0)
     else if n smod 3 = 0 then Some (if n = 3 then 1 else 0)
     else isPrime_loop n 5)"

text \<open>The shifts of \<open>r\<close> and \<open>p\<close> move bits through the sign bit; they are shifts of words, as the
  compiler defines them.\<close>

partial_function (option) shift_up :: "u32 \<Rightarrow> u32 option" where
  "shift_up r = (if 0 < sint r then shift_up (push_bit 1 r) else Some r)"

partial_function (option) mexp_loop :: "int \<Rightarrow> u32 \<Rightarrow> int \<Rightarrow> int option" where
  "mexp_loop d p i =
    (if p = 0 then Some i
     else do {
       let i = (i * i) smod d;
       i \<leftarrow> (if sint p < 0 then i32 (i * 2) else Some i);
       let i = (if i > d then i - d else i);
       mexp_loop d (push_bit 1 p) i
     })"

partial_function (option) factor_loop :: "int \<Rightarrow> u32 \<Rightarrow> int \<Rightarrow> int option" where
  "factor_loop q r d = do {
     i \<leftarrow> mexp_loop d r 1;
     if i \<noteq> 1 then do {
       d \<leftarrow> i32 (d + 2 * q);
       factor_loop q r d
     } else Some d
   }"

definition mersenne_main :: "int option" where
  "mersenne_main = do {
     let q = 929;
     ok \<leftarrow> isPrime q;
     if ok = 0 then Some 1
     else do {
       r \<leftarrow> shift_up (word_of_int q);
       d \<leftarrow> factor_loop q r (2 * q + 1);
       check (d = 13007) (Some 0)
     }
   }"

subsection \<open>leap-year.c\<close>

definition is_leap_year :: "int \<Rightarrow> int" where
  "is_leap_year n = (if (n smod 4 = 0 \<and> n smod 100 \<noteq> 0) \<or> n smod 400 = 0 then 1 else 0)"

definition leap_ans :: "int list" where
  "leap_ans = [0, 0, 1, 0, 0, 0, 1, 0, 0, 0, 0, 0, 0, 0, 1, 0, 0, 0, 1, 0, 0, 0, 1, 0, 0, 0, 1, 0, 0,
    0, 1, 0, 0, 0, 1, 0, 0, 0, 1, 0, 0, 0, 1, 0, 0, 0, 1, 0, 0, 0, 1, 0, 0, 0, 1, 0, 0, 0, 1, 0, 0, 0,
    1, 0, 0, 0, 1, 0, 0, 0, 1, 0, 0, 0, 1, 0, 0, 0, 1, 0, 0, 0, 1, 0, 0, 0, 1, 0, 0, 0, 1, 0, 0, 0, 1,
    0, 0, 0, 1, 0, 0, 0, 1, 0, 0, 0, 1, 0, 0, 0, 1, 0, 0, 0, 1, 0, 0, 0, 1, 0, 0, 0, 1, 0, 0]"

definition leap_year_main :: "int option" where
  "leap_year_main = for_to 1 0 125 (\<lambda>i _ k. do {
     x \<leftarrow> aget leap_ans i;
     check (is_leap_year (i + 1890) = x) (k ())
   }) () (\<lambda>_ _. Some 0)"

subsection \<open>shuixianhua.c\<close>

definition shui_ans :: "int list" where
  "shui_ans = [153, 370, 371, 407]"

definition cube :: "int \<Rightarrow> int option" where
  "cube n = do { s \<leftarrow> i32 (n * n); i32 (s * n) }"

definition shuixianhua_main :: "int option" where
  "shuixianhua_main = for_to 1 100 500 (\<lambda>n k cont. do {
     let n2 = n sdiv 100;
     let n1 = (n sdiv 10) smod 10;
     let n0 = n smod 10;
     c2 \<leftarrow> cube n2;
     c1 \<leftarrow> cube n1;
     c0 \<leftarrow> cube n0;
     s \<leftarrow> i32 (c2 + c1);
     s \<leftarrow> i32 (s + c0);
     if n = s then do {
       x \<leftarrow> aget shui_ans k;
       check (n = x) (cont (k + 1))
     } else cont k
   }) 0 (\<lambda>_ k. check (k = 4) (Some 0))"

subsection \<open>wanshu.c\<close>

definition wanshu_ans :: "int list" where
  "wanshu_ans = [6, 28]"

function divisor_sum :: "int \<Rightarrow> int \<Rightarrow> int \<Rightarrow> int option" where
  "divisor_sum n i acc =
    (if i < n then
       if n smod i = 0 then do {
         acc \<leftarrow> i32 (acc + i);
         divisor_sum n (i + 1) acc
       } else divisor_sum n (i + 1) acc
     else Some acc)"
  by pat_completeness auto
termination by (relation "measure (\<lambda>(n, i, acc). nat (n - i))") auto

definition wanshu_main :: "int option" where
  "wanshu_main = for_to 1 1 30 (\<lambda>n k cont. do {
     acc \<leftarrow> divisor_sum n 1 0;
     if acc = n then do {
       x \<leftarrow> aget wanshu_ans k;
       check (n = x) (cont (k + 1))
     } else cont k
   }) 0 (\<lambda>_ k. check (k = 2) (Some 0))"

subsection \<open>sum.c\<close>

function sum_loop :: "int \<Rightarrow> int \<Rightarrow> int option" where
  "sum_loop i acc =
    (if i \<le> 100 then do { acc \<leftarrow> i32 (acc + i); sum_loop (i + 1) acc } else Some acc)"
  by pat_completeness auto
termination by (relation "measure (\<lambda>(i, acc). nat (101 - i))") auto

definition sum_main :: "int option" where
  "sum_main = do { acc \<leftarrow> sum_loop 1 0; check (acc = 5050) (Some 0) }"

subsection \<open>recursion.c\<close>

text \<open>The globals \<open>rec\<close> and \<open>lvl\<close>; each function first updates both.\<close>

record rec_state =
  rec_count :: int
  rec_lvl :: int

definition rec_enter :: "int \<Rightarrow> rec_state \<Rightarrow> rec_state" where
  "rec_enter l s = s\<lparr>rec_lvl := (if l > rec_lvl s then l else rec_lvl s), rec_count := rec_count s + 1\<rparr>"

function f0 :: "int \<Rightarrow> int \<Rightarrow> rec_state \<Rightarrow> (int \<times> rec_state) option"
  and f1 :: "int \<Rightarrow> int \<Rightarrow> rec_state \<Rightarrow> (int \<times> rec_state) option"
  and f2 :: "int \<Rightarrow> int \<Rightarrow> rec_state \<Rightarrow> (int \<times> rec_state) option"
  and f3 :: "int \<Rightarrow> int \<Rightarrow> rec_state \<Rightarrow> (int \<times> rec_state) option" where
  "f0 n l s = (let s = rec_enter l s in if n \<le> 0 then Some (1, s) else f3 (n sdiv 3) (l + 1) s)"
| "f1 n l s = (let s = rec_enter l s in if n \<le> 0 then Some (1, s) else f0 (n - 1) (l + 1) s)"
| "f2 n l s = (let s = rec_enter l s in
    if n \<le> 0 then Some (1, s)
    else do { (x, s) \<leftarrow> f1 n (l + 1) s; y \<leftarrow> i32 (x + 9); Some (y, s) })"
| "f3 n l s = (let s = rec_enter l s in
    if n \<le> 0 then Some (1, s)
    else do {
      (x, s) \<leftarrow> f2 (n sdiv 2) (l + 1) s;
      (y, s) \<leftarrow> f2 (n sdiv 2) (l + 1) s;
      x \<leftarrow> i32 (x * 3);
      y \<leftarrow> i32 (y * 2);
      z \<leftarrow> i32 (x + y);
      Some (z, s)
    })"
  by pat_completeness auto
termination
  by (relation "measure (\<lambda>x. case x of Inl (Inl (n, _)) \<Rightarrow> 3 * nat n | Inl (Inr (n, _)) \<Rightarrow> 3 * nat n
      | Inr (Inl (n, _)) \<Rightarrow> 3 * nat n + 1 | Inr (Inr (n, _)) \<Rightarrow> 3 * nat n)")
    (auto simp: signed_divide_int_def nat_less_iff)

definition rec_ans :: "int list" where
  "rec_ans = [38270, 218, 20]"

definition recursion_main :: "int option" where
  "recursion_main = do {
     (x, s) \<leftarrow> f0 14371 0 \<lparr>rec_count = 0, rec_lvl = 0\<rparr>;
     a0 \<leftarrow> aget rec_ans 0;
     a1 \<leftarrow> aget rec_ans 1;
     a2 \<leftarrow> aget rec_ans 2;
     check (x = a0) (check (rec_count s = a1) (check (rec_lvl s = a2) (Some 0)))
   }"

subsection \<open>div.c\<close>

function mul_loop :: "int \<Rightarrow> int \<Rightarrow> int option" where
  "mul_loop j x = (if j < 11 then do { x \<leftarrow> i32 (x * j); mul_loop (j + 1) x } else Some x)"
  by pat_completeness auto
termination by (relation "measure (\<lambda>(j, x). nat (11 - j))") auto

function div_loop :: "int \<Rightarrow> int \<Rightarrow> int" where
  "div_loop j x = (if j < 11 then div_loop (j + 1) (x sdiv j) else x)"
  by pat_completeness auto
termination by (relation "measure (\<lambda>(j, x). nat (11 - j))") auto

definition div_main :: "int option" where
  "div_main =
    for_to 1 0 10 (\<lambda>i a k. do { a \<leftarrow> aset a i i; k a }) (replicate 10 0) (\<lambda>_ a.
    for_to 1 0 10 (\<lambda>i a k. do { x \<leftarrow> aget a i; x \<leftarrow> mul_loop 1 x; a \<leftarrow> aset a i x; k a }) a (\<lambda>_ a.
    for_to 1 0 10 (\<lambda>i a k. do { x \<leftarrow> aget a i; a \<leftarrow> aset a i (div_loop 1 x); k a }) a (\<lambda>_ a.
    for_to 1 0 10 (\<lambda>i _ k. do { x \<leftarrow> aget a i; check (x = i) (k ()) }) () (\<lambda>_ _. Some 0))))"

subsection \<open>matrix-mul.c\<close>

definition mm_a :: "int list list" where
  "mm_a = [
    [31, -73, -67, -28, 87, -17, -15, -35, -53, -54],
    [52, 36, 9, -91, -27, -78, 42, 82, 19, -6],
    [41, -56, 31, 32, -52, 74, 28, 20, 55, -72],
    [-59, 2, -79, -8, 44, 55, -83, -95, -45, 50],
    [-95, 61, -63, 62, -16, 52, 40, 92, -32, -26],
    [-99, 52, 96, 63, -75, -74, -82, 82, -95, 42],
    [11, -22, 27, -27, -27, -76, -71, 58, -40, -65],
    [91, -53, -67, 72, 36, -77, -3, 93, -24, 97],
    [-52, -11, -77, -93, -92, -24, 70, 18, 56, 88],
    [-43, -41, -26, 11, -84, -14, -41, 83, 27, -11]]"

definition mm_b :: "int list list" where
  "mm_b = [
    [-48, -70, -40, -82, -74, -63, -59, -72, -100, -72],
    [5, -84, 28, 56, 60, -33, -42, -50, -83, -83],
    [-5, 5, 48, 75, -78, -9, 9, 2, 88, 70],
    [69, 23, 66, 66, -11, 50, 67, 18, -58, 76],
    [30, 45, 32, 25, -73, 57, -67, -14, 53, -33],
    [98, -86, -63, 80, -45, -88, 80, -64, 58, -84],
    [-55, -39, -13, -27, -37, 8, -96, 84, -89, 31],
    [-82, 58, 81, -41, -58, 36, 76, -79, -29, 23],
    [86, -46, 16, -18, 81, 90, 35, -90, 43, 55],
    [-38, -19, -40, 82, -76, 57, -29, -2, 79, -48]]"

definition mm_ans :: "int list list" where
  "mm_ans = [
    [-1317, 10379, -5821, -14322, -4330, -3114, -9940, 7033, -1883, -6027],
    [-24266, -861, 4044, -19824, -223, 886, -11988, -6442, -13846, -1054],
    [9783, -7073, -918, -5911, -967, -7100, 14605, -7556, -3439, 9607],
    [15980, -520, -13297, 15043, 6185, -3654, 1325, 4193, 16925, -17761],
    [2566, 3187, 10248, 7925, 6318, 1421, 14648, 700, -12193, 1083],
    [-12603, 19006, 20952, 18599, -1539, 5184, 17408, 6740, 6264, 15114],
    [-12715, 15121, 9963, -13717, 2411, -2196, 6147, -1698, -3389, 8200],
    [-19007, 12417, 5723, -11309, -19242, 15740, -3791, -3949, -13130, -21],
    [-12557, -5970, -11570, -8905, 12227, 7814, -5094, 4532, 1071, -1309],
    [-2955, 9381, 6372, -6898, 9117, 5753, 20778, -5045, 1047, 12114]]"

definition mget :: "int list list \<Rightarrow> int \<Rightarrow> int \<Rightarrow> int option" where
  "mget m i j = do { row \<leftarrow> aget m i; aget row j }"

function dot_loop :: "int list list \<Rightarrow> int list list \<Rightarrow> int \<Rightarrow> int \<Rightarrow> int \<Rightarrow> int \<Rightarrow> (int \<times> int) option" where
  "dot_loop a b i j k c =
    (if k < 10 then do {
       x \<leftarrow> mget a i k;
       y \<leftarrow> mget b k j;
       p \<leftarrow> i32 (x * y);
       c \<leftarrow> i32 (c + p);
       dot_loop a b i j (k + 1) c
     } else Some (c, k))"
  by pat_completeness auto
termination by (relation "measure (\<lambda>(a, b, i, j, k, c). nat (10 - k))") auto

definition matrix_mul_main :: "int option" where
  "matrix_mul_main =
    for_to 1 0 10 (\<lambda>i _ next_i.
      for_to 1 0 10 (\<lambda>j _ next_j. do {
        (c, k) \<leftarrow> dot_loop mm_a mm_b i j 0 0;
        x \<leftarrow> mget mm_ans i j;
        check (c = x) (check (k = 10) (next_j ()))
      }) () (\<lambda>j _. check (j = 10) (next_i ()))) () (\<lambda>i _. check (i = 10) (Some 0))"

subsection \<open>if-else.c\<close>

definition if_else :: "int \<Rightarrow> int" where
  "if_else n = (if n > 500 then 150 else if n > 300 then 100 else if n > 100 then 75
     else if n > 50 then 50 else 0)"

definition ifelse_data :: "int list" where
  "ifelse_data = [-1, 0, 49, 50, 51, 99, 100, 101, 299, 300, 301, 499, 500, 501]"

definition ifelse_ans :: "int list" where
  "ifelse_ans = [0, 0, 0, 0, 50, 50, 50, 75, 75, 75, 100, 100, 100, 150]"

definition if_else_main :: "int option" where
  "if_else_main = for_to 1 0 14 (\<lambda>i ans_idx k. do {
     x \<leftarrow> aget ifelse_data i;
     y \<leftarrow> aget ifelse_ans ans_idx;
     check (if_else x = y) (k (ans_idx + 1))
   }) 0 (\<lambda>i _. check (i = 14) (Some 0))"

subsection \<open>switch.c\<close>

definition switch_case :: "int \<Rightarrow> int" where
  "switch_case n =
    (if n = 0 then 0 else if n = 1 then 2
     else if n = 2 \<or> n = 3 then 5
     else if n = 4 \<or> n = 5 \<or> n = 6 \<or> n = 7 then 8
     else if n = 8 \<or> n = 9 \<or> n = 10 \<or> n = 11 then 10
     else if n = 12 then 15 else - 1)"

definition switch_ans :: "int list" where
  "switch_ans = [-1, 0, 2, 5, 5, 8, 8, 8, 8, 10, 10, 10, 10, 15, -1]"

definition switch_main :: "int option" where
  "switch_main = for_to 1 0 15 (\<lambda>i _ k. do {
     x \<leftarrow> aget switch_ans i;
     check (switch_case (i - 1) = x) (k ())
   }) () (\<lambda>i _. check (i = 15) (Some 0))"

declare for_to.simps [simp del] pascal_inner.simps [simp del] pascal_outer.simps [simp del]
  is_prime_loop.simps [simp del] goldbach_loop.simps [simp del] prime_inner.simps [simp del]
  divisor_sum.simps [simp del] sum_loop.simps [simp del] f0.simps [simp del] f1.simps [simp del]
  f2.simps [simp del] f3.simps [simp del] mul_loop.simps [simp del] div_loop.simps [simp del]
  dot_loop.simps [simp del]


section \<open>Evaluation of the programs\<close>

lemma bind_weak: "m = m' \<Longrightarrow> Option.bind m f = Option.bind m' f"
  by simp

lemmas eval_rules = for_to.simps aget_def aset_def check_def i32_def signed_divide_int_def signed_modulo_int_def

lemma i32_id [simp]: "- (2 ^ 31) \<le> x \<Longrightarrow> x < 2 ^ 31 \<Longrightarrow> i32 x = Some x"
  by (simp add: i32_def)

lemma smod_pos: "0 \<le> x \<Longrightarrow> 0 < y \<Longrightarrow> x smod y = x mod (y :: int)"
  by (cases "x = 0") (simp_all add: signed_modulo_int_def)

lemma fact_passes: "fact_main = Some 0"
  by (simp add: fact_main_def fact_c.simps fact_ans_def eval_rules cong: bind_weak)

lemma fib_passes: "fib_main = Some 0"
  by (simp add: fib_main_def fib_ans_def eval_rules cong: bind_weak)

lemma leap_year_passes: "leap_year_main = Some 0"
  by (simp add: leap_year_main_def leap_ans_def is_leap_year_def eval_rules cong: bind_weak)

lemma sum_passes: "sum_main = Some 0"
  by (simp add: sum_main_def sum_loop.simps eval_rules cong: bind_weak)

lemma shuixianhua_passes: "shuixianhua_main = Some 0"
  by (simp add: shuixianhua_main_def cube_def shui_ans_def eval_rules cong: bind_weak)

lemma wanshu_passes: "wanshu_main = Some 0"
  by (simp add: wanshu_main_def divisor_sum.simps wanshu_ans_def eval_rules cong: bind_weak)

lemma if_else_passes: "if_else_main = Some 0"
  by (simp add: if_else_main_def ifelse_data_def ifelse_ans_def if_else_def eval_rules cong: bind_weak)

lemma switch_passes: "switch_main = Some 0"
  by (simp add: switch_main_def switch_ans_def switch_case_def eval_rules cong: bind_weak)

lemma div_passes: "div_main = Some 0"
  by (simp add: div_main_def mul_loop.simps div_loop.simps eval_rules cong: bind_weak)

text \<open>In recursion.c a call adds a number of calls and reaches a depth that depend on its first
  argument only.\<close>

definition rec_effect :: "(int \<Rightarrow> rec_state \<Rightarrow> (int \<times> rec_state) option) \<Rightarrow> int \<Rightarrow> int \<Rightarrow> int \<Rightarrow> bool" where
  "rec_effect f v c h \<longleftrightarrow> 0 \<le> h \<and> (\<forall>l s. f l s = Some (v, s\<lparr>rec_count := rec_count s + c, rec_lvl := max (rec_lvl s) (l + h)\<rparr>))"

lemma rec_effect_base:
  "n \<le> 0 \<Longrightarrow> rec_effect (f0 n) 1 1 0" "n \<le> 0 \<Longrightarrow> rec_effect (f1 n) 1 1 0"
  "n \<le> 0 \<Longrightarrow> rec_effect (f2 n) 1 1 0" "n \<le> 0 \<Longrightarrow> rec_effect (f3 n) 1 1 0"
  by (auto simp: rec_effect_def f0.simps f1.simps f2.simps f3.simps rec_enter_def max_def)

lemma rec_effect_f0: "rec_effect (f3 (n sdiv 3)) v c h \<Longrightarrow> 0 < n \<Longrightarrow> rec_effect (f0 n) v (c + 1) (h + 1)"
  by (auto simp: rec_effect_def f0.simps [of n] rec_enter_def max_def)

lemma rec_effect_f1: "rec_effect (f0 (n - 1)) v c h \<Longrightarrow> 0 < n \<Longrightarrow> rec_effect (f1 n) v (c + 1) (h + 1)"
  by (auto simp: rec_effect_def f1.simps [of n] rec_enter_def max_def)

lemma rec_effect_f2: "rec_effect (f1 n) v c h \<Longrightarrow> 0 < n \<Longrightarrow> i32 (v + 9) = Some w \<Longrightarrow> rec_effect (f2 n) w (c + 1) (h + 1)"
  by (auto simp: rec_effect_def f2.simps [of n] rec_enter_def max_def)

lemma rec_effect_f3:
  "rec_effect (f2 (n sdiv 2)) v c h \<Longrightarrow> 0 < n \<Longrightarrow> 0 \<le> v \<Longrightarrow> v < 2 ^ 28 \<Longrightarrow> rec_effect (f3 n) (5 * v) (2 * c + 1) (h + 1)"
  by (auto simp: rec_effect_def f3.simps [of n] rec_enter_def max_def i32_def)


lemma rec_effect_round:
  assumes "rec_effect (f0 (n sdiv 3 sdiv 2 - 1)) v c h" "0 < n" "0 < n sdiv 3" "0 < n sdiv 3 sdiv 2"
    "0 \<le> v" "v < 2 ^ 27"
  shows "rec_effect (f0 n) (5 * (v + 9)) (2 * c + 6) (h + 4)"
proof -
  have "rec_effect (f2 (n sdiv 3 sdiv 2)) (v + 9) (c + 1 + 1) (h + 1 + 1)"
    by (rule rec_effect_f2 [OF rec_effect_f1 [OF assms(1)]]) (use assms in simp_all)
  then have "rec_effect (f0 n) (5 * (v + 9)) (2 * (c + 1 + 1) + 1 + 1) (h + 1 + 1 + 1 + 1)"
    by (rule rec_effect_f0 [OF rec_effect_f3]) (use assms in simp_all)
  then show ?thesis by (simp add: algebra_simps)
qed

lemma recursion_passes: "recursion_main = Some 0"
proof -
  have "rec_effect (f0 0) 1 1 0" by (rule rec_effect_base) simp
  then have "rec_effect (f0 9) 50 8 4"
    using rec_effect_round [of 9 1 1 0] by (simp add: signed_divide_int_def)
  then have "rec_effect (f0 65) 295 22 8"
    using rec_effect_round [of 65 50 8 4] by (simp add: signed_divide_int_def)
  then have "rec_effect (f0 398) 1520 50 12"
    using rec_effect_round [of 398 295 22 8] by (simp add: signed_divide_int_def)
  then have "rec_effect (f0 2394) 7645 106 16"
    using rec_effect_round [of 2394 1520 50 12] by (simp add: signed_divide_int_def)
  then have "rec_effect (f0 14371) 38270 218 20"
    using rec_effect_round [of 14371 7645 106 16] by (simp add: signed_divide_int_def)
  then show ?thesis by (simp add: recursion_main_def rec_effect_def rec_ans_def aget_def check_def)
qed

text \<open>A counting loop whose body always goes on.\<close>

lemma for_to_goes_on:
  assumes "\<And>i k. i0 \<le> i \<Longrightarrow> i < n \<Longrightarrow> body i () k = k ()" "i0 \<le> n"
  shows "for_to 1 i0 n body () k = k n ()"
  using assms
proof (induction "nat (n - i0)" arbitrary: i0)
  case 0
  then show ?case by (subst for_to.simps) simp
next
  case (Suc m)
  have "for_to 1 (i0 + 1) n body () k = k n ()"
    by (rule Suc.hyps(1)) (use Suc.hyps(2) Suc.prems in auto)
  moreover have "i0 < n" using Suc.hyps(2) by simp
  ultimately show ?case using Suc.prems(1) [of i0] by (subst for_to.simps) simp
qed

subsection \<open>Matrix product\<close>

definition small_matrix :: "int list list \<Rightarrow> bool" where
  "small_matrix m \<longleftrightarrow> length m = 10 \<and> list_all (\<lambda>r. length r = 10 \<and> list_all (\<lambda>x. \<bar>x\<bar> \<le> 100) r) m"

lemma small_matrix_get:
  assumes "small_matrix m" "i < 10" "j < 10"
  shows "mget m (int i) (int j) = Some (m ! i ! j)" "\<bar>m ! i ! j\<bar> \<le> 100"
  using assms by (auto simp: small_matrix_def mget_def list_all_length)

lemma dot_loop_correct:
  assumes "small_matrix a" "small_matrix b" "i < 10" "j < 10" "k \<le> 10" "\<bar>c\<bar> \<le> 10000 * int k"
  shows "dot_loop a b (int i) (int j) (int k) c = Some (c + (\<Sum>t = k..<10. a ! i ! t * b ! t ! j), 10)"
  using assms(5,6)
proof (induction "10 - k" arbitrary: k c)
  case 0
  then show ?case by (subst dot_loop.simps) simp
next
  case (Suc n)
  have k: "k < 10" "n = 10 - Suc k" using Suc.hyps(2) by simp_all
  let ?p = "a ! i ! k * b ! k ! j"
  have "\<bar>?p\<bar> \<le> 100 * 100"
    unfolding abs_mult by (rule mult_mono) (use small_matrix_get assms k in auto)
  then have b: "\<bar>?p\<bar> \<le> 10000" "\<bar>c + ?p\<bar> \<le> 10000 * int (Suc k)" using Suc.prems by simp_all
  then have "i32 ?p = Some ?p" "i32 (c + ?p) = Some (c + ?p)" using k by (simp_all only: i32_def) auto
  then have "dot_loop a b (int i) (int j) (int k) c = dot_loop a b (int i) (int j) (int (Suc k)) (c + ?p)"
    using k assms(1-4) small_matrix_get(1) [of a i k] small_matrix_get(1) [of b k j]
    by (subst dot_loop.simps) (simp add: add.commute)
  also have "\<dots> = Some (c + ?p + (\<Sum>t = Suc k..<10. a ! i ! t * b ! t ! j), 10)"
    by (rule Suc.hyps(1)) (use k b in auto)
  also have "c + ?p + (\<Sum>t = Suc k..<10. a ! i ! t * b ! t ! j) = c + (\<Sum>t = k..<10. a ! i ! t * b ! t ! j)"
    using k by (simp add: sum.atLeast_Suc_lessThan [of k 10])
  finally show ?case .
qed

lemma mm_product:
  "list_all (\<lambda>i. list_all (\<lambda>j. sum_list (map (\<lambda>t. mm_a ! i ! t * mm_b ! t ! j) [0..<10]) = mm_ans ! i ! j) [0..<10]) [0..<10]"
  by code_simp

lemma mm_data: "small_matrix mm_a" "small_matrix mm_b" "length mm_ans = 10" "list_all (\<lambda>r. length r = 10) mm_ans"
  by code_simp+

lemma matrix_mul_passes: "matrix_mul_main = Some 0"
proof -
  have *: "dot_loop mm_a mm_b i j 0 0 = Some (mm_ans ! nat i ! nat j, 10)
      \<and> mget mm_ans i j = Some (mm_ans ! nat i ! nat j)" if "0 \<le> i" "i < 10" "0 \<le> j" "j < 10" for i j
  proof -
    have n: "nat i < 10" "nat j < 10" "int (nat i) = i" "int (nat j) = j" using that by auto
    have "(\<Sum>t = 0..<10. mm_a ! nat i ! t * mm_b ! t ! nat j) = mm_ans ! nat i ! nat j"
      using mm_product n(1,2) by (simp add: list_all_iff interv_sum_list_conv_sum_set_nat)
    then show ?thesis
      using dot_loop_correct [OF mm_data(1,2) n(1,2), of 0 0] n mm_data(3,4) that
      by (auto simp: mget_def aget_def list_all_length)
  qed
  show ?thesis
    unfolding matrix_mul_main_def
    by (subst for_to_goes_on, subst for_to_goes_on) (auto simp: * check_def)
qed

subsection \<open>Pascal's triangle\<close>

definition pascal_row :: "nat \<Rightarrow> int list \<Rightarrow> nat \<Rightarrow> nat \<Rightarrow> bool" where
  "pascal_row i a j m \<longleftrightarrow> length a = 31
    \<and> (\<forall>k < j. a ! k = int (i choose k)) \<and> (\<forall>k. j \<le> k \<and> k \<le> m \<longrightarrow> a ! k = int (m choose k))"

lemma pascal_inner_correct:
  assumes "pascal_row (Suc m) a j m" "1 \<le> j" "j \<le> Suc m" "Suc m < 31"
  shows "\<exists>a'. pascal_inner (int (Suc m)) (int j) (int (m choose (j - 1))) a = Some a' \<and> pascal_row (Suc m) a' (Suc m) m"
  using assms(1-3)
proof (induction "Suc m - j" arbitrary: j a)
  case 0
  then have "j = Suc m" by simp
  then show ?case using 0 by (subst pascal_inner.simps) simp
next
  case (Suc n)
  have j: "j < Suc m" "n = Suc m - Suc j" using Suc.hyps(2) by simp_all
  obtain l where l: "j = Suc l" using Suc.prems by (cases j) auto
  have len: "length a = 31" and aj: "a ! j = int (m choose j)"
    using Suc.prems j by (auto simp: pascal_row_def)
  have sum: "int (m choose (j - 1)) + int (m choose j) = int (Suc m choose j)" by (simp add: l)
  have "Suc m choose j \<le> 2 ^ Suc m" by (rule binomial_le_pow2)
  also have "(2::nat) ^ Suc m \<le> 2 ^ 30" using assms(4) by (intro power_increasing) simp_all
  finally have bound: "int (Suc m choose j) < 2 ^ 31" by simp
  let ?b = "a[j := int (Suc m choose j)]"
  have "pascal_inner (int (Suc m)) (int j) (int (m choose (j - 1))) a
      = pascal_inner (int (Suc m)) (int (Suc j)) (int (m choose (Suc j - 1))) ?b"
    using j len aj sum bound assms(4) by (subst pascal_inner.simps) (simp add: i32_def add.commute)
  moreover have "pascal_row (Suc m) ?b (Suc j) m"
    using Suc.prems j len assms(4) by (auto simp: pascal_row_def nth_list_update less_Suc_eq)
  ultimately show ?case using Suc.hyps(1) [of "Suc j" ?b] j by simp
qed

lemma pascal_outer_correct:
  assumes "1 \<le> m" "m < 31" "pascal_row m a (Suc m) m"
  shows "\<exists>a'. pascal_outer 31 (int (Suc m)) a = Some a' \<and> pascal_row 30 a' 31 30"
  using assms
proof (induction "30 - m" arbitrary: m a)
  case 0
  then have "m = 30" by simp
  then show ?case using 0 by (subst pascal_outer.simps) simp
next
  case (Suc n)
  have m: "m < 30" "n = 30 - Suc m" using Suc.hyps(2) by simp_all
  have "pascal_row (Suc m) a 1 m" using Suc.prems by (auto simp: pascal_row_def)
  then obtain b where b: "pascal_inner (int (Suc m)) 1 1 a = Some b" "pascal_row (Suc m) b (Suc m) m"
    using pascal_inner_correct [of m a 1] m by auto
  let ?c = "b[Suc m := 1]"
  have "pascal_outer 31 (int (Suc m)) a = pascal_outer 31 (int (Suc (Suc m))) ?c"
    using m b by (subst pascal_outer.simps) (simp add: pascal_row_def add.commute)
  moreover have "pascal_row (Suc m) ?c (Suc (Suc m)) (Suc m)"
    using b(2) m by (auto simp: pascal_row_def nth_list_update less_Suc_eq le_Suc_eq)
  ultimately show ?case using Suc.hyps(1) [of "Suc m" ?c] m by simp
qed

definition prow_step :: "int list \<Rightarrow> int list" where
  "prow_step r = map2 (+) (0 # r) (r @ [0])"

primrec prow :: "nat \<Rightarrow> int list" where
  "prow 0 = [1]"
| "prow (Suc n) = prow_step (prow n)"

lemma length_prow [simp]: "length (prow n) = Suc n"
  by (induction n) (simp_all add: prow_step_def)

lemma prow_nth: "k \<le> n \<Longrightarrow> prow n ! k = int (n choose k)"
proof (induction n arbitrary: k)
  case (Suc n)
  then show ?case by (cases k) (auto simp: prow_step_def nth_append le_Suc_eq)
qed simp

lemma pascal_passes: "pascal_main = Some 0"
proof -
  let ?a = "(replicate 31 0)[1 := 1, 0 := 1] :: int list"
  have "pascal_row 1 ?a (Suc 1) 1" by (auto simp: pascal_row_def less_Suc_eq numeral_2_eq_2)
  then obtain a where a: "pascal_outer 31 2 ?a = Some a" "pascal_row 30 a 31 30"
    using pascal_outer_correct [of 1 ?a] by auto
  have ans: "pascal_ans = prow 30" by code_simp
  have "aget a j = Some (a ! nat j) \<and> aget pascal_ans j = Some (a ! nat j)" if "0 \<le> j" "j < 31" for j
    using that a(2) prow_nth [of "nat j" 30] by (simp_all add: aget_def pascal_row_def ans)
  then show ?thesis
    unfolding pascal_main_def using a(1)
    by (simp add: aset_def) (subst for_to_goes_on, auto simp: check_def)
qed

section \<open>Primes\<close>

definition prime_int :: "int \<Rightarrow> bool" where
  "prime_int n \<longleftrightarrow> 1 < n \<and> (\<forall>d > 0. d dvd n \<longrightarrow> d = 1 \<or> d = n)"

lemma prime_int_iff: "prime_int n \<longleftrightarrow> 2 \<le> n \<and> (\<forall>d. 2 \<le> d \<and> d < n \<longrightarrow> \<not> d dvd n)"
proof -
  have "d = 1 \<or> d = n" if "\<forall>d. 2 \<le> d \<and> d < n \<longrightarrow> \<not> d dvd n" "0 < d" "d dvd n" "2 \<le> n" for d
  proof -
    have "d \<le> n" using that by (intro zdvd_imp_le) auto
    moreover have "\<not> (2 \<le> d \<and> d < n)" using that by blast
    ultimately show ?thesis using that by linarith
  qed
  then show ?thesis unfolding prime_int_def by force
qed

lemma smod_dvd: "0 \<le> x \<Longrightarrow> 0 < y \<Longrightarrow> x smod y = 0 \<longleftrightarrow> y dvd (x :: int)"
  by (simp add: smod_pos dvd_eq_mod_eq_0)

lemma is_prime_loop_correct:
  "2 \<le> i \<Longrightarrow> is_prime_loop n i = (if \<exists>d. i \<le> d \<and> d < n \<and> d dvd n then 0 else 1)"
proof (induction n i rule: is_prime_loop.induct)
  case (1 n i)
  show ?case
  proof (cases "i < n \<and> \<not> i dvd n")
    case True
    have "(i + 1 \<le> d \<and> d < n \<and> d dvd n) = (i \<le> d \<and> d < n \<and> d dvd n)" for d
      using True by (cases "d = i") auto
    then show ?thesis using True 1 by (subst is_prime_loop.simps) (simp add: smod_dvd)
  next
    case False
    then show ?thesis using 1 by (subst is_prime_loop.simps) (auto simp: smod_dvd)
  qed
qed

lemma is_prime_correct: "is_prime n = (if prime_int n then 1 else 0)"
  by (auto simp: is_prime_def prime_int_iff is_prime_loop_correct)

lemma goldbach_loop_correct:
  "goldbach_loop n i = (if \<exists>p. i \<le> p \<and> p < n \<and> prime_int p \<and> prime_int (n - p) then 1 else 0)"
proof (induction n i rule: goldbach_loop.induct)
  case (1 n i)
  show ?case
  proof (cases "i < n \<and> \<not> (prime_int i \<and> prime_int (n - i))")
    case True
    have "(i + 1 \<le> p \<and> p < n \<and> prime_int p \<and> prime_int (n - p)) = (i \<le> p \<and> p < n \<and> prime_int p \<and> prime_int (n - p))" for p
      using True by (cases "p = i") auto
    then show ?thesis using True 1 by (subst goldbach_loop.simps) (auto simp: is_prime_correct)
  next
    case False
    then show ?thesis by (subst goldbach_loop.simps) (auto simp: is_prime_correct)
  qed
qed

lemma goldbach_correct: "goldbach n = (if \<exists>p q. prime_int p \<and> prime_int q \<and> p + q = n then 1 else 0)"
proof -
  have "(\<exists>p. 2 \<le> p \<and> p < n \<and> prime_int p \<and> prime_int (n - p)) \<longleftrightarrow> (\<exists>p q. prime_int p \<and> prime_int q \<and> p + q = n)"
  proof
    assume "\<exists>p q. prime_int p \<and> prime_int q \<and> p + q = n"
    then obtain p q where "prime_int p" "prime_int q" "p + q = n" by blast
    then show "\<exists>p. 2 \<le> p \<and> p < n \<and> prime_int p \<and> prime_int (n - p)"
      by (intro exI [of _ p]) (auto simp: prime_int_def)
  qed (metis add.commute diff_add_cancel)
  then show ?thesis by (simp add: goldbach_def goldbach_loop_correct)
qed

lemma goldbach_passes: "goldbach_main = Some 0"
  by (simp add: goldbach_main_def goldbach_def goldbach_loop.simps is_prime_def is_prime_loop.simps eval_rules cong: bind_weak)

lemma prime_passes: "prime_main = Some 0"
  by (simp add: prime_main_def prime_inner.simps prime_ans_def eval_rules cong: bind_weak)

subsection \<open>Trial division up to the square root\<close>

lemma composite_small_divisor:
  assumes "1 < n" "\<not> prime_int n"
  obtains d where "2 \<le> d" "d dvd n" "d * d \<le> (n :: int)"
proof -
  obtain d where d: "2 \<le> d" "d < n" "d dvd n" using assms by (auto simp: prime_int_iff)
  then obtain e where e: "n = d * e" by (elim dvdE)
  have "2 \<le> e"
  proof (rule ccontr)
    assume "\<not> 2 \<le> e"
    then have "d * e \<le> d * 1" using d by (intro mult_left_mono) auto
    then show False using e d by simp
  qed
  show thesis
  proof (cases "d \<le> e")
    case True
    then have "d * d \<le> d * e" using d by (intro mult_left_mono) auto
    then show ?thesis using that [of d] d e by simp
  next
    case False
    then have "e * e \<le> d * e" using \<open>2 \<le> e\<close> by (intro mult_right_mono) auto
    then show ?thesis using that [of e] \<open>2 \<le> e\<close> e by simp
  qed
qed

lemma six_steps:
  assumes "\<not> 2 dvd n" "\<not> 3 dvd n" "d mod 6 = 5" "\<not> d dvd n" "\<not> (d + 2) dvd n" "d \<le> k" "k < d + 6"
  shows "\<not> k dvd (n :: int)"
proof -
  have e: "\<not> x dvd n" if "2 dvd x \<or> 3 dvd x" for x
    using that assms(1,2) dvd_trans by blast
  consider "k = d" | "k = d + 1" | "k = d + 2" | "k = d + 3" | "k = d + 4" | "k = d + 5"
    using assms(6,7) by linarith
  moreover have "2 dvd (d + 1)" "2 dvd (d + 3)" "3 dvd (d + 4)" "2 dvd (d + 5)"
    using assms(3) by presburger+
  ultimately show ?thesis using assms(4,5) e by cases blast+
qed

lemma isPrime_loop_correct:
  assumes "\<not> 2 dvd n" "\<not> 3 dvd n" "1 < n" "n < 46337 * 46337"
    and "d mod 6 = 5" "5 \<le> d" "d \<le> 46337" "\<And>k. 2 \<le> k \<Longrightarrow> k < d \<Longrightarrow> \<not> k dvd n"
  shows "isPrime_loop n d = Some (if prime_int n then 1 else 0)"
  using assms(5-)
proof (induction "nat (46337 - d)" arbitrary: d rule: less_induct)
  case less
  have sq: "i32 (d * d) = Some (d * d)"
  proof -
    have "d * d \<le> 46337 * 46337" using less.prems by (intro mult_mono) auto
    moreover have "- 2147483648 \<le> d * d" by (rule order_trans [OF _ zero_le_square]) simp
    ultimately show ?thesis unfolding i32_def by simp
  qed
  show ?case
  proof (cases "d * d \<le> n")
    case False
    have "prime_int n"
    proof (rule ccontr)
      assume "\<not> prime_int n"
      then obtain k where k: "2 \<le> k" "k dvd n" "k * k \<le> n"
        using composite_small_divisor assms(3) by blast
      have "k < d"
      proof (rule ccontr)
        assume "\<not> k < d"
        then have "d * d \<le> k * k" using less.prems by (intro mult_mono) auto
        then show False using False k by simp
      qed
      then show False using less.prems(4) k by blast
    qed
    then show ?thesis using False sq by (subst isPrime_loop.simps) simp
  next
    case True
    have "5 * d \<le> d * d" using less.prems by (intro mult_right_mono) auto
    then have "5 * d \<le> n" using True by linarith
    then have dn: "d + 2 < n" using less.prems(2) by linarith
    have d: "d < 46337"
    proof (rule ccontr)
      assume "\<not> d < 46337"
      then have "46337 * 46337 \<le> d * d" by (intro mult_mono) auto
      then show False using True assms(4) by simp
    qed
    have np: "\<not> prime_int n" if "k dvd n" "2 \<le> k" "k < n" for k
      using that by (auto simp: prime_int_iff)
    consider "d dvd n" | "\<not> d dvd n" "(d + 2) dvd n" | "\<not> d dvd n" "\<not> (d + 2) dvd n" by blast
    then show ?thesis
    proof cases
      case 1
      then show ?thesis using np [of d] sq True less.prems dn assms(3)
        by (subst isPrime_loop.simps) (simp add: smod_dvd)
    next
      case 2
      then show ?thesis using np [of "d + 2"] sq True less.prems dn d assms(3)
        by (subst isPrime_loop.simps) (simp add: smod_dvd)
    next
      case 3
      have m: "(d + 6) mod 6 = 5" using less.prems(1) by simp
      have "d + 6 \<le> 46337" using d less.prems(1) by presburger
      moreover have "\<not> k dvd n" if "2 \<le> k" "k < d + 6" for k
        using less.prems(4) [of k] six_steps [OF assms(1,2) less.prems(1) 3, of k] that by force
      ultimately have "isPrime_loop n (d + 6) = Some (if prime_int n then 1 else 0)"
        using less.hyps [of "d + 6"] less.prems d m by simp
      then show ?thesis using 3 sq True less.prems dn d assms(3)
        by (subst isPrime_loop.simps) (simp add: smod_dvd add.commute [of 6])
    qed
  qed
qed

lemma isPrime_correct:
  assumes "1 < n" "n < 46337 * 46337"
  shows "isPrime n = Some (if prime_int n then 1 else 0)"
proof -
  have eq: "prime_int n \<longleftrightarrow> n = p" if "p dvd n" "1 < p" "prime_int p" for p
  proof
    assume "prime_int n"
    then have "p = 1 \<or> p = n" using that(1,2) unfolding prime_int_def by (metis less_trans zero_less_one)
    then show "n = p" using that(2) by simp
  qed (use that in simp)
  have p: "prime_int 2" "prime_int 3"
  proof -
    have "\<not> d dvd 3" if "2 \<le> d" "d < 3" for d :: int
    proof -
      have "d = 2" using that by simp
      then show ?thesis by simp
    qed
    then show "prime_int 2" "prime_int 3" by (auto simp: prime_int_iff)
  qed
  consider "2 dvd n" | "\<not> 2 dvd n" "3 dvd n" | "\<not> 2 dvd n" "\<not> 3 dvd n" by blast
  then show ?thesis
  proof cases
    case 3
    have "\<not> k dvd n" if "2 \<le> k" "k < 5" for k
    proof -
      consider "k = 2" | "k = 3" | "k = 4" using \<open>2 \<le> k\<close> \<open>k < 5\<close> by linarith
      then show ?thesis using 3 by cases (auto dest: dvd_trans [of 2 4 n])
    qed
    then show ?thesis using 3 isPrime_loop_correct [of n 5] assms by (simp add: isPrime_def smod_dvd)
  qed (use eq [of 2] eq [of 3] p assms in \<open>auto simp: isPrime_def smod_dvd\<close>)
qed

subsection \<open>The Mersenne program\<close>

text \<open>
  Both loops keep the exponent \<open>x\<close> in the upper bits of a word: \<open>n\<close> bits of it are left.
\<close>

lemma shift_left_exponent:
  fixes p :: u32
  assumes "unat p = x * 2 ^ (32 - n)" "x < 2 ^ n" "0 < n" "n \<le> 32"
  shows "unat (push_bit 1 p) = x mod 2 ^ (n - 1) * 2 ^ (32 - (n - 1))"
    and "sint p < 0 \<longleftrightarrow> 2 ^ (n - 1) \<le> x"
proof -
  have e: "32 - (n - 1) = Suc (32 - n)" "(2::nat) ^ 32 = 2 ^ (n - 1) * 2 ^ Suc (32 - n)"
      "(2::nat) ^ 31 = 2 ^ (n - 1) * 2 ^ (32 - n)"
    using assms(3,4) by (simp_all flip: power_add)
  have "unat (push_bit 1 p) = x * 2 ^ Suc (32 - n) mod 2 ^ 32"
    unfolding unat_push_bit assms(1) by (simp add: mult.assoc mult.commute [of 2])
  also have "\<dots> = x mod 2 ^ (n - 1) * 2 ^ Suc (32 - n)"
    unfolding e(2) by (rule mult_mod_left [symmetric])
  finally show "unat (push_bit 1 p) = x mod 2 ^ (n - 1) * 2 ^ (32 - (n - 1))" by (simp only: e(1))
  show "sint p < 0 \<longleftrightarrow> 2 ^ (n - 1) \<le> x"
    unfolding sint_u32_neg_iff assms(1) e(3) by simp
qed

lemma shift_up_correct:
  assumes "unat p = x * 2 ^ (32 - n)" "x < 2 ^ n" "0 < x" "n \<le> 32"
  shows "\<exists>r m. shift_up p = Some r \<and> unat r = x * 2 ^ (32 - m) \<and> x < 2 ^ m \<and> m \<le> 32"
  using assms
proof (induction n arbitrary: p)
  case (Suc n)
  note sh = shift_left_exponent [OF Suc.prems(1,2) zero_less_Suc Suc.prems(4)]
  show ?case
  proof (cases "sint p < 0")
    case True
    then show ?thesis using Suc.prems by (subst shift_up.simps) (auto intro!: exI [of _ "Suc n"])
  next
    case False
    then have x: "x < 2 ^ n" using sh(2) by simp
    have "p \<noteq> 0" using Suc.prems by auto
    then have "sint p \<noteq> 0" by (metis signed_eq_0_iff)
    then have "shift_up p = shift_up (push_bit 1 p)" using False by (subst shift_up.simps) simp
    then show ?thesis using Suc.IH [of "push_bit 1 p"] sh(1) x Suc.prems by simp
  qed
qed simp

lemma double_mod:
  fixes d i :: int
  assumes "0 \<le> i" "i < d" "odd d"
  shows "(if i * 2 > d then i * 2 - d else i * 2) = 2 * i mod d"
proof -
  have "i * 2 \<noteq> d" using assms(3) by auto
  moreover have "2 * i mod d = (2 * i - d) mod d" by simp
  ultimately show ?thesis using assms mod_pos_pos_trivial [of "2 * i - d" d] mod_pos_pos_trivial [of "2 * i" d]
    by (cases "2 * i > d") (simp_all add: mult.commute)
qed

lemma mexp_loop_correct:
  assumes "odd d" "1 < d" "d < 2 ^ 30"
    and "unat p = x * 2 ^ (32 - n)" "x < 2 ^ n" "odd x" "n \<le> 32" "0 \<le> i" "i < d"
  shows "mexp_loop d p i = Some (i ^ (2 ^ n) * 2 ^ x mod d)"
  using assms(4-)
proof (induction n arbitrary: p x i)
  case 0
  then show ?case by simp
next
  case (Suc n)
  note sh = shift_left_exponent [OF Suc.prems(1,2) zero_less_Suc Suc.prems(4)]
  define b where "b = (if 2 ^ n \<le> x then 1 else 0 :: nat)"
  define y where "y = x mod 2 ^ n"
  have xy: "x = b * 2 ^ n + y"
  proof -
    have "x div 2 ^ n = b" using Suc.prems(2) by (auto simp: b_def div_nat_eqI)
    then show ?thesis using div_mult_mod_eq [of x "2 ^ n"] by (simp add: y_def)
  qed
  define j where "j = i * i * 2 ^ b mod d"
  have j: "0 \<le> j" "j < d" using assms(2) by (simp_all add: j_def)
  have p0: "p \<noteq> 0" using Suc.prems(1,3) by (auto simp: odd_pos)
  have i2: "0 \<le> i * i mod d" "i * i mod d < d" using assms(2) by simp_all
  have step: "mexp_loop d p i = mexp_loop d (push_bit 1 p) j"
  proof (cases "sint p < 0")
    case True
    have "i32 (i * i mod d * 2) = Some (i * i mod d * 2)" using i2 assms(3) by simp
    moreover have "(if i * i mod d * 2 > d then i * i mod d * 2 - d else i * i mod d * 2) = j"
      using double_mod [OF i2 assms(1)] True sh(2) by (simp add: j_def b_def mod_mult_right_eq mult.commute)
    ultimately show ?thesis using True p0 assms(2) Suc.prems
      by (subst mexp_loop.simps) (simp add: smod_pos Let_def)
  next
    case False
    have "\<not> i * i mod d > d" using i2 by linarith
    then show ?thesis using False p0 assms(2) Suc.prems sh(2)
      by (subst mexp_loop.simps) (simp add: smod_pos j_def b_def Let_def)
  qed
  have jn: "j ^ (2 ^ n) * 2 ^ y mod d = i ^ (2 ^ Suc n) * 2 ^ x mod d"
  proof -
    have "j ^ (2 ^ n) * 2 ^ y mod d = (i * i * 2 ^ b) ^ (2 ^ n) * 2 ^ y mod d"
      unfolding j_def by (metis mod_mult_left_eq power_mod)
    also have "(i * i * 2 ^ b) ^ (2 ^ n) * 2 ^ y = i ^ (2 ^ Suc n) * 2 ^ x"
      by (simp add: xy power_mult_distrib power_add power_mult flip: power2_eq_square power_mult)
    finally show ?thesis .
  qed
  show ?case
  proof (cases n)
    case 0
    then have "x = 1" using Suc.prems by (auto simp: less_2_cases_iff)
    then have "push_bit 1 p = 0" using sh(1) 0 by (simp add: unat_eq_zero [symmetric])
    then show ?thesis using step jn 0 j y_def by (subst step, subst mexp_loop.simps) simp
  next
    case (Suc m)
    have "odd y" unfolding y_def using Suc Suc.prems(3) by (simp add: dvd_mod_iff)
    then show ?thesis using Suc.IH [of "push_bit 1 p" y j] sh(1) j Suc.prems jn step y_def by simp
  qed
qed

lemma mexp_is_one:
  assumes "odd q" "0 < q" "unat r = nat q * 2 ^ (32 - m)" "nat q < 2 ^ m" "m \<le> 32"
    "odd d" "1 < d" "d < 2 ^ 30"
  shows "\<exists>i. mexp_loop d r 1 = Some i \<and> (i = 1 \<longleftrightarrow> d dvd 2 ^ nat q - 1)"
proof -
  have "odd (nat q)" using assms(1,2) by (simp add: even_nat_iff)
  then have "mexp_loop d r 1 = Some (2 ^ nat q mod d)"
    using mexp_loop_correct [of d r "nat q" m 1] assms by simp
  moreover have "2 ^ nat q mod d = 1 \<longleftrightarrow> d dvd 2 ^ nat q - 1"
    using mod_eq_dvd_iff [of "2 ^ nat q" d 1] assms(7) by simp
  ultimately show ?thesis by simp
qed

lemma factor_loop_correct:
  assumes q: "odd q" "0 < q" "unat r = nat q * 2 ^ (32 - m)" "nat q < 2 ^ m" "m \<le> 32"
    and c: "(2 * int c * q + 1) dvd 2 ^ nat q - 1" "2 * int c * q + 1 < 2 ^ 30"
    and j: "1 \<le> j" "j \<le> c" "\<And>k. j \<le> k \<Longrightarrow> k < c \<Longrightarrow> \<not> (2 * int k * q + 1) dvd 2 ^ nat q - 1"
  shows "factor_loop q r (2 * int j * q + 1) = Some (2 * int c * q + 1)"
  using j
proof (induction "c - j" arbitrary: j)
  have d: "1 < 2 * int k * q + 1 \<and> 2 * int k * q + 1 < 2 ^ 30" if "1 \<le> k" "k \<le> c" for k
  proof -
    have "0 < int k * q" using that q(2) by simp
    moreover have "int k * q \<le> int c * q" using that q(2) by (intro mult_right_mono) auto
    ultimately show ?thesis using c(2) by (simp add: mult.assoc mult.commute [of q])
  qed
  {
    case 0
    then have "j = c" by simp
    then show ?case using mexp_is_one [OF q, of "2 * int c * q + 1"] d [of c] 0 c(1)
      by (subst factor_loop.simps) auto
  next
    case (Suc n)
    have jc: "j < c" "n = c - Suc j" using Suc.hyps(2) by simp_all
    obtain i where "mexp_loop (2 * int j * q + 1) r 1 = Some i" "i \<noteq> 1"
      using mexp_is_one [OF q, of "2 * int j * q + 1"] d [of j] Suc.prems jc by auto
    moreover have e: "2 * int j * q + 1 + 2 * q = 2 * int (Suc j) * q + 1" by (simp add: algebra_simps)
    moreover have "i32 (2 * int (Suc j) * q + 1) = Some (2 * int (Suc j) * q + 1)"
      using d [of "Suc j"] jc by (intro i32_id) auto
    ultimately have "factor_loop q r (2 * int j * q + 1) = factor_loop q r (2 * int (Suc j) * q + 1)"
      by (subst factor_loop.simps) (simp only: e, simp)
    then show ?case using Suc.hyps(1) [OF jc(2)] Suc.prems jc by simp
  }
qed

lemma mersenne_search:
  assumes "odd q" "0 < q" "q < 2 ^ 31" "1 \<le> c" "(2 * int c * q + 1) dvd 2 ^ nat q - 1"
    "2 * int c * q + 1 < 2 ^ 30" "\<And>k. 1 \<le> k \<Longrightarrow> k < c \<Longrightarrow> \<not> (2 * int k * q + 1) dvd 2 ^ nat q - 1"
  shows "\<exists>r. shift_up (word_of_int q) = Some r \<and> factor_loop q r (2 * q + 1) = Some (2 * int c * q + 1)"
proof -
  have u: "unat (word_of_int q :: u32) = nat q"
    using assms(2,3) by (simp add: unat_eq_nat_uint uint_word_of_int_eq take_bit_int_eq_self)
  have "nat q < 2 ^ 32" using assms(2,3) by auto
  then obtain r m where "shift_up (word_of_int q) = Some r" "unat r = nat q * 2 ^ (32 - m)" "nat q < 2 ^ m" "m \<le> 32"
    using shift_up_correct [of "word_of_int q" "nat q" 32] u assms(2) by auto
  then show ?thesis
    using factor_loop_correct [of q r m c 1] assms by auto
qed

text \<open>Powers of two modulo \<open>d\<close> from the bits of the exponent.\<close>

fun powm :: "int \<Rightarrow> int \<Rightarrow> bool list \<Rightarrow> int" where
  "powm d x [] = x"
| "powm d x (b # bs) = powm d (x * x * (if b then 2 else 1) mod d) bs"

fun bitval :: "nat \<Rightarrow> bool list \<Rightarrow> nat" where
  "bitval e [] = e"
| "bitval e (b # bs) = bitval (2 * e + (if b then 1 else 0)) bs"

lemma powm_correct: "powm d (2 ^ e mod d) bs = 2 ^ bitval e bs mod d"
proof (induction bs arbitrary: e)
  case (Cons b bs)
  have "2 ^ e mod d * (2 ^ e mod d) * c mod d = 2 ^ e * 2 ^ e * c mod d" for c
    by (metis mod_mult_eq mod_mult_left_eq)
  then have "2 ^ e mod d * (2 ^ e mod d) * (if b then 2 else 1) mod d = 2 ^ (2 * e + (if b then 1 else 0)) mod d"
    by (simp add: mult_2 power_add)
  then show ?case using Cons.IH [of "2 * e + (if b then 1 else 0)"] by simp
qed simp

lemma pow929_dvd:
  "d dvd 2 ^ 929 - 1 \<longleftrightarrow> powm d (1 mod d) [True, True, True, False, True, False, False, False, False, True] = 1 mod d"
proof -
  let ?bits = "[True, True, True, False, True, False, False, False, False, True]"
  have "bitval 0 ?bits = 929" by simp
  then have "powm d (1 mod d) ?bits = 2 ^ 929 mod d"
    using powm_correct [of d 0 ?bits] by (simp only: power_0)
  then show ?thesis by (simp only: mod_eq_dvd_iff)
qed

lemma mersenne_passes: "mersenne_main = Some 0"
proof -
  have "isPrime 929 = Some 1"
    by (simp add: isPrime_def signed_modulo_int_def)
      ((subst isPrime_loop.simps, simp add: i32_def signed_modulo_int_def)+)
  moreover have "\<exists>r. shift_up (word_of_int 929) = Some r \<and> factor_loop 929 r (2 * 929 + 1) = Some (2 * int 7 * 929 + 1)"
  proof (rule mersenne_search)
    fix k :: nat
    assume k: "1 \<le> k" "k < 7"
    have f: "\<not> d dvd 2 ^ 929 - 1" if "d \<in> {1859, 3717, 5575, 7433, 9291, 11149}" for d :: int
      unfolding pow929_dvd using that by (elim insertE emptyE) (hypsubst, code_simp)+
    consider "k = 1" | "k = 2" | "k = 3" | "k = 4" | "k = 5" | "k = 6" using k by linarith
    then have "2 * int k * 929 + 1 \<in> {1859, 3717, 5575, 7433, 9291, 11149}" by cases simp_all
    then show "\<not> (2 * int k * 929 + 1) dvd 2 ^ nat 929 - 1"
      unfolding nat_numeral by (rule f)
  next
    have "(13007 :: int) dvd 2 ^ 929 - 1" unfolding pow929_dvd by code_simp
    moreover have "2 * int 7 * 929 + 1 = 13007" by simp
    ultimately show "(2 * int 7 * 929 + 1) dvd 2 ^ nat 929 - 1" by (simp only: nat_numeral)
  qed simp_all
  ultimately show ?thesis by (auto simp: mersenne_main_def check_def)
qed

section \<open>Properties\<close>

text \<open>
  the two primality tests and the search for a sum of two primes are right.  \<open>is_prime\<close> and
  \<open>goldbach\<close> are for every integer; \<open>isPrime\<close>, which only tries divisors up to the square root and
  skips multiples of 2 and 3, is for every number above 1 for which the square of the next divisor
  still fits in an \<open>int\<close>.
\<close>
theorem primality_tests_correct:
  "is_prime n = (if 1 < n \<and> (\<forall>d > 0. d dvd n \<longrightarrow> d = 1 \<or> d = n) then 1 else 0)
   \<and> goldbach n = (if \<exists>p q. is_prime p = 1 \<and> is_prime q = 1 \<and> p + q = n then 1 else 0)
   \<and> (1 < n \<and> n < 2147117569 \<longrightarrow> isPrime n = Some (is_prime n))"
proof -
  have "is_prime p = 1 \<longleftrightarrow> prime_int p" for p by (simp add: is_prime_correct)
  then show ?thesis
    using is_prime_correct [of n] goldbach_correct [of n] isPrime_correct [of n]
    by (simp add: prime_int_def)
qed

theorem primality_tests_witness:
  "isPrime 929 = Some (is_prime 929) \<and> is_prime (-7) = 0 \<and> goldbach 4 = 1"
  using primality_tests_correct [of 929] primality_tests_correct [of "-7"]
  by (simp add: goldbach_def goldbach_loop.simps is_prime_def [of 2] is_prime_loop.simps)

text \<open>
  the program mersenne.c finds factors of Mersenne numbers.  For every odd \<open>q\<close> the search stops at
  the first number of the form \<open>2 c q + 1\<close> that divides \<open>2 ^ q - 1\<close>, whenever there is one below
  \<open>2 ^ 30\<close>: the loop over the bits of \<open>q\<close> computes \<open>2 ^ q\<close> modulo the candidate, without overflow.
\<close>
theorem mersenne_finds_first_factor:
  assumes "odd q" "0 < q" "q < 2 ^ 31" "1 \<le> c" "(2 * int c * q + 1) dvd 2 ^ nat q - 1"
    "2 * int c * q + 1 < 2 ^ 30" "\<forall>k. 1 \<le> k \<and> k < c \<longrightarrow> \<not> (2 * int k * q + 1) dvd 2 ^ nat q - 1"
  shows "Option.bind (shift_up (word_of_int q)) (\<lambda>r. factor_loop q r (2 * q + 1)) = Some (2 * int c * q + 1)"
  using mersenne_search [OF assms(1-6)] assms(7) by auto

theorem mersenne_finds_first_factor_witness:
  "Option.bind (shift_up (word_of_int 11)) (\<lambda>r. factor_loop 11 r (2 * 11 + 1)) = Some 23"
  using mersenne_finds_first_factor [of 11 1] by simp

lemma number_programs_pass:
  "fact_main = Some 0" "fib_main = Some 0" "pascal_main = Some 0" "goldbach_main = Some 0"
  "prime_main = Some 0" "mersenne_main = Some 0" "leap_year_main = Some 0" "shuixianhua_main = Some 0"
  "wanshu_main = Some 0" "sum_main = Some 0" "recursion_main = Some 0" "div_main = Some 0"
  "matrix_mul_main = Some 0" "if_else_main = Some 0" "switch_main = Some 0"
  by (rule fact_passes fib_passes pascal_passes goldbach_passes prime_passes mersenne_passes
      leap_year_passes shuixianhua_passes wanshu_passes sum_passes recursion_passes div_passes
      matrix_mul_passes if_else_passes switch_passes)+

end
