(* ===== verification/Tests_Machine.thy ===== *)
theory Tests_Machine
  imports Tests_Number
begin

text \<open>
  The programs among the processor tests that exercise machine words and bytes:
  \<open>software-test/cpu-tests/tests\<close>, the files \<open>add.c\<close>, \<open>add-longlong.c\<close>, \<open>sub-longlong.c\<close>,
  \<open>mul-longlong.c\<close>, \<open>max.c\<close>, \<open>min3.c\<close>, \<open>shift.c\<close>, \<open>load-store.c\<close>, \<open>unalign.c\<close>, \<open>mov-c.c\<close>, \<open>movsx.c\<close>,
  \<open>to-lower-case.c\<close>, \<open>bit.c\<close>, \<open>crc32.c\<close> and \<open>dummy.c\<close>.

  Integers are words of their width.  Sums, differences and products of signed values are \<open>None\<close> when
  they do not fit, since signed overflow is undefined; comparisons of signed values go through \<open>sint\<close>, and
  conversions are \<open>ucast\<close> and \<open>scast\<close>.  Memory is little-endian and \<open>char\<close> is unsigned, as on RISC-V.
  load-store.c and unalign.c access words through pointers that need not be aligned, which C leaves
  undefined and the processor may or may not support: \<open>mis\<close> says whether it does, and \<open>base\<close> is the
  address of the array.
\<close>

section \<open>Model\<close>

subsection \<open>Tables of a binary operation\<close>

text \<open>The two nested loops of \<open>main\<close> in add.c and max.c, and those of the two long long variants.\<close>

definition table_main :: "(u32 \<Rightarrow> u32 \<Rightarrow> u32 option) \<Rightarrow> u32 list \<Rightarrow> u32 list \<Rightarrow> int option" where
  "table_main f test_data ans =
    for_to 1 0 8 (\<lambda>i ans_idx next_i.
      for_to 1 0 8 (\<lambda>j ans_idx next_j. do {
        x \<leftarrow> aget test_data i;
        y \<leftarrow> aget test_data j;
        z \<leftarrow> aget ans ans_idx;
        c \<leftarrow> f x y;
        check (c = z) (next_j (ans_idx + 1))
      }) ans_idx (\<lambda>j ans_idx. check (j = 8) (next_i ans_idx))) 0 (\<lambda>i _. check (i = 8) (Some 0))"

definition table_ll_main :: "(u64 \<Rightarrow> u64 \<Rightarrow> u64 option) \<Rightarrow> u64 list \<Rightarrow> u64 list \<Rightarrow> int option" where
  "table_ll_main f test_data ans =
    for_to 1 0 8 (\<lambda>i ans_idx next_i.
      for_to 1 0 8 (\<lambda>j ans_idx next_j. do {
        x \<leftarrow> aget test_data i;
        y \<leftarrow> aget test_data j;
        z \<leftarrow> aget ans ans_idx;
        c \<leftarrow> f x y;
        check (c = z) (next_j (ans_idx + 1))
      }) ans_idx (\<lambda>_ ans_idx. next_i ans_idx)) 0 (\<lambda>_ _. Some 0)"

definition add_c :: "u32 \<Rightarrow> u32 \<Rightarrow> u32 option" where
  "add_c a b = map_option word_of_int (i32 (sint a + sint b))"

definition add_data :: "u32 list" where
  "add_data = [0, 1, 2, 0x7fffffff, 0x80000000, 0x80000001, 0xfffffffe, 0xffffffff]"

definition add_ans :: "u32 list" where
  "add_ans = [0, 0x1, 0x2, 0x7fffffff, 0x80000000, 0x80000001, 0xfffffffe, 0xffffffff, 0x1, 0x2, 0x3, 0x80000000,
    0x80000001, 0x80000002, 0xffffffff, 0, 0x2, 0x3, 0x4, 0x80000001, 0x80000002, 0x80000003, 0, 0x1,
    0x7fffffff, 0x80000000, 0x80000001, 0xfffffffe, 0xffffffff, 0, 0x7ffffffd, 0x7ffffffe, 0x80000000,
    0x80000001, 0x80000002, 0xffffffff, 0, 0x1, 0x7ffffffe, 0x7fffffff, 0x80000001, 0x80000002,
    0x80000003, 0, 0x1, 0x2, 0x7fffffff, 0x80000000, 0xfffffffe, 0xffffffff, 0, 0x7ffffffd, 0x7ffffffe,
    0x7fffffff, 0xfffffffc, 0xfffffffd, 0xffffffff, 0, 0x1, 0x7ffffffe, 0x7fffffff, 0x80000000,
    0xfffffffd, 0xfffffffe]"

definition add_main :: "int option" where
  "add_main = table_main add_c add_data add_ans"

definition add_ll :: "u64 \<Rightarrow> u64 \<Rightarrow> u64 option" where
  "add_ll a b = map_option word_of_int (i64 (sint a + sint b))"

definition ll_data :: "u64 list" where
  "ll_data = [0, 1, 2, 0x7fffffffffffffff, 0x8000000000000000, 0x8000000000000001, 0xfffffffffffffffe,
    0xffffffffffffffff]"

definition add_ll_ans :: "u64 list" where
  "add_ll_ans = [0, 0x1, 0x2, 0x7fffffffffffffff, 0x8000000000000000, 0x8000000000000001, 0xfffffffffffffffe,
    0xffffffffffffffff, 0x1, 0x2, 0x3, 0x8000000000000000, 0x8000000000000001, 0x8000000000000002,
    0xffffffffffffffff, 0, 0x2, 0x3, 0x4, 0x8000000000000001, 0x8000000000000002, 0x8000000000000003,
    0, 0x1, 0x7fffffffffffffff, 0x8000000000000000, 0x8000000000000001, 0xfffffffffffffffe,
    0xffffffffffffffff, 0, 0x7ffffffffffffffd, 0x7ffffffffffffffe, 0x8000000000000000,
    0x8000000000000001, 0x8000000000000002, 0xffffffffffffffff, 0, 0x1, 0x7ffffffffffffffe,
    0x7fffffffffffffff, 0x8000000000000001, 0x8000000000000002, 0x8000000000000003, 0, 0x1, 0x2,
    0x7fffffffffffffff, 0x8000000000000000, 0xfffffffffffffffe, 0xffffffffffffffff, 0,
    0x7ffffffffffffffd, 0x7ffffffffffffffe, 0x7fffffffffffffff, 0xfffffffffffffffc, 0xfffffffffffffffd,
    0xffffffffffffffff, 0, 0x1, 0x7ffffffffffffffe, 0x7fffffffffffffff, 0x8000000000000000,
    0xfffffffffffffffd, 0xfffffffffffffffe]"

definition add_longlong_main :: "int option" where
  "add_longlong_main = table_ll_main add_ll ll_data add_ll_ans"

definition sub_ll :: "u64 \<Rightarrow> u64 \<Rightarrow> u64 option" where
  "sub_ll a b = map_option word_of_int (i64 (sint a - sint b))"

definition sub_ll_ans :: "u64 list" where
  "sub_ll_ans = [0, 0xffffffffffffffff, 0xfffffffffffffffe, 0x8000000000000001, 0x8000000000000000,
    0x7fffffffffffffff, 0x2, 0x1, 0x1, 0, 0xffffffffffffffff, 0x8000000000000002, 0x8000000000000001,
    0x8000000000000000, 0x3, 0x2, 0x2, 0x1, 0, 0x8000000000000003, 0x8000000000000002,
    0x8000000000000001, 0x4, 0x3, 0x7fffffffffffffff, 0x7ffffffffffffffe, 0x7ffffffffffffffd, 0,
    0xffffffffffffffff, 0xfffffffffffffffe, 0x8000000000000001, 0x8000000000000000, 0x8000000000000000,
    0x7fffffffffffffff, 0x7ffffffffffffffe, 0x1, 0, 0xffffffffffffffff, 0x8000000000000002,
    0x8000000000000001, 0x8000000000000001, 0x8000000000000000, 0x7fffffffffffffff, 0x2, 0x1, 0,
    0x8000000000000003, 0x8000000000000002, 0xfffffffffffffffe, 0xfffffffffffffffd, 0xfffffffffffffffc,
    0x7fffffffffffffff, 0x7ffffffffffffffe, 0x7ffffffffffffffd, 0, 0xffffffffffffffff,
    0xffffffffffffffff, 0xfffffffffffffffe, 0xfffffffffffffffd, 0x8000000000000000, 0x7fffffffffffffff,
    0x7ffffffffffffffe, 0x1, 0]"

definition sub_longlong_main :: "int option" where
  "sub_longlong_main = table_ll_main sub_ll ll_data sub_ll_ans"

definition max_c :: "u32 \<Rightarrow> u32 \<Rightarrow> u32" where
  "max_c x y = (if sint x > sint y then x else y)"

definition max_ans :: "u32 list" where
  "max_ans = [0, 0x1, 0x2, 0x7fffffff, 0, 0, 0, 0, 0x1, 0x1, 0x2, 0x7fffffff, 0x1, 0x1, 0x1, 0x1, 0x2, 0x2, 0x2,
    0x7fffffff, 0x2, 0x2, 0x2, 0x2, 0x7fffffff, 0x7fffffff, 0x7fffffff, 0x7fffffff, 0x7fffffff,
    0x7fffffff, 0x7fffffff, 0x7fffffff, 0, 0x1, 0x2, 0x7fffffff, 0x80000000, 0x80000001, 0xfffffffe,
    0xffffffff, 0, 0x1, 0x2, 0x7fffffff, 0x80000001, 0x80000001, 0xfffffffe, 0xffffffff, 0, 0x1, 0x2,
    0x7fffffff, 0xfffffffe, 0xfffffffe, 0xfffffffe, 0xffffffff, 0, 0x1, 0x2, 0x7fffffff, 0xffffffff,
    0xffffffff, 0xffffffff, 0xffffffff]"

definition max_main :: "int option" where
  "max_main = table_main (\<lambda>x y. Some (max_c x y)) add_data max_ans"

subsection \<open>mul-longlong.c\<close>

definition mul_ll :: "u64 \<Rightarrow> u64 \<Rightarrow> u64 option" where
  "mul_ll a b = map_option word_of_int (i64 (sint a * sint b))"

definition mul_data :: "u32 list" where
  "mul_data = [0xaeb1c2aa, 0x4500ff2b, 0x877190af, 0x11f42438]"

definition mul_ans :: "u64 list" where
  "mul_ans = [0x19d29ab9db1a18e4, 0xea15986d3ac3088e, 0x2649e980fc0db236, 0xfa4c43da0a4a7d30, 0x1299898e2c56b139,
    0xdf8123d50a319e65, 0x4d6dfa84c15dd68, 0x38c5d79b9e4357a1, 0xf78b91cb1efc4248, 0x14255a47fdfcc40]"

definition mul_longlong_main :: "int option" where
  "mul_longlong_main =
    for_to 1 0 4 (\<lambda>i ans_idx next_i.
      for_to 1 i 4 (\<lambda>j ans_idx next_j. do {
        z \<leftarrow> aget mul_ans ans_idx;
        x \<leftarrow> aget mul_data i;
        y \<leftarrow> aget mul_data j;
        c \<leftarrow> mul_ll (scast x) (scast y);
        check (z = c) (next_j (ans_idx + 1))
      }) ans_idx (\<lambda>j ans_idx. check (j = 4) (next_i ans_idx))) 0 (\<lambda>i _. check (i = 4) (Some 0))"

subsection \<open>min3.c\<close>

definition min3 :: "u32 \<Rightarrow> u32 \<Rightarrow> u32 \<Rightarrow> u32" where
  "min3 x y z =
    (let m = (if sint x < sint y then x else y) in if sint z < sint m then z else m)"

definition min3_data :: "u32 list" where
  "min3_data = [0, 0x7fffffff, 0x80000000, 0xffffffff]"

definition min3_ans :: "u32 list" where
  "min3_ans = [0, 0, - 2147483648, - 1, 0, 0, - 2147483648, - 1, - 2147483648, - 2147483648, - 2147483648,
    - 2147483648, - 1, - 1, - 2147483648, - 1, 0, 0, - 2147483648, - 1, 0, 2147483647, - 2147483648,
    - 1, - 2147483648, - 2147483648, - 2147483648, - 2147483648, - 1, - 1, - 2147483648, - 1,
    - 2147483648, - 2147483648, - 2147483648, - 2147483648, - 2147483648, - 2147483648, - 2147483648,
    - 2147483648, - 2147483648, - 2147483648, - 2147483648, - 2147483648, - 2147483648, - 2147483648,
    - 2147483648, - 2147483648, - 1, - 1, - 2147483648, - 1, - 1, - 1, - 2147483648, - 1, - 2147483648,
    - 2147483648, - 2147483648, - 2147483648, - 1, - 1, - 2147483648, - 1]"

definition min3_main :: "int option" where
  "min3_main =
    for_to 1 0 4 (\<lambda>i ans_idx next_i.
      for_to 1 0 4 (\<lambda>j ans_idx next_j.
        for_to 1 0 4 (\<lambda>k ans_idx next_k. do {
          x \<leftarrow> aget min3_data i;
          y \<leftarrow> aget min3_data j;
          z \<leftarrow> aget min3_data k;
          a \<leftarrow> aget min3_ans ans_idx;
          check (min3 x y z = a) (next_k (ans_idx + 1))
        }) ans_idx (\<lambda>k ans_idx. check (k = 4) (next_j ans_idx)))
      ans_idx (\<lambda>j ans_idx. check (j = 4) (next_i ans_idx))) 0 (\<lambda>i _. check (i = 4) (Some 0))"

subsection \<open>shift.c\<close>

definition shift_test :: "u32 list" where
  "shift_test = [0x12345678, 0x98765432, 0x0, 0xeffa1000, 0x7fffffff, 0x80000000, 0x33, 0xffffffff]"

definition srl_ans :: "u32 list" where
  "srl_ans = [0x2468ac, 0x130eca8, 0x0, 0x1dff420, 0xffffff, 0x1000000, 0x0, 0x1ffffff]"

definition srlv_ans :: "u32 list" where
  "srlv_ans = [0x1234567, 0x4c3b2a1, 0x0, 0x1dff420, 0x7fffff, 0x400000, 0x0, 0x1fffff]"

definition srav_ans :: "u32 list" where
  "srav_ans = [0x1234567, 0xfcc3b2a1, 0x0, 0xffdff420, 0x7fffff, 0xffc00000, 0x0, 0xffffffff]"

definition shift_main :: "int option" where
  "shift_main =
    for_to 1 0 8 (\<lambda>i _ k. do {
      x \<leftarrow> aget shift_test i; a \<leftarrow> aget srl_ans i;
      check (drop_bit 7 x = a) (k ())
    }) () (\<lambda>_ _.
    for_to 1 0 8 (\<lambda>i _ k. do {
      x \<leftarrow> aget shift_test i; a \<leftarrow> aget srav_ans i;
      check (signed_drop_bit (nat (i + 4)) x = a) (k ())
    }) () (\<lambda>_ _.
    for_to 1 0 8 (\<lambda>i _ k. do {
      x \<leftarrow> aget shift_test i; a \<leftarrow> aget srlv_ans i;
      check (drop_bit (nat (i + 4)) x = a) (k ())
    }) () (\<lambda>_ _. Some 0)))"

subsection \<open>load-store.c\<close>

definition ls_mem :: "u16 list" where
  "ls_mem = [0x0, 0x0258, 0x4abc, 0x7fff, 0x8000, 0x8100, 0xabcd, 0xffff]"

definition lh_ans :: "u32 list" where
  "lh_ans = [0x00000000, 0x00000258, 0x00004abc, 0x00007fff, 0xffff8000, 0xffff8100, 0xffffabcd, 0xffffffff]"

definition lhu_ans :: "u32 list" where
  "lhu_ans = [0x00000000, 0x00000258, 0x00004abc, 0x00007fff, 0x00008000, 0x00008100, 0x0000abcd, 0x0000ffff]"

definition sh_ans :: "u32 list" where
  "sh_ans = [0x0000fffd, 0x0000fff7, 0x0000ffdf, 0x0000ff7f, 0x0000fdff, 0x0000f7ff, 0x0000dfff, 0x00007fff]"

definition lwlr_ans :: "u32 list" where
  "lwlr_ans = [0xbc025800, 0x7fff4a, 0xcd810080, 0xffffab]"

text \<open>An array of 16-bit words seen as bytes, and the 32-bit word at a byte offset in an array at
  \<open>base\<close>.\<close>

definition bytes_of_halves :: "u16 list \<Rightarrow> u8 list" where
  "bytes_of_halves m = concat (map (\<lambda>h. [ucast h, ucast (drop_bit 8 h)]) m)"

definition load_word :: "bool \<Rightarrow> int \<Rightarrow> u8 list \<Rightarrow> int \<Rightarrow> u32 option" where
  "load_word mis base m a = (if \<not> mis \<and> (base + a) mod 4 \<noteq> 0 then None else do {
     b0 \<leftarrow> aget m a; b1 \<leftarrow> aget m (a + 1); b2 \<leftarrow> aget m (a + 2); b3 \<leftarrow> aget m (a + 3);
     Some (ucast b0 OR push_bit 8 (ucast b1) OR push_bit 16 (ucast b2) OR push_bit 24 (ucast b3))
   })"

definition store_word :: "bool \<Rightarrow> int \<Rightarrow> u8 list \<Rightarrow> int \<Rightarrow> u32 \<Rightarrow> u8 list option" where
  "store_word mis base m a w = (if \<not> mis \<and> (base + a) mod 4 \<noteq> 0 then None else do {
     m \<leftarrow> aset m a (ucast w); m \<leftarrow> aset m (a + 1) (ucast (drop_bit 8 w));
     m \<leftarrow> aset m (a + 2) (ucast (drop_bit 16 w)); aset m (a + 3) (ucast (drop_bit 24 w))
   })"

definition load_store_main :: "bool \<Rightarrow> int \<Rightarrow> int option" where
  "load_store_main mis base =
    for_to 1 0 8 (\<lambda>i _ k. do {
      x \<leftarrow> aget ls_mem i; a \<leftarrow> aget lh_ans i;
      check (scast x = a) (k ())
    }) () (\<lambda>_ _.
    for_to 1 0 8 (\<lambda>i _ k. do {
      x \<leftarrow> aget ls_mem i; a \<leftarrow> aget lhu_ans i;
      check (ucast x = a) (k ())
    }) () (\<lambda>_ _.
    for_to 1 0 3 (\<lambda>i _ k. do {
      x \<leftarrow> load_word mis base (bytes_of_halves ls_mem) (1 + 4 * i); a \<leftarrow> aget lwlr_ans i;
      check (x = a) (k ())
    }) () (\<lambda>_ _.
    for_to 1 0 8 (\<lambda>i m k. do {
      m \<leftarrow> aset m i (ucast (NOT (push_bit (nat (2 * i + 1)) 1 :: u32)));
      x \<leftarrow> aget m i; a \<leftarrow> aget sh_ans i;
      check (ucast x = a) (k m)
    }) ls_mem (\<lambda>_ _. Some 0))))"

subsection \<open>unalign.c\<close>

definition unalign_main :: "bool \<Rightarrow> int \<Rightarrow> int option" where
  "unalign_main mis base =
    for_to 1 0 4 (\<lambda>i buf k. do {
      buf \<leftarrow> store_word mis base buf 3 0xaabbccdd;
      x \<leftarrow> load_word mis base buf 3;
      check (x = 0xaabbccdd) (do {
        buf \<leftarrow> aset buf 1 0;
        buf \<leftarrow> aset buf 0 0;
        k buf
      })
    }) (replicate 16 0) (\<lambda>_ _. Some 0)"

subsection \<open>mov-c.c and movsx.c\<close>

definition mov_init :: "(u32 list \<times> u32) option" where
  "mov_init = do {
     A \<leftarrow> aset (replicate 10 0) 0 0; A \<leftarrow> aset A 1 1; A \<leftarrow> aset A 2 2; A \<leftarrow> aset A 3 3; A \<leftarrow> aset A 4 4;
     b \<leftarrow> aget A 3;
     A \<leftarrow> aset A 5 b;
     Some (A, b)
   }"

definition mov_c_main :: "int option" where
  "mov_c_main = do {
     (A, b) \<leftarrow> mov_init;
     a0 \<leftarrow> aget A 0; a1 \<leftarrow> aget A 1; a2 \<leftarrow> aget A 2; a3 \<leftarrow> aget A 3; a4 \<leftarrow> aget A 4; a5 \<leftarrow> aget A 5;
     check (a0 = 0) (check (a1 = 1) (check (a2 = 2) (check (a3 = 3) (check (a4 = 4)
       (check (b = 3) (check (a5 = 3) (Some 0)))))))
   }"

definition movsx_main :: "int option" where
  "movsx_main = do {
     (A, b) \<leftarrow> mov_init;
     C \<leftarrow> aset (replicate 10 0 :: u8 list) 0 97;
     c0 \<leftarrow> aget C 0;
     check (scast c0 = (97 :: u32)) (do {
       C \<leftarrow> aset C 1 c0;
       c1 \<leftarrow> aget C 1;
       check (scast c1 = (97 :: u32)) (do {
         c0 \<leftarrow> aget C 0;
         A \<leftarrow> aset A 0 (scast c0);
         a0 \<leftarrow> aget A 0;
         check (a0 = 97) (do {
           C \<leftarrow> aset C 1 0x80;
           c1 \<leftarrow> aget C 1;
           A \<leftarrow> aset A 0 (scast c1);
           a0 \<leftarrow> aget A 0; a1 \<leftarrow> aget A 1; a2 \<leftarrow> aget A 2; a3 \<leftarrow> aget A 3; a4 \<leftarrow> aget A 4; a5 \<leftarrow> aget A 5;
           check (a1 = 1) (check (a2 = 2) (check (a3 = 3) (check (a4 = 4) (check (b = 3)
             (check (a5 = 3) (check (scast c1 = (0xffffff80 :: u32)) (check (a0 = 0xffffff80) (Some 0))))))))
         })
       })
     })
   }"

subsection \<open>to-lower-case.c\<close>

definition to_lower_case :: "u8 \<Rightarrow> u8" where
  "to_lower_case c = (if 65 \<le> c \<and> c \<le> 90 then c + 32 else c)"

definition lower_ans :: "u8 list" where
  "lower_ans = map of_nat ([0..<65] @ [97..<123] @ [91..<128])"

definition to_lower_case_main :: "int option" where
  "to_lower_case_main = for_to 1 0 128 (\<lambda>i _ k. do {
     a \<leftarrow> aget lower_ans i;
     check (to_lower_case (word_of_int i) = a) (k ())
   }) () (\<lambda>_ _. Some 0)"

subsection \<open>bit.c\<close>

definition getbit :: "u8 list \<Rightarrow> int \<Rightarrow> bool option" where
  "getbit buf offset = do {
     let byte = offset div 8;
     let offset = offset mod 8;
     let mask = push_bit (nat offset) 1;
     x \<leftarrow> aget buf byte;
     Some (x AND mask \<noteq> 0)
   }"

definition setbit :: "u8 list \<Rightarrow> int \<Rightarrow> bool \<Rightarrow> u8 list option" where
  "setbit buf offset b = do {
     let byte = offset div 8;
     let offset = offset mod 8;
     let mask = push_bit (nat offset) 1;
     x \<leftarrow> aget buf byte;
     aset buf byte (if \<not> b then x AND NOT mask else x OR mask)
   }"

fun check_bits :: "u8 list \<Rightarrow> (int \<times> bool) list \<Rightarrow> int option \<Rightarrow> int option" where
  "check_bits buf [] rest = rest"
| "check_bits buf ((i, v) # xs) rest = do { b \<leftarrow> getbit buf i; check (b = v) (check_bits buf xs rest) }"

fun set_bits :: "u8 list \<Rightarrow> (int \<times> bool) list \<Rightarrow> u8 list option" where
  "set_bits buf [] = Some buf"
| "set_bits buf ((i, v) # xs) = do { buf \<leftarrow> setbit buf i v; set_bits buf xs }"

definition bit_main :: "int option" where
  "bit_main = (
     let buf = [0xaa, 0] in
     check_bits buf [(0, False), (1, True), (2, False), (3, True), (4, False), (5, True), (6, False), (7, True)]
       (do {
         buf \<leftarrow> set_bits buf [(8, True), (9, False), (10, True), (11, False), (12, True), (13, False), (14, True), (15, False)];
         x \<leftarrow> aget buf 1;
         check (x = 0x55) (Some 0)
       }))"

subsection \<open>crc32.c\<close>

text \<open>The static variables of \<open>rc_crc32\<close>.\<close>

record crc_state =
  crc_table :: "u32 list"
  have_table :: bool

definition crc_init :: crc_state where
  "crc_init = \<lparr>crc_table = replicate 256 0, have_table = False\<rparr>"

definition crc_rem_step :: "u32 \<Rightarrow> u32" where
  "crc_rem_step rem = (if rem AND 1 \<noteq> 0 then drop_bit 1 rem XOR 0xedb88320 else drop_bit 1 rem)"

definition build_table :: "u32 list" where
  "build_table = map (\<lambda>i. (crc_rem_step ^^ 8) (of_nat i)) [0..<256]"

fun crc_loop :: "u32 list \<Rightarrow> u32 \<Rightarrow> u8 list \<Rightarrow> u32 option" where
  "crc_loop table crc [] = Some crc"
| "crc_loop table crc (p # buf) = do {
     t \<leftarrow> aget table (uint ((crc AND 0xff) XOR ucast p));
     crc_loop table (drop_bit 8 crc XOR t) buf
   }"

definition rc_crc32 :: "u32 \<Rightarrow> u8 list \<Rightarrow> crc_state \<Rightarrow> (u32 \<times> crc_state) option" where
  "rc_crc32 crc buf s = do {
     let s = (if \<not> have_table s then s\<lparr>crc_table := build_table, have_table := True\<rparr> else s);
     crc \<leftarrow> crc_loop (crc_table s) (NOT crc) buf;
     Some (NOT crc, s)
   }"

definition crc_str :: "u8 list" where
  "crc_str = map (of_nat \<circ> of_char) ''The quick brown fox jumps over the lazy dog''"

definition crc32_main :: "int option" where
  "crc32_main = do {
     (res, s) \<leftarrow> rc_crc32 0 crc_str crc_init;
     check (res = 0x414FA339) (Some 0)
   }"

subsection \<open>dummy.c\<close>

definition dummy_main :: "int option" where
  "dummy_main = Some 0"

section \<open>Evaluation of the programs\<close>

text \<open>The sums and differences in the first three tables overflow; the tables hold them modulo the width.\<close>

lemma add_overflows: "add_main = None"
  by (simp add: add_main_def table_main_def add_c_def add_data_def add_ans_def eval_rules cong: bind_weak)

lemma add_longlong_overflows: "add_longlong_main = None"
  by (simp add: add_longlong_main_def table_ll_main_def add_ll_def i64_def ll_data_def add_ll_ans_def eval_rules cong: bind_weak)

lemma sub_longlong_overflows: "sub_longlong_main = None"
  by (simp add: sub_longlong_main_def table_ll_main_def sub_ll_def i64_def ll_data_def sub_ll_ans_def eval_rules cong: bind_weak)

lemma add_wraps: "table_main (\<lambda>x y. Some (x + y)) add_data add_ans = Some 0"
  by (simp add: table_main_def add_data_def add_ans_def eval_rules cong: bind_weak)

lemma add_longlong_wraps: "table_ll_main (\<lambda>x y. Some (x + y)) ll_data add_ll_ans = Some 0"
  by (simp add: table_ll_main_def ll_data_def add_ll_ans_def eval_rules cong: bind_weak)

lemma sub_longlong_wraps: "table_ll_main (\<lambda>x y. Some (x - y)) ll_data sub_ll_ans = Some 0"
  by (simp add: table_ll_main_def ll_data_def sub_ll_ans_def eval_rules cong: bind_weak)

lemma max_passes: "max_main = Some 0"
  by (simp add: max_main_def table_main_def max_c_def add_data_def max_ans_def eval_rules cong: bind_weak)

lemma mul_longlong_passes: "mul_longlong_main = Some 0"
  by (simp add: mul_longlong_main_def mul_ll_def i64_def mul_data_def mul_ans_def eval_rules cong: bind_weak)

lemma min3_passes: "min3_main = Some 0"
  by (simp add: min3_main_def min3_def min3_data_def min3_ans_def eval_rules cong: bind_weak)

lemma shift_passes: "shift_main = Some 0"
  by (simp add: shift_main_def shift_test_def srl_ans_def srlv_ans_def srav_ans_def eval_rules cong: bind_weak)

lemma load_store_passes: "load_store_main True base = Some 0"
  by (simp add: load_store_main_def ls_mem_def lh_ans_def lhu_ans_def sh_ans_def lwlr_ans_def
      bytes_of_halves_def load_word_def eval_rules cong: bind_weak)

lemma load_store_undefined: "load_store_main False (2 * n) = None"
proof -
  have "(2 * n + 1) mod 4 \<noteq> 0" by presburger
  then show ?thesis
    by (simp add: load_store_main_def ls_mem_def lh_ans_def lhu_ans_def load_word_def eval_rules cong: bind_weak)
qed

lemma unalign_passes: "unalign_main mis base = (if mis \<or> base mod 4 = 1 then Some 0 else None)"
proof -
  have "(base + 3) mod 4 = 0 \<longleftrightarrow> base mod 4 = 1" by presburger
  then show ?thesis
    by (simp add: unalign_main_def store_word_def load_word_def eval_rules cong: bind_weak)
qed

lemma mov_c_passes: "mov_c_main = Some 0"
  by (simp add: mov_c_main_def mov_init_def eval_rules cong: bind_weak)

lemma movsx_passes: "movsx_main = Some 0"
  by (simp add: movsx_main_def mov_init_def eval_rules cong: bind_weak)

lemma to_lower_case_passes: "to_lower_case_main = Some 0"
proof -
  have "list_all (\<lambda>i. to_lower_case (word_of_int i) = lower_ans ! nat i) [0..127]" "length lower_ans = 128"
    by code_simp+
  then have "aget lower_ans i = Some (to_lower_case (word_of_int i))" if "0 \<le> i" "i < 128" for i
    using that by (auto simp: aget_def list_all_iff)
  then show ?thesis
    unfolding to_lower_case_main_def by (subst for_to_goes_on) (auto simp: check_def)
qed

lemma bit_passes: "bit_main = Some 0"
  by (simp add: bit_main_def getbit_def setbit_def eval_rules cong: bind_weak)


section \<open>Bit arrays\<close>

lemma and_exp_eq_0: "(x :: u8) AND 2 ^ k = 0 \<longleftrightarrow> \<not> bit x k"
  by (simp add: bit_iff_and_push_bit_not_eq_0 flip: push_bit_of_1)

lemma bit_u8: "bit (x :: u8) n \<Longrightarrow> n < 8"
  using bit_imp_le_length [of x n] by simp

lemma getbit_eq:
  "getbit buf i = (if 0 \<le> i \<and> i < 8 * int (length buf) then Some (bit (buf ! nat (i div 8)) (nat (i mod 8))) else None)"
proof -
  have "0 \<le> i div 8 \<and> i div 8 < int (length buf) \<longleftrightarrow> 0 \<le> i \<and> i < 8 * int (length buf)" by linarith
  then show ?thesis by (auto simp: getbit_def aget_def and_exp_eq_0 Let_def)
qed

lemma setbit_eq:
  assumes "0 \<le> i" "i < 8 * int (length buf)"
  shows "setbit buf i v = Some (buf[nat (i div 8) :=
    (if v then set_bit (nat (i mod 8)) (buf ! nat (i div 8)) else unset_bit (nat (i mod 8)) (buf ! nat (i div 8)))])"
proof -
  have "0 \<le> i div 8" "i div 8 < int (length buf)" using assms by linarith+
  then show ?thesis by (simp add: setbit_def aget_def aset_def set_bit_eq_or unset_bit_eq_and_not Let_def)
qed

lemma setbit_getbit:
  assumes "0 \<le> i" "i < 8 * int (length buf)"
  shows "\<exists>buf'. setbit buf i v = Some buf' \<and> length buf' = length buf
    \<and> (\<forall>j. getbit buf' j = (if j = i then Some v else getbit buf j))"
proof -
  let ?b = "buf[nat (i div 8) := (if v then set_bit (nat (i mod 8)) (buf ! nat (i div 8)) else unset_bit (nat (i mod 8)) (buf ! nat (i div 8)))]"
  have n: "nat (i div 8) < length buf" "nat (i mod 8) < 8" using assms by linarith+
  have "getbit ?b j = (if j = i then Some v else getbit buf j)" for j
  proof (cases "0 \<le> j \<and> j < 8 * int (length buf) \<and> nat (j div 8) = nat (i div 8)")
    case True
    then have d: "j div 8 = i div 8" using assms by linarith
    have "nat (j mod 8) = nat (i mod 8) \<longleftrightarrow> j = i"
    proof
      assume "nat (j mod 8) = nat (i mod 8)"
      then have "j mod 8 = i mod 8" by (simp add: nat_eq_iff2)
      then show "j = i" using d by (metis div_mult_mod_eq)
    qed simp
    then show ?thesis using True n d assms
      by (auto simp: getbit_eq bit_set_bit_iff bit_unset_bit_iff)
  next
    case False
    then show ?thesis using assms by (auto simp: getbit_eq)
  qed
  then show ?thesis using setbit_eq [OF assms, of v] by auto
qed

section \<open>CRC-32\<close>

text \<open>The checksum bit by bit: the polynomial division of one byte.\<close>

definition crc32_byte :: "u32 \<Rightarrow> u8 \<Rightarrow> u32" where
  "crc32_byte crc b = ((\<lambda>r. drop_bit 1 r XOR (if odd r then 0xEDB88320 else 0)) ^^ 8) (crc XOR ucast b)"

lemma crc_rem_step_eq: "crc_rem_step = (\<lambda>r. drop_bit 1 r XOR (if odd r then 0xEDB88320 else 0))"
  by (rule ext) (auto simp: crc_rem_step_def and_one_eq odd_iff_mod_2_eq_one)

lemma crc_rem_step_xor: "crc_rem_step (x XOR y) = crc_rem_step x XOR crc_rem_step y"
proof -
  have "odd (x XOR y) \<longleftrightarrow> odd x \<noteq> odd y" by (simp add: bit_simps flip: bit_0)
  then show ?thesis by (auto simp: crc_rem_step_eq drop_bit_xor ac_simps)
qed

lemma crc_rem_steps_xor: "(crc_rem_step ^^ k) (x XOR y) = (crc_rem_step ^^ k) x XOR (crc_rem_step ^^ k) y"
  by (induction k) (simp_all add: crc_rem_step_xor)

lemma crc_rem_steps_high: "take_bit k x = 0 \<Longrightarrow> (crc_rem_step ^^ k) x = drop_bit k x"
proof (induction k arbitrary: x)
  case (Suc k)
  have b: "\<not> bit x i" if "i < Suc k" for i
  proof -
    have "bit (take_bit (Suc k) x) i \<longleftrightarrow> i < Suc k \<and> bit x i" by (simp add: bit_take_bit_iff)
    then show ?thesis using Suc.prems that by simp
  qed
  then have "take_bit k x = 0" by (intro bit_word_eqI) (auto simp: bit_take_bit_iff)
  then have "(crc_rem_step ^^ Suc k) x = crc_rem_step (drop_bit k x)" using Suc.IH by simp
  also have "even (drop_bit k x)" using b [of k] by (simp add: bit_iff_odd_drop_bit)
  then have "crc_rem_step (drop_bit k x) = drop_bit (Suc k) x" by (simp add: crc_rem_step_eq drop_bit_drop_bit)
  finally show ?case .
qed simp

lemma crc_byte_step:
  "drop_bit 8 crc XOR (crc_rem_step ^^ 8) ((crc AND 0xff) XOR ucast p) = crc32_byte crc p"
proof -
  let ?x = "crc XOR ucast p"
  have m: "(0xff :: u32) = mask 8" by (simp add: mask_eq_exp_minus_1)
  have lo: "(crc AND 0xff) XOR ucast p = take_bit 8 ?x"
    unfolding m by (rule bit_word_eqI) (auto simp: bit_simps dest: bit_u8)
  define h where "h = ?x XOR take_bit 8 ?x"
  have hi: "?x = h XOR take_bit 8 ?x" by (simp add: h_def xor.assoc)
  have "take_bit 8 h = 0"
    unfolding h_def by (rule bit_word_eqI) (auto simp: bit_simps)
  then have "(crc_rem_step ^^ 8) (h XOR take_bit 8 ?x) = drop_bit 8 h XOR (crc_rem_step ^^ 8) (take_bit 8 ?x)"
    using crc_rem_steps_high [of 8 h] by (simp only: crc_rem_steps_xor)
  then have "(crc_rem_step ^^ 8) ?x = drop_bit 8 h XOR (crc_rem_step ^^ 8) (take_bit 8 ?x)"
    unfolding hi [symmetric] .
  also have "drop_bit 8 h = drop_bit 8 crc"
    unfolding h_def by (rule bit_word_eqI) (auto simp: bit_simps dest: bit_u8)
  finally show ?thesis unfolding lo by (simp add: crc32_byte_def crc_rem_step_eq)
qed

lemma nth_tabulate: "i < n \<Longrightarrow> map f [0..<n] ! i = f i" "length (map f [0..<n]) = n"
  by simp_all

lemma build_table_nth: "i < 256 \<Longrightarrow> build_table ! i = (crc_rem_step ^^ 8) (of_nat i)" "length build_table = 256"
  unfolding build_table_def by (rule nth_tabulate, assumption?)+

lemma table_lookup:
  "aget build_table (uint ((crc AND 0xff) XOR ucast (p :: u8))) = Some ((crc_rem_step ^^ 8) ((crc AND 0xff) XOR ucast p))"
proof -
  let ?x = "(crc AND 0xff) XOR ucast p"
  have m: "(0xff :: u32) = mask 8" by (simp add: mask_eq_exp_minus_1)
  have "?x = take_bit 8 ?x"
    unfolding m by (rule bit_word_eqI) (auto simp: bit_simps dest: bit_u8)
  then have "unat ?x = take_bit 8 (unat ?x)" by (metis unsigned_take_bit_eq)
  then have "unat ?x < 2 ^ 8" by (metis take_bit_nat_less_exp)
  then have u: "unat ?x < 256" by simp
  have "aget build_table (int (unat ?x)) = Some (build_table ! unat ?x)"
    by (rule aget_nat) (simp only: build_table_nth(2) u)
  moreover have "int (unat w) = uint w" "of_nat (unat w) = w" for w :: u32 by simp_all
  ultimately show ?thesis by (simp only: build_table_nth(1) [OF u])
qed

lemma crc_loop_correct: "crc_loop build_table crc buf = Some (foldl crc32_byte crc buf)"
  by (induction buf arbitrary: crc) (simp_all add: table_lookup crc_byte_step)

definition crc_ok :: "crc_state \<Rightarrow> bool" where
  "crc_ok s \<longleftrightarrow> (have_table s \<longrightarrow> crc_table s = build_table)"

lemma rc_crc32_correct:
  assumes "crc_ok s"
  shows "rc_crc32 crc buf s = Some (NOT (foldl crc32_byte (NOT crc) buf), \<lparr>crc_table = build_table, have_table = True\<rparr>)"
  using assms by (cases s) (auto simp: rc_crc32_def crc_ok_def crc_loop_correct)

lemma crc32_byte_eval:
  "crc32_byte crc b = crc_rem_step (crc_rem_step (crc_rem_step (crc_rem_step (crc_rem_step (crc_rem_step
    (crc_rem_step (crc_rem_step (crc XOR ucast b))))))))"
  unfolding crc32_byte_def crc_rem_step_eq [symmetric] by (simp add: eval_nat_numeral)

lemma crc32_passes: "crc32_main = Some 0"
proof -
  have "foldl crc32_byte (NOT 0) crc_str = NOT 0x414FA339"
    by (simp add: crc_str_def crc32_byte_eval crc_rem_step_def)
  moreover have "crc_ok crc_init" by (simp add: crc_ok_def crc_init_def)
  ultimately show ?thesis by (simp add: crc32_main_def rc_crc32_correct check_def)
qed

lemma machine_programs_pass:
  "max_main = Some 0" "mul_longlong_main = Some 0" "min3_main = Some 0" "shift_main = Some 0"
  "mov_c_main = Some 0" "movsx_main = Some 0" "to_lower_case_main = Some 0"
  "bit_main = Some 0" "crc32_main = Some 0" "dummy_main = Some 0"
  by (rule max_passes mul_longlong_passes min3_passes shift_passes mov_c_passes movsx_passes to_lower_case_passes
      bit_passes crc32_passes dummy_main_def)+

lemmas machine_programs_undefined =
  load_store_passes load_store_undefined unalign_passes add_overflows add_wraps add_longlong_overflows
  add_longlong_wraps sub_longlong_overflows sub_longlong_wraps

section \<open>Properties\<close>

text \<open>
  the table-driven CRC-32 of crc32.c is the bitwise one: whether the table has been built by an
  earlier call or not, the result is the complement of the polynomial division of the buffer, bit by
  bit, started from the complement of the argument; afterwards the table is built.  Feeding a
  buffer in two pieces gives the same checksum as feeding it at once.
\<close>
theorem crc32_correct:
  assumes "have_table s \<longrightarrow> crc_table s = build_table"
  shows "rc_crc32 crc buf s = Some (NOT (foldl (\<lambda>c b.
        ((\<lambda>r. drop_bit 1 r XOR (if odd r then 0xEDB88320 else 0)) ^^ 8) (c XOR ucast b)) (NOT crc) buf),
      \<lparr>crc_table = build_table, have_table = True\<rparr>)
    \<and> rc_crc32 crc (a @ b) s = Option.bind (rc_crc32 crc a s) (\<lambda>(c, s). rc_crc32 c b s)"
proof -
  have ok: "crc_ok s" "crc_ok \<lparr>crc_table = build_table, have_table = True\<rparr>"
    using assms by (simp_all add: crc_ok_def)
  have "crc32_byte = (\<lambda>c b. ((\<lambda>r. drop_bit 1 r XOR (if odd r then 0xEDB88320 else 0)) ^^ 8) (c XOR ucast b))"
    by (intro ext) (rule crc32_byte_def)
  then show ?thesis by (simp add: rc_crc32_correct [OF ok(1)] rc_crc32_correct [OF ok(2)])
qed

theorem crc32_correct_witness:
  "have_table crc_init = False \<and> rc_crc32 0 (crc_str @ crc_str) crc_init
    = Option.bind (rc_crc32 0 crc_str crc_init) (\<lambda>(c, s). rc_crc32 c crc_str s)"
  using crc32_correct [of crc_init 0 "[]" crc_str crc_str] by (simp add: crc_init_def)

text \<open>
  the bit array of bit.c.  Setting a bit inside the buffer succeeds and keeps its size; afterwards
  that bit reads as the value set, and every other offset, also outside the buffer, reads as before.
\<close>
theorem bit_array_correct:
  assumes "0 \<le> i" "i < 8 * int (length buf)"
  shows "\<exists>buf'. setbit buf i v = Some buf' \<and> length buf' = length buf
    \<and> (\<forall>j. getbit buf' j = (if j = i then Some v else getbit buf j))"
  by (rule setbit_getbit [OF assms])

theorem bit_array_correct_witness:
  "\<exists>buf'. setbit [0xaa, 0] 9 True = Some buf' \<and> length buf' = length [0xaa, 0 :: u8]
    \<and> (\<forall>j. getbit buf' j = (if j = 9 then Some True else getbit [0xaa, 0] j))"
  by (rule bit_array_correct) simp_all

end
