(* ===== verification/Klib_String.thy ===== *)
theory Klib_String
  imports Prelude
begin

text \<open>
  Strings and memory blocks: \<open>abstract-machine/klib/src/string.c\<close>.

  Memory is the flat 32-bit address space of the machine, a function from addresses to bytes;
  pointer arithmetic is that of \<open>32 word\<close>.  Loops that run up to a null byte may run forever and
  are partial functions into \<open>option\<close>; counted loops recurse on the number of rounds left.  A
  failing \<open>assert\<close> is \<open>None\<close>.  Whether \<open>char\<close> is signed depends on the target, so the
  comparisons take the value of a \<open>char\<close> as the argument \<open>cv\<close> (\<open>uint\<close> on RISC-V,
  \<open>sint\<close> on x86).  The \<open>int\<close> index of the forward loop of \<open>memmove\<close> is a word: after the last of exactly
  \<open>2 ^ 31\<close> bytes its increment, whose result is not used, would overflow in C.
\<close>

section \<open>Model\<close>

type_synonym mem = "u32 \<Rightarrow> u8"

partial_function (option) strlen_loop :: "mem \<Rightarrow> u32 \<Rightarrow> u32 \<Rightarrow> u32 option" where
  "strlen_loop m s i = (if m (s + i) \<noteq> 0 then strlen_loop m s (i + 1) else Some i)"

definition strlen :: "mem \<Rightarrow> u32 \<Rightarrow> u32 option" where
  "strlen m s = strlen_loop m s 0"

primrec copy_fwd :: "nat \<Rightarrow> u32 \<Rightarrow> u32 \<Rightarrow> u32 \<Rightarrow> mem \<Rightarrow> mem" where
  "copy_fwd 0 d s i m = m"
| "copy_fwd (Suc k) d s i m = copy_fwd k d s (i + 1) (m(d + i := m (s + i)))"

primrec copy_bwd :: "nat \<Rightarrow> u32 \<Rightarrow> u32 \<Rightarrow> mem \<Rightarrow> mem" where
  "copy_bwd 0 d s m = m"
| "copy_bwd (Suc k) d s m = copy_bwd k d s (m(d + of_nat k := m (s + of_nat k)))"

definition strcpy :: "mem \<Rightarrow> u32 \<Rightarrow> u32 \<Rightarrow> mem option" where
  "strcpy m dst src =
    (if dst = 0 \<or> src = 0 then None
     else case strlen m src of
       None \<Rightarrow> None
     | Some len \<Rightarrow>
        let m = copy_fwd (unat len) dst src 0 m
        in Some (m(dst + len := 0)))"

primrec strncpy_pad :: "nat \<Rightarrow> u32 \<Rightarrow> u32 \<Rightarrow> mem \<Rightarrow> mem" where
  "strncpy_pad 0 dst i m = m"
| "strncpy_pad (Suc k) dst i m = strncpy_pad k dst (i + 1) (m(dst + i := 0))"

primrec strncpy_loop :: "nat \<Rightarrow> u32 \<Rightarrow> u32 \<Rightarrow> u32 \<Rightarrow> mem \<Rightarrow> mem" where
  "strncpy_loop 0 dst src i m = m"
| "strncpy_loop (Suc k) dst src i m =
    (if m (src + i) \<noteq> 0 then strncpy_loop k dst src (i + 1) (m(dst + i := m (src + i)))
     else strncpy_pad (Suc k) dst i m)"

definition strncpy :: "mem \<Rightarrow> u32 \<Rightarrow> u32 \<Rightarrow> u32 \<Rightarrow> mem" where
  "strncpy m dst src n = strncpy_loop (unat n) dst src 0 m"

partial_function (option) strcat_loop :: "u32 \<Rightarrow> u32 \<Rightarrow> u32 \<Rightarrow> mem \<Rightarrow> mem option" where
  "strcat_loop e src i m =
    (if m (src + i) \<noteq> 0 then strcat_loop e src (i + 1) (m(e + i := m (src + i)))
     else Some (m(e + i := 0)))"

definition strcat :: "mem \<Rightarrow> u32 \<Rightarrow> u32 \<Rightarrow> mem option" where
  "strcat m dst src =
    (case strlen m dst of None \<Rightarrow> None | Some dst_len \<Rightarrow> strcat_loop (dst + dst_len) src 0 m)"

partial_function (option) strcmp_loop :: "(u8 \<Rightarrow> int) \<Rightarrow> mem \<Rightarrow> u32 \<Rightarrow> u32 \<Rightarrow> u32 \<Rightarrow> int option" where
  "strcmp_loop cv m s1 s2 i =
    (if m (s1 + i) = m (s2 + i) then
       if m (s1 + i) = 0 then Some 0 else strcmp_loop cv m s1 s2 (i + 1)
     else Some (cv (m (s1 + i)) - cv (m (s2 + i))))"

definition strcmp :: "(u8 \<Rightarrow> int) \<Rightarrow> mem \<Rightarrow> u32 \<Rightarrow> u32 \<Rightarrow> int option" where
  "strcmp cv m s1 s2 = (if s1 = 0 \<or> s2 = 0 then None else strcmp_loop cv m s1 s2 0)"

primrec strncmp_loop :: "nat \<Rightarrow> (u8 \<Rightarrow> int) \<Rightarrow> mem \<Rightarrow> u32 \<Rightarrow> u32 \<Rightarrow> u32 \<Rightarrow> int" where
  "strncmp_loop 0 cv m s1 s2 i = 0"
| "strncmp_loop (Suc k) cv m s1 s2 i =
    (if m (s1 + i) = m (s2 + i) then
       if m (s1 + i) = 0 then 0 else strncmp_loop k cv m s1 s2 (i + 1)
     else cv (m (s1 + i)) - cv (m (s2 + i)))"

definition strncmp :: "(u8 \<Rightarrow> int) \<Rightarrow> mem \<Rightarrow> u32 \<Rightarrow> u32 \<Rightarrow> u32 \<Rightarrow> int" where
  "strncmp cv m s1 s2 n = (if s1 = 0 \<or> s2 = 0 then 0 else strncmp_loop (unat n) cv m s1 s2 0)"

primrec memset_loop :: "nat \<Rightarrow> u32 \<Rightarrow> u8 \<Rightarrow> u32 \<Rightarrow> mem \<Rightarrow> mem" where
  "memset_loop 0 s c i m = m"
| "memset_loop (Suc k) s c i m = memset_loop k s c (i + 1) (m(s + i := c))"

definition memset :: "mem \<Rightarrow> u32 \<Rightarrow> u32 \<Rightarrow> u32 \<Rightarrow> mem" where
  "memset m s c n = (if s = 0 then m else memset_loop (unat n) s (ucast c) 0 m)"

text \<open>The returned pointer is the second component.\<close>

definition memmove :: "mem \<Rightarrow> u32 \<Rightarrow> u32 \<Rightarrow> u32 \<Rightarrow> mem \<times> u32" where
  "memmove m dst src n =
    (if dst = 0 \<or> src = 0 then (m, 0)
     else if n = 0 then (m, dst)
     else if dst < src then (copy_fwd (unat n) dst src 0 m, dst)
     else (if 0 \<le> sint (n - 1) then copy_bwd (unat n) dst src m else m, dst))"

definition memcpy :: "mem \<Rightarrow> u32 \<Rightarrow> u32 \<Rightarrow> u32 \<Rightarrow> mem \<times> u32" where
  "memcpy m dst src n =
    (if dst = 0 \<or> src = 0 then (m, 0) else (copy_fwd (unat n) dst src 0 m, dst))"

primrec memcmp_loop :: "nat \<Rightarrow> (u8 \<Rightarrow> int) \<Rightarrow> mem \<Rightarrow> u32 \<Rightarrow> u32 \<Rightarrow> u32 \<Rightarrow> int" where
  "memcmp_loop 0 cv m a b i = 0"
| "memcmp_loop (Suc k) cv m a b i =
    (if m (a + i) \<noteq> m (b + i) then cv (m (a + i)) - cv (m (b + i)) else memcmp_loop k cv m a b (i + 1))"

definition memcmp :: "(u8 \<Rightarrow> int) \<Rightarrow> mem \<Rightarrow> u32 \<Rightarrow> u32 \<Rightarrow> u32 \<Rightarrow> int" where
  "memcmp cv m s1 s2 n = memcmp_loop (unat n) cv m s1 s2 0"


section \<open>Specifications\<close>

text \<open>The first \<open>n\<close> bytes at \<open>dst\<close> are those of another memory at \<open>src\<close>.\<close>

definition block_copy :: "mem \<Rightarrow> u32 \<Rightarrow> u32 \<Rightarrow> nat \<Rightarrow> mem" where
  "block_copy m dst src n = (\<lambda>a. if unat (a - dst) < n then m (src + (a - dst)) else m a)"

definition bytes_at :: "mem \<Rightarrow> u32 \<Rightarrow> nat \<Rightarrow> u8 list" where
  "bytes_at m a n = map (\<lambda>i. m (a + of_nat i)) [0..<n]"

text \<open>A null-terminated string.\<close>

definition cstr :: "mem \<Rightarrow> u32 \<Rightarrow> u8 list \<Rightarrow> bool" where
  "cstr m s xs \<longleftrightarrow> length xs < 2 ^ 32 \<and> bytes_at m s (length xs) = xs \<and> m (s + of_nat (length xs)) = 0 \<and> 0 \<notin> set xs"

lemma length_bytes_at [simp]: "length (bytes_at m a n) = n"
  by (simp add: bytes_at_def)

lemma bytes_at_0: "bytes_at m a 0 = []"
  by (simp add: bytes_at_def)

lemma bytes_at_Suc: "bytes_at m a (Suc n) = m a # bytes_at m (a + 1) n"
  by (simp add: bytes_at_def upt_conv_Cons map_Suc_upt [symmetric] add.assoc del: upt_Suc)

lemma cstr_Nil: "cstr m s [] \<longleftrightarrow> m s = 0"
  by (simp add: cstr_def bytes_at_def)

lemma cstr_Cons: "cstr m s (x # xs) \<Longrightarrow> m s = x \<and> x \<noteq> 0 \<and> cstr m (s + 1) xs"
  by (auto simp: cstr_def bytes_at_Suc add.assoc)

lemma nth_bytes_at: "i < n \<Longrightarrow> bytes_at m a n ! i = m (a + of_nat i)"
  by (simp add: bytes_at_def)

lemma cstr_nth: "cstr m s xs \<Longrightarrow> i < length xs \<Longrightarrow> m (s + of_nat i) = xs ! i"
  using nth_bytes_at [of i "length xs" m s] by (simp add: cstr_def)

lemma cstr_cong:
  assumes "\<And>i. i \<le> length xs \<Longrightarrow> m (s + of_nat i) = m' (s + of_nat i)"
  shows "cstr m s xs \<longleftrightarrow> cstr m' s xs"
proof -
  have "bytes_at m s (length xs) = bytes_at m' s (length xs)"
    using assms by (simp add: bytes_at_def)
  then show ?thesis using assms [of "length xs"] by (simp add: cstr_def)
qed

section \<open>Lemmas\<close>

lemma strlen_loop_cstr:
  "cstr m (s + i) xs \<Longrightarrow> strlen_loop m s i = Some (i + of_nat (length xs))"
proof (induction xs arbitrary: i)
  case Nil
  then show ?case by (subst strlen_loop.simps) (simp add: cstr_Nil)
next
  case (Cons x xs)
  then show ?case
    using cstr_Cons [OF Cons.prems] by (subst strlen_loop.simps) (simp add: add.assoc)
qed

lemma strlen_cstr: "cstr m s xs \<Longrightarrow> strlen m s = Some (of_nat (length xs))"
  using strlen_loop_cstr [of m s 0 xs] by (simp add: strlen_def)

lemma unat_add_below:
  fixes D :: u32
  assumes "unat D + k < 2 ^ 32"
  shows "unat (D + of_nat k) = unat D + k"
  using assms by (simp add: unat_word_ariths unat_of_nat_u32)

lemma unat_of_nat_sub:
  fixes E :: u32
  assumes "k < 2 ^ 32"
  shows "unat (of_nat k - E) = (if unat E \<le> k then k - unat E else k + 2 ^ 32 - unat E)"
  using assms by (simp add: unat_sub_if' unat_of_nat_u32)

lemma unat_diff_neq:
  fixes a d :: u32
  assumes "a \<noteq> d + of_nat j"
  shows "unat (a - d) \<noteq> j"
proof
  assume "unat (a - d) = j"
  then have "of_nat j = a - d" by auto
  then have "a = d + of_nat j" by simp
  with assms show False by contradiction
qed

text \<open>One round of the forward loop extends the copied block at its end, if the byte it reads has
  not been overwritten.\<close>

lemma block_copy_step:
  assumes "j < 2 ^ 32" "\<not> unat (s + of_nat j - d) < j"
  shows "(block_copy m d s j)(d + of_nat j := block_copy m d s j (s + of_nat j)) = block_copy m d s (Suc j)"
proof
  fix a
  show "((block_copy m d s j)(d + of_nat j := block_copy m d s j (s + of_nat j))) a = block_copy m d s (Suc j) a"
  proof (cases "a = d + of_nat j")
    case True
    then show ?thesis using assms by (simp add: block_copy_def unat_of_nat_u32)
  next
    case False
    then have "unat (a - d) \<noteq> j" by (rule unat_diff_neq)
    then show ?thesis using False by (simp add: block_copy_def less_Suc_eq)
  qed
qed

lemma copy_fwd_block:
  assumes "unat (s - d) + n \<le> 2 ^ 32" "j + k = n"
  shows "copy_fwd k d s (of_nat j) (block_copy m d s j) = block_copy m d s n"
  using assms(2)
proof (induction k arbitrary: j)
  case (Suc k)
  have j: "j < 2 ^ 32" using assms(1) Suc.prems by simp
  have "unat ((s - d) + of_nat j) = unat (s - d) + j"
    using assms(1) Suc.prems by (intro unat_add_below) simp
  then have "\<not> unat (s + of_nat j - d) < j" by (simp add: algebra_simps)
  then show ?case
    using Suc.IH [of "Suc j"] Suc.prems block_copy_step [OF j] by (simp add: add.commute)
qed simp

lemma block_copy_0 [simp]: "block_copy m d s 0 = m"
  by (simp add: block_copy_def)

lemma copy_fwd_eq: "unat (s - d) + n \<le> 2 ^ 32 \<Longrightarrow> copy_fwd n d s 0 m = block_copy m d s n"
  using copy_fwd_block [of s d n 0 n m] by simp

lemma copy_bwd_block:
  assumes "unat (d - s) + n \<le> 2 ^ 32" "k \<le> n"
  shows "copy_bwd k d s (\<lambda>a. if k \<le> unat (a - d) \<and> unat (a - d) < n then m (s + (a - d)) else m a) = block_copy m d s n"
  using assms(2)
proof (induction k)
  case 0
  then show ?case by (simp add: block_copy_def)
next
  case (Suc k)
  let ?M = "\<lambda>k a. if k \<le> unat (a - d) \<and> unat (a - d) < n then m (s + (a - d)) else m a"
  have k: "k < 2 ^ 32" using assms(1) Suc.prems by simp
  have "\<not> (Suc k \<le> unat (s + of_nat k - d) \<and> unat (s + of_nat k - d) < n)"
  proof -
    have "s + of_nat k - d = of_nat k - (d - s)" by (simp add: algebra_simps)
    then have "unat (s + of_nat k - d) = (if unat (d - s) \<le> k then k - unat (d - s) else k + 2 ^ 32 - unat (d - s))"
      using unat_of_nat_sub [OF k] by (simp only:)
    then show ?thesis using assms(1) by (auto split: if_splits)
  qed
  then have r: "?M (Suc k) (s + of_nat k) = m (s + of_nat k)" by auto
  have "(?M (Suc k))(d + of_nat k := ?M (Suc k) (s + of_nat k)) = ?M k"
  proof
    fix a
    show "((?M (Suc k))(d + of_nat k := ?M (Suc k) (s + of_nat k))) a = ?M k a"
    proof (cases "a = d + of_nat k")
      case True
      then show ?thesis using r Suc.prems by (simp add: unat_of_nat_u32 [OF k])
    next
      case False
      then have "unat (a - d) \<noteq> k" by (rule unat_diff_neq)
      then show ?thesis using False by auto
    qed
  qed
  then show ?case using Suc by simp
qed

lemma copy_bwd_eq:
  assumes "unat (d - s) + n \<le> 2 ^ 32"
  shows "copy_bwd n d s m = block_copy m d s n"
proof -
  have "(\<lambda>a. if n \<le> unat (a - d) \<and> unat (a - d) < n then m (s + (a - d)) else m a) = m" by (rule ext) auto
  then show ?thesis using copy_bwd_block [OF assms order.refl, of m] by simp
qed

lemma bytes_at_block_copy: "n < 2 ^ 32 \<Longrightarrow> bytes_at (block_copy m d s n) d n = bytes_at m s n"
  by (simp add: bytes_at_def block_copy_def unat_of_nat_u32)

lemma block_copy_outside: "n \<le> unat (a - d) \<Longrightarrow> block_copy m d s n a = m a"
  by (simp add: block_copy_def)

lemma memset_loop_eq:
  "j + k \<le> 2 ^ 32 \<Longrightarrow> memset_loop k s c (of_nat j) (\<lambda>a. if unat (a - s) < j then c else m a)
    = (\<lambda>a. if unat (a - s) < j + k then c else m a)"
proof (induction k arbitrary: j)
  case (Suc k)
  have j: "j < 2 ^ 32" using Suc.prems by simp
  have "(\<lambda>a. if unat (a - s) < j then c else m a)(s + of_nat j := c) = (\<lambda>a. if unat (a - s) < Suc j then c else m a)"
  proof
    fix a
    show "((\<lambda>a. if unat (a - s) < j then c else m a)(s + of_nat j := c)) a = (if unat (a - s) < Suc j then c else m a)"
      using unat_diff_neq [of a s j] by (cases "a = s + of_nat j") (auto simp: unat_of_nat_u32 [OF j] less_Suc_eq)
  qed
  then show ?case using Suc.IH [of "Suc j"] Suc.prems by (simp add: add.commute)
qed simp

lemma memset_eq: "s \<noteq> 0 \<Longrightarrow> memset m s c n = (\<lambda>a. if unat (a - s) < unat n then ucast c else m a)"
  using memset_loop_eq [of 0 "unat n" s "ucast c" m] unat_u32_less [of n] by (simp add: memset_def)

text \<open>Comparison as a fold over the two byte sequences.\<close>

fun cmp_bytes :: "(u8 \<Rightarrow> int) \<Rightarrow> u8 list \<Rightarrow> u8 list \<Rightarrow> int" where
  "cmp_bytes cv (x # xs) (y # ys) = (if x \<noteq> y then cv x - cv y else cmp_bytes cv xs ys)"
| "cmp_bytes cv _ _ = 0"

definition byte_less :: "(u8 \<times> u8) set" where "byte_less = {(x, y). x < y}"

lemma cmp_bytes_sign:
  "length xs = length ys \<Longrightarrow> (cmp_bytes uint xs ys = 0 \<longleftrightarrow> xs = ys) \<and> (cmp_bytes uint xs ys < 0 \<longleftrightarrow> (xs, ys) \<in> lexord byte_less)"
proof (induction xs ys rule: list_induct2)
  case (Cons x xs y ys)
  then show ?case by (auto simp: byte_less_def word_less_def dest: word_uint_eqI)
qed simp

lemma memcmp_loop_eq: "memcmp_loop k cv m a b i = cmp_bytes cv (bytes_at m (a + i) k) (bytes_at m (b + i) k)"
  by (induction k arbitrary: i) (simp_all add: bytes_at_Suc bytes_at_0 add.assoc)

lemma strcmp_loop_cstr:
  "cstr m (s1 + i) xs \<Longrightarrow> cstr m (s2 + i) ys \<Longrightarrow>
   strcmp_loop cv m s1 s2 i = Some (cmp_bytes cv (xs @ [0]) (ys @ [0]))"
proof (induction xs arbitrary: i ys)
  case Nil
  then show ?case
    by (cases ys) (subst strcmp_loop.simps, auto simp: cstr_Nil dest: cstr_Cons)+
next
  case (Cons x xs)
  note X = cstr_Cons [OF Cons.prems(1)]
  show ?case
  proof (cases ys)
    case Nil
    then show ?thesis using X Cons.prems(2) by (subst strcmp_loop.simps) (auto simp: cstr_Nil)
  next
    case (Cons y ys')
    note Y = cstr_Cons [OF Cons.prems(2) [unfolded Cons]]
    have "strcmp_loop cv m s1 s2 (i + 1) = Some (cmp_bytes cv (xs @ [0]) (ys' @ [0]))"
      using X Y by (intro Cons.IH) (simp_all add: add.assoc)
    then show ?thesis using X Y Cons by (subst strcmp_loop.simps) auto
  qed
qed

lemma cmp_terminated:
  assumes "0 \<notin> set xs" "0 \<notin> set ys"
  shows "(cmp_bytes uint (xs @ [0]) (ys @ [0]) = 0 \<longleftrightarrow> xs = ys)
    \<and> (cmp_bytes uint (xs @ [0]) (ys @ [0]) < 0 \<longleftrightarrow> (xs, ys) \<in> lexord byte_less)"
  using assms
proof (induction xs arbitrary: ys)
  case Nil
  have "uint y \<noteq> 0 \<and> 0 < uint y" if "y \<noteq> 0" for y :: u8
    using that by (simp add: uint_0_iff word_less_def [of 0, simplified, symmetric] word_neq_0_conv)
  then show ?case using Nil by (cases ys) auto
next
  case (Cons x xs)
  have "uint x \<noteq> 0 \<and> 0 < uint x" using Cons.prems(1) by (simp add: uint_0_iff word_less_def [of 0, simplified, symmetric] word_neq_0_conv)
  then show ?case using Cons by (cases ys) (auto simp: byte_less_def word_less_def dest: word_uint_eqI)
qed

text \<open>Writing a sequence of bytes.\<close>

primrec put_bytes :: "u8 list \<Rightarrow> u32 \<Rightarrow> mem \<Rightarrow> mem" where
  "put_bytes [] a m = m"
| "put_bytes (x # xs) a m = put_bytes xs (a + 1) (m(a := x))"

lemma unat_pred_diff: "b \<noteq> a \<Longrightarrow> unat (b - (a + 1) :: u32) = unat (b - a) - 1"
proof -
  assume "b \<noteq> a"
  then have "b - a \<noteq> 0" by simp
  then have "unat (b - a - 1) = unat (b - a) - 1" by (rule unat_minus_one)
  then show ?thesis by (simp add: algebra_simps)
qed

lemma put_bytes_eq:
  "length xs \<le> 2 ^ 32 \<Longrightarrow> put_bytes xs a m b = (if unat (b - a) < length xs then xs ! unat (b - a) else m b)"
proof (induction xs arbitrary: a m)
  case (Cons x xs)
  show ?case
  proof (cases "b = a")
    case True
    have "a - (a + 1) = - 1" by simp
    then have "unat (a - (a + 1)) = 4294967295"
      by (simp only:) (simp add: unsigned_minus_1_eq_mask mask_eq_exp_minus_1)
    then show ?thesis using Cons True by simp
  next
    case False
    then have "0 < unat (b - a)" by (simp add: unat_gt_0)
    then show ?thesis using Cons False unat_pred_diff [OF False] by (cases "unat (b - a)") auto
  qed
qed simp

lemma strcat_loop_cstr:
  "cstr m (src + i) ys \<Longrightarrow> (\<And>k l. k < l \<Longrightarrow> l \<le> length ys \<Longrightarrow> e + i + of_nat k \<noteq> src + i + of_nat l) \<Longrightarrow>
    strcat_loop e src i m = Some (put_bytes (ys @ [0]) (e + i) m)"
proof (induction ys arbitrary: i m)
  case Nil
  then show ?case by (subst strcat_loop.simps) (simp add: cstr_Nil)
next
  case (Cons y ys)
  note Y = cstr_Cons [OF Cons.prems(1)]
  have d: "e + i \<noteq> src + (i + 1) + of_nat l" if "l \<le> length ys" for l
    using Cons.prems(2) [of 0 "Suc l"] that by (simp add: algebra_simps)
  have "(m(e + i := y)) (src + (i + 1) + of_nat l) = m (src + (i + 1) + of_nat l)" if "l \<le> length ys" for l
    by (rule fun_upd_other [OF d [OF that, THEN not_sym]])
  then have "cstr (m(e + i := y)) (src + (i + 1)) ys \<longleftrightarrow> cstr m (src + (i + 1)) ys"
    by (rule cstr_cong)
  with Y have "cstr (m(e + i := y)) (src + (i + 1)) ys" by (simp only: add.assoc)
  moreover have "e + (i + 1) + of_nat k \<noteq> src + (i + 1) + of_nat l" if "k < l" "l \<le> length ys" for k l
    using Cons.prems(2) [of "Suc k" "Suc l"] that by (simp add: algebra_simps)
  ultimately have "strcat_loop e src (i + 1) (m(e + i := y)) = Some (put_bytes (ys @ [0]) (e + (i + 1)) (m(e + i := y)))"
    by (rule Cons.IH)
  then show ?case using Y by (subst strcat_loop.simps) (simp add: add.assoc)
qed

lemma cstr_put_bytes:
  assumes "0 \<notin> set xs" "length xs < 2 ^ 32"
  shows "cstr (put_bytes (xs @ [0]) a m) a xs"
proof -
  have "put_bytes (xs @ [0]) a m (a + of_nat i) = (xs @ [0]) ! i" if "i \<le> length xs" for i
    using that assms(2) by (simp add: put_bytes_eq unat_of_nat_u32)
  then have "bytes_at (put_bytes (xs @ [0]) a m) a (length xs) = xs" "put_bytes (xs @ [0]) a m (a + of_nat (length xs)) = 0"
    by (auto simp: bytes_at_def nth_append intro!: nth_equalityI)
  then show ?thesis using assms by (simp add: cstr_def)
qed

lemma strcpy_put_bytes:
  assumes s: "cstr m src xs" and "dst \<noteq> 0" "src \<noteq> 0" and ov: "unat (src - dst) + length xs \<le> 2 ^ 32"
  shows "strcpy m dst src = Some (put_bytes (xs @ [0]) dst m)"
proof -
  have l: "length xs < 2 ^ 32" using s by (simp add: cstr_def)
  have "strcpy m dst src = Some ((block_copy m dst src (length xs))(dst + of_nat (length xs) := 0))"
    using assms strlen_cstr [OF s] copy_fwd_eq [OF ov] by (simp add: strcpy_def Let_def unat_of_nat_u32 [OF l])
  moreover have "(block_copy m dst src (length xs))(dst + of_nat (length xs) := 0) = put_bytes (xs @ [0]) dst m"
  proof
    fix a
    have x: "m (src + of_nat i) = xs ! i" if "i < length xs" for i
      using s that by (rule cstr_nth)
    have "m (src + (a - dst)) = xs ! unat (a - dst)" if "unat (a - dst) < length xs"
      using x [OF that] by simp
    then show "((block_copy m dst src (length xs))(dst + of_nat (length xs) := 0)) a = put_bytes (xs @ [0]) dst m a"
      using l unat_diff_neq [of a dst "length xs"]
      by (cases "a = dst + of_nat (length xs)") (auto simp: put_bytes_eq block_copy_def nth_append unat_of_nat_u32)
  qed
  ultimately show ?thesis by simp
qed

lemma cstr_append:
  assumes x: "cstr m dst xs" and y: "0 \<notin> set ys" and l: "length xs + length ys < 2 ^ 32"
  shows "cstr (put_bytes (ys @ [0]) (dst + of_nat (length xs)) m) dst (xs @ ys)"
proof -
  let ?e = "dst + of_nat (length xs)"
  let ?m = "put_bytes (ys @ [0]) ?e m"
  have e: "?m (dst + of_nat i) = (xs @ ys @ [0]) ! i" if i: "i \<le> length xs + length ys" for i
  proof -
    have i': "i < 2 ^ 32" using i l by simp
    have d: "dst + of_nat i - ?e = of_nat i - of_nat (length xs)" by simp
    have u: "unat (dst + of_nat i - ?e) = (if length xs \<le> i then i - length xs else i + 2 ^ 32 - length xs)"
      unfolding d using unat_of_nat_sub [OF i', of "of_nat (length xs)"] l by (simp add: unat_of_nat_u32)
    have "m (dst + of_nat i) = xs ! i" if "i < length xs"
      using x that by (rule cstr_nth)
    moreover have "?m (dst + of_nat i) = (if unat (dst + of_nat i - ?e) < length (ys @ [0])
        then (ys @ [0]) ! unat (dst + of_nat i - ?e) else m (dst + of_nat i))"
      by (rule put_bytes_eq) (use l in simp)
    ultimately show ?thesis using i l unfolding u by (auto simp: nth_append)
  qed
  have "bytes_at ?m dst (length (xs @ ys)) = xs @ ys"
    using e by (auto simp: bytes_at_def nth_append intro!: nth_equalityI)
  moreover have "?m (dst + of_nat (length (xs @ ys))) = 0"
    using e [of "length xs + length ys"] by (simp add: nth_append)
  ultimately show ?thesis using x y l by (simp add: cstr_def)
qed

lemma strncmp_loop_bytes:
  "0 \<notin> set (bytes_at m (s1 + i) k) \<Longrightarrow>
   strncmp_loop k cv m s1 s2 i = cmp_bytes cv (bytes_at m (s1 + i) k) (bytes_at m (s2 + i) k)"
  by (induction k arbitrary: i) (simp_all add: bytes_at_Suc bytes_at_0 add.assoc)

section \<open>Properties\<close>

text \<open>
  C13: \<open>memmove\<close> is correct on overlapping blocks.  For non-null pointers and up to \<open>2 ^ 31\<close>
  bytes, with neither block wrapping around the address space, it returns \<open>dst\<close>, the
  destination holds what the source held before the call, and no other byte changes.
\<close>
theorem memmove_correct:
  assumes "dst \<noteq> 0" "src \<noteq> 0" "unat n \<le> 2 ^ 31"
    and "unat dst + unat n \<le> 2 ^ 32" "unat src + unat n \<le> 2 ^ 32"
  shows "\<exists>m'. memmove m dst src n = (m', dst) \<and> bytes_at m' dst (unat n) = bytes_at m src (unat n)
    \<and> (\<forall>a. unat n \<le> unat (a - dst) \<longrightarrow> m' a = m a)"
proof -
  have "memmove m dst src n = (block_copy m dst src (unat n), dst)"
  proof (cases "n = 0")
    case False
    then have p: "unat (n - 1) = unat n - 1" by (rule unat_minus_one)
    have "0 \<le> sint (n - 1)"
      using assms(3) False p sint_u32_neg_iff [of "n - 1"] unat_gt_0 [of n] by linarith
    then show ?thesis
      using assms False copy_fwd_eq [of src dst "unat n" m] copy_bwd_eq [of dst src "unat n" m]
      by (auto simp: memmove_def unat_sub_if' word_less_nat_alt)
  qed (use assms in \<open>simp add: memmove_def\<close>)
  then show ?thesis
    using bytes_at_block_copy [of "unat n" m dst src] unat_u32_less [of n] block_copy_outside by simp
qed

definition demo_mem :: mem where
  "demo_mem = put_bytes [72, 105, 33, 0] 0x1000 (\<lambda>a. 7)"

theorem memmove_correct_witness:
  "\<exists>m'. memmove demo_mem 0x1001 0x1000 3 = (m', 0x1001) \<and> bytes_at m' 0x1001 (unat (3 :: u32)) = bytes_at demo_mem 0x1000 (unat (3 :: u32))
    \<and> (\<forall>a. unat (3 :: u32) \<le> unat (a - 0x1001) \<longrightarrow> m' a = demo_mem a)"
  by (rule memmove_correct) simp_all

text \<open>
  \<open>memmove\<close> copies nothing when it has to copy backwards and the length exceeds
  \<open>2 ^ 31\<close>: its index is a signed \<open>int\<close>, which starts negative, so the loop body never runs;
  the call still returns \<open>dst\<close>.
\<close>
theorem memmove_large_copies_nothing:
  assumes "dst \<noteq> 0" "src \<noteq> 0" "src \<le> dst" "2 ^ 31 < unat n"
  shows "memmove m dst src n = (m, dst)"
proof -
  have "n \<noteq> 0" using assms(4) by auto
  then have "unat (n - 1) = unat n - 1" by (rule unat_minus_one)
  then have "sint (n - 1) < 0" using assms(4) unfolding sint_u32_neg_iff by linarith
  then show ?thesis using assms \<open>n \<noteq> 0\<close> by (auto simp: memmove_def dest: leD)
qed

theorem memmove_large_copies_nothing_witness:
  "memmove demo_mem 0x2000 0x1000 0x80000001 = (demo_mem, 0x2000)"
  by (rule memmove_large_copies_nothing) simp_all

text \<open>
  \<open>strcpy\<close> of a string to a non-null destination that the source does not run into stores
  that string there, terminator included, and changes no other byte; \<open>strcat\<close> appends: after it
  the destination holds the concatenation, when the bytes it writes are not source bytes still to
  be read.
\<close>
theorem strcpy_strcat_correct:
  assumes x: "cstr m dst xs" and y: "cstr m src ys" and nz: "dst \<noteq> 0" "src \<noteq> 0"
    and room: "length xs + length ys < 2 ^ 32" "unat (src - dst) + length ys \<le> 2 ^ 32"
    and apart: "\<And>k l. k < l \<Longrightarrow> l \<le> length ys \<Longrightarrow> dst + of_nat (length xs) + of_nat k \<noteq> src + of_nat l"
  shows "(\<exists>m'. strcpy m dst src = Some m' \<and> cstr m' dst ys \<and> (\<forall>a. length ys < unat (a - dst) \<longrightarrow> m' a = m a))
    \<and> (\<exists>m'. strcat m dst src = Some m' \<and> cstr m' dst (xs @ ys))"
proof
  have z: "0 \<notin> set ys" "length ys < 2 ^ 32" using y by (auto simp: cstr_def)
  have "put_bytes (ys @ [0]) dst m a = m a" if "length ys < unat (a - dst)" for a
    using that z by (simp add: put_bytes_eq)
  then show "\<exists>m'. strcpy m dst src = Some m' \<and> cstr m' dst ys \<and> (\<forall>a. length ys < unat (a - dst) \<longrightarrow> m' a = m a)"
    using strcpy_put_bytes [OF y nz room(2)] cstr_put_bytes [OF z] by auto
  have "strcat m dst src = Some (put_bytes (ys @ [0]) (dst + of_nat (length xs)) m)"
    using strlen_cstr [OF x] strcat_loop_cstr [of m src 0 ys "dst + of_nat (length xs)"] y apart
    by (simp add: strcat_def)
  then show "\<exists>m'. strcat m dst src = Some m' \<and> cstr m' dst (xs @ ys)"
    using cstr_append [OF x z(1) room(1)] by simp
qed

definition demo_mem2 :: mem where
  "demo_mem2 = put_bytes [97, 98, 0] 0x1010 demo_mem"

lemma demo_cstr: "cstr demo_mem2 0x1000 [72, 105, 33]" "cstr demo_mem2 0x1010 [97, 98]"
  by (simp_all add: demo_mem2_def demo_mem_def cstr_def bytes_at_def upt_conv_Cons)

lemma demo_apart:
  "k < l \<Longrightarrow> l \<le> 2 \<Longrightarrow> 0x1000 + of_nat 3 + of_nat k \<noteq> (0x1010 :: u32) + of_nat l"
proof -
  assume "k < l" "l \<le> 2"
  then consider "l = 1" "k = 0" | "l = 2" "k = 0" | "l = 2" "k = 1" by linarith
  then show ?thesis by cases simp_all
qed

theorem strcpy_strcat_correct_witness:
  "(\<exists>m'. strcpy demo_mem2 0x1000 0x1010 = Some m' \<and> cstr m' 0x1000 [97, 98]
      \<and> (\<forall>a. length [97, 98 :: u8] < unat (a - 0x1000) \<longrightarrow> m' a = demo_mem2 a))
    \<and> (\<exists>m'. strcat demo_mem2 0x1000 0x1010 = Some m' \<and> cstr m' 0x1000 ([72, 105, 33] @ [97, 98]))"
  by (rule strcpy_strcat_correct [OF demo_cstr]) (use demo_apart in simp_all)

text \<open>
  \<open>strcmp\<close> on the RISC-V target returns, for two strings, zero exactly when they are equal
  and a negative number exactly when the first precedes the second in the dictionary order of
  their bytes; \<open>memcmp\<close> does the same for two blocks of equal size.
\<close>
theorem strcmp_memcmp_correct:
  assumes "cstr m s1 xs" "cstr m s2 ys" "s1 \<noteq> 0" "s2 \<noteq> 0"
  shows "(\<exists>r. strcmp uint m s1 s2 = Some r \<and> (r = 0 \<longleftrightarrow> xs = ys) \<and> (r < 0 \<longleftrightarrow> (xs, ys) \<in> lexord byte_less))
    \<and> (memcmp uint m a b n = 0 \<longleftrightarrow> bytes_at m a (unat n) = bytes_at m b (unat n))
    \<and> (memcmp uint m a b n < 0 \<longleftrightarrow> (bytes_at m a (unat n), bytes_at m b (unat n)) \<in> lexord byte_less)"
proof -
  have z: "0 \<notin> set xs" "0 \<notin> set ys" using assms(1,2) by (simp_all add: cstr_def)
  have "strcmp uint m s1 s2 = Some (cmp_bytes uint (xs @ [0]) (ys @ [0]))"
    using assms strcmp_loop_cstr [of m s1 0 xs s2 ys uint] by (simp add: strcmp_def)
  moreover have "memcmp uint m a b n = cmp_bytes uint (bytes_at m a (unat n)) (bytes_at m b (unat n))"
    by (simp add: memcmp_def memcmp_loop_eq)
  ultimately show ?thesis
    using cmp_terminated [OF z] cmp_bytes_sign [of "bytes_at m a (unat n)" "bytes_at m b (unat n)"] by simp
qed

theorem strcmp_memcmp_correct_witness:
  "(\<exists>r. strcmp uint demo_mem2 0x1000 0x1010 = Some r \<and> (r = 0 \<longleftrightarrow> [72, 105, 33 :: u8] = [97, 98])
      \<and> (r < 0 \<longleftrightarrow> ([72, 105, 33], [97, 98]) \<in> lexord byte_less))
    \<and> (memcmp uint demo_mem2 1 2 3 = 0 \<longleftrightarrow> bytes_at demo_mem2 1 (unat (3 :: u32)) = bytes_at demo_mem2 2 (unat (3 :: u32)))
    \<and> (memcmp uint demo_mem2 1 2 3 < 0
        \<longleftrightarrow> (bytes_at demo_mem2 1 (unat (3 :: u32)), bytes_at demo_mem2 2 (unat (3 :: u32))) \<in> lexord byte_less)"
  by (rule strcmp_memcmp_correct [OF demo_cstr]) simp_all

end
