(* ===== verification/Klib_Stdio.thy ===== *)
theory Klib_Stdio
  imports Prelude
begin

text \<open>
  Formatted output and the number routines: \<open>abstract-machine/klib/src/stdio.c\<close> and
  \<open>abstract-machine/klib/src/stdlib.c\<close>.

  The local buffers of the conversions are lists of bytes updated by index; a C string read from a
  buffer is its bytes before the first null (\<open>cstring\<close>).  A format string is its bytes before
  the terminator; reading past the terminator, a missing or ill-typed argument and a full output
  buffer are undefined in C and are errors here.  The variable arguments are a list of tagged
  values; what \<open>%s\<close> points to is the string itself.
\<close>

section \<open>Model\<close>

abbreviation (input) BUF_SIZE :: nat where "BUF_SIZE \<equiv> 1024"

definition cstring :: "u8 list \<Rightarrow> u8 list" where
  "cstring buf = takeWhile (\<lambda>c. c \<noteq> 0) buf"

function swap_str :: "u8 list \<Rightarrow> int \<Rightarrow> int \<Rightarrow> u8 list" where
  "swap_str str l r =
    (if l \<le> r then swap_str (str[nat l := str ! nat r, nat r := str ! nat l]) (l + 1) (r - 1) else str)"
  by pat_completeness auto
termination by (relation "measure (\<lambda>(str, l, r). nat (r - l + 1))") auto

fun digit_loop :: "u8 list \<Rightarrow> nat \<Rightarrow> nat \<Rightarrow> u8 list \<times> nat" where
  "digit_loop str i num =
    (if num = 0 then (str, i) else digit_loop (str[i := of_nat (num mod 10) + 48]) (i + 1) (num div 10))"

definition put_chars :: "u8 list \<Rightarrow> u8 list \<Rightarrow> u8 list" where
  "put_chars cs str = cs @ drop (length cs) str"

definition int_to_str :: "u8 list \<Rightarrow> int \<Rightarrow> u8 list" where
  "int_to_str str num =
    (if num = - (2 ^ 31) then put_chars [45, 50, 49, 52, 55, 52, 56, 51, 54, 52, 56, 0] str
     else
       let i = 0; l = 0 in
       let (str, i, l, num) =
         (if num = 0 then (str[i := 48], i + 1, l, num)
          else if num < 0 then (str[i := 45], i + 1, 1, - num)
          else (str, i, l, num)) in
       case digit_loop str i (nat num) of (str, i) \<Rightarrow>
         swap_str (str[i := 0]) l (int i - 1))"

definition uint_to_str :: "u8 list \<Rightarrow> u32 \<Rightarrow> u8 list" where
  "uint_to_str str num =
    (if num = 0 then (str[0 := 48])[1 := 0]
     else case digit_loop str 0 (unat num) of (str, i) \<Rightarrow> swap_str (str[i := 0]) 0 (int i - 1))"

datatype printf_arg = Arg_d u32 | Arg_s "u8 list" | Arg_u u64

datatype printf_error = Overread | Bad_arg | Overflow | Panic

fun vsprintf_loop :: "u8 list \<Rightarrow> printf_arg list \<Rightarrow> u8 list \<Rightarrow> printf_error + u8 list" where
  "vsprintf_loop [] ap out = Inr out"
| "vsprintf_loop (f # fmt) ap out =
    (if f = 37 then
       (case fmt of
          [] \<Rightarrow> Inl Overread
        | c # fmt' \<Rightarrow>
           if c = 100 then
             (case ap of Arg_d n # ap' \<Rightarrow>
                vsprintf_loop fmt' ap' (out @ cstring (int_to_str (replicate BUF_SIZE 0) (sint n)))
              | _ \<Rightarrow> Inl Bad_arg)
           else if c = 115 then
             (case ap of Arg_s s # ap' \<Rightarrow> vsprintf_loop fmt' ap' (out @ s) | _ \<Rightarrow> Inl Bad_arg)
           else if c = 117 then
             (case ap of Arg_u n # ap' \<Rightarrow>
                vsprintf_loop fmt' ap' (out @ cstring (uint_to_str (replicate BUF_SIZE 0) (ucast n)))
              | _ \<Rightarrow> Inl Bad_arg)
           else vsprintf_loop fmt' ap (out @ [c]))
     else vsprintf_loop fmt ap (out @ [f]))"

definition vsprintf :: "u8 list \<Rightarrow> printf_arg list \<Rightarrow> printf_error + u8 list" where
  "vsprintf fmt ap = vsprintf_loop fmt ap []"

definition sprintf :: "u8 list \<Rightarrow> printf_arg list \<Rightarrow> printf_error + u8 list" where
  "sprintf fmt ap = vsprintf fmt ap"

text \<open>The bytes sent to \<open>putch\<close>.\<close>

definition printf :: "u8 list \<Rightarrow> printf_arg list \<Rightarrow> printf_error + u8 list" where
  "printf fmt ap =
    (case vsprintf fmt ap of
       Inl e \<Rightarrow> Inl e
     | Inr out \<Rightarrow> if length out + 1 \<le> BUF_SIZE then Inr out else Inl Overflow)"

definition snprintf :: "nat \<Rightarrow> u8 list \<Rightarrow> printf_arg list \<Rightarrow> printf_error + u8 list" where
  "snprintf n fmt ap = Inl Panic"

definition vsnprintf :: "nat \<Rightarrow> u8 list \<Rightarrow> printf_arg list \<Rightarrow> printf_error + u8 list" where
  "vsnprintf n fmt ap = Inl Panic"

definition rand :: "u32 \<Rightarrow> u32 \<times> u32" where
  "rand next = (let next = next * 1103515245 + 12345 in (next div 65536 mod 32768, next))"

definition srand :: "u32 \<Rightarrow> u32" where
  "srand seed = seed"

definition abs_int :: "u32 \<Rightarrow> u32" where
  "abs_int x = (if sint x < 0 then - x else x)"

fun atoi_skip :: "u8 list \<Rightarrow> u8 list" where
  "atoi_skip (c # s) = (if c = 32 then atoi_skip s else c # s)"
| "atoi_skip [] = []"

fun atoi_digits :: "u8 list \<Rightarrow> u32 \<Rightarrow> u32" where
  "atoi_digits (c # s) x = (if 48 \<le> c \<and> c \<le> 57 then atoi_digits s (x * 10 + ucast c - 48) else x)"
| "atoi_digits [] x = x"

definition atoi :: "u8 list \<Rightarrow> u32" where
  "atoi nptr = atoi_digits (atoi_skip nptr) 0"

definition malloc :: "u32 \<Rightarrow> printf_error + u32" where
  "malloc sz = Inl Panic"


section \<open>Decimal numerals\<close>

text \<open>The digits of a number, least significant first, and its numeral.\<close>

fun rdigits :: "nat \<Rightarrow> u8 list" where
  "rdigits n = (if n = 0 then [] else (of_nat (n mod 10) + 48) # rdigits (n div 10))"

definition dec :: "nat \<Rightarrow> u8 list" where
  "dec n = (if n = 0 then [48] else rev (rdigits n))"

definition sdec :: "int \<Rightarrow> u8 list" where
  "sdec x = (if x < 0 then 45 # dec (nat (- x)) else dec (nat x))"

declare swap_str.simps [simp del] digit_loop.simps [simp del] rdigits.simps [simp del]

lemma digit_byte: "d < 10 \<Longrightarrow> unat (of_nat d + 48 :: u8) = d + 48"
  by (simp add: unat_word_ariths unat_of_nat)

lemma rdigits_bytes: "\<forall>c \<in> set (rdigits n). 48 \<le> unat c \<and> unat c \<le> 57"
proof (induction n rule: rdigits.induct)
  case (1 n)
  then show ?case
    by (subst rdigits.simps) (auto simp: digit_byte)
qed

lemma length_rdigits: "n < 10 ^ k \<Longrightarrow> length (rdigits n) \<le> k"
proof (induction k arbitrary: n)
  case 0
  then show ?case by (simp add: rdigits.simps)
next
  case (Suc k)
  have "n div 10 < 10 ^ k" using Suc.prems by (simp add: less_mult_imp_div_less mult.commute)
  then show ?case using Suc.IH [of "n div 10"] by (subst rdigits.simps) auto
qed

lemma digit_loop_eq:
  assumes "i + length (rdigits n) \<le> length str"
  shows "digit_loop str i n = (take i str @ rdigits n @ drop (i + length (rdigits n)) str, i + length (rdigits n))"
  using assms
proof (induction n arbitrary: str i rule: rdigits.induct)
  case (1 n)
  show ?case
  proof (cases "n = 0")
    case True
    then show ?thesis by (simp add: digit_loop.simps rdigits.simps)
  next
    case False
    let ?c = "of_nat (n mod 10) + 48 :: u8"
    have r: "rdigits n = ?c # rdigits (n div 10)" using False by (subst rdigits.simps) simp
    have i: "i < length str" "i + 1 + length (rdigits (n div 10)) \<le> length (str[i := ?c])"
      using 1(2) r by simp_all
    have "digit_loop str i n = digit_loop (str[i := ?c]) (i + 1) (n div 10)"
      using False by (subst digit_loop.simps) simp
    also have "\<dots> = (take (i + 1) (str[i := ?c]) @ rdigits (n div 10)
        @ drop (i + 1 + length (rdigits (n div 10))) (str[i := ?c]), i + 1 + length (rdigits (n div 10)))"
      by (rule 1(1) [OF False i(2)])
    finally show ?thesis
      using i(1) by (simp add: r take_Suc_conv_app_nth)
  qed
qed

lemma swap_str_rev:
  "swap_str (a @ xs @ b) (int (length a)) (int (length a) + int (length xs) - 1) = a @ rev xs @ b"
proof (induction "length xs" arbitrary: a xs b rule: less_induct)
  case less
  show ?case
  proof (cases xs)
    case Nil
    then show ?thesis by (subst swap_str.simps) simp
  next
    case (Cons x ys)
    show ?thesis
    proof (cases ys rule: rev_cases)
      case Nil
      then show ?thesis using Cons by (simp add: swap_str.simps nat_int)
    next
      case (snoc zs y)
      have xs: "xs = x # zs @ [y]" using Cons snoc by simp
      let ?l = "int (length a)" and ?r = "int (length a) + int (length xs) - 1"
      have r: "nat ?r = length a + length zs + 1" using xs by simp
      have le: "?l \<le> ?r" by (simp add: xs)
      have n: "(a @ xs @ b) ! nat ?l = x" "(a @ xs @ b) ! nat ?r = y"
        unfolding r by (simp_all add: xs nth_append)
      have u: "(a @ xs @ b)[nat ?l := y, nat ?r := x] = (a @ [y]) @ zs @ ([x] @ b)"
        unfolding r by (simp add: xs list_update_append)
      have "swap_str (a @ xs @ b) ?l ?r = swap_str ((a @ [y]) @ zs @ ([x] @ b)) (?l + 1) (?r - 1)"
        using le by (subst swap_str.simps) (simp only: n u if_True)
      also have "\<dots> = (a @ [y]) @ rev zs @ ([x] @ b)"
        using less [of zs "a @ [y]" "[x] @ b"] xs by (simp add: algebra_simps)
      finally show ?thesis by (simp add: xs)
    qed
  qed
qed

lemma cstring_append: "0 \<notin> set xs \<Longrightarrow> cstring (xs @ 0 # ys) = xs"
  by (induction xs) (auto simp: cstring_def)

lemma rdigits_no_null: "0 \<notin> set (rdigits n)"
  using rdigits_bytes [of n] by force

text \<open>The common tail of the conversions: digits written backwards, terminated and reversed.\<close>

lemma convert_digits:
  assumes "length pre + length (rdigits n) < length (pre @ rest)" "0 \<notin> set pre"
  shows "(case digit_loop (pre @ rest) (length pre) n of (str, i) \<Rightarrow>
      cstring (swap_str (str[i := 0]) (int (length pre)) (int i - 1))) = pre @ rev (rdigits n)"
proof -
  let ?d = "rdigits n"
  obtain z zs where z: "drop (length ?d) rest = z # zs"
    using assms(1) by (cases "drop (length ?d) rest") auto
  have "digit_loop (pre @ rest) (length pre) n = (pre @ ?d @ z # zs, length pre + length ?d)"
    using assms(1) by (simp add: digit_loop_eq z)
  moreover have "(pre @ ?d @ z # zs)[length pre + length ?d := 0] = pre @ ?d @ 0 # zs"
    by (simp add: list_update_append)
  moreover have "swap_str (pre @ ?d @ 0 # zs) (int (length pre)) (int (length pre + length ?d) - 1) = pre @ rev ?d @ 0 # zs"
    using swap_str_rev [of pre ?d "0 # zs"] by simp
  ultimately show ?thesis
    using cstring_append [of "pre @ rev ?d" zs] assms(2) rdigits_no_null [of n] by simp
qed

lemma uint_to_str_dec:
  assumes "12 \<le> length buf"
  shows "cstring (uint_to_str buf n) = dec (unat n)"
proof (cases "n = 0")
  case True
  obtain a b bs where "buf = a # b # bs" using assms by (cases buf; cases "tl buf") auto
  then show ?thesis using True by (simp add: uint_to_str_def dec_def cstring_def)
next
  case False
  have "length (rdigits (unat n)) \<le> 10"
    using unat_u32_less [of n] by (intro length_rdigits) simp
  then have "cstring (uint_to_str buf n) = [] @ rev (rdigits (unat n))"
    using convert_digits [of "[]" "unat n" buf] False assms by (simp add: uint_to_str_def split: prod.splits)
  then show ?thesis using False by (simp add: dec_def unat_eq_zero)
qed

lemma int_to_str_sdec:
  assumes buf: "12 \<le> length buf" and x: "- (2 ^ 31) \<le> x" "x < 2 ^ 31"
  shows "cstring (int_to_str buf x) = sdec x"
proof -
  obtain b bs where b: "buf = b # bs" "11 \<le> length bs" using buf by (cases buf) auto
  have l: "length (rdigits (nat \<bar>x\<bar>)) \<le> 10" using x by (intro length_rdigits) simp
  consider "x = - (2 ^ 31)" | "x = 0" | "- (2 ^ 31) < x" "x < 0" | "0 < x" using x by linarith
  then show ?thesis
  proof cases
    case 1
    have "dec 2147483648 = [50, 49, 52, 55, 52, 56, 51, 54, 52, 56]"
      by (simp add: dec_def rdigits.simps)
    then show ?thesis using 1 by (simp add: int_to_str_def put_chars_def cstring_def sdec_def)
  next
    case 2
    obtain c cs where "bs = c # cs" using b(2) by (cases bs) auto
    then have "cstring (int_to_str buf 0) = [48]"
      using b by (simp add: int_to_str_def digit_loop.simps swap_str.simps cstring_def)
    then show ?thesis using 2 by (simp add: sdec_def dec_def)
  next
    case 3
    have "cstring (int_to_str buf x) = [45] @ rev (rdigits (nat (- x)))"
      using convert_digits [of "[45]" "nat (- x)" bs] 3 b l by (simp add: int_to_str_def split: prod.splits)
    then show ?thesis using 3 by (simp add: sdec_def dec_def)
  next
    case 4
    have "cstring (int_to_str buf x) = [] @ rev (rdigits (nat x))"
      using convert_digits [of "[]" "nat x" buf] 4 x buf l by (simp add: int_to_str_def split: prod.splits)
    then show ?thesis using 4 by (simp add: sdec_def dec_def)
  qed
qed

lemma ucast_digit: "d < 10 \<Longrightarrow> (ucast (of_nat d + 48 :: u8) :: u32) = of_nat d + 48"
  by (simp add: word_unat_eq_iff unat_ucast_mod digit_byte unat_word_ariths unat_of_nat)

lemma atoi_digits_rdigits:
  "atoi_digits (rev (rdigits n) @ rest) x = atoi_digits rest (x * 10 ^ length (rdigits n) + of_nat n)"
proof (induction n arbitrary: rest rule: rdigits.induct)
  case (1 n)
  show ?case
  proof (cases "n = 0")
    case True
    then show ?thesis by (simp add: rdigits.simps)
  next
    case False
    let ?c = "of_nat (n mod 10) + 48 :: u8"
    have r: "rdigits n = ?c # rdigits (n div 10)" using False by (subst rdigits.simps) simp
    have c: "48 \<le> ?c" "?c \<le> 57" by (simp_all add: word_le_nat_alt digit_byte)
    have "of_nat n = (of_nat (n div 10) * 10 + of_nat (n mod 10) :: u32)"
      by (metis div_mult_mod_eq of_nat_add of_nat_mult of_nat_numeral)
    moreover have "(ucast ?c :: u32) = of_nat (n mod 10) + 48" by (rule ucast_digit) simp
    then have "atoi_digits (?c # rest) y = atoi_digits rest (y * 10 + of_nat (n mod 10))" for y
      using c by simp
    ultimately show ?thesis
      using 1 [OF False, of "?c # rest"] by (simp add: r algebra_simps)
  qed
qed

lemma atoi_skip_blanks: "atoi_skip (replicate k 32 @ s) = atoi_skip s"
  by (induction k) simp_all

lemma dec_first: "\<exists>c cs. dec n = c # cs \<and> 48 \<le> unat c"
proof (cases "n = 0")
  case False
  then have "rdigits n \<noteq> []" by (subst rdigits.simps) simp
  then obtain c cs where r: "rev (rdigits n) = c # cs" by (cases "rev (rdigits n)") auto
  then have "c \<in> set (rdigits n)" by (metis list.set_intros(1) set_rev)
  then show ?thesis using rdigits_bytes [of n] False r by (simp add: dec_def)
qed (simp add: dec_def)

lemma atoi_dec: "atoi (replicate k 32 @ dec n) = of_nat n"
proof -
  obtain c cs where d: "dec n = c # cs" "48 \<le> unat c" using dec_first by blast
  then have "c \<noteq> 32" by auto
  then have "atoi_skip (dec n) = dec n" using d by simp
  moreover have "atoi_digits (dec n) 0 = of_nat n"
    using atoi_digits_rdigits [of n "[]" 0] by (simp add: dec_def)
  ultimately show ?thesis by (simp add: atoi_def atoi_skip_blanks)
qed

text \<open>Formats seen as sequences of items, each with the bytes it is written with, the argument it
  takes and the text it stands for.\<close>

datatype fmt_item = Lit u8 | Percent | Dec u32 | Str "u8 list" | Uns u64

fun item_fmt :: "fmt_item \<Rightarrow> u8 list" where
  "item_fmt (Lit c) = [c]"
| "item_fmt Percent = [37, 37]"
| "item_fmt (Dec n) = [37, 100]"
| "item_fmt (Str s) = [37, 115]"
| "item_fmt (Uns n) = [37, 117]"

fun item_args :: "fmt_item \<Rightarrow> printf_arg list" where
  "item_args (Dec n) = [Arg_d n]"
| "item_args (Str s) = [Arg_s s]"
| "item_args (Uns n) = [Arg_u n]"
| "item_args _ = []"

fun item_text :: "fmt_item \<Rightarrow> u8 list" where
  "item_text (Lit c) = [c]"
| "item_text Percent = [37]"
| "item_text (Dec n) = sdec (sint n)"
| "item_text (Str s) = s"
| "item_text (Uns n) = dec (unat n mod 2 ^ 32)"

lemma sint_u32_bounds: "- (2 ^ 31) \<le> sint (n :: u32)" "sint n < 2 ^ 31"
  using sint_ge [of n] sint_lt [of n] by simp_all

lemma vsprintf_loop_item:
  assumes "it \<noteq> Lit 37"
  shows "vsprintf_loop (item_fmt it @ fmt) (item_args it @ ap) out = vsprintf_loop fmt ap (out @ item_text it)"
proof (cases it)
  case (Dec n)
  then show ?thesis
    using int_to_str_sdec [of "replicate BUF_SIZE 0" "sint n", OF _ sint_u32_bounds] by simp
next
  case (Uns n)
  then show ?thesis
    using uint_to_str_dec [of "replicate BUF_SIZE 0" "ucast n"] by (simp add: unat_ucast_mod)
qed (use assms in simp_all)

lemma vsprintf_loop_items:
  "Lit 37 \<notin> set is \<Longrightarrow> vsprintf_loop (concat (map item_fmt is) @ fmt) (concat (map item_args is) @ ap) out
    = vsprintf_loop fmt ap (out @ concat (map item_text is))"
proof (induction "is" arbitrary: out)
  case (Cons it "is")
  then have "it \<noteq> Lit 37" by auto
  from vsprintf_loop_item [OF this] show ?case using Cons by simp
qed simp

section \<open>Properties\<close>

text \<open>
  C14: \<open>vsprintf\<close> prints every well-formed format.  For any sequence of ordinary characters,
  \<open>%%\<close>, \<open>%d\<close>, \<open>%s\<close> and \<open>%u\<close> with arguments to match, the output is the concatenation of
  the characters, the signed decimal numerals (down to \<open>INT_MIN\<close>), the strings and the unsigned
  decimal numerals of the low 32 bits of the \<open>%u\<close> arguments, which are read as 64-bit values.
\<close>
theorem vsprintf_correct:
  assumes "Lit 37 \<notin> set is"
  shows "vsprintf (concat (map item_fmt is)) (concat (map item_args is)) = Inr (concat (map item_text is))"
  using vsprintf_loop_items [OF assms, of "[]" "[]" "[]"] by (simp add: vsprintf_def)

theorem vsprintf_correct_witness:
  "vsprintf (concat (map item_fmt [Dec (- 5), Percent, Lit 32, Uns 0x100000007]))
     (concat (map item_args [Dec (- 5), Percent, Lit 32, Uns 0x100000007]))
   = Inr (concat (map item_text [Dec (- 5), Percent, Lit 32, Uns 0x100000007]))"
  by (rule vsprintf_correct) simp

text \<open>
  a format that ends in a lone \<open>%\<close> makes \<open>vsprintf\<close> read past the terminator of the
  format string: it steps over the \<open>%\<close>, treats the terminator as an unknown conversion and
  steps over it too.
\<close>
theorem vsprintf_trailing_percent:
  assumes "Lit 37 \<notin> set is"
  shows "vsprintf (concat (map item_fmt is) @ [37]) (concat (map item_args is)) = Inl Overread"
  using vsprintf_loop_items [OF assms, of "[37]" "[]" "[]"] by (simp add: vsprintf_def)

theorem vsprintf_trailing_percent_witness:
  "vsprintf (concat (map item_fmt [Lit 49, Lit 48]) @ [37]) (concat (map item_args [Lit 49, Lit 48])) = Inl Overread"
  by (rule vsprintf_trailing_percent) simp

text \<open>
  reading back a printed number.  \<open>atoi\<close> of the text \<open>uint_to_str\<close> makes of \<open>n\<close>, with
  any number of blanks before it, is \<open>n\<close>, for every 32-bit \<open>n\<close> and every buffer of at least 12
  bytes.
\<close>
theorem atoi_uint_to_str:
  assumes "12 \<le> length buf"
  shows "atoi (replicate k 32 @ cstring (uint_to_str buf n)) = n"
  by (simp add: uint_to_str_dec [OF assms] atoi_dec)

theorem atoi_uint_to_str_witness:
  "atoi (replicate 2 32 @ cstring (uint_to_str (replicate 12 0) 4294967295)) = 4294967295"
  by (rule atoi_uint_to_str) simp

end
