(* ===== verification/Tests_String.thy ===== *)
theory Tests_String
  imports Tests_Machine Klib_String Klib_Stdio
begin

text \<open>
  The programs among the processor tests that use the string functions and formatted output of the
  run-time library: \<open>software-test/cpu-tests/tests/string.c\<close> and \<open>hello-str.c\<close>.

  The programs work on the memory of \<open>Klib_String\<close>.  Where the linker places the buffers and the
  literals is an argument; the layouts \<open>string_layout\<close> and \<open>hello_layout\<close> say that the literals
  are there and that no literal overlaps a buffer the program writes.  The theorem composes the
  models of \<open>string.c\<close> and \<open>stdio.c\<close> of the library; the last theorem collects the results of all
  test programs.
\<close>

section \<open>Model\<close>

definition chars :: "string \<Rightarrow> u8 list" where
  "chars s = map (of_nat \<circ> of_char) s"

subsection \<open>string.c\<close>

definition string_lits :: "u8 list list" where
  "string_lits = [replicate 38 97, replicate 37 97 @ [98], replicate 38 97,
    chars '', World!'' @ [10], chars ''Hello, World!'' @ [10], chars ''#####'']"

definition str1_lit :: "u8 list" where
  "str1_lit = chars ''Hello''"

definition string_main :: "mem \<Rightarrow> u32 \<Rightarrow> u32 \<Rightarrow> u32 list \<Rightarrow> int option" where
  "string_main m str str1 s = do {
     s0 \<leftarrow> aget s 0; s1 \<leftarrow> aget s 1; s2 \<leftarrow> aget s 2; s3 \<leftarrow> aget s 3; s4 \<leftarrow> aget s 4; s5 \<leftarrow> aget s 5;
     r \<leftarrow> strcmp uint m s0 s2;
     check (r = 0) (do {
       r \<leftarrow> strcmp uint m s0 s1;
       check (r < 0) (do {
         r \<leftarrow> strcmp uint m (s0 + 1) (s1 + 1);
         check (r < 0) (do {
           r \<leftarrow> strcmp uint m (s0 + 2) (s1 + 2);
           check (r < 0) (do {
             r \<leftarrow> strcmp uint m (s0 + 3) (s1 + 3);
             check (r < 0) (do {
               m \<leftarrow> strcpy m str str1;
               m \<leftarrow> strcat m str s3;
               r \<leftarrow> strcmp uint m str s4;
               check (r = 0) (
                 let m = memset m str 35 5 in
                 check (memcmp uint m str s5 5 = 0) (Some 0))
             })
           })
         })
       })
     })
   }"

subsection \<open>hello-str.c\<close>

text \<open>What \<open>sprintf\<close> stores at \<open>buf\<close>: the text and the terminator.\<close>

definition sprintf_to :: "mem \<Rightarrow> u32 \<Rightarrow> u8 list \<Rightarrow> printf_arg list \<Rightarrow> mem option" where
  "sprintf_to m buf fmt args =
    (case sprintf fmt args of Inl _ \<Rightarrow> None | Inr out \<Rightarrow> Some (put_bytes (out @ [0]) buf m))"

definition hello_lits :: "u8 list list" where
  "hello_lits = [chars ''Hello world!'' @ [10], chars ''1 + 1 = 2'' @ [10], chars ''2 + 10 = 12'' @ [10]]"

definition hello_fmt :: "u8 list" where
  "hello_fmt = chars ''%d + %d = %d'' @ [10]"

definition hello_str_main :: "mem \<Rightarrow> u32 \<Rightarrow> u32 list \<Rightarrow> int option" where
  "hello_str_main m buf s = do {
     s0 \<leftarrow> aget s 0; s1 \<leftarrow> aget s 1; s2 \<leftarrow> aget s 2;
     m \<leftarrow> sprintf_to m buf (chars ''%s'') [Arg_s (hello_lits ! 0)];
     r \<leftarrow> strcmp uint m buf s0;
     check (r = 0) (do {
       m \<leftarrow> sprintf_to m buf hello_fmt [Arg_d 1, Arg_d 1, Arg_d 2];
       r \<leftarrow> strcmp uint m buf s1;
       check (r = 0) (do {
         m \<leftarrow> sprintf_to m buf hello_fmt [Arg_d 2, Arg_d 10, Arg_d 12];
         r \<leftarrow> strcmp uint m buf s2;
         check (r = 0) (Some 0)
       })
     })
   }"

section \<open>Layouts\<close>

text \<open>The string of \<open>n\<close> bytes at \<open>a\<close>, with its terminator, lies outside the \<open>sz\<close> bytes at \<open>buf\<close>, and
  does not wrap around the address space.\<close>

definition apart :: "u32 \<Rightarrow> nat \<Rightarrow> u32 \<Rightarrow> nat \<Rightarrow> bool" where
  "apart buf sz a n \<longleftrightarrow> sz \<le> unat (a - buf) \<and> unat (a - buf) + n < 2 ^ 32 \<and> unat a + n < 2 ^ 32"

definition placed :: "mem \<Rightarrow> u32 \<Rightarrow> nat \<Rightarrow> u32 list \<Rightarrow> u8 list list \<Rightarrow> bool" where
  "placed m buf sz as ls \<longleftrightarrow> list_all2 (\<lambda>a l. a \<noteq> 0 \<and> cstr m a l \<and> apart buf sz a (length l)) as ls"

definition string_layout :: "mem \<Rightarrow> u32 \<Rightarrow> u32 \<Rightarrow> u32 list \<Rightarrow> bool" where
  "string_layout m str str1 s \<longleftrightarrow> str \<noteq> 0 \<and> placed m str 20 (str1 # s) (str1_lit # string_lits)"

definition hello_layout :: "mem \<Rightarrow> u32 \<Rightarrow> u32 list \<Rightarrow> bool" where
  "hello_layout m buf s \<longleftrightarrow> buf \<noteq> 0 \<and> placed m buf 128 s hello_lits"

lemma cstr_outside:
  assumes "apart buf sz a (length ys)" "\<And>b. sz \<le> unat (b - buf) \<Longrightarrow> m' b = m b"
  shows "cstr m' a ys = cstr m a ys"
proof (rule cstr_cong)
  fix i assume i: "i \<le> length ys"
  have "unat (a + of_nat i - buf) = unat (a - buf) + i"
    using assms(1) i unat_add_below [of "a - buf" i] by (simp add: apart_def algebra_simps)
  then show "m' (a + of_nat i) = m (a + of_nat i)"
    using assms by (simp add: apart_def)
qed

lemma put_bytes_outside:
  assumes "j + length xs \<le> sz" "sz < 2 ^ 32" "sz \<le> unat (b - buf)"
  shows "put_bytes xs (buf + of_nat j) m b = m b"
proof -
  have j: "unat (of_nat j :: u32) = j" using assms by (intro unat_of_nat_u32) simp
  have "unat (b - (buf + of_nat j)) = unat (b - buf - of_nat j)" by (simp add: algebra_simps)
  also have "\<dots> = unat (b - buf) - j" using assms j by (subst unat_sub) (simp_all add: word_le_nat_alt)
  finally have "\<not> unat (b - (buf + of_nat j)) < length xs" using assms by linarith
  then show ?thesis using assms by (simp add: put_bytes_eq)
qed

lemma cstr_drop:
  assumes "cstr m a xs" "a \<noteq> 0" "unat a + length xs < 2 ^ 32" "k \<le> length xs"
  shows "cstr m (a + of_nat k) (drop k xs) \<and> a + of_nat k \<noteq> 0"
  using assms
proof (induction k arbitrary: a xs)
  case (Suc k)
  then obtain x ys where xs: "xs = x # ys" by (cases xs) auto
  have u: "unat (a + 1) = unat a + 1" using Suc.prems(3) xs unat_add_below [of a 1] by simp
  then have "a + 1 \<noteq> 0" "unat (a + 1) + length ys < 2 ^ 32" using Suc.prems(3) xs by auto
  then show ?case using Suc.IH [of "a + 1" ys] cstr_Cons [of m a x ys] Suc.prems xs by (simp add: add.assoc)
qed simp

lemma strcmp_cstr:
  assumes "cstr m s1 xs" "cstr m s2 ys" "s1 \<noteq> 0" "s2 \<noteq> 0"
  shows "\<exists>r. strcmp uint m s1 s2 = Some r \<and> (r = 0 \<longleftrightarrow> xs = ys) \<and> (r < 0 \<longleftrightarrow> (xs, ys) \<in> lexord byte_less)"
  using assms strcmp_loop_cstr [of m s1 0 xs s2 ys uint] cmp_terminated [of xs ys]
  by (simp add: strcmp_def cstr_def)

section \<open>The programs pass\<close>

lemma strcat_apart:
  assumes x: "cstr m dst xs" and y: "cstr m src ys" and nz: "0 \<notin> set ys"
    and a: "apart dst sz src (length ys)" and l: "length xs + length ys < sz" "sz \<le> 2 ^ 32"
  shows "strcat m dst src = Some (put_bytes (ys @ [0]) (dst + of_nat (length xs)) m)
    \<and> cstr (put_bytes (ys @ [0]) (dst + of_nat (length xs)) m) dst (xs @ ys)"
proof
  have "dst + of_nat (length xs) + of_nat k \<noteq> src + of_nat i" if "k < i" "i \<le> length ys" for k i
  proof
    assume "dst + of_nat (length xs) + of_nat k = src + of_nat i"
    then have e: "of_nat (length xs + k) = src - dst + of_nat i" by (simp add: algebra_simps)
    have "unat (of_nat (length xs + k) :: u32) = length xs + k"
      using that l by (intro unat_of_nat_u32) simp
    moreover have "unat (src - dst + of_nat i) = unat (src - dst) + i"
      using a that by (intro unat_add_below) (simp add: apart_def)
    ultimately show False using e a that l by (simp add: apart_def)
  qed
  then show "strcat m dst src = Some (put_bytes (ys @ [0]) (dst + of_nat (length xs)) m)"
    using strlen_cstr [OF x] strcat_loop_cstr [of m src 0 ys "dst + of_nat (length xs)"] y
    by (simp add: strcat_def)
  show "cstr (put_bytes (ys @ [0]) (dst + of_nat (length xs)) m) dst (xs @ ys)"
    by (rule cstr_append [OF x nz]) (use l in simp)
qed

text \<open>Strings of equal characters that differ in the last one.\<close>

lemma last_char_less: "(replicate (Suc n) 97, replicate n 97 @ [98 :: u8]) \<in> lexord byte_less"
  by (induction n) (simp_all add: byte_less_def)

lemma string_compare_tails:
  assumes "cstr m s0 (replicate 38 97)" "cstr m s1 (replicate 37 97 @ [98])" "s0 \<noteq> 0" "s1 \<noteq> 0"
    "unat s0 + 38 < 2 ^ 32" "unat s1 + 38 < 2 ^ 32" "k \<le> 37"
  shows "\<exists>r. strcmp uint m (s0 + of_nat k) (s1 + of_nat k) = Some r \<and> r < 0"
proof -
  have "cstr m (s0 + of_nat k) (replicate (Suc (37 - k)) 97)" "s0 + of_nat k \<noteq> 0"
    using cstr_drop [OF assms(1,3), of k] assms(5,7) Suc_diff_le [OF assms(7)] by (simp_all del: replicate.simps)
  moreover have "cstr m (s1 + of_nat k) (replicate (37 - k) 97 @ [98])" "s1 + of_nat k \<noteq> 0"
    using cstr_drop [OF assms(2,4), of k] assms(6,7) by simp_all
  ultimately show ?thesis using strcmp_cstr last_char_less by blast
qed

lemma string_main_passes:
  assumes "string_layout m str str1 s"
  shows "string_main m str str1 s = Some 0"
proof -
  from assms obtain s0 s1 s2 s3 s4 s5 where s: "s = [s0, s1, s2, s3, s4, s5]"
    by (auto simp: string_layout_def placed_def string_lits_def list_all2_Cons2)
  note L = assms [unfolded string_layout_def placed_def s string_lits_def list_all2_Cons]
  let ?A = "replicate 38 97 :: u8 list" and ?B = "replicate 37 97 @ [98] :: u8 list"
  let ?w = "chars '', World!'' @ [10]" and ?hw = "chars ''Hello, World!'' @ [10]" and ?h = "chars ''#####''"
  have nz: "str \<noteq> 0" "str1 \<noteq> 0" "s0 \<noteq> 0" "s1 \<noteq> 0" "s2 \<noteq> 0" "s3 \<noteq> 0" "s4 \<noteq> 0" "s5 \<noteq> 0" using L by blast+
  have c: "cstr m str1 str1_lit" "cstr m s0 ?A" "cstr m s1 ?B" "cstr m s2 ?A" "cstr m s3 ?w" "cstr m s4 ?hw" "cstr m s5 ?h"
    using L by blast+
  have a: "apart str 20 str1 (length str1_lit)" "apart str 20 s0 (length ?A)" "apart str 20 s1 (length ?B)"
      "apart str 20 s3 (length ?w)" "apart str 20 s4 (length ?hw)" "apart str 20 s5 (length ?h)"
    using L by blast+
  have len: "length str1_lit = 5" "length ?w = 9" "length ?hw = 14" "length ?h = 5" "0 \<notin> set str1_lit" "0 \<notin> set ?w"
    "str1_lit @ ?w = ?hw"
    by (simp_all add: str1_lit_def chars_def)
  have lt: "\<exists>r. strcmp uint m (s0 + of_nat k) (s1 + of_nat k) = Some r \<and> r < 0" if "k \<le> 37" for k
    by (rule string_compare_tails) (use c nz a that in \<open>auto simp: apart_def\<close>)
  define m1 where "m1 = put_bytes (str1_lit @ [0]) str m"
  have cp: "strcpy m str str1 = Some m1"
    unfolding m1_def by (rule strcpy_put_bytes [OF c(1) nz(1,2)]) (use a(1) in \<open>simp add: apart_def\<close>)
  have out1: "m1 b = m b" if "20 \<le> unat (b - str)" for b
    using put_bytes_outside [of 0 "str1_lit @ [0]" 20 b str m] len that by (simp add: m1_def)
  have m1: "cstr m1 str str1_lit" "cstr m1 s3 ?w"
    using cstr_put_bytes [of str1_lit str m] len c a(4) cstr_outside [OF a(4) out1] by (simp_all add: m1_def)
  define m2 where "m2 = put_bytes (?w @ [0]) (str + of_nat (length str1_lit)) m1"
  have cat: "strcat m1 str s3 = Some m2" "cstr m2 str ?hw"
    using strcat_apart [OF m1(1,2) len(6) a(4)] len by (simp_all add: m2_def)
  have out2: "m2 b = m b" if "20 \<le> unat (b - str)" for b
    using put_bytes_outside [of 5 "?w @ [0]" 20 b str m1] out1 [of b] len that by (simp add: m2_def)
  have cmp: "strcmp uint m2 str s4 = Some 0"
    using strcmp_cstr [OF cat(2), of s4 ?hw] cstr_outside [OF a(5) out2] c(6) nz by auto
  define m3 where "m3 = memset m2 str 35 5"
  have m3: "m3 b = (if unat (b - str) < 5 then 35 else m2 b)" for b
    using nz(1) by (simp add: m3_def memset_eq)
  have "cstr m3 s5 ?h"
    using cstr_outside [OF a(6), of m3 m] m3 out2 c(7) by simp
  then have "bytes_at m3 s5 5 = ?h" using len(4) by (simp add: cstr_def)
  moreover have "bytes_at m3 str 5 = ?h"
    by (simp add: bytes_at_def m3 chars_def upt_conv_Cons)
  ultimately have mem: "memcmp uint m3 str s5 5 = 0"
    using cmp_bytes_sign [of ?h ?h] by (simp add: memcmp_def memcmp_loop_eq)
  have eq: "strcmp uint m s0 s2 = Some 0"
    using strcmp_cstr [OF c(2,4) nz(3,5)] by auto
  show ?thesis
    using lt [of 0] lt [of 1] lt [of 2] lt [of 3] eq cp cat(1) cmp mem
    by (auto simp: string_main_def s aget_def check_def m3_def Let_def)
qed

lemma sprintf_to_text:
  assumes "Lit 37 \<notin> set its" "concat (map item_fmt its) = fmt" "concat (map item_args its) = args"
    "concat (map item_text its) = l" "0 \<notin> set l" "length l < sz" "sz < 2 ^ 32"
    "cstr m0 a l" "apart buf sz a (length l)" "a \<noteq> 0" "buf \<noteq> 0" "\<And>b. sz \<le> unat (b - buf) \<Longrightarrow> m b = m0 b"
  shows "\<exists>m'. sprintf_to m buf fmt args = Some m' \<and> strcmp uint m' buf a = Some 0
    \<and> (\<forall>b. sz \<le> unat (b - buf) \<longrightarrow> m' b = m0 b)"
proof -
  let ?m = "put_bytes (l @ [0]) buf m"
  have "sprintf fmt args = Inr l"
    using vsprintf_loop_items [OF assms(1), of "[]" "[]" "[]"] assms(2-4) by (simp add: sprintf_def vsprintf_def)
  then have "sprintf_to m buf fmt args = Some ?m" by (simp add: sprintf_to_def)
  moreover have out: "?m b = m0 b" if "sz \<le> unat (b - buf)" for b
    using put_bytes_outside [of 0 "l @ [0]" sz b buf m] assms that by simp
  moreover have "strcmp uint ?m buf a = Some 0"
    using strcmp_cstr [OF cstr_put_bytes [of l buf m], of a l] cstr_outside [OF assms(9) out] assms by auto
  ultimately show ?thesis by blast
qed

lemma hello_str_main_passes:
  assumes "hello_layout m buf s"
  shows "hello_str_main m buf s = Some 0"
proof -
  from assms obtain s0 s1 s2 where s: "s = [s0, s1, s2]"
    by (auto simp: hello_layout_def placed_def hello_lits_def list_all2_Cons2)
  note L = assms [unfolded hello_layout_def placed_def s hello_lits_def list_all2_Cons]
  let ?items = "\<lambda>x y z. [Dec x, Lit 32, Lit 43, Lit 32, Dec y, Lit 32, Lit 61, Lit 32, Dec z, Lit 10]"
  let ?l0 = "hello_lits ! 0" and ?l1 = "hello_lits ! 1" and ?l2 = "hello_lits ! 2"
  have buf: "buf \<noteq> 0" using L by blast
  have nz: "s0 \<noteq> 0" "s1 \<noteq> 0" "s2 \<noteq> 0" using L by blast+
  have c: "cstr m s0 ?l0" "cstr m s1 ?l1" "cstr m s2 ?l2" using L by (simp_all add: hello_lits_def)
  have a: "apart buf 128 s0 (length ?l0)" "apart buf 128 s1 (length ?l1)" "apart buf 128 s2 (length ?l2)"
    using L by (simp_all add: hello_lits_def)
  have fmt: "concat (map item_fmt (?items x y z)) = hello_fmt"
      "concat (map item_args (?items x y z)) = [Arg_d x, Arg_d y, Arg_d z]" for x y z
    by (simp_all add: hello_fmt_def chars_def)
  have tx: "concat (map item_text (?items 1 1 2)) = ?l1" "concat (map item_text (?items 2 10 12)) = ?l2"
    by (simp_all add: hello_lits_def chars_def sdec_def dec_def rdigits.simps)
  obtain m1 where m1: "sprintf_to m buf (chars ''%s'') [Arg_s ?l0] = Some m1" "strcmp uint m1 buf s0 = Some 0"
      "\<And>b. 128 \<le> unat (b - buf) \<Longrightarrow> m1 b = m b"
    using sprintf_to_text [of "[Str ?l0]" "chars ''%s''" "[Arg_s ?l0]" ?l0 128 m s0 buf m] c a nz buf
    by (auto simp: chars_def hello_lits_def)
  obtain m2 where m2: "sprintf_to m1 buf hello_fmt [Arg_d 1, Arg_d 1, Arg_d 2] = Some m2" "strcmp uint m2 buf s1 = Some 0"
      "\<And>b. 128 \<le> unat (b - buf) \<Longrightarrow> m2 b = m b"
    using sprintf_to_text [OF _ fmt tx(1) _ _ _ c(2) a(2) nz(2) buf m1(3)] by (auto simp: hello_lits_def chars_def)
  obtain m3 where m3: "sprintf_to m2 buf hello_fmt [Arg_d 2, Arg_d 10, Arg_d 12] = Some m3" "strcmp uint m3 buf s2 = Some 0"
    using sprintf_to_text [OF _ fmt tx(2) _ _ _ c(3) a(3) nz(3) buf m2(3)] by (auto simp: hello_lits_def chars_def)
  show ?thesis using m1(1,2) m2(1,2) m3 by (simp add: hello_str_main_def s aget_def check_def)
qed

section \<open>Properties\<close>

text \<open>
  C29: what the 35 test programs do.  Thirty of them end with code 0: none of their checks fails, none leaves
  its arrays or overflows a signed integer it computes with, and all of them return; the two programs on
  strings do so for every placement of their buffers and literals in memory, with the library's own
  \<open>strcmp\<close>, \<open>strcpy\<close>, \<open>strcat\<close>, \<open>memset\<close>, \<open>memcmp\<close> and \<open>sprintf\<close>.  load-store.c and unalign.c do so on a
  processor that supports unaligned accesses, and otherwise depend on one that C leaves undefined.  add.c,
  add-longlong.c and sub-longlong.c compute a signed overflow and so have no defined result; their tables
  of answers hold the sums and differences modulo \<open>2 ^ 32\<close> and \<open>2 ^ 64\<close>, and with arithmetic that wraps
  they would end with code 0 too.
\<close>
theorem test_programs_pass:
  assumes "string_layout m str str1 s" "hello_layout m' buf s'"
  shows "string_main m str str1 s = Some 0 \<and> hello_str_main m' buf s' = Some 0
    \<and> bubble_sort_main = Some 0 \<and> select_sort_main = Some 0 \<and> quick_sort_main = Some 0
    \<and> fact_main = Some 0 \<and> fib_main = Some 0 \<and> pascal_main = Some 0 \<and> goldbach_main = Some 0
    \<and> prime_main = Some 0 \<and> mersenne_main = Some 0 \<and> leap_year_main = Some 0 \<and> shuixianhua_main = Some 0
    \<and> wanshu_main = Some 0 \<and> sum_main = Some 0 \<and> recursion_main = Some 0 \<and> div_main = Some 0
    \<and> matrix_mul_main = Some 0 \<and> if_else_main = Some 0 \<and> switch_main = Some 0
    \<and> max_main = Some 0 \<and> mul_longlong_main = Some 0 \<and> min3_main = Some 0 \<and> shift_main = Some 0
    \<and> mov_c_main = Some 0 \<and> movsx_main = Some 0 \<and> to_lower_case_main = Some 0
    \<and> bit_main = Some 0 \<and> crc32_main = Some 0 \<and> dummy_main = Some 0
    \<and> load_store_main True base = Some 0 \<and> load_store_main False (2 * n) = None
    \<and> unalign_main mis base = (if mis \<or> base mod 4 = 1 then Some 0 else None)
    \<and> add_main = None \<and> table_main (\<lambda>x y. Some (x + y)) add_data add_ans = Some 0
    \<and> add_longlong_main = None \<and> table_ll_main (\<lambda>x y. Some (x + y)) ll_data add_ll_ans = Some 0
    \<and> sub_longlong_main = None \<and> table_ll_main (\<lambda>x y. Some (x - y)) ll_data sub_ll_ans = Some 0"
  by (simp only: string_main_passes [OF assms(1)] hello_str_main_passes [OF assms(2)]
      sort_programs_pass number_programs_pass machine_programs_pass machine_programs_undefined simp_thms)

lemma cstr_put_apart:
  assumes "cstr m a ys" "apart b (length xs) a (length ys)" "length xs < 2 ^ 32"
  shows "cstr (put_bytes xs b m) a ys"
  using cstr_outside [OF assms(2), of "put_bytes xs b m" m] put_bytes_outside [of 0 xs "length xs" _ b m] assms
  by simp

text \<open>A memory that holds strings at given places.\<close>

primrec place_all :: "(u32 \<times> u8 list) list \<Rightarrow> mem" where
  "place_all [] = (\<lambda>a. 0)"
| "place_all (x # xs) = put_bytes (snd x @ [0]) (fst x) (place_all xs)"

primrec places_ok :: "(u32 \<times> u8 list) list \<Rightarrow> bool" where
  "places_ok [] = True"
| "places_ok (x # xs) \<longleftrightarrow> 0 \<notin> set (snd x) \<and> Suc (length (snd x)) < 2 ^ 32
    \<and> list_all (\<lambda>y. apart (fst x) (Suc (length (snd x))) (fst y) (length (snd y))) xs \<and> places_ok xs"

lemma place_all_cstr: "places_ok xs \<Longrightarrow> x \<in> set xs \<Longrightarrow> cstr (place_all xs) (fst x) (snd x)"
proof (induction xs)
  case (Cons y ys)
  show ?case
  proof (cases "x = y")
    case True
    then show ?thesis using Cons.prems(1) by (simp add: cstr_put_bytes)
  next
    case False
    then have x: "x \<in> set ys" using Cons.prems(2) by simp
    then have "cstr (place_all ys) (fst x) (snd x)" using Cons by simp
    then show ?thesis using Cons.prems(1) x
      by (simp add: cstr_put_apart list_all_iff)
  qed
qed simp

definition string_places :: "(u32 \<times> u8 list) list" where
  "string_places = [(0x1100, str1_lit), (0x1200, string_lits ! 0), (0x1300, string_lits ! 1),
    (0x1400, string_lits ! 3), (0x1500, string_lits ! 4), (0x1600, string_lits ! 5)]"

lemma demo_string_layout:
  "string_layout (place_all string_places) 0x1000 0x1100 [0x1200, 0x1300, 0x1200, 0x1400, 0x1500, 0x1600]"
proof -
  have "places_ok string_places"
    by (simp add: string_places_def string_lits_def str1_lit_def chars_def apart_def)
  from place_all_cstr [OF this] have c: "list_all (\<lambda>x. cstr (place_all string_places) (fst x) (snd x)) string_places"
    by (simp add: list_all_iff)
  show ?thesis
    using c [unfolded string_places_def list.pred_inject fst_conv snd_conv, folded string_places_def]
    by (simp add: string_layout_def placed_def string_lits_def str1_lit_def chars_def apart_def)
qed

definition hello_places :: "(u32 \<times> u8 list) list" where
  "hello_places = [(0x1100, hello_lits ! 0), (0x1200, hello_lits ! 1), (0x1300, hello_lits ! 2)]"

lemma demo_hello_layout: "hello_layout (place_all hello_places) 0x1000 [0x1100, 0x1200, 0x1300]"
proof -
  have "places_ok hello_places" by (simp add: hello_places_def hello_lits_def chars_def apart_def)
  from place_all_cstr [OF this] have c: "list_all (\<lambda>x. cstr (place_all hello_places) (fst x) (snd x)) hello_places"
    by (simp add: list_all_iff)
  show ?thesis
    using c [unfolded hello_places_def list.pred_inject fst_conv snd_conv, folded hello_places_def]
    by (simp add: hello_layout_def placed_def hello_lits_def chars_def apart_def)
qed

theorem test_programs_pass_witness:
  "string_main (place_all string_places) 0x1000 0x1100 [0x1200, 0x1300, 0x1200, 0x1400, 0x1500, 0x1600] = Some 0
    \<and> hello_str_main (place_all hello_places) 0x1000 [0x1100, 0x1200, 0x1300] = Some 0"
  using test_programs_pass [OF demo_string_layout demo_hello_layout] by blast

end
