(* ===== verification/Am_Disk.thy ===== *)
theory Am_Disk
  imports Klib_String "HOL-Library.Monad_Syntax" "HOL-Library.Signed_Division"
begin

text \<open>
  The disk of the \<open>x86-qemu\<close> port and the boot loader:  \<open>disk_blkio\<close> of
  \<open>abstract-machine/am/src/x86/qemu/ioe.c\<close> and \<open>boot/main.c\<close>.

  The port instructions are the fields of the record \<open>bus\<close>, functions on the state of the hardware,
  and an argument of everything that uses them.  What the code relies on is the hypothesis
  \<open>ata_ok\<close>: the hardware implements the documented programmed-I/O protocol of an ATA disk
  (\<open>ata_out8\<close>, \<open>ata_read\<close>, \<open>ata_write\<close>), its status port does not change anything else, and
  after finitely many polls it is ready.  Polling is a partial function.

  The theorems: \<open>disk_blkio\<close> transfers exactly the requested blocks, and the boot loader places every
  segment of an ELF file, with its zero-initialised part, and jumps to its entry point.
\<close>

section \<open>Port instructions and the disk protocol\<close>

record 'w bus =
  in8 :: "u16 \<Rightarrow> 'w \<Rightarrow> u8 \<times> 'w"
  out8 :: "u16 \<Rightarrow> u8 \<Rightarrow> 'w \<Rightarrow> 'w"
  in32 :: "u16 \<Rightarrow> 'w \<Rightarrow> u32 \<times> 'w"
  out32 :: "u16 \<Rightarrow> u32 \<Rightarrow> 'w \<Rightarrow> 'w"

datatype ata_mode = Idle | Sending "u32 list" | Receiving nat "u32 list"

record ata =
  sector_count :: u8
  lba_low :: u8
  lba_mid :: u8
  lba_high :: u8
  device :: u8
  busy :: bool
  mode :: ata_mode
  sectors :: "nat \<Rightarrow> u32 list"

definition lba :: "ata \<Rightarrow> nat" where
  "lba s = unat (lba_low s) + 2 ^ 8 * unat (lba_mid s) + 2 ^ 16 * unat (lba_high s)
    + 2 ^ 24 * (unat (device s) mod 16)"

text \<open>A transfer of one sector in LBA mode on the first drive.\<close>

definition addressed :: "ata \<Rightarrow> bool" where
  "addressed s \<longleftrightarrow> sector_count s = 1 \<and> bit (device s) 6 \<and> \<not> bit (device s) 4"

definition ata_out8 :: "u16 \<Rightarrow> u8 \<Rightarrow> ata \<Rightarrow> ata" where
  "ata_out8 p v s =
    (if p = 0x1f2 then s\<lparr>sector_count := v\<rparr>
     else if p = 0x1f3 then s\<lparr>lba_low := v\<rparr>
     else if p = 0x1f4 then s\<lparr>lba_mid := v\<rparr>
     else if p = 0x1f5 then s\<lparr>lba_high := v\<rparr>
     else if p = 0x1f6 then s\<lparr>device := v\<rparr>
     else if p = 0x1f7 \<and> addressed s \<and> v = 0x20 then s\<lparr>busy := True, mode := Sending (sectors s (lba s))\<rparr>
     else if p = 0x1f7 \<and> addressed s \<and> v = 0x30 then s\<lparr>busy := True, mode := Receiving (lba s) []\<rparr>
     else s)"

text \<open>The accesses the contract covers: the address registers and the two commands, once a single sector has
  been addressed.\<close>

definition ata_request :: "u16 \<Rightarrow> u8 \<Rightarrow> ata \<Rightarrow> bool" where
  "ata_request p v s \<longleftrightarrow> 0x1f2 \<le> p \<and> p \<le> 0x1f6 \<or> p = 0x1f7 \<and> addressed s \<and> (v = 0x20 \<or> v = 0x30)"

definition ata_read :: "ata \<Rightarrow> ata" where
  "ata_read s =
    (case mode s of
       Sending (x # y # xs) \<Rightarrow> s\<lparr>mode := Sending (y # xs)\<rparr>
     | _ \<Rightarrow> s\<lparr>busy := True, mode := Idle\<rparr>)"

definition ata_write :: "u32 \<Rightarrow> ata \<Rightarrow> ata" where
  "ata_write v s =
    (case mode s of
       Receiving l ws \<Rightarrow>
         if length ws = 127 then s\<lparr>busy := True, mode := Idle, sectors := (sectors s)(l := ws @ [v])\<rparr>
         else s\<lparr>mode := Receiving l (ws @ [v])\<rparr>
     | _ \<Rightarrow> s)"

definition poll :: "'w bus \<Rightarrow> 'w \<Rightarrow> 'w" where
  "poll bus w = snd (in8 bus 0x1f7 w)"

definition ready :: "'w bus \<Rightarrow> 'w \<Rightarrow> bool" where
  "ready bus w \<longleftrightarrow> fst (in8 bus 0x1f7 w) AND 0xc0 = 0x40"

text \<open>
  The hardware in state \<open>w\<close> behaves as the disk \<open>s\<close>, for \<open>R w s\<close>.  A command makes the disk busy, the
  registers and the data port answer only when it is not, and the disk is known not to be busy after a
  poll of the status port has said so.
\<close>

definition ata_ok :: "'w bus \<Rightarrow> ('w \<Rightarrow> ata \<Rightarrow> bool) \<Rightarrow> bool" where
  "ata_ok bus R \<longleftrightarrow>
    (\<forall>w s. R w s \<longrightarrow> (\<forall>k. length (sectors s k) = 128)
      \<and> R (poll bus w) (if ready bus w then s\<lparr>busy := False\<rparr> else s)
      \<and> (\<exists>n. ready bus ((poll bus ^^ n) w))
      \<and> (\<not> busy s \<longrightarrow> mode s = Idle \<longrightarrow>
           (\<forall>p v. ata_request p v s \<longrightarrow> R (out8 bus p v w) (ata_out8 p v s)))
      \<and> (\<not> busy s \<longrightarrow> (\<forall>x xs. mode s = Sending (x # xs) \<longrightarrow>
           fst (in32 bus 0x1f0 w) = x \<and> R (snd (in32 bus 0x1f0 w)) (ata_read s)))
      \<and> (\<not> busy s \<longrightarrow> (\<forall>l ws v. mode s = Receiving l ws \<longrightarrow> R (out32 bus 0x1f0 v w) (ata_write v s))))"

section \<open>Model\<close>

definition load32 :: "mem \<Rightarrow> u32 \<Rightarrow> u32" where
  "load32 m a = ucast (m a) OR push_bit 8 (ucast (m (a + 1))) OR push_bit 16 (ucast (m (a + 2)))
    OR push_bit 24 (ucast (m (a + 3)))"

definition load16 :: "mem \<Rightarrow> u32 \<Rightarrow> u16" where
  "load16 m a = ucast (m a) OR push_bit 8 (ucast (m (a + 1)))"

definition store32 :: "mem \<Rightarrow> u32 \<Rightarrow> u32 \<Rightarrow> mem" where
  "store32 m a v = m(a := ucast v, a + 1 := ucast (drop_bit 8 v), a + 2 := ucast (drop_bit 16 v),
    a + 3 := ucast (drop_bit 24 v))"

partial_function (option) wait_disk :: "'w bus \<Rightarrow> 'w \<Rightarrow> 'w option" where
  "wait_disk bus w =
    (let st = fst (in8 bus 0x1f7 w); w = snd (in8 bus 0x1f7 w)
     in if st AND 0xc0 \<noteq> 0x40 then wait_disk bus w else Some w)"

definition disk_command :: "'w bus \<Rightarrow> u32 \<Rightarrow> u8 \<Rightarrow> 'w \<Rightarrow> 'w" where
  "disk_command bus blkno cmd w =
    (let w = out8 bus 0x1f2 1 w;
         w = out8 bus 0x1f3 (ucast blkno) w;
         w = out8 bus 0x1f4 (ucast (drop_bit 8 blkno)) w;
         w = out8 bus 0x1f5 (ucast (drop_bit 16 blkno)) w;
         w = out8 bus 0x1f6 (ucast (drop_bit 24 blkno OR 0xe0)) w
     in out8 bus 0x1f7 cmd w)"

primrec in_words :: "'w bus \<Rightarrow> nat \<Rightarrow> u32 \<Rightarrow> mem \<Rightarrow> 'w \<Rightarrow> u32 \<times> mem \<times> 'w" where
  "in_words bus 0 ptr m w = (ptr, m, w)"
| "in_words bus (Suc k) ptr m w =
    (case in32 bus 0x1f0 w of (x, w) \<Rightarrow> in_words bus k (ptr + 4) (store32 m ptr x) w)"

primrec out_words :: "'w bus \<Rightarrow> nat \<Rightarrow> u32 \<Rightarrow> mem \<Rightarrow> 'w \<Rightarrow> u32 \<times> 'w" where
  "out_words bus 0 ptr m w = (ptr, w)"
| "out_words bus (Suc k) ptr m w = out_words bus k (ptr + 4) m (out32 bus 0x1f0 (load32 m ptr) w)"

primrec blkio_loop :: "'w bus \<Rightarrow> bool \<Rightarrow> nat \<Rightarrow> u32 \<Rightarrow> u32 \<Rightarrow> mem \<Rightarrow> 'w \<Rightarrow> (mem \<times> 'w) option" where
  "blkio_loop bus write 0 blkno ptr m w = Some (m, w)"
| "blkio_loop bus write (Suc remain) blkno ptr m w = do {
     w \<leftarrow> wait_disk bus w;
     w \<leftarrow> wait_disk bus (disk_command bus blkno (if write then 0x30 else 0x20) w);
     if write then
       case out_words bus 128 ptr m w of (ptr, w) \<Rightarrow> blkio_loop bus write remain (blkno + 1) ptr m w
     else
       case in_words bus 128 ptr m w of (ptr, m, w) \<Rightarrow> blkio_loop bus write remain (blkno + 1) ptr m w
   }"

definition disk_blkio :: "'w bus \<Rightarrow> bool \<Rightarrow> u32 \<Rightarrow> u32 \<Rightarrow> u32 \<Rightarrow> mem \<Rightarrow> 'w \<Rightarrow> (mem \<times> 'w) option" where
  "disk_blkio bus write buf blkno blkcnt m w = blkio_loop bus write (unat blkcnt) blkno buf m w"

subsection \<open>The boot loader\<close>

definition read_disk :: "'w bus \<Rightarrow> u32 \<Rightarrow> u32 \<Rightarrow> mem \<Rightarrow> 'w \<Rightarrow> (mem \<times> 'w) option" where
  "read_disk bus buf sect m w = do {
     w \<leftarrow> wait_disk bus w;
     w \<leftarrow> wait_disk bus (disk_command bus sect 0x20 w);
     Some (snd (in_words bus 128 buf m w))
   }"

partial_function (option) copy_from_disk_loop :: "'w bus \<Rightarrow> u32 \<Rightarrow> u32 \<Rightarrow> u32 \<Rightarrow> mem \<Rightarrow> 'w \<Rightarrow> (mem \<times> 'w) option" where
  "copy_from_disk_loop bus cur ed sect m w =
    (if cur < ed then do {
       (m, w) \<leftarrow> read_disk bus cur sect m w;
       copy_from_disk_loop bus (cur + 512) ed (sect + 1) m w
     } else Some (m, w))"

definition copy_from_disk :: "'w bus \<Rightarrow> u32 \<Rightarrow> u32 \<Rightarrow> int \<Rightarrow> mem \<Rightarrow> 'w \<Rightarrow> (mem \<times> 'w) option" where
  "copy_from_disk bus buf nbytes disk_offset m w =
    (let cur = buf AND NOT 511;
         ed = buf + nbytes;
         sect = word_of_int (disk_offset sdiv 512) + (1024 div 512) + 1
     in copy_from_disk_loop bus cur ed sect m w)"

primrec zero_loop :: "nat \<Rightarrow> u32 \<Rightarrow> mem \<Rightarrow> mem" where
  "zero_loop 0 bss m = m"
| "zero_loop (Suc k) bss m = zero_loop k (bss + 1) (m(bss := 0))"

definition load_program :: "'w bus \<Rightarrow> u32 \<Rightarrow> u32 \<Rightarrow> u32 \<Rightarrow> u32 \<Rightarrow> mem \<Rightarrow> 'w \<Rightarrow> (mem \<times> 'w) option" where
  "load_program bus filesz memsz paddr offset m w = do {
     (m, w) \<leftarrow> copy_from_disk bus paddr filesz (sint offset) m w;
     Some (zero_loop (unat (memsz - filesz)) (paddr + filesz) m, w)
   }"

lemma u16_counter: "i < unat (x :: u16) \<Longrightarrow> 65535 - i < 65536 - i"
  using unat_u16_less [of x] by simp

text \<open>The headers: offsets of the fields of \<open>Elf32_Ehdr\<close>, \<open>Elf64_Ehdr\<close> and the program headers;
  of a 64-bit field the low word is used.\<close>

function load_elf64_loop :: "'w bus \<Rightarrow> u32 \<Rightarrow> u32 \<Rightarrow> nat \<Rightarrow> mem \<Rightarrow> 'w \<Rightarrow> (mem \<times> 'w) option" where
  "load_elf64_loop bus elf ph i m w =
    (if i < unat (load16 m (elf + 56)) then do {
       (m, w) \<leftarrow> load_program bus (load32 m (ph + 32)) (load32 m (ph + 40)) (load32 m (ph + 24)) (load32 m (ph + 8)) m w;
       load_elf64_loop bus elf (ph + 56) (Suc i) m w
     } else Some (m, w))"
  by pat_completeness auto
termination
  by (relation "measure (\<lambda>(bus, elf, ph, i, m, w). 2 ^ 16 - i)")
    (simp_all add: u16_counter)

definition load_elf64 :: "'w bus \<Rightarrow> u32 \<Rightarrow> mem \<Rightarrow> 'w \<Rightarrow> (mem \<times> 'w) option" where
  "load_elf64 bus elf m w = load_elf64_loop bus elf (elf + load32 m (elf + 32)) 0 m w"

function load_elf32_loop :: "'w bus \<Rightarrow> u32 \<Rightarrow> u32 \<Rightarrow> nat \<Rightarrow> mem \<Rightarrow> 'w \<Rightarrow> (mem \<times> 'w) option" where
  "load_elf32_loop bus elf ph i m w =
    (if i < unat (load16 m (elf + 44)) then do {
       (m, w) \<leftarrow> load_program bus (load32 m (ph + 16)) (load32 m (ph + 20)) (load32 m (ph + 12)) (load32 m (ph + 4)) m w;
       load_elf32_loop bus elf (ph + 32) (Suc i) m w
     } else Some (m, w))"
  by pat_completeness auto
termination
  by (relation "measure (\<lambda>(bus, elf, ph, i, m, w). 2 ^ 16 - i)")
    (simp_all add: u16_counter)

definition load_elf32 :: "'w bus \<Rightarrow> u32 \<Rightarrow> mem \<Rightarrow> 'w \<Rightarrow> (mem \<times> 'w) option" where
  "load_elf32 bus elf m w = load_elf32_loop bus elf (elf + load32 m (elf + 28)) 0 m w"

abbreviation (input) MAINARG_ADDR :: u32 where "MAINARG_ADDR \<equiv> 0x10000"

definition boot_record_is_ap :: "mem \<Rightarrow> u32" where
  "boot_record_is_ap m = load32 m (0x7000 + 4)"

abbreviation (input) EM_X86_64 :: u16 where "EM_X86_64 \<equiv> 62"

text \<open>The result holds the address jumped to.\<close>

definition load_kernel :: "'w bus \<Rightarrow> mem \<Rightarrow> 'w \<Rightarrow> (u32 \<times> mem \<times> 'w) option" where
  "load_kernel bus m w = do {
     let elf = 0x8000;
     let is_ap = boot_record_is_ap m;
     (m, w) \<leftarrow>
       (if is_ap = 0 then do {
          (m, w) \<leftarrow> copy_from_disk bus MAINARG_ADDR 1024 (- 1024) m w;
          (m, w) \<leftarrow> copy_from_disk bus elf 4096 0 m w;
          if load16 m (elf + 18) = EM_X86_64 then load_elf64 bus elf m w
          else load_elf32 bus elf m w
        } else Some (m, w));
     if load16 m (elf + 18) = EM_X86_64 then Some (load32 m (elf + 24), m, w)
     else Some (load32 m (elf + 24), m, w)
   }"

declare load_elf64_loop.simps [simp del]
  load_elf32_loop.simps [simp del]

section \<open>Bytes, words and sectors\<close>

definition wbytes :: "u32 \<Rightarrow> u8 list" where
  "wbytes x = [ucast x, ucast (drop_bit 8 x), ucast (drop_bit 16 x), ucast (drop_bit 24 x)]"

definition sector_bytes :: "ata \<Rightarrow> nat \<Rightarrow> u8 list" where
  "sector_bytes s k = concat (map wbytes (sectors s k))"

definition words_at :: "mem \<Rightarrow> u32 \<Rightarrow> nat \<Rightarrow> u32 list" where
  "words_at m a k = map (\<lambda>i. load32 m (a + 4 * of_nat i)) [0..<k]"

lemma length_wbytes [simp]: "length (wbytes x) = 4"
  by (simp add: wbytes_def)

lemma length_concat_uniform: "(\<And>x. length (f x) = c) \<Longrightarrow> length (concat (map f xs)) = c * length xs"
  by (induction xs) simp_all

lemma nth_concat_uniform:
  assumes "\<And>x. length (f x) = c" "i < c * length xs"
  shows "concat (map f xs) ! i = f (xs ! (i div c)) ! (i mod c)"
  using assms(2)
proof (induction xs arbitrary: i)
  case (Cons x xs)
  have "0 < c" using Cons.prems by (cases c) simp_all
  show ?case
  proof (cases "i < c")
    case False
    then obtain d where i: "i = d + c" by (metis add.commute le_Suc_ex not_less)
    then have "i div c = Suc (d div c)" "i mod c = d mod c" using \<open>0 < c\<close> div_add_self2 [of c d] by simp_all
    then show ?thesis using Cons.IH [of d] Cons.prems assms(1) i by (simp add: nth_append)
  qed (simp add: nth_append assms(1))
qed simp

lemma put_bytes_append: "put_bytes (xs @ ys) a m = put_bytes ys (a + of_nat (length xs)) (put_bytes xs a m)"
  by (induction xs arbitrary: a m) (simp_all add: algebra_simps)

lemma store32_put_bytes: "store32 m a x = put_bytes (wbytes x) a m"
  by (simp add: store32_def wbytes_def add.assoc)

lemma load32_bytes:
  "ucast (load32 m a) = m a" "ucast (drop_bit 8 (load32 m a)) = m (a + 1)"
  "ucast (drop_bit 16 (load32 m a)) = m (a + 2)" "ucast (drop_bit 24 (load32 m a)) = m (a + 3)"
  unfolding load32_def
  by (rule bit_eqI; auto simp: bit_simps simp del: push_bit_numeral dest: bit_imp_le_length)+

lemma wbytes_load32: "wbytes (load32 m a) = bytes_at m a 4"
  by (simp add: wbytes_def load32_bytes bytes_at_def upt_conv_Cons)

lemma words_at_Suc: "words_at m a (Suc k) = load32 m a # words_at m (a + 4) k"
  by (simp add: words_at_def upt_conv_Cons map_Suc_upt [symmetric] algebra_simps del: upt_Suc)

lemma bytes_at_add: "bytes_at m a (i + j) = bytes_at m a i @ bytes_at m (a + of_nat i) j"
  by (induction i arbitrary: a) (simp_all add: bytes_at_Suc bytes_at_0 algebra_simps)

lemma concat_words_at: "concat (map wbytes (words_at m a k)) = bytes_at m a (4 * k)"
proof (induction k arbitrary: a)
  case (Suc k)
  then show ?case using bytes_at_add [of m a 4 "4 * k"] by (simp add: words_at_Suc wbytes_load32)
qed (simp add: words_at_def bytes_at_def)


lemma length_sector_bytes: "length (sectors s k) = 128 \<Longrightarrow> length (sector_bytes s k) = 512"
  by (simp add: sector_bytes_def length_concat_uniform)

lemma sector_bytes_cong: "sectors s' = sectors s \<Longrightarrow> sector_bytes s' = sector_bytes s"
  by (simp add: sector_bytes_def fun_eq_iff)

section \<open>The protocol\<close>

lemma wait_disk_poll: "wait_disk bus w = (if ready bus w then Some (poll bus w) else wait_disk bus (poll bus w))"
  unfolding ready_def poll_def by (subst wait_disk.simps) (simp only: Let_def split: if_split, simp)

lemma wait_disk_returns:
  assumes "ata_ok bus R" "R w s"
  shows "\<exists>w'. wait_disk bus w = Some w' \<and> R w' (s\<lparr>busy := False\<rparr>)"
proof -
  have p: "R (poll bus w) (if ready bus w then s\<lparr>busy := False\<rparr> else s)" if "R w s" for w
    using assms(1) that by (simp add: ata_ok_def)
  have "ready bus ((poll bus ^^ n) w) \<Longrightarrow> R w s \<Longrightarrow> ?thesis" for n
  proof (induction n arbitrary: w)
    case 0
    then show ?case using p [of w] by (subst wait_disk_poll) simp
  next
    case (Suc n)
    then show ?case using Suc.IH [of "poll bus w"] p [of w]
      by (subst wait_disk_poll) (auto simp: funpow_swap1)
  qed
  then show ?thesis using assms unfolding ata_ok_def by blast
qed

lemma ata_length: "ata_ok bus R \<Longrightarrow> R w s \<Longrightarrow> length (sectors s k) = 128"
  by (simp add: ata_ok_def)

lemma ata_out: "ata_ok bus R \<Longrightarrow> R w s \<Longrightarrow> \<not> busy s \<Longrightarrow> mode s = Idle \<Longrightarrow> ata_request p v s
    \<Longrightarrow> R (out8 bus p v w) (ata_out8 p v s)"
  by (simp add: ata_ok_def)

lemma ata_in: "ata_ok bus R \<Longrightarrow> R w s \<Longrightarrow> \<not> busy s \<Longrightarrow> mode s = Sending (x # xs)
    \<Longrightarrow> fst (in32 bus 0x1f0 w) = x \<and> R (snd (in32 bus 0x1f0 w)) (ata_read s)"
  by (simp add: ata_ok_def)

lemma ata_data: "ata_ok bus R \<Longrightarrow> R w s \<Longrightarrow> \<not> busy s \<Longrightarrow> mode s = Receiving l ws
    \<Longrightarrow> R (out32 bus 0x1f0 v w) (ata_write v s)"
  by (simp add: ata_ok_def)

lemma nat_bytes:
  "(x::nat) mod 256 + 256 * (x div 256 mod 256) + 65536 * (x div 65536 mod 256) + 16777216 * (x div 16777216) = x"
proof -
  have gen: "a + 256 * b + 65536 * c + 16777216 * u = x" if "x = y * 256 + a" "y = z * 256 + b" "z = u * 256 + c"
    for a b c u y z :: nat
    unfolding that by simp
  have "x div 65536 = x div 256 div 256" "x div 16777216 = x div 256 div 256 div 256"
    by (simp_all add: div_mult2_eq [symmetric])
  then show ?thesis by (simp only:) (rule gen; rule div_mult_mod_eq [symmetric])
qed

text \<open>The four address registers hold the block number.\<close>

lemma address_bits:
  fixes b :: u32
  assumes "unat b < 2 ^ 28"
  shows "unat (ucast b :: u8) + 2 ^ 8 * unat (ucast (drop_bit 8 b) :: u8)
      + 2 ^ 16 * unat (ucast (drop_bit 16 b) :: u8)
      + 2 ^ 24 * (unat (ucast (drop_bit 24 b OR 0xe0) :: u8) mod 16) = unat b"
    and "bit (ucast (drop_bit 24 b OR 0xe0) :: u8) 6"
    and "\<not> bit (ucast (drop_bit 24 b OR 0xe0) :: u8) 4"
proof -
  have t: "take_bit 4 (ucast (drop_bit 24 b OR 0xe0) :: u8) = take_bit 4 (ucast (drop_bit 24 b))"
    by (rule bit_eqI) (auto simp: bit_simps numeral_eq_Suc less_Suc_eq)
  have "unat (ucast (drop_bit 24 b OR 0xe0) :: u8) mod 16 = unat (take_bit 4 (ucast (drop_bit 24 b OR 0xe0) :: u8))"
    unfolding unsigned_take_bit_eq by (simp add: take_bit_eq_mod)
  also have "\<dots> = unat b div 2 ^ 24"
    unfolding t unsigned_take_bit_eq using assms less_mult_imp_div_less [of "unat b" 16 "2 ^ 24"]
    by (simp add: take_bit_eq_mod unat_ucast_mod unat_drop_bit)
  finally have "unat (ucast (drop_bit 24 b OR 0xe0) :: u8) mod 16 = unat b div 2 ^ 24" .
  moreover have "x mod 256 + 256 * (x div 256 mod 256) + 65536 * (x div 65536 mod 256) + 16777216 * (x div 16777216) = x"
    for x :: nat
    by (rule nat_bytes)
  ultimately show "unat (ucast b :: u8) + 2 ^ 8 * unat (ucast (drop_bit 8 b) :: u8)
      + 2 ^ 16 * unat (ucast (drop_bit 16 b) :: u8)
      + 2 ^ 24 * (unat (ucast (drop_bit 24 b OR 0xe0) :: u8) mod 16) = unat b"
    by (simp add: unat_ucast_mod unat_drop_bit)
  have "\<not> bit (unat b) 28" using assms by (simp add: bit_iff_odd)
  then have "\<not> bit b 28" by (simp add: bit_unsigned_iff)
  then show "\<not> bit (ucast (drop_bit 24 b OR 0xe0) :: u8) 4"
    by (simp add: bit_simps)
  show "bit (ucast (drop_bit 24 b OR 0xe0) :: u8) 6" by (simp add: bit_simps)
qed


text \<open>One command starts the transfer of the named sector.\<close>

lemma disk_command_effect:
  assumes "ata_ok bus R" "R w s" "\<not> busy s" "mode s = Idle" "unat b < 2 ^ 28" "cmd = 0x20 \<or> cmd = 0x30"
  shows "\<exists>s'. R (disk_command bus b cmd w) s' \<and> busy s' \<and> sectors s' = sectors s
    \<and> mode s' = (if cmd = 0x20 then Sending (sectors s (unat b)) else Receiving (unat b) [])"
proof -
  note o = ata_out [OF assms(1), unfolded ata_request_def]
  define s1 where "s1 = s\<lparr>sector_count := 1, lba_low := ucast b, lba_mid := ucast (drop_bit 8 b),
    lba_high := ucast (drop_bit 16 b), device := ucast (drop_bit 24 b OR 0xe0)\<rparr>"
  define w1 where "w1 = out8 bus 0x1f2 1 w"
  define w2 where "w2 = out8 bus 0x1f3 (ucast b) w1"
  define w3 where "w3 = out8 bus 0x1f4 (ucast (drop_bit 8 b)) w2"
  define w4 where "w4 = out8 bus 0x1f5 (ucast (drop_bit 16 b)) w3"
  define w5 where "w5 = out8 bus 0x1f6 (ucast (drop_bit 24 b OR 0xe0)) w4"
  have "R w1 (s\<lparr>sector_count := 1\<rparr>)"
    using o [of w s "0x1f2" 1] assms(2-4) by (simp add: w1_def ata_out8_def)
  then have "R w2 (s\<lparr>sector_count := 1, lba_low := ucast b\<rparr>)"
    using o [of w1 _ "0x1f3" "ucast b"] assms(3,4) by (fastforce simp: w2_def ata_out8_def)
  then have "R w3 (s\<lparr>sector_count := 1, lba_low := ucast b, lba_mid := ucast (drop_bit 8 b)\<rparr>)"
    using o [of w2 _ "0x1f4" "ucast (drop_bit 8 b)"] assms(3,4) by (fastforce simp: w3_def ata_out8_def)
  then have "R w4 (s\<lparr>sector_count := 1, lba_low := ucast b, lba_mid := ucast (drop_bit 8 b),
      lba_high := ucast (drop_bit 16 b)\<rparr>)"
    using o [of w3 _ "0x1f5" "ucast (drop_bit 16 b)"] assms(3,4) by (fastforce simp: w4_def ata_out8_def)
  then have "R w5 s1"
    using o [of w4 _ "0x1f6" "ucast (drop_bit 24 b OR 0xe0)"] assms(3,4)
    by (fastforce simp: w5_def s1_def ata_out8_def)
  moreover have "\<not> busy s1" "mode s1 = Idle" "addressed s1" "lba s1 = unat b" "sectors s1 = sectors s"
    using assms(3,4) address_bits [OF assms(5)] by (simp_all add: s1_def addressed_def lba_def)
  ultimately show ?thesis
    using o [of w5 s1 "0x1f7" cmd] assms(6)
    unfolding disk_command_def Let_def w1_def [symmetric] w2_def [symmetric] w3_def [symmetric]
      w4_def [symmetric] w5_def [symmetric]
    by (intro exI [of _ "ata_out8 0x1f7 cmd s1"]) (auto simp: ata_out8_def)
qed

lemma in_words_effect:
  assumes "ata_ok bus R"
  shows "R w s \<Longrightarrow> \<not> busy s \<Longrightarrow> mode s = Sending (x # xs) \<Longrightarrow>
    \<exists>w'. in_words bus (Suc (length xs)) ptr m w
        = (ptr + 4 * of_nat (Suc (length xs)), put_bytes (concat (map wbytes (x # xs))) ptr m, w')
      \<and> R w' (s\<lparr>busy := True, mode := Idle\<rparr>)"
proof (induction xs arbitrary: x w s ptr m)
  case Nil
  then show ?case using ata_in [OF assms Nil]
    by (simp add: ata_read_def store32_put_bytes split_beta)
next
  case (Cons y xs)
  define w1 where "w1 = snd (in32 bus 0x1f0 w)"
  define s1 where "s1 = s\<lparr>mode := Sending (y # xs)\<rparr>"
  have "in32 bus 0x1f0 w = (x, w1)" "R w1 s1"
    using ata_in [OF assms Cons.prems] Cons.prems(3) by (auto simp: w1_def s1_def ata_read_def prod_eq_iff)
  moreover have "\<exists>w'. in_words bus (Suc (length xs)) (ptr + 4) (store32 m ptr x) w1
      = ((ptr + 4) + 4 * of_nat (Suc (length xs)), put_bytes (concat (map wbytes (y # xs))) (ptr + 4) (store32 m ptr x), w')
    \<and> R w' (s1\<lparr>busy := True, mode := Idle\<rparr>)"
    by (rule Cons.IH) (use Cons.prems \<open>R w1 s1\<close> in \<open>simp_all add: s1_def\<close>)
  ultimately show ?case
    by (subst in_words.simps(2)) (auto simp: s1_def store32_put_bytes put_bytes_append algebra_simps simp del: in_words.simps)
qed

lemma out_words_effect:
  assumes "ata_ok bus R"
  shows "R w s \<Longrightarrow> \<not> busy s \<Longrightarrow> mode s = Receiving l ws \<Longrightarrow> length ws + Suc k = 128 \<Longrightarrow>
    \<exists>w'. out_words bus (Suc k) ptr m w = (ptr + 4 * of_nat (Suc k), w')
      \<and> R w' (s\<lparr>busy := True, mode := Idle, sectors := (sectors s)(l := ws @ words_at m ptr (Suc k))\<rparr>)"
proof (induction k arbitrary: ws w s ptr)
  case 0
  then show ?case using ata_data [OF assms 0(1-3), of "load32 m ptr"]
    by (simp add: ata_write_def words_at_def fun_upd_def)
next
  case (Suc k)
  define w1 where "w1 = out32 bus 0x1f0 (load32 m ptr) w"
  define s1 where "s1 = s\<lparr>mode := Receiving l (ws @ [load32 m ptr])\<rparr>"
  have "R w1 s1"
    using ata_data [OF assms Suc.prems(1-3), of "load32 m ptr"] Suc.prems(3,4) by (simp add: w1_def s1_def ata_write_def)
  then have "\<exists>w'. out_words bus (Suc k) (ptr + 4) m w1 = ((ptr + 4) + 4 * of_nat (Suc k), w')
      \<and> R w' (s1\<lparr>busy := True, mode := Idle,
          sectors := (sectors s1)(l := (ws @ [load32 m ptr]) @ words_at m (ptr + 4) (Suc k))\<rparr>)"
    by (rule Suc.IH) (use Suc.prems in \<open>simp_all add: s1_def\<close>)
  then show ?case
    by (subst out_words.simps(2)) (auto simp: s1_def w1_def words_at_Suc algebra_simps simp del: out_words.simps)
qed


section \<open>Sectors\<close>

text \<open>The two waits and the command between them, common to the driver and the boot loader.\<close>

lemma start_transfer:
  assumes "ata_ok bus R" "R w s" "mode s = Idle" "unat b < 2 ^ 28" "cmd = 0x20 \<or> cmd = 0x30"
  shows "\<exists>w1 w2 s2. wait_disk bus w = Some w1 \<and> wait_disk bus (disk_command bus b cmd w1) = Some w2
    \<and> R w2 s2 \<and> \<not> busy s2 \<and> sectors s2 = sectors s
    \<and> mode s2 = (if cmd = 0x20 then Sending (sectors s (unat b)) else Receiving (unat b) [])"
proof -
  obtain w1 where w1: "wait_disk bus w = Some w1" "R w1 (s\<lparr>busy := False\<rparr>)"
    using wait_disk_returns [OF assms(1,2)] by blast
  obtain s' where s': "R (disk_command bus b cmd w1) s'" "sectors s' = sectors s"
      "mode s' = (if cmd = 0x20 then Sending (sectors s (unat b)) else Receiving (unat b) [])"
    using disk_command_effect [OF assms(1) w1(2) _ _ assms(4,5)] assms(3) by auto
  obtain w2 where "wait_disk bus (disk_command bus b cmd w1) = Some w2" "R w2 (s'\<lparr>busy := False\<rparr>)"
    using wait_disk_returns [OF assms(1) s'(1)] by blast
  then show ?thesis using w1(1) s'(2,3)
    by (intro exI [of _ w1] exI [of _ w2] exI [of _ "s'\<lparr>busy := False\<rparr>"]) simp
qed

lemma read_sector:
  assumes "ata_ok bus R" "R w s" "mode s = Idle" "unat b < 2 ^ 28"
  shows "\<exists>w1 w2 w3 s3. wait_disk bus w = Some w1 \<and> wait_disk bus (disk_command bus b 0x20 w1) = Some w2
    \<and> in_words bus 128 ptr m w2 = (ptr + 512, put_bytes (sector_bytes s (unat b)) ptr m, w3)
    \<and> R w3 s3 \<and> mode s3 = Idle \<and> sectors s3 = sectors s"
proof -
  obtain w1 w2 s2 where t: "wait_disk bus w = Some w1" "wait_disk bus (disk_command bus b 0x20 w1) = Some w2"
      "R w2 s2" "\<not> busy s2" "sectors s2 = sectors s" "mode s2 = Sending (sectors s (unat b))"
    using start_transfer [OF assms, of "0x20"] by auto
  have l: "length (sectors s (unat b)) = Suc 127" using ata_length [OF assms(1,2)] by simp
  then obtain x xs where xs: "sectors s (unat b) = x # xs" "length xs = 127"
    by (metis length_Suc_conv)
  show ?thesis
    using in_words_effect [OF assms(1) t(3,4), of x xs ptr m] t xs
    by (fastforce simp: sector_bytes_def simp del: in_words.simps)
qed

lemma write_sector:
  assumes "ata_ok bus R" "R w s" "mode s = Idle" "unat b < 2 ^ 28"
  shows "\<exists>w1 w2 w3 s3. wait_disk bus w = Some w1 \<and> wait_disk bus (disk_command bus b 0x30 w1) = Some w2
    \<and> out_words bus 128 ptr m w2 = (ptr + 512, w3)
    \<and> R w3 s3 \<and> mode s3 = Idle \<and> sectors s3 = (sectors s)(unat b := words_at m ptr 128)"
proof -
  obtain w1 w2 s2 where t: "wait_disk bus w = Some w1" "wait_disk bus (disk_command bus b 0x30 w1) = Some w2"
      "R w2 s2" "\<not> busy s2" "sectors s2 = sectors s" "mode s2 = Receiving (unat b) []"
    using start_transfer [OF assms, of "0x30"] by auto
  show ?thesis
    using out_words_effect [OF assms(1) t(3,4,6), of 127 ptr m] t
    by (fastforce simp del: out_words.simps)
qed

text \<open>The bytes of \<open>n\<close> sectors from sector \<open>k\<close>.\<close>

definition blocks :: "ata \<Rightarrow> nat \<Rightarrow> nat \<Rightarrow> u8 list" where
  "blocks s k n = concat (map (sector_bytes s) [k..<k + n])"

lemma blocks_0: "blocks s k 0 = []"
  by (simp add: blocks_def)

lemma blocks_Suc: "blocks s k (Suc n) = sector_bytes s k @ blocks s (Suc k) n"
  by (simp add: blocks_def upt_conv_Cons del: upt_Suc)

lemma blocks_cong: "sectors s' = sectors s \<Longrightarrow> blocks s' = blocks s"
  unfolding blocks_def using sector_bytes_cong [of s' s] by simp

lemma unat_Suc_u32: "unat (b :: u32) + Suc k \<le> 2 ^ 28 \<Longrightarrow> unat (b + 1) = Suc (unat b)"
  by (subst unat_word_ariths) simp

lemma blkio_read:
  assumes "ata_ok bus R"
  shows "R w s \<Longrightarrow> mode s = Idle \<Longrightarrow> unat b + n \<le> 2 ^ 28 \<Longrightarrow>
    \<exists>w' s'. blkio_loop bus False n b ptr m w = Some (put_bytes (blocks s (unat b) n) ptr m, w')
      \<and> R w' s' \<and> mode s' = Idle \<and> sectors s' = sectors s"
proof (induction n arbitrary: w s b ptr m)
  case (Suc n)
  obtain w1 w2 w3 s3 where t: "wait_disk bus w = Some w1" "wait_disk bus (disk_command bus b 0x20 w1) = Some w2"
      "in_words bus 128 ptr m w2 = (ptr + 512, put_bytes (sector_bytes s (unat b)) ptr m, w3)"
      "R w3 s3" "mode s3 = Idle" "sectors s3 = sectors s"
    using read_sector [OF assms Suc.prems(1,2), of b ptr m] Suc.prems(3) by auto
  have b: "unat (b + 1) = Suc (unat b)" using Suc.prems(3) by (rule unat_Suc_u32)
  have "length (sector_bytes s (unat b)) = 512"
    using ata_length [OF assms Suc.prems(1)] by (rule length_sector_bytes)
  then show ?case
    using Suc.IH [OF t(4,5), of "b + 1" "ptr + 512" "put_bytes (sector_bytes s (unat b)) ptr m"] Suc.prems(3) t b
    by (simp add: blocks_Suc put_bytes_append blocks_cong [OF t(6)])
qed (auto simp: blocks_0)

lemma blkio_write:
  assumes "ata_ok bus R"
  shows "R w s \<Longrightarrow> mode s = Idle \<Longrightarrow> unat b + n \<le> 2 ^ 28 \<Longrightarrow>
    \<exists>w' s'. blkio_loop bus True n b ptr m w = Some (m, w')
      \<and> R w' s' \<and> mode s' = Idle \<and> blocks s' (unat b) n = bytes_at m ptr (512 * n)
      \<and> (\<forall>k. k < unat b \<or> unat b + n \<le> k \<longrightarrow> sectors s' k = sectors s k)"
proof (induction n arbitrary: w s b ptr)
  case (Suc n)
  obtain w1 w2 w3 s3 where t: "wait_disk bus w = Some w1" "wait_disk bus (disk_command bus b 0x30 w1) = Some w2"
      "out_words bus 128 ptr m w2 = (ptr + 512, w3)"
      "R w3 s3" "mode s3 = Idle" "sectors s3 = (sectors s)(unat b := words_at m ptr 128)"
    using write_sector [OF assms Suc.prems(1,2), of b ptr m] Suc.prems(3) by auto
  have b: "unat (b + 1) = Suc (unat b)" using Suc.prems(3) by (rule unat_Suc_u32)
  obtain w' s' where r: "blkio_loop bus True n (b + 1) (ptr + 512) m w3 = Some (m, w')" "R w' s'" "mode s' = Idle"
      "blocks s' (Suc (unat b)) n = bytes_at m (ptr + 512) (512 * n)"
      "\<forall>k. k < Suc (unat b) \<or> Suc (unat b) + n \<le> k \<longrightarrow> sectors s' k = sectors s3 k"
    using Suc.IH [OF t(4,5), of "b + 1" "ptr + 512"] Suc.prems(3) b by auto
  have "sectors s' (unat b) = words_at m ptr 128" using r(5) t(6) by simp
  then have "sector_bytes s' (unat b) = bytes_at m ptr 512"
    by (simp add: sector_bytes_def concat_words_at)
  then have "blocks s' (unat b) (Suc n) = bytes_at m ptr (512 * Suc n)"
    using r(4) bytes_at_add [of m ptr 512 "512 * n"] by (simp add: blocks_Suc)
  moreover have "\<forall>k. k < unat b \<or> unat b + Suc n \<le> k \<longrightarrow> sectors s' k = sectors s k"
    using r(5) t(6) by auto
  ultimately show ?case using t(1-3) r(1-3) by (intro exI [of _ w'] exI [of _ s']) simp
qed (auto simp: blocks_0 bytes_at_0)


section \<open>Copies to memory\<close>

lemma unat_diff_range:
  fixes a b :: u32
  assumes "unat a + n \<le> 2 ^ 32"
  shows "unat (b - a) < n \<longleftrightarrow> unat a \<le> unat b \<and> unat b < unat a + n"
    and "unat a \<le> unat b \<Longrightarrow> unat (b - a) = unat b - unat a"
proof -
  show d: "unat (b - a) = unat b - unat a" if "unat a \<le> unat b"
    using that by (simp add: unat_sub word_le_nat_alt)
  show "unat (b - a) < n \<longleftrightarrow> unat a \<le> unat b \<and> unat b < unat a + n"
  proof (cases "unat a \<le> unat b")
    case False
    then have "unat (b - a) = 2 ^ 32 + unat b - unat a"
      by (simp add: unat_sub_if_size word_size)
    then show ?thesis using False assms by simp
  qed (use d in auto)
qed

lemma put_bytes_range:
  assumes "unat a + length xs \<le> 2 ^ 32"
  shows "put_bytes xs a m b = (if unat a \<le> unat b \<and> unat b < unat a + length xs then xs ! (unat b - unat a) else m b)"
  using unat_diff_range [OF assms, of b] assms by (simp add: put_bytes_eq)

lemma zero_loop_eq: "zero_loop k a m = put_bytes (replicate k 0) a m"
  by (induction k arbitrary: a m) simp_all

lemma read_disk_effect:
  assumes "ata_ok bus R" "R w s" "mode s = Idle" "unat b < 2 ^ 28"
  shows "\<exists>w' s'. read_disk bus ptr b m w = Some (put_bytes (sector_bytes s (unat b)) ptr m, w')
    \<and> R w' s' \<and> mode s' = Idle \<and> sectors s' = sectors s"
proof -
  obtain w1 w2 w3 s3 where "wait_disk bus w = Some w1" "wait_disk bus (disk_command bus b 0x20 w1) = Some w2"
      "in_words bus 128 ptr m w2 = (ptr + 512, put_bytes (sector_bytes s (unat b)) ptr m, w3)"
      "R w3 s3" "mode s3 = Idle" "sectors s3 = sectors s"
    using read_sector [OF assms, of ptr m] by auto
  then show ?thesis by (auto simp: read_disk_def)
qed

lemma copy_loop_effect:
  assumes "ata_ok bus R"
  shows "R w s \<Longrightarrow> mode s = Idle \<Longrightarrow> unat b + n \<le> 2 ^ 28 \<Longrightarrow> unat ed \<le> unat cur + 512 * n \<Longrightarrow>
    n = 0 \<or> unat cur + 512 * n < unat ed + 512 \<Longrightarrow> unat cur + 512 * n < 2 ^ 32 \<Longrightarrow>
    \<exists>w' s'. copy_from_disk_loop bus cur ed b m w = Some (put_bytes (blocks s (unat b) n) cur m, w')
      \<and> R w' s' \<and> mode s' = Idle \<and> sectors s' = sectors s"
proof (induction n arbitrary: w s b cur m)
  case 0
  then have "\<not> cur < ed" by (simp add: word_less_nat_alt)
  then show ?case using 0(1,2) by (subst copy_from_disk_loop.simps) (auto simp: blocks_0)
next
  case (Suc n)
  obtain w3 s3 where t: "read_disk bus cur b m w = Some (put_bytes (sector_bytes s (unat b)) cur m, w3)"
      "R w3 s3" "mode s3 = Idle" "sectors s3 = sectors s"
    using read_disk_effect [OF assms Suc.prems(1,2), of b cur m] Suc.prems(3) by auto
  have b: "unat (b + 1) = Suc (unat b)" using Suc.prems(3) by (rule unat_Suc_u32)
  have c: "unat (cur + 512) = unat cur + 512"
    using Suc.prems(6) by (subst unat_word_ariths) simp
  have "cur < ed" using Suc.prems(5) by (simp add: word_less_nat_alt)
  moreover have "length (sector_bytes s (unat b)) = 512"
    using ata_length [OF assms Suc.prems(1)] by (rule length_sector_bytes)
  moreover obtain w' s' where
    "copy_from_disk_loop bus (cur + 512) ed (b + 1) (put_bytes (sector_bytes s (unat b)) cur m) w3
      = Some (put_bytes (blocks s3 (unat (b + 1)) n) (cur + 512) (put_bytes (sector_bytes s (unat b)) cur m), w')"
    "R w' s'" "mode s' = Idle" "sectors s' = sectors s3"
    using Suc.IH [OF t(2,3), of "b + 1" "cur + 512" "put_bytes (sector_bytes s (unat b)) cur m"] Suc.prems(3-6) b c
    by auto
  ultimately show ?case using t b
    by (subst copy_from_disk_loop.simps) (auto simp: blocks_Suc put_bytes_append blocks_cong [OF t(4)])
qed

text \<open>The sectors copied for \<open>n\<close> bytes at address \<open>p\<close>.\<close>

definition span :: "nat \<Rightarrow> nat \<Rightarrow> nat" where
  "span p n = (p mod 512 + n + 511) div 512"

lemma unat_round_down: "unat ((a :: u32) AND NOT 511) = 512 * (unat a div 512)"
proof -
  have "a AND NOT (mask 9) = push_bit 9 (drop_bit 9 a)"
    by (rule bit_eqI) (auto simp: bit_simps dest: bit_imp_le_length)
  moreover have "(mask 9 :: u32) = 511" by (simp add: mask_eq_exp_minus_1)
  ultimately have "unat (a AND NOT 511) = unat a div 512 * 512 mod 2 ^ 32"
    by (simp only: unat_push_bit unat_drop_bit) simp
  also have "\<dots> = unat a div 512 * 512"
    by (rule mod_less) (use unat_u32_less [of a] in \<open>simp add: div_times_less_eq_dividend le_less_trans\<close>)
  finally show ?thesis by simp
qed

lemma copy_from_disk_effect:
  fixes b :: u32
  assumes "ata_ok bus R" "R w s" "mode s = Idle"
    and "word_of_int (off sdiv 512) + (1024 div 512) + 1 = b" "unat b + span (unat a) (unat n) \<le> 2 ^ 28"
    and "unat a + unat n + 511 < 2 ^ 32"
  shows "\<exists>w' s'. copy_from_disk bus a n off m w
      = Some (put_bytes (blocks s (unat b) (span (unat a) (unat n))) (a AND NOT 511) m, w')
    \<and> R w' s' \<and> mode s' = Idle \<and> sectors s' = sectors s"
proof -
  have e: "unat (a + n) = unat a + unat n" using assms(6) by (subst unat_word_ariths) simp
  have "512 * (unat a div 512) + unat a mod 512 = unat a" by simp
  then have "unat (a + n) \<le> unat (a AND NOT 511) + 512 * span (unat a) (unat n)"
    "unat (a AND NOT 511) + 512 * span (unat a) (unat n) < unat (a + n) + 512"
    unfolding e unat_round_down span_def by linarith+
  moreover from this have "unat (a AND NOT 511) + 512 * span (unat a) (unat n) < 2 ^ 32"
    using assms(6) e by linarith
  ultimately show ?thesis
    unfolding copy_from_disk_def Let_def assms(4)
    using copy_loop_effect [OF assms(1-3,5), of "a + n" "a AND NOT 511" m] by blast
qed


section \<open>Loading a segment\<close>

text \<open>The file on the disk: byte \<open>n\<close> of the file that starts at sector 3.\<close>

definition disk_file :: "ata \<Rightarrow> nat \<Rightarrow> u8" where
  "disk_file s n = sector_bytes s (3 + n div 512) ! (n mod 512)"

record segment =
  p_filesz :: u32
  p_memsz :: u32
  p_paddr :: u32
  p_offset :: u32

definition segment_ok :: "segment \<Rightarrow> bool" where
  "segment_ok g \<longleftrightarrow> unat (p_paddr g) + unat (p_memsz g) + 511 < 2 ^ 32 \<and> unat (p_filesz g) \<le> unat (p_memsz g)
    \<and> unat (p_offset g) < 2 ^ 31 \<and> unat (p_paddr g) mod 512 = unat (p_offset g) mod 512"

text \<open>The addresses the loader writes for a segment: whole sectors, and the zeroed part.\<close>

definition written :: "segment \<Rightarrow> nat \<Rightarrow> bool" where
  "written g b \<longleftrightarrow> 512 * (unat (p_paddr g) div 512) \<le> b
    \<and> (b < 512 * (unat (p_paddr g) div 512) + 512 * span (unat (p_paddr g)) (unat (p_filesz g))
       \<or> b < unat (p_paddr g) + unat (p_memsz g))"

definition loaded :: "ata \<Rightarrow> mem \<Rightarrow> segment \<Rightarrow> bool" where
  "loaded s m g \<longleftrightarrow> (\<forall>j < unat (p_memsz g). m (p_paddr g + of_nat j)
      = (if j < unat (p_filesz g) then disk_file s (unat (p_offset g) + j) else 0))"

definition load_segment :: "'w bus \<Rightarrow> segment \<Rightarrow> mem \<Rightarrow> 'w \<Rightarrow> (mem \<times> 'w) option" where
  "load_segment bus g = load_program bus (p_filesz g) (p_memsz g) (p_paddr g) (p_offset g)"

lemma nth_blocks:
  assumes "\<And>k. length (sectors s k) = 128" "i < 512 * n"
  shows "blocks s k n ! i = sector_bytes s (k + i div 512) ! (i mod 512)"
proof -
  have "i div 512 < n" using assms(2) by (simp add: less_mult_imp_div_less mult.commute)
  then show ?thesis
    unfolding blocks_def using nth_concat_uniform [of "sector_bytes s" 512 i "[k..<k + n]"] assms
    by (simp add: length_sector_bytes)
qed

lemma length_blocks: "(\<And>k. length (sectors s k) = 128) \<Longrightarrow> length (blocks s k n) = 512 * n"
  unfolding blocks_def by (subst length_concat_uniform [where c = 512]) (simp_all add: length_sector_bytes)

lemma span_bounds:
  "512 * (p div 512) + 512 * span p n \<le> p + n + 511" "p + n \<le> 512 * (p div 512) + 512 * span p n"
  "512 * (p div 512) \<le> p"
  using div_mult_mod_eq [of p 512] div_times_less_eq_dividend [of "p mod 512 + n + 511" 512]
    dividend_less_div_times [of 512 "p mod 512 + n + 511", simplified]
  unfolding span_def by linarith+

lemma unat_span_less: "unat (p :: u32) + n + 511 < 2 ^ 32 \<Longrightarrow> 512 * (unat p div 512) + 512 * span (unat p) n < 2 ^ 32"
  using span_bounds(1) [of "unat p" n] by linarith

lemma shifted_sector:
  assumes "p mod 512 = (o' :: nat) mod 512"
  shows "(p + j - 512 * (p div 512)) mod 512 = (o' + j) mod 512"
    and "o' div 512 + (p + j - 512 * (p div 512)) div 512 = (o' + j) div 512"
proof -
  have "p + j - 512 * (p div 512) = o' mod 512 + j"
    using assms div_mult_mod_eq [of p 512] by linarith
  moreover have "o' + j = (o' mod 512 + j) + o' div 512 * 512" by simp
  then have "(o' + j) div 512 = o' div 512 + (o' mod 512 + j) div 512"
    by (metis div_mult_self1 numeral_neq_zero)
  ultimately show "(p + j - 512 * (p div 512)) mod 512 = (o' + j) mod 512"
    "o' div 512 + (p + j - 512 * (p div 512)) div 512 = (o' + j) div 512"
    by (simp_all add: mod_add_left_eq)
qed

lemma load_segment_effect:
  assumes "ata_ok bus R" "R w s" "mode s = Idle" "segment_ok g"
  shows "\<exists>m' w' s'. load_segment bus g m w = Some (m', w') \<and> R w' s' \<and> mode s' = Idle \<and> sectors s' = sectors s
    \<and> loaded s m' g \<and> (\<forall>b. \<not> written g (unat b) \<longrightarrow> m' b = m b)"
proof -
  define p f z o' where "p = unat (p_paddr g)" and "f = unat (p_filesz g)" and "z = unat (p_memsz g)"
    and "o' = unat (p_offset g)"
  note d = this
  define a where "a = p_paddr g AND NOT 511"
  have ok: "p + z + 511 < 2 ^ 32" "f \<le> z" "o' < 2 ^ 31" "p mod 512 = o' mod 512"
    using assms(4) by (simp_all add: segment_ok_def d)
  have a: "unat a = 512 * (p div 512)" unfolding a_def p_def by (rule unat_round_down)
  define b where "b = (word_of_int (sint (p_offset g) sdiv 512) + (1024 div 512) + 1 :: u32)"
  have div_word: "word_of_int (int o' div 512) = (of_nat (o' div 512) :: u32)"
    by (metis of_int_of_nat_eq of_nat_numeral zdiv_int)
  have u: "uint (p_offset g) = int o'" by (simp add: o'_def)
  have "sint (p_offset g) = int o'"
    unfolding sint_uint signed_take_bit_eq_take_bit_shift u
    using ok(3) by (simp add: take_bit_eq_mod)
  then have "b = of_nat (3 + o' div 512)"
    using div_word by (simp add: b_def signed_divide_int_def)
  then have b: "unat b = 3 + o' div 512" using ok(3) by (simp only: unat_of_nat) simp
  have sp: "512 * (p div 512) + 512 * span p f < 2 ^ 32"
    unfolding p_def by (rule unat_span_less) (use ok in \<open>simp add: p_def\<close>)
  have fits: "unat b + span p f \<le> 268435456"
    using ok(1) [simplified] ok(2) ok(3) [simplified] b span_bounds(1) [of p f] div_times_less_eq_dividend [of o' 512] by linarith
  obtain w' s' where c: "copy_from_disk bus (p_paddr g) (p_filesz g) (sint (p_offset g)) m w
      = Some (put_bytes (blocks s (3 + o' div 512) (span p f)) a m, w')"
      "R w' s'" "mode s' = Idle" "sectors s' = sectors s"
    using copy_from_disk_effect [OF assms(1-3) b_def [symmetric], of "p_paddr g" "p_filesz g" m] ok(1,2) b fits
    unfolding a_def d [symmetric] by auto
  define m1 where "m1 = put_bytes (blocks s (3 + o' div 512) (span p f)) a m"
  define m2 where "m2 = put_bytes (replicate (z - f) 0) (p_paddr g + p_filesz g) m1"
  have len: "length (sectors s k) = 128" for k using ata_length [OF assms(1,2)] .
  have m1: "m1 x = (if unat a \<le> unat x \<and> unat x < unat a + 512 * span p f
      then blocks s (3 + o' div 512) (span p f) ! (unat x - unat a) else m x)" for x
    unfolding m1_def using sp a len by (subst put_bytes_range) (simp_all add: length_blocks)
  have e: "unat (p_paddr g + p_filesz g) = p + f"
    using ok by (subst unat_word_ariths) (simp add: d)
  have m2: "m2 x = (if p + f \<le> unat x \<and> unat x < p + z then 0 else m1 x)" for x
    unfolding m2_def using ok e by (subst put_bytes_range) auto
  have "loaded s m2 g" unfolding loaded_def d [symmetric]
  proof (intro allI impI)
    fix j assume j: "j < z"
    have x: "unat (p_paddr g + of_nat j) = p + j"
      using ok j by (subst unat_word_ariths) (simp add: p_def unat_of_nat_u32)
    show "m2 (p_paddr g + of_nat j) = (if j < f then disk_file s (o' + j) else 0)"
    proof (cases "j < f")
      case True
      moreover have "p + j < 512 * (p div 512) + 512 * span p f" "512 * (p div 512) \<le> p + j"
        using True span_bounds(2) [of p f] span_bounds(3) [of p] by linarith+
      moreover from this have "p + j - 512 * (p div 512) < 512 * span p f" by linarith
      then have "blocks s (3 + o' div 512) (span p f) ! (p + j - 512 * (p div 512)) = disk_file s (o' + j)"
        using shifted_sector [OF ok(4), of j] by (subst nth_blocks [OF len]) (simp_all add: disk_file_def add.assoc)
      ultimately show ?thesis by (simp add: m2 m1 x a)
    qed (use j m2 x in simp)
  qed
  moreover have "m2 x = m x" if "\<not> written g (unat x)" for x
    using that ok(2) div_mult_mod_eq [of p 512] unfolding written_def d [symmetric] by (auto simp: m2 m1 a)
  moreover have "load_segment bus g m w = Some (m2, w')"
    unfolding load_segment_def load_program_def c(1)
    using ok(2) by (simp add: zero_loop_eq m2_def m1_def unat_sub word_le_nat_alt d)
  ultimately show ?thesis using c(2-4) by blast
qed


section \<open>Loading a file\<close>

text \<open>
  The loaders read the program headers from the memory they write.  As long as no segment is written over
  the header's 4096 bytes, they load the segments of the file one after the other.
\<close>

definition header_at :: "ata \<Rightarrow> mem \<Rightarrow> bool" where
  "header_at s m \<longleftrightarrow> (\<forall>j < 4096. m (0x8000 + of_nat j) = disk_file s j)"

definition file_mem :: "ata \<Rightarrow> mem" where
  "file_mem s = (\<lambda>a. disk_file s (unat (a - 0x8000)))"

definition segments :: "ata \<Rightarrow> segment list" where
  "segments s =
    (let h = file_mem s
     in if load16 h (0x8000 + 18) = EM_X86_64 then
       map (\<lambda>i. let ph = 0x8000 + load32 h (0x8000 + 32) + of_nat (56 * i)
         in \<lparr>p_filesz = load32 h (ph + 32), p_memsz = load32 h (ph + 40), p_paddr = load32 h (ph + 24), p_offset = load32 h (ph + 8)\<rparr>)
         [0..<unat (load16 h (0x8000 + 56))]
     else
       map (\<lambda>i. let ph = 0x8000 + load32 h (0x8000 + 28) + of_nat (32 * i)
         in \<lparr>p_filesz = load32 h (ph + 16), p_memsz = load32 h (ph + 20), p_paddr = load32 h (ph + 12), p_offset = load32 h (ph + 4)\<rparr>)
         [0..<unat (load16 h (0x8000 + 44))])"

text \<open>The program headers lie in the first 4096 bytes, and no segment is written over the header or over
  the contents of an earlier segment.\<close>

definition elf_ok :: "ata \<Rightarrow> bool" where
  "elf_ok s \<longleftrightarrow>
    (let h = file_mem s
     in (if load16 h (0x8000 + 18) = EM_X86_64
         then unat (load32 h (0x8000 + 32)) + 56 * unat (load16 h (0x8000 + 56)) \<le> 4096
         else unat (load32 h (0x8000 + 28)) + 32 * unat (load16 h (0x8000 + 44)) \<le> 4096))
    \<and> (\<forall>g \<in> set (segments s). segment_ok g \<and> (\<forall>b. 0x8000 \<le> b \<and> b < 0x9000 \<longrightarrow> \<not> written g b))
    \<and> (\<forall>k < length (segments s). \<forall>i < k. \<forall>b. unat (p_paddr (segments s ! i)) \<le> b
        \<and> b < unat (p_paddr (segments s ! i)) + unat (p_memsz (segments s ! i)) \<longrightarrow> \<not> written (segments s ! k) b)"

lemma header_at_file:
  assumes "header_at s m" "unat (a - 0x8000) < 4096"
  shows "m a = file_mem s a"
  using assms by (auto simp: header_at_def file_mem_def dest: spec [of _ "unat (a - 0x8000)"])

lemma load32_header:
  assumes "header_at s m" "unat p + n + unat k + 3 < 4096"
  shows "load32 m (0x8000 + p + of_nat n + k) = load32 (file_mem s) (0x8000 + p + of_nat n + k)"
proof -
  have "m (0x8000 + p + of_nat n + k + of_nat j) = file_mem s (0x8000 + p + of_nat n + k + of_nat j)" if "j \<le> 3" for j
  proof (rule header_at_file [OF assms(1)])
    have "0x8000 + p + of_nat n + k + of_nat j - 0x8000 = (of_nat (unat p + n + unat k + j) :: u32)" by simp
    then show "unat (0x8000 + p + of_nat n + k + of_nat j - 0x8000) < 4096"
      using assms(2) that unat_of_nat_u32 [of "unat p + n + unat k + j"] by (simp add: add.assoc)
  qed
  from this [of 0] this [of 1] this [of 2] this [of 3] show ?thesis by (simp add: load32_def)
qed

lemma load16_header:
  assumes "header_at s m" "unat k + 1 < 4096"
  shows "load16 m (0x8000 + k) = load16 (file_mem s) (0x8000 + k)"
proof -
  have "m (0x8000 + k + of_nat j) = file_mem s (0x8000 + k + of_nat j)" if "j \<le> 1" for j
  proof (rule header_at_file [OF assms(1)])
    have "0x8000 + k + of_nat j - 0x8000 = (of_nat (unat k + j) :: u32)" by simp
    then show "unat (0x8000 + k + of_nat j - 0x8000) < 4096"
      using assms(2) that unat_of_nat_u32 [of "unat k + j"] by simp
  qed
  from this [of 0] this [of 1] show ?thesis by (simp add: load16_def)
qed

lemma loaded_unchanged:
  assumes "loaded s m g" "unat (p_paddr g) + unat (p_memsz g) < 2 ^ 32"
    and "\<And>b. unat (p_paddr g) \<le> unat b \<Longrightarrow> unat b < unat (p_paddr g) + unat (p_memsz g) \<Longrightarrow> m' b = m b"
  shows "loaded s m' g"
  unfolding loaded_def
proof (intro allI impI)
  fix j assume j: "j < unat (p_memsz g)"
  then have "unat (p_paddr g + of_nat j) = unat (p_paddr g) + j"
    using assms(2) by (subst unat_word_ariths) (simp add: unat_of_nat_u32)
  then show "m' (p_paddr g + of_nat j) = (if j < unat (p_filesz g) then disk_file s (unat (p_offset g) + j) else 0)"
    using assms(1,3) j by (simp add: loaded_def)
qed

lemma loaded_cong: "sectors s' = sectors s \<Longrightarrow> loaded s' = loaded s"
  by (simp add: loaded_def disk_file_def sector_bytes_def fun_eq_iff)

lemma header_unchanged:
  assumes "header_at s m" "\<And>b. 0x8000 \<le> unat b \<Longrightarrow> unat b < 0x9000 \<Longrightarrow> m' b = m b"
  shows "header_at s m'"
  unfolding header_at_def
proof (intro allI impI)
  fix j :: nat assume j: "j < 4096"
  then have "unat (0x8000 + of_nat j :: u32) = 0x8000 + j"
    by (subst unat_word_ariths) (simp add: unat_of_nat_u32)
  then show "m' (0x8000 + of_nat j) = disk_file s j" using assms j by (simp add: header_at_def)
qed

text \<open>Both loops have this shape.\<close>

lemma load_loop_effect:
  assumes ata: "ata_ok bus R" and sec: "sectors s0 = sectors s" and ok: "elf_ok s0"
    and loop: "\<And>i m w. header_at s0 m \<Longrightarrow> F i m w =
      (if i < length (segments s0) then do {(m, w) \<leftarrow> load_segment bus (segments s0 ! i) m w; F (Suc i) m w}
       else Some (m, w))"
  shows "i \<le> length (segments s0) \<Longrightarrow> R w s \<Longrightarrow> mode s = Idle \<Longrightarrow> header_at s0 m \<Longrightarrow>
    (\<forall>j < i. loaded s0 m (segments s0 ! j)) \<Longrightarrow>
    \<exists>m' w' s'. F i m w = Some (m', w') \<and> R w' s' \<and> mode s' = Idle \<and> sectors s' = sectors s0 \<and> header_at s0 m'
      \<and> (\<forall>j < length (segments s0). loaded s0 m' (segments s0 ! j))
      \<and> (\<forall>b. (\<forall>g \<in> set (segments s0). \<not> written g (unat b)) \<longrightarrow> m' b = m b)"
  using sec
proof (induction "length (segments s0) - i" arbitrary: i m w s)
  case 0
  then show ?case by (simp add: loop) blast
next
  case (Suc n)
  let ?g = "segments s0 ! i"
  have i: "i < length (segments s0)" using Suc.hyps(2) by simp
  have g: "?g \<in> set (segments s0)" using i by simp
  then have gok: "segment_ok ?g" "\<And>b. 0x8000 \<le> b \<Longrightarrow> b < 0x9000 \<Longrightarrow> \<not> written ?g b"
    using ok by (auto simp: elf_ok_def)
  obtain m1 w1 s1 where l: "load_segment bus ?g m w = Some (m1, w1)" "R w1 s1" "mode s1 = Idle" "sectors s1 = sectors s"
      "loaded s m1 ?g" "\<forall>b. \<not> written ?g (unat b) \<longrightarrow> m1 b = m b"
    using load_segment_effect [OF ata Suc.prems(2,3) gok(1), of m] by blast
  have "header_at s0 m1" by (rule header_unchanged [OF Suc.prems(4)]) (use l(6) gok(2) in auto)
  moreover have "loaded s0 m1 (segments s0 ! j)" if "j < Suc i" for j
  proof (cases "j = i")
    case True
    then show ?thesis using l(5) loaded_cong [OF Suc.prems(6)] by simp
  next
    case False
    then have j: "j < i" using that by simp
    then have "segment_ok (segments s0 ! j)" using ok i by (auto simp: elf_ok_def)
    then have "unat (p_paddr (segments s0 ! j)) + unat (p_memsz (segments s0 ! j)) < 2 ^ 32"
      by (simp add: segment_ok_def)
    moreover have "\<not> written ?g b" if "unat (p_paddr (segments s0 ! j)) \<le> b"
        "b < unat (p_paddr (segments s0 ! j)) + unat (p_memsz (segments s0 ! j))" for b
      using ok i j that by (auto simp: elf_ok_def)
    ultimately show ?thesis
      using l(6) by (intro loaded_unchanged [OF Suc.prems(5) [rule_format, OF j]]) auto
  qed
  ultimately obtain m' w' s' where r: "F (Suc i) m1 w1 = Some (m', w')" "R w' s'" "mode s' = Idle"
      "sectors s' = sectors s0" "header_at s0 m'" "\<forall>j < length (segments s0). loaded s0 m' (segments s0 ! j)"
      "\<forall>b. (\<forall>g \<in> set (segments s0). \<not> written g (unat b)) \<longrightarrow> m' b = m1 b"
    using Suc.hyps(1) [of "Suc i" w1 s1 m1] Suc.hyps(2) i l(2-4) Suc.prems(6) by fastforce
  moreover have "F i m w = F (Suc i) m1 w1" by (simp add: loop [OF Suc.prems(4)] i l(1))
  ultimately show ?case using l(6) g by (intro exI [of _ m'] exI [of _ w'] exI [of _ s']) auto
qed


lemma load_elf32_effect:
  assumes "ata_ok bus R" "R w s" "mode s = Idle" "elf_ok s" "header_at s m"
    and "load16 (file_mem s) (0x8000 + 18) \<noteq> EM_X86_64"
  shows "\<exists>m' w' s'. load_elf32 bus 0x8000 m w = Some (m', w') \<and> R w' s' \<and> mode s' = Idle \<and> sectors s' = sectors s
      \<and> header_at s m' \<and> (\<forall>j < length (segments s). loaded s m' (segments s ! j))
      \<and> (\<forall>b. (\<forall>g \<in> set (segments s). \<not> written g (unat b)) \<longrightarrow> m' b = m b)"
proof -
  define p where "p = load32 (file_mem s) (0x8000 + 28)"
  define F where "F i m w = load_elf32_loop bus 0x8000 (0x8000 + p + of_nat (32 * i)) i m w" for i m w
  have n: "unat p + 32 * unat (load16 (file_mem s) (0x8000 + 44)) \<le> 4096"
    using assms(4,6) by (simp add: elf_ok_def p_def Let_def)
  have len: "length (segments s) = unat (load16 (file_mem s) (0x8000 + 44))"
    using assms(6) by (simp add: segments_def Let_def)
  have "F i m w = (if i < length (segments s) then do {(m, w) \<leftarrow> load_segment bus (segments s ! i) m w; F (Suc i) m w}
      else Some (m, w))" if h: "header_at s m" for i m w
  proof (cases "i < length (segments s)")
    case True
    have hf: "load32 m (0x8000 + p + of_nat (32 * i) + k) = load32 (file_mem s) (0x8000 + p + of_nat (32 * i) + k)"
      if "unat k \<le> 20" for k
      by (rule load32_header [OF h]) (use True n len that in simp)
    have hf0: "load32 m (0x8000 + p + of_nat (32 * i) + 16) = load32 (file_mem s) (0x8000 + p + of_nat (32 * i) + 16)"
      by (rule hf) simp
    have hf1: "load32 m (0x8000 + p + of_nat (32 * i) + 20) = load32 (file_mem s) (0x8000 + p + of_nat (32 * i) + 20)"
      by (rule hf) simp
    have hf2: "load32 m (0x8000 + p + of_nat (32 * i) + 12) = load32 (file_mem s) (0x8000 + p + of_nat (32 * i) + 12)"
      by (rule hf) simp
    have hf3: "load32 m (0x8000 + p + of_nat (32 * i) + 4) = load32 (file_mem s) (0x8000 + p + of_nat (32 * i) + 4)"
      by (rule hf) simp
    have "segments s ! i = \<lparr>p_filesz = load32 m (0x8000 + p + of_nat (32 * i) + 16),
        p_memsz = load32 m (0x8000 + p + of_nat (32 * i) + 20), p_paddr = load32 m (0x8000 + p + of_nat (32 * i) + 12),
        p_offset = load32 m (0x8000 + p + of_nat (32 * i) + 4)\<rparr>"
      using True assms(6) len unfolding hf0 hf1 hf2 hf3
      by (simp add: segments_def Let_def p_def del: of_nat_mult)
    moreover have "(0x8000 + p + of_nat (32 * i) + 32 :: u32) = 0x8000 + p + of_nat (32 * Suc i)" by simp
    ultimately show ?thesis using True len unfolding F_def
      by (subst load_elf32_loop.simps) (simp add: load16_header [OF h, of 44, simplified] load_segment_def del: of_nat_mult)
  next
    case False
    then show ?thesis using len unfolding F_def
      by (subst load_elf32_loop.simps) (simp add: load16_header [OF h, of 44, simplified])
  qed
  then have "\<exists>m' w' s'. F 0 m w = Some (m', w') \<and> R w' s' \<and> mode s' = Idle \<and> sectors s' = sectors s
      \<and> header_at s m' \<and> (\<forall>j < length (segments s). loaded s m' (segments s ! j))
      \<and> (\<forall>b. (\<forall>g \<in> set (segments s). \<not> written g (unat b)) \<longrightarrow> m' b = m b)"
    using assms(2,3,5) by (intro load_loop_effect [OF assms(1) refl assms(4)]) simp_all
  moreover have "load_elf32 bus 0x8000 m w = F 0 m w"
    using load32_header [OF assms(5), of 0 0 28] by (simp add: load_elf32_def F_def p_def)
  ultimately show ?thesis by simp
qed

lemma load_elf64_effect:
  assumes "ata_ok bus R" "R w s" "mode s = Idle" "elf_ok s" "header_at s m"
    and "load16 (file_mem s) (0x8000 + 18) = EM_X86_64"
  shows "\<exists>m' w' s'. load_elf64 bus 0x8000 m w = Some (m', w') \<and> R w' s' \<and> mode s' = Idle \<and> sectors s' = sectors s
      \<and> header_at s m' \<and> (\<forall>j < length (segments s). loaded s m' (segments s ! j))
      \<and> (\<forall>b. (\<forall>g \<in> set (segments s). \<not> written g (unat b)) \<longrightarrow> m' b = m b)"
proof -
  define p where "p = load32 (file_mem s) (0x8000 + 32)"
  define F where "F i m w = load_elf64_loop bus 0x8000 (0x8000 + p + of_nat (56 * i)) i m w" for i m w
  have n: "unat p + 56 * unat (load16 (file_mem s) (0x8000 + 56)) \<le> 4096"
    using assms(4,6) by (simp add: elf_ok_def p_def Let_def)
  have len: "length (segments s) = unat (load16 (file_mem s) (0x8000 + 56))"
    using assms(6) by (simp add: segments_def Let_def)
  have "F i m w = (if i < length (segments s) then do {(m, w) \<leftarrow> load_segment bus (segments s ! i) m w; F (Suc i) m w}
      else Some (m, w))" if h: "header_at s m" for i m w
  proof (cases "i < length (segments s)")
    case True
    have hf: "load32 m (0x8000 + p + of_nat (56 * i) + k) = load32 (file_mem s) (0x8000 + p + of_nat (56 * i) + k)"
      if "unat k \<le> 40" for k
      by (rule load32_header [OF h]) (use True n len that in simp)
    have hf0: "load32 m (0x8000 + p + of_nat (56 * i) + 32) = load32 (file_mem s) (0x8000 + p + of_nat (56 * i) + 32)"
      by (rule hf) simp
    have hf1: "load32 m (0x8000 + p + of_nat (56 * i) + 40) = load32 (file_mem s) (0x8000 + p + of_nat (56 * i) + 40)"
      by (rule hf) simp
    have hf2: "load32 m (0x8000 + p + of_nat (56 * i) + 24) = load32 (file_mem s) (0x8000 + p + of_nat (56 * i) + 24)"
      by (rule hf) simp
    have hf3: "load32 m (0x8000 + p + of_nat (56 * i) + 8) = load32 (file_mem s) (0x8000 + p + of_nat (56 * i) + 8)"
      by (rule hf) simp
    have "segments s ! i = \<lparr>p_filesz = load32 m (0x8000 + p + of_nat (56 * i) + 32),
        p_memsz = load32 m (0x8000 + p + of_nat (56 * i) + 40), p_paddr = load32 m (0x8000 + p + of_nat (56 * i) + 24),
        p_offset = load32 m (0x8000 + p + of_nat (56 * i) + 8)\<rparr>"
      using True assms(6) len unfolding hf0 hf1 hf2 hf3
      by (simp add: segments_def Let_def p_def del: of_nat_mult)
    moreover have "(0x8000 + p + of_nat (56 * i) + 56 :: u32) = 0x8000 + p + of_nat (56 * Suc i)" by simp
    ultimately show ?thesis using True len unfolding F_def
      by (subst load_elf64_loop.simps) (simp add: load16_header [OF h, of 56, simplified] load_segment_def del: of_nat_mult)
  next
    case False
    then show ?thesis using len unfolding F_def
      by (subst load_elf64_loop.simps) (simp add: load16_header [OF h, of 56, simplified])
  qed
  then have "\<exists>m' w' s'. F 0 m w = Some (m', w') \<and> R w' s' \<and> mode s' = Idle \<and> sectors s' = sectors s
      \<and> header_at s m' \<and> (\<forall>j < length (segments s). loaded s m' (segments s ! j))
      \<and> (\<forall>b. (\<forall>g \<in> set (segments s). \<not> written g (unat b)) \<longrightarrow> m' b = m b)"
    using assms(2,3,5) by (intro load_loop_effect [OF assms(1) refl assms(4)]) simp_all
  moreover have "load_elf64 bus 0x8000 m w = F 0 m w"
    using load32_header [OF assms(5), of 0 0 32] by (simp add: load_elf64_def F_def p_def)
  ultimately show ?thesis by simp
qed


section \<open>Starting the kernel\<close>

lemma load_kernel_effect:
  assumes "ata_ok bus R" "R w s" "mode s = Idle" "elf_ok s" "boot_record_is_ap m = 0"
  shows "\<exists>m' w' s'. load_kernel bus m w = Some (load32 (file_mem s) (0x8000 + 24), m', w')
    \<and> R w' s' \<and> mode s' = Idle \<and> sectors s' = sectors s
    \<and> (\<forall>g \<in> set (segments s). loaded s m' g)
    \<and> (\<forall>b. (\<forall>g \<in> set (segments s). \<not> written g (unat b)) \<longrightarrow>
        m' b = (if 0x8000 \<le> unat b \<and> unat b < 0x9000 then disk_file s (unat b - 0x8000)
          else if 0x10000 \<le> unat b \<and> unat b < 0x10400 then blocks s 1 2 ! (unat b - 0x10000) else m b))"
proof -
  have len: "length (sectors s k) = 128" for k using ata_length [OF assms(1,2)] .
  define m1 where "m1 = put_bytes (blocks s 1 2) (0x10000 AND NOT 511) m"
  define m2 where "m2 = put_bytes (blocks s 3 8) (0x8000 AND NOT 511) m1"
  have sp: "span (unat (0x10000 :: u32)) (unat (1024 :: u32)) = 2" "span (unat (0x8000 :: u32)) (unat (4096 :: u32)) = 8"
    by (simp_all add: span_def)
  obtain w1 s1 where c1: "copy_from_disk bus MAINARG_ADDR 1024 (- 1024) m w = Some (m1, w1)" "R w1 s1"
      "mode s1 = Idle" "sectors s1 = sectors s"
    using copy_from_disk_effect [OF assms(1-3), of "- 1024" 1 "0x10000" 1024 m]
    unfolding sp m1_def by (auto simp: signed_divide_int_def)
  have b1: "blocks s1 = blocks s" using c1(4) by (rule blocks_cong)
  obtain w2 s2 where c2: "copy_from_disk bus 0x8000 4096 0 m1 w1 = Some (m2, w2)" "R w2 s2"
      "mode s2 = Idle" "sectors s2 = sectors s"
    using copy_from_disk_effect [OF assms(1) c1(2,3), of 0 3 "0x8000" 4096 m1] c1(4)
    unfolding sp m2_def b1 by (auto simp: signed_divide_int_def)
  have m2: "m2 b = (if 0x8000 \<le> unat b \<and> unat b < 0x9000 then disk_file s (unat b - 0x8000)
      else if 0x10000 \<le> unat b \<and> unat b < 0x10400 then blocks s 1 2 ! (unat b - 0x10000) else m b)" for b
    unfolding m2_def m1_def
    by (auto simp: put_bytes_range length_blocks len nth_blocks disk_file_def)
  have h: "header_at s m2"
    unfolding header_at_def
  proof (intro allI impI)
    fix j :: nat assume "j < 4096"
    moreover from this have "unat (0x8000 + of_nat j :: u32) = 0x8000 + j"
      by (subst unat_word_ariths) (simp add: unat_of_nat_u32)
    ultimately show "m2 (0x8000 + of_nat j) = disk_file s j" by (simp add: m2)
  qed
  have f: "file_mem s2 = file_mem s" "segments s2 = segments s" "loaded s2 = loaded s" "header_at s2 = header_at s" "elf_ok s2 = elf_ok s"
  proof -
    show fm: "file_mem s2 = file_mem s"
      using c2(4) by (simp add: file_mem_def disk_file_def sector_bytes_def fun_eq_iff)
    show "segments s2 = segments s" by (simp add: segments_def fm)
    then show "elf_ok s2 = elf_ok s" by (simp add: elf_ok_def fm)
    show "loaded s2 = loaded s" using c2(4) by (rule loaded_cong)
    show "header_at s2 = header_at s" using c2(4) by (simp add: header_at_def disk_file_def sector_bytes_def fun_eq_iff)
  qed
  define l where "l = (if load16 m2 (0x8000 + 18) = EM_X86_64 then load_elf64 bus 0x8000 m2 w2 else load_elf32 bus 0x8000 m2 w2)"
  have mach: "load16 m2 (0x8000 + 18) = load16 (file_mem s) (0x8000 + 18)" by (rule load16_header [OF h]) simp
  obtain m' w' s' where r: "l = Some (m', w')" "R w' s'" "mode s' = Idle" "sectors s' = sectors s" "header_at s m'"
      "\<forall>j < length (segments s). loaded s m' (segments s ! j)"
      "\<forall>b. (\<forall>g \<in> set (segments s). \<not> written g (unat b)) \<longrightarrow> m' b = m2 b"
  proof (cases "load16 (file_mem s) (0x8000 + 18) = EM_X86_64")
    case True
    then show ?thesis using load_elf64_effect [OF assms(1) c2(2,3), of m2] assms(4) h that c2(4)
      unfolding f l_def mach by auto
  next
    case False
    then show ?thesis using load_elf32_effect [OF assms(1) c2(2,3), of m2] assms(4) h that c2(4)
      unfolding f l_def mach by auto
  qed
  have "load32 m' (0x8000 + 24) = load32 (file_mem s) (0x8000 + 24)"
    using load32_header [OF r(5), of 0 0 24] by simp
  then have "load_kernel bus m w = Some (load32 (file_mem s) (0x8000 + 24), m', w')"
    using r(1) unfolding load_kernel_def Let_def l_def by (simp add: assms(5) c1(1) c2(1))
  moreover have "\<forall>g \<in> set (segments s). loaded s m' g" using r(6) by (auto simp: in_set_conv_nth)
  ultimately show ?thesis using r(2-4,7) m2 by (intro exI [of _ m'] exI [of _ w'] exI [of _ s']) auto
qed


section \<open>A disk\<close>

text \<open>A controller that implements the protocol and is busy for two polls after every command and every
  sector, for the witnesses.\<close>

definition demo_bus :: "(ata \<times> nat) bus" where
  "demo_bus = \<lparr>
     in8 = (\<lambda>p (s, c). if p = 0x1f7 then (if c = 0 then (0x40, (s\<lparr>busy := False\<rparr>, 0)) else (0x80, (s, c - 1))) else (0, (s, c))),
     out8 = (\<lambda>p v (s, c). let s' = ata_out8 p v s in (s', if busy s' then 2 else c)),
     in32 = (\<lambda>p (s, c). case mode s of Sending (x # xs) \<Rightarrow> (x, (ata_read s, 2)) | _ \<Rightarrow> (0, (s, c))),
     out32 = (\<lambda>p v (s, c). (ata_write v s, 2))\<rparr>"

definition demo_rel :: "ata \<times> nat \<Rightarrow> ata \<Rightarrow> bool" where
  "demo_rel w s \<longleftrightarrow> fst w = s \<and> (\<forall>k. length (sectors s k) = 128)
    \<and> (case mode s of Receiving l ws \<Rightarrow> length ws < 128 | _ \<Rightarrow> True)"

lemma demo_poll:
  "poll demo_bus (s, c) = (if c = 0 then (s\<lparr>busy := False\<rparr>, 0) else (s, c - 1))" "ready demo_bus (s, c) \<longleftrightarrow> c = 0"
  by (simp_all add: poll_def ready_def demo_bus_def)

lemma demo_polls: "(poll demo_bus ^^ n) (s, n) = (s, 0)"
  by (induction n) (simp_all add: funpow_swap1 demo_poll)

lemma demo_bus_ok: "ata_ok demo_bus demo_rel"
  unfolding ata_ok_def
proof (intro allI impI conjI, goal_cases)
  case (2 w s)
  then show ?case by (cases w) (auto simp: demo_rel_def demo_poll)
next
  case (3 w s)
  show ?case by (rule exI [of _ "snd w"], cases w) (simp add: demo_polls demo_poll)
next
  case (4 w s p v)
  then show ?case by (cases w) (auto simp: demo_rel_def demo_bus_def ata_out8_def Let_def)
qed (auto simp: demo_rel_def demo_bus_def ata_read_def ata_write_def split: list.splits)

definition demo_word :: "nat \<Rightarrow> nat \<Rightarrow> u32" where
  "demo_word k j =
    (if k \<noteq> 3 then of_nat (k * 1000 + j)
     else if j = 4 then 0x00030002 else if j = 6 then 0x100020 else if j = 7 then 52 else if j = 11 then 2
     else if j = 14 then 0x1000 else if j = 16 then 0x100000 else if j = 17 then 700 else if j = 18 then 1000
     else if j = 22 then 0x1510 else if j = 24 then 0x200110 else if j = 25 then 20 else if j = 26 then 24
     else 0)"

definition demo_disk :: ata where
  "demo_disk = \<lparr>sector_count = 0, lba_low = 0, lba_mid = 0, lba_high = 0, device = 0, busy = False, mode = Idle,
    sectors = (\<lambda>k. map (demo_word k) [0..<128])\<rparr>"

lemma demo_disk_rel: "demo_rel (demo_disk, 2) demo_disk" "mode demo_disk = Idle"
  by (simp_all add: demo_rel_def demo_disk_def)

lemma wbytes_inject:
  assumes "wbytes x = wbytes y"
  shows "x = y"
proof (rule bit_eqI)
  fix n assume "possible_bit TYPE(32 word) n"
  then have n: "n < 32" by simp
  have b: "bit (ucast (drop_bit k x) :: u8) (n - k) = bit (ucast (drop_bit k y) :: u8) (n - k)" if "k \<in> {0, 8, 16, 24}" for k
    using assms that by (auto simp: wbytes_def)
  consider "n < 8" | "8 \<le> n" "n < 16" | "16 \<le> n" "n < 24" | "24 \<le> n" by linarith
  then show "bit x n = bit y n"
    by cases (use n b [of 0] b [of 8] b [of 16] b [of 24] in \<open>auto simp: bit_simps\<close>)
qed

text \<open>An aligned word of the file is a word of the disk.\<close>

lemma load32_file:
  assumes "\<And>k. length (sectors s k) = 128" "n mod 4 = 0" "n + 3 < 2 ^ 32"
  shows "load32 (file_mem s) (0x8000 + of_nat n) = sectors s (3 + n div 512) ! (n mod 512 div 4)"
proof (rule wbytes_inject)
  let ?x = "sectors s (3 + n div 512) ! (n mod 512 div 4)"
  obtain q where q: "n = 4 * q" using assms(2) by auto
  have "file_mem s (0x8000 + of_nat n + of_nat i) = wbytes ?x ! i" if "i < 4" for i
  proof -
    have "unat (of_nat n + of_nat i :: u32) = n + i"
      using assms(3) that unat_of_nat_u32 [of "n + i"] by simp
    moreover have m: "(n + j) div 512 = q div 128" "(n + j) mod 512 = 4 * (q mod 128) + j" if "j < 4" for j
    proof -
      have "(n + j) div 4 = q" "(n + j) mod 4 = j" using that q by simp_all
      then show "(n + j) div 512 = q div 128" "(n + j) mod 512 = 4 * (q mod 128) + j"
        using div_mult2_eq [of "n + j" 4 128] mod_mult2_eq [of "n + j" 4 128] by simp_all
    qed
    then have "(n + i) div 512 = n div 512" "(n + i) mod 512 div 4 = n mod 512 div 4" "(n + i) mod 512 mod 4 = i"
      using that m [of 0] m [of i] by simp_all
    ultimately show ?thesis
      using nth_concat_uniform [of wbytes 4 "(n + i) mod 512" "sectors s (3 + n div 512)"] assms(1)
      by (simp add: file_mem_def disk_file_def sector_bytes_def add.assoc)
  qed
  then have "bytes_at (file_mem s) (0x8000 + of_nat n) 4 = wbytes ?x"
    by (auto simp: bytes_at_def intro!: nth_equalityI)
  then show "wbytes (load32 (file_mem s) (0x8000 + of_nat n)) = wbytes ?x"
    by (simp add: wbytes_load32)
qed


lemma demo_load32:
  "n mod 4 = 0 \<Longrightarrow> n + 3 < 2 ^ 32 \<Longrightarrow>
    load32 (file_mem demo_disk) (0x8000 + of_nat n) = demo_word (3 + n div 512) (n mod 512 div 4)"
  using load32_file [of demo_disk n] less_mult_imp_div_less [of "n mod 512" 128 4]
  by (simp add: demo_disk_def)

lemma load16_load32: "load16 m a = ucast (load32 m a)" "load16 m (a + 2) = ucast (drop_bit 16 (load32 m a))"
  unfolding load16_def load32_def
  by (rule bit_eqI; auto simp: bit_simps add.assoc simp del: push_bit_numeral dest: bit_imp_le_length)+

lemma demo_header:
  "n mod 4 = 0 \<Longrightarrow> n < 512 \<Longrightarrow> load32 (file_mem demo_disk) (0x8000 + of_nat n) = demo_word 3 (n div 4)"
  using demo_load32 [of n] by simp

lemma demo_fields:
  "load16 (file_mem demo_disk) (0x8000 + 18) = 3" "load16 (file_mem demo_disk) (0x8000 + 44) = 2"
  "load32 (file_mem demo_disk) (0x8000 + 28) = 52"
  using load16_load32(2) [of "file_mem demo_disk" "0x8000 + 16"] load16_load32(1) [of "file_mem demo_disk" "0x8000 + 44"]
    demo_header [of 16] demo_header [of 44] demo_header [of 28]
  by (simp_all add: demo_word_def)

lemma demo_segments:
  "segments demo_disk =
    [\<lparr>p_filesz = 700, p_memsz = 1000, p_paddr = 0x100000, p_offset = 0x1000\<rparr>,
     \<lparr>p_filesz = 20, p_memsz = 24, p_paddr = 0x200110, p_offset = 0x1510\<rparr>]"
  using demo_fields demo_header [of 56] demo_header [of 64] demo_header [of 68] demo_header [of 72]
    demo_header [of 88] demo_header [of 96] demo_header [of 100] demo_header [of 104]
  by (simp add: segments_def Let_def upt_conv_Cons demo_word_def)

lemma demo_elf_ok: "elf_ok demo_disk"
proof -
  have "\<forall>g \<in> set (segments demo_disk). segment_ok g \<and> (\<forall>b. 0x8000 \<le> b \<and> b < 0x9000 \<longrightarrow> \<not> written g b)"
    by (simp add: demo_segments segment_ok_def written_def span_def)
  moreover have "\<forall>k < length (segments demo_disk). \<forall>i < k. \<forall>b. unat (p_paddr (segments demo_disk ! i)) \<le> b
        \<and> b < unat (p_paddr (segments demo_disk ! i)) + unat (p_memsz (segments demo_disk ! i))
        \<longrightarrow> \<not> written (segments demo_disk ! k) b"
    by (auto simp: demo_segments written_def span_def less_Suc_eq)
  ultimately show ?thesis using demo_fields unfolding elf_ok_def by (simp add: Let_def)
qed

section \<open>Properties\<close>

text \<open>C30: \<open>disk_blkio\<close> returns and transfers exactly the requested blocks.  A read leaves the disk as
  it is and stores the bytes of the blocks from \<open>buf\<close> on, nowhere else; a write leaves the memory as it
  is, and afterwards the requested blocks hold the bytes at \<open>buf\<close> and every other sector is what it was.
  This holds for every controller that keeps to the ATA protocol and is ready after finitely many polls.\<close>
theorem disk_blkio_correct:
  assumes "ata_ok bus R" "R w s" "mode s = Idle" "unat blkno + unat blkcnt \<le> 2 ^ 28"
  shows "(\<exists>w' s'. disk_blkio bus False buf blkno blkcnt m w
        = Some (put_bytes (blocks s (unat blkno) (unat blkcnt)) buf m, w')
      \<and> R w' s' \<and> mode s' = Idle \<and> sectors s' = sectors s)
    \<and> (\<exists>w' s'. disk_blkio bus True buf blkno blkcnt m w = Some (m, w')
      \<and> R w' s' \<and> mode s' = Idle
      \<and> blocks s' (unat blkno) (unat blkcnt) = bytes_at m buf (512 * unat blkcnt)
      \<and> (\<forall>k. k < unat blkno \<or> unat blkno + unat blkcnt \<le> k \<longrightarrow> sectors s' k = sectors s k))"
  unfolding disk_blkio_def using blkio_read [OF assms] blkio_write [OF assms] by blast

theorem disk_blkio_correct_witness:
  "(\<exists>w' s'. disk_blkio demo_bus False 0x1000 7 2 (\<lambda>a. 0) (demo_disk, 2)
        = Some (put_bytes (blocks demo_disk (unat (7 :: u32)) (unat (2 :: u32))) 0x1000 (\<lambda>a. 0), w')
      \<and> demo_rel w' s' \<and> mode s' = Idle \<and> sectors s' = sectors demo_disk)
    \<and> (\<exists>w' s'. disk_blkio demo_bus True 0x1000 7 2 (\<lambda>a. 0) (demo_disk, 2) = Some ((\<lambda>a. 0), w')
      \<and> demo_rel w' s' \<and> mode s' = Idle
      \<and> blocks s' (unat (7 :: u32)) (unat (2 :: u32)) = bytes_at (\<lambda>a. 0) 0x1000 (512 * unat (2 :: u32))
      \<and> (\<forall>k. k < unat (7 :: u32) \<or> unat (7 :: u32) + unat (2 :: u32) \<le> k \<longrightarrow> sectors s' k = sectors demo_disk k))"
  by (rule disk_blkio_correct [OF demo_bus_ok demo_disk_rel]) simp

text \<open>Blocks written to the disk and read back later, to another buffer, are the bytes that were
  written.\<close>
theorem disk_write_read:
  assumes "ata_ok bus R" "R w s" "mode s = Idle" "unat blkno + unat blkcnt \<le> 2 ^ 28"
  shows "\<exists>w1 w2. disk_blkio bus True buf blkno blkcnt m w = Some (m, w1)
    \<and> disk_blkio bus False buf' blkno blkcnt m w1
      = Some (put_bytes (bytes_at m buf (512 * unat blkcnt)) buf' m, w2)"
proof -
  obtain w1 s1 where w: "disk_blkio bus True buf blkno blkcnt m w = Some (m, w1)" "R w1 s1" "mode s1 = Idle"
      "blocks s1 (unat blkno) (unat blkcnt) = bytes_at m buf (512 * unat blkcnt)"
    unfolding disk_blkio_def using blkio_write [OF assms, of buf m] by blast
  then show ?thesis
    using blkio_read [OF assms(1) w(2,3) assms(4), of buf' m] unfolding disk_blkio_def by auto
qed

theorem disk_write_read_witness:
  "\<exists>w1 w2. disk_blkio demo_bus True 0x1000 7 2 demo_mem (demo_disk, 2) = Some (demo_mem, w1)
    \<and> disk_blkio demo_bus False 0x5000 7 2 demo_mem w1
      = Some (put_bytes (bytes_at demo_mem 0x1000 (512 * unat (2 :: u32))) 0x5000 demo_mem, w2)"
  by (rule disk_write_read [OF demo_bus_ok demo_disk_rel]) simp

text \<open>C32: on the boot processor the boot loader puts the file on the disk where its program headers say
  and jumps to its entry point, for 32-bit and 64-bit files.  Each segment's bytes are those of the file, the
  rest of the segment is zero, the argument string (sectors 1 and 2) is at \<open>MAINARG_ADDR\<close>, the header at
  \<open>0x8000\<close>, and no other byte changes outside the sectors of the segments.\<close>
theorem load_kernel_correct:
  assumes "ata_ok bus R" "R w s" "mode s = Idle" "elf_ok s" "boot_record_is_ap m = 0"
  shows "\<exists>m' w'. load_kernel bus m w = Some (load32 (file_mem s) (0x8000 + 24), m', w')
    \<and> (\<forall>g \<in> set (segments s). \<forall>j < unat (p_memsz g). m' (p_paddr g + of_nat j)
        = (if j < unat (p_filesz g) then disk_file s (unat (p_offset g) + j) else 0))
    \<and> (\<forall>b. (\<forall>g \<in> set (segments s). \<not> written g (unat b)) \<longrightarrow>
        m' b = (if 0x8000 \<le> unat b \<and> unat b < 0x9000 then disk_file s (unat b - 0x8000)
          else if 0x10000 \<le> unat b \<and> unat b < 0x10400 then blocks s 1 2 ! (unat b - 0x10000) else m b))"
  using load_kernel_effect [OF assms] unfolding loaded_def by blast

theorem load_kernel_correct_witness:
  "\<exists>m' w'. load_kernel demo_bus (\<lambda>a. 0) (demo_disk, 2) = Some (load32 (file_mem demo_disk) (0x8000 + 24), m', w')
    \<and> (\<forall>g \<in> set (segments demo_disk). \<forall>j < unat (p_memsz g). m' (p_paddr g + of_nat j)
        = (if j < unat (p_filesz g) then disk_file demo_disk (unat (p_offset g) + j) else 0))
    \<and> (\<forall>b. (\<forall>g \<in> set (segments demo_disk). \<not> written g (unat b)) \<longrightarrow>
        m' b = (if 0x8000 \<le> unat b \<and> unat b < 0x9000 then disk_file demo_disk (unat b - 0x8000)
          else if 0x10000 \<le> unat b \<and> unat b < 0x10400 then blocks demo_disk 1 2 ! (unat b - 0x10000) else 0))"
  by (rule load_kernel_correct [OF demo_bus_ok demo_disk_rel demo_elf_ok]) (simp add: boot_record_is_ap_def load32_def)

end
