(* ===== verification/Am_Ioe.thy ===== *)
theory Am_Ioe
  imports Am_Disk
begin

text \<open>
  The other devices of the \<open>x86-qemu\<close> port, \<open>abstract-machine/am/src/x86/qemu/ioe.c\<close>: serial line,
  clock, keyboard, frame buffer, the two-dimensional renderer and the two interrupt controllers.

  The ports are the \<open>bus\<close> of the disk driver; the record \<open>hw\<close> adds memory-mapped registers and the
  time stamp counter.  A loop that waits for a device is a partial function.  The coordinates of
  \<open>gpu_fbdraw\<close> are \<open>int\<close>s whose arithmetic is checked by \<open>i32\<close>; those of the renderer, which come from
  16-bit fields, are natural numbers.  The readings in the initialiser of \<open>read_rtc_async\<close> are calls whose
  order C leaves open, so the order is an argument of the clock's functions.

  The theorems: a date that \<open>timer_rtc\<close> returns was the date at one moment of the call if the seconds are
  read first, and with any other order it may be torn; the clock that \<open>timer_uptime\<close> shows runs too fast;
  \<open>gpu_fbdraw\<close> draws the visible part of the rectangle and nothing else unless its arithmetic overflows; every key that is reported is reported by one scan code; the I/O interrupt controller is
  programmed entry by entry.
\<close>

record 'w hw = "'w bus" +
  ld :: "u32 \<Rightarrow> 'w \<Rightarrow> u32 \<times> 'w"
  st :: "u32 \<Rightarrow> u32 \<Rightarrow> 'w \<Rightarrow> 'w"
  rdtsc :: "'w \<Rightarrow> u64 \<times> 'w"

section \<open>Serial line\<close>

abbreviation (input) COM1 :: u16 where "COM1 \<equiv> 0x3f8"

definition uart_init :: "('w, 'x) hw_scheme \<Rightarrow> 'w \<Rightarrow> 'w" where
  "uart_init bus w =
    (let w = out8 bus (COM1 + 2) 0 w;
         w = out8 bus (COM1 + 3) 0x80 w;
         w = out8 bus (COM1 + 0) (115200 div 9600) w;
         w = out8 bus (COM1 + 1) 0 w;
         w = out8 bus (COM1 + 3) 0x03 w;
         w = out8 bus (COM1 + 4) 0 w;
         w = out8 bus (COM1 + 1) 0x01 w;
         w = snd (in8 bus (COM1 + 2) w)
     in snd (in8 bus (COM1 + 0) w))"

definition uart_tx :: "('w, 'x) hw_scheme \<Rightarrow> u8 \<Rightarrow> 'w \<Rightarrow> 'w" where
  "uart_tx bus data w = out8 bus COM1 data w"

definition uart_rx :: "('w, 'x) hw_scheme \<Rightarrow> 'w \<Rightarrow> u8 \<times> 'w" where
  "uart_rx bus w =
    (case in8 bus (COM1 + 5) w of (s, w) \<Rightarrow> if s AND 1 \<noteq> 0 then in8 bus COM1 w else (- 1, w))"

section \<open>Clock\<close>

record rtc =
  rtc_year :: int
  rtc_month :: int
  rtc_day :: int
  rtc_hour :: int
  rtc_minute :: int
  rtc_second :: int

definition read_rtc :: "('w, 'x) hw_scheme \<Rightarrow> u8 \<Rightarrow> 'w \<Rightarrow> int \<times> 'w" where
  "read_rtc bus reg w =
    (let w = out8 bus 0x70 reg w
     in case in8 bus 0x71 w of (ret, w) \<Rightarrow> (uint (ret AND 0xf) + uint (drop_bit 4 ret) * 10, w))"

text \<open>The readings of the initialiser, in the order \<open>ord\<close> of the registers.\<close>

primrec read_regs :: "('w, 'x) hw_scheme \<Rightarrow> u8 list \<Rightarrow> (u8 \<Rightarrow> int) \<Rightarrow> 'w \<Rightarrow> (u8 \<Rightarrow> int) \<times> 'w" where
  "read_regs bus [] f w = (f, w)"
| "read_regs bus (reg # regs) f w = (case read_rtc bus reg w of (v, w) \<Rightarrow> read_regs bus regs (f(reg := v)) w)"

definition read_rtc_async :: "u8 list \<Rightarrow> ('w, 'x) hw_scheme \<Rightarrow> 'w \<Rightarrow> rtc \<times> 'w" where
  "read_rtc_async ord bus w =
    (case read_regs bus ord (\<lambda>reg. 0) w of (f, w) \<Rightarrow>
       (\<lparr>rtc_year = f 9 + 2000, rtc_month = f 8, rtc_day = f 7, rtc_hour = f 4, rtc_minute = f 2,
         rtc_second = f 0\<rparr>, w))"

text \<open>The orders of the six readings.\<close>

definition rtc_order :: "u8 list \<Rightarrow> bool" where
  "rtc_order ord \<longleftrightarrow> distinct ord \<and> set ord = {0, 2, 4, 7, 8, 9}"

partial_function (option) wait_sec :: "u8 list \<Rightarrow> ('w, 'x) hw_scheme \<Rightarrow> 'w \<Rightarrow> (rtc \<times> 'w) option" where
  "wait_sec ord bus w =
    (let (t0, w) = read_rtc_async ord bus w;
         (t1, w) = read_rtc_async ord bus w
     in if rtc_second t0 \<noteq> rtc_second t1 then Some (t1, w) else wait_sec ord bus w)"

definition freq_of :: "u64 \<Rightarrow> u64 \<Rightarrow> u64 \<Rightarrow> u64 \<Rightarrow> u32" where
  "freq_of tsc1 tsc2 t1 t2 = ucast (drop_bit 20 (tsc2 - tsc1) div (t2 - t1))"

partial_function (option) estimate_freq :: "u8 list \<Rightarrow> ('w, 'x) hw_scheme \<Rightarrow> 'w \<Rightarrow> (u32 \<times> 'w) option" where
  "estimate_freq ord bus w = do {
     (rtc1, w) \<leftarrow> wait_sec ord bus w;
     let (tsc1, w) = rdtsc bus w;
     let t1 = (word_of_int (rtc_minute rtc1 * 60 + rtc_second rtc1) :: u64);
     (rtc2, w) \<leftarrow> wait_sec ord bus w;
     let (tsc2, w) = rdtsc bus w;
     let t2 = (word_of_int (rtc_minute rtc2 * 60 + rtc_second rtc2) :: u64);
     if t2 \<le> t1 then estimate_freq ord bus w
     else Some (freq_of tsc1 tsc2 t1 t2, w)
   }"

partial_function (option) timer_rtc :: "u8 list \<Rightarrow> ('w, 'x) hw_scheme \<Rightarrow> 'w \<Rightarrow> (rtc \<times> 'w) option" where
  "timer_rtc ord bus w =
    (let (rtc, w) = read_rtc_async ord bus w;
         (tmp, w) = read_rtc bus 0 w
     in if tmp \<noteq> rtc_second rtc then timer_rtc ord bus w else Some (rtc, w))"

record timer =
  boot_date :: rtc
  freq_mhz :: u32
  uptsc :: u64

definition timer_init :: "u8 list \<Rightarrow> ('w, 'x) hw_scheme \<Rightarrow> 'w \<Rightarrow> (timer \<times> 'w) option" where
  "timer_init ord bus w = do {
     (freq, w) \<leftarrow> estimate_freq ord bus w;
     (date, w) \<leftarrow> timer_rtc ord bus w;
     let (tsc, w) = rdtsc bus w;
     Some (\<lparr>boot_date = date, freq_mhz = freq, uptsc = tsc\<rparr>, w)
   }"

text \<open>A division by zero is the result \<open>None\<close>.\<close>

definition timer_uptime :: "('w, 'x) hw_scheme \<Rightarrow> timer \<Rightarrow> 'w \<Rightarrow> (u64 \<times> 'w) option" where
  "timer_uptime bus t w =
    (case rdtsc bus w of (tsc, w) \<Rightarrow>
       if freq_mhz t = 0 then None else Some ((tsc - uptsc t) div ucast (freq_mhz t), w))"

section \<open>Keyboard\<close>

text \<open>Keys by name; the key codes are the positions in the enumeration.\<close>

definition AM_KEYS :: "string list" where
  "AM_KEYS = [''NONE'',
     ''ESCAPE'', ''F1'', ''F2'', ''F3'', ''F4'', ''F5'', ''F6'', ''F7'',
     ''F8'', ''F9'', ''F10'', ''F11'', ''F12'', ''GRAVE'', ''1'', ''2'',
     ''3'', ''4'', ''5'', ''6'', ''7'', ''8'', ''9'', ''0'', ''MINUS'',
     ''EQUALS'', ''BACKSPACE'', ''TAB'', ''Q'', ''W'', ''E'', ''R'', ''T'',
     ''Y'', ''U'', ''I'', ''O'', ''P'', ''LEFTBRACKET'', ''RIGHTBRACKET'',
     ''BACKSLASH'', ''CAPSLOCK'', ''A'', ''S'', ''D'', ''F'', ''G'', ''H'',
     ''J'', ''K'', ''L'', ''SEMICOLON'', ''APOSTROPHE'', ''RETURN'',
     ''LSHIFT'', ''Z'', ''X'', ''C'', ''V'', ''B'', ''N'', ''M'',
     ''COMMA'', ''PERIOD'', ''SLASH'', ''RSHIFT'', ''LCTRL'', ''APPLICATION'',
     ''LALT'', ''SPACE'', ''RALT'', ''RCTRL'', ''UP'', ''DOWN'', ''LEFT'',
     ''RIGHT'', ''INSERT'', ''DELETE'', ''HOME'', ''END'', ''PAGEUP'',
     ''PAGEDOWN'']"

primrec position :: "string \<Rightarrow> string list \<Rightarrow> nat" where
  "position x [] = 0"
| "position x (y # ys) = (if x = y then 0 else Suc (position x ys))"

definition keycode :: "string \<Rightarrow> nat" where
  "keycode k = position k AM_KEYS"

text \<open>The initialisers of \<open>keylut\<close> as they are written; the last one for an index counts.\<close>

definition keylut_init :: "(nat \<times> string) list" where
  "keylut_init = [
    (0x01, ''ESCAPE''), (0x02, ''1''), (0x03, ''2''), (0x04, ''3''), (0x05, ''4''),
    (0x06, ''5''), (0x07, ''6''), (0x08, ''7''), (0x09, ''8''), (0x0a, ''9''),
    (0x0b, ''0''), (0x0c, ''MINUS''), (0x0d, ''EQUALS''), (0x0e, ''BACKSPACE''),
    (0x0f, ''TAB''), (0x10, ''Q''), (0x11, ''W''), (0x12, ''E''), (0x13, ''R''),
    (0x14, ''T''), (0x15, ''Y''), (0x16, ''U''), (0x17, ''I''), (0x18, ''O''),
    (0x19, ''P''), (0x1a, ''LEFTBRACKET''), (0x1b, ''RIGHTBRACKET''),
    (0x1c, ''RETURN''), (0x1d, ''LCTRL''), (0x1e, ''A''), (0x1f, ''S''),
    (0x20, ''D''), (0x21, ''F''), (0x22, ''G''), (0x23, ''H''), (0x24, ''J''),
    (0x25, ''K''), (0x26, ''L''), (0x27, ''SEMICOLON''), (0x28, ''APOSTROPHE''),
    (0x29, ''GRAVE''), (0x2a, ''LSHIFT''), (0x2b, ''BACKSLASH''), (0x2c, ''Z''),
    (0x2d, ''X''), (0x2e, ''C''), (0x2f, ''V''), (0x30, ''B''), (0x31, ''N''),
    (0x32, ''M''), (0x33, ''COMMA''), (0x34, ''PERIOD''), (0x35, ''SLASH''),
    (0x36, ''RSHIFT''), (0x38, ''LALT''), (0x38, ''RALT''), (0x39, ''SPACE''),
    (0x3a, ''CAPSLOCK''), (0x3b, ''F1''), (0x3c, ''F2''), (0x3d, ''F3''),
    (0x3e, ''F4''), (0x3f, ''F5''), (0x40, ''F6''), (0x41, ''F7''), (0x42, ''F8''),
    (0x43, ''F9''), (0x44, ''F10''), (0x48, ''INSERT''), (0x4b, ''HOME''),
    (0x4d, ''END''), (0x50, ''DELETE''), (0x57, ''F11''), (0x58, ''F12''),
    (0x5b, ''APPLICATION'')]"

definition keylut :: "nat \<Rightarrow> string" where
  "keylut c = (case map_of (rev keylut_init) c of None \<Rightarrow> ''NONE'' | Some k \<Rightarrow> k)"

record keyboard_event =
  keydown :: bool
  key :: string

definition input_keybrd :: "('w, 'x) hw_scheme \<Rightarrow> 'w \<Rightarrow> keyboard_event \<times> 'w" where
  "input_keybrd bus w =
    (case in8 bus 0x64 w of (s, w) \<Rightarrow>
       if s AND 1 \<noteq> 0 then
         case in8 bus 0x60 w of (b, w) \<Rightarrow>
           let code = unat b in (\<lparr>keydown = code < 128, key = keylut (code mod 128)\<rparr>, w)
       else (\<lparr>keydown = False, key = ''NONE''\<rparr>, w))"

section \<open>Frame buffer\<close>

record pixel =
  blue :: u8
  green :: u8
  red :: u8

definition pixel_of :: "u32 \<Rightarrow> pixel" where
  "pixel_of p = \<lparr>blue = ucast p, green = ucast (drop_bit 8 p), red = ucast (drop_bit 16 p)\<rparr>"

type_synonym frame_image = "int \<Rightarrow> pixel"

primrec draw_row :: "nat \<Rightarrow> int \<Rightarrow> int \<Rightarrow> (int \<Rightarrow> u32) \<Rightarrow> frame_image \<Rightarrow> frame_image" where
  "draw_row 0 px i pixels fb = fb"
| "draw_row (Suc k) px i pixels fb = draw_row k (px + 1) (i + 1) pixels (fb(px := pixel_of (pixels i)))"

primrec draw_rows :: "nat \<Rightarrow> int \<Rightarrow> int \<Rightarrow> int \<Rightarrow> int \<Rightarrow> int \<Rightarrow> int \<Rightarrow> int \<Rightarrow> int \<Rightarrow> (int \<Rightarrow> u32) \<Rightarrow> frame_image
    \<Rightarrow> frame_image option" where
  "draw_rows 0 j base x y w W H len pixels fb = Some fb"
| "draw_rows (Suc k) j base x y w W H len pixels fb = do {
     row \<leftarrow> i32 (y + j);
     fb \<leftarrow> (if row < H then do {
              r \<leftarrow> i32 (j + y);
              m \<leftarrow> i32 (r * W);
              px \<leftarrow> i32 (x + m);
              Some (draw_row (nat len) px base pixels fb)
            } else Some fb);
     draw_rows k (j + 1) (base + w) x y w W H len pixels fb
   }"

definition gpu_fbdraw :: "int \<Rightarrow> int \<Rightarrow> int \<Rightarrow> int \<Rightarrow> int \<Rightarrow> int \<Rightarrow> (int \<Rightarrow> u32) \<Rightarrow> frame_image \<Rightarrow> frame_image option" where
  "gpu_fbdraw W H x y w h pixels fb = do {
     right \<leftarrow> i32 (x + w);
     len \<leftarrow> (if W \<le> right then i32 (W - x) else Some w);
     draw_rows (nat h) 0 0 x y w W H len pixels fb
   }"

subsection \<open>The renderer\<close>

text \<open>The three pixel memories, and pointers into them as byte offsets.\<close>

datatype pixel_ptr = Fb nat | Vmem nat | Vbuf nat

record gpu =
  fb_bytes :: "nat \<Rightarrow> u8"
  vmem :: "nat \<Rightarrow> u8"
  vbuf :: "nat \<Rightarrow> u8"
  vbuf_head :: nat

abbreviation (input) VMEM_SIZE :: nat where "VMEM_SIZE \<equiv> 512 * 1024"

abbreviation (input) AM_GPU_NULL :: u32 where "AM_GPU_NULL \<equiv> 0xffffffff"

definition get_byte :: "gpu \<Rightarrow> pixel_ptr \<Rightarrow> nat \<Rightarrow> u8" where
  "get_byte g p k = (case p of Fb a \<Rightarrow> fb_bytes g (a + k) | Vmem a \<Rightarrow> vmem g (a + k) | Vbuf a \<Rightarrow> vbuf g (a + k))"

definition put_byte :: "gpu \<Rightarrow> pixel_ptr \<Rightarrow> nat \<Rightarrow> u8 \<Rightarrow> gpu" where
  "put_byte g p k v =
    (case p of
       Fb a \<Rightarrow> g\<lparr>fb_bytes := (fb_bytes g)(a + k := v)\<rparr>
     | Vmem a \<Rightarrow> g\<lparr>vmem := (vmem g)(a + k := v)\<rparr>
     | Vbuf a \<Rightarrow> g\<lparr>vbuf := (vbuf g)(a + k := v)\<rparr>)"

definition get_pixel :: "gpu \<Rightarrow> pixel_ptr \<Rightarrow> nat \<Rightarrow> pixel" where
  "get_pixel g p i = \<lparr>blue = get_byte g p (3 * i), green = get_byte g p (3 * i + 1), red = get_byte g p (3 * i + 2)\<rparr>"

definition put_pixel :: "gpu \<Rightarrow> pixel_ptr \<Rightarrow> nat \<Rightarrow> pixel \<Rightarrow> gpu" where
  "put_pixel g p i c = put_byte (put_byte (put_byte g p (3 * i) (blue c)) p (3 * i + 1) (green c)) p (3 * i + 2) (red c)"

definition field16 :: "gpu \<Rightarrow> u32 \<Rightarrow> nat \<Rightarrow> nat" where
  "field16 g cv k = unat (vmem g (unat cv + k)) + 256 * unat (vmem g (unat cv + k + 1))"

definition field32 :: "gpu \<Rightarrow> u32 \<Rightarrow> nat \<Rightarrow> u32" where
  "field32 g cv k = of_nat (field16 g cv k + 65536 * field16 g cv (k + 2))"

text \<open>The fields of a \<open>gpu_canvas\<close> at \<open>vmem + cv\<close>.\<close>

definition cv_type :: "gpu \<Rightarrow> u32 \<Rightarrow> nat" where
  "cv_type g cv = field16 g cv 0"

definition cv_w :: "gpu \<Rightarrow> u32 \<Rightarrow> nat" where
  "cv_w g cv = field16 g cv 2"

definition cv_h :: "gpu \<Rightarrow> u32 \<Rightarrow> nat" where
  "cv_h g cv = field16 g cv 4"

definition cv_x1 :: "gpu \<Rightarrow> u32 \<Rightarrow> nat" where
  "cv_x1 g cv = field16 g cv 6"

definition cv_y1 :: "gpu \<Rightarrow> u32 \<Rightarrow> nat" where
  "cv_y1 g cv = field16 g cv 8"

definition cv_w1 :: "gpu \<Rightarrow> u32 \<Rightarrow> nat" where
  "cv_w1 g cv = field16 g cv 10"

definition cv_h1 :: "gpu \<Rightarrow> u32 \<Rightarrow> nat" where
  "cv_h1 g cv = field16 g cv 12"

definition cv_sibling :: "gpu \<Rightarrow> u32 \<Rightarrow> u32" where
  "cv_sibling g cv = field32 g cv 14"

definition cv_child :: "gpu \<Rightarrow> u32 \<Rightarrow> u32" where
  "cv_child g cv = field32 g cv 18"

definition cv_texture_w :: "gpu \<Rightarrow> u32 \<Rightarrow> nat" where
  "cv_texture_w g cv = field16 g cv 18"

definition cv_texture_h :: "gpu \<Rightarrow> u32 \<Rightarrow> nat" where
  "cv_texture_h g cv = field16 g cv 20"

definition cv_texture_pixels :: "gpu \<Rightarrow> u32 \<Rightarrow> u32" where
  "cv_texture_pixels g cv = field32 g cv 22"

primrec gpu_memcpy :: "nat \<Rightarrow> nat \<Rightarrow> nat \<Rightarrow> (nat \<Rightarrow> u8) \<Rightarrow> gpu \<Rightarrow> gpu" where
  "gpu_memcpy 0 i dst src g = g"
| "gpu_memcpy (Suc k) i dst src g = gpu_memcpy k (i + 1) dst src (put_byte g (Vmem dst) i (src i))"

primrec clear_bytes :: "nat \<Rightarrow> nat \<Rightarrow> pixel_ptr \<Rightarrow> gpu \<Rightarrow> gpu" where
  "clear_bytes 0 i p g = g"
| "clear_bytes (Suc k) i p g = clear_bytes k (i + 1) p (put_byte g p i 0)"

datatype gpu_panic = No_memory | Invalid_node

definition vbuf_alloc :: "nat \<Rightarrow> gpu \<Rightarrow> gpu_panic + (pixel_ptr \<times> gpu)" where
  "vbuf_alloc n g =
    (let ret = Vbuf (vbuf_head g);
         g = g\<lparr>vbuf_head := vbuf_head g + n\<rparr>
     in if VMEM_SIZE < vbuf_head g then Inl No_memory
        else Inr (ret, clear_bytes n 0 ret g))"

text \<open>The two drawing loops; the fields of the canvas are read again in every round.\<close>

primrec draw_column :: "nat \<Rightarrow> nat \<Rightarrow> nat \<Rightarrow> u32 \<Rightarrow> nat \<Rightarrow> nat \<Rightarrow> nat \<Rightarrow> pixel_ptr \<Rightarrow> pixel_ptr \<Rightarrow> gpu \<Rightarrow> gpu" where
  "draw_column 0 j i cv W w h px loc g = g"
| "draw_column (Suc k) j i cv W w h px loc g =
    (if j < cv_h1 g cv then
       let x = cv_x1 g cv + i; y = cv_y1 g cv + j
       in draw_column k (j + 1) i cv W w h px loc
            (put_pixel g px (W * y + x) (get_pixel g loc (w * (j * h div cv_h1 g cv) + i * w div cv_w1 g cv)))
     else g)"

primrec draw_canvas :: "nat \<Rightarrow> nat \<Rightarrow> u32 \<Rightarrow> nat \<Rightarrow> nat \<Rightarrow> nat \<Rightarrow> pixel_ptr \<Rightarrow> pixel_ptr \<Rightarrow> gpu \<Rightarrow> gpu" where
  "draw_canvas 0 i cv W w h px loc g = g"
| "draw_canvas (Suc k) i cv W w h px loc g =
    (if i < cv_w1 g cv then draw_canvas k (i + 1) cv W w h px loc (draw_column 65536 0 i cv W w h px loc g) else g)"

text \<open>
  The recursion over the tree, with fuel for the depth and the length of the sibling lists: the links
  are data of the client and may form a cycle.
\<close>

fun render :: "nat \<Rightarrow> u32 \<Rightarrow> nat \<Rightarrow> pixel_ptr \<Rightarrow> gpu \<Rightarrow> (gpu_panic + gpu) option"
  and render_children :: "nat \<Rightarrow> u32 \<Rightarrow> nat \<Rightarrow> pixel_ptr \<Rightarrow> gpu \<Rightarrow> (gpu_panic + gpu) option"
where
  "render 0 cv W px g = None"
| "render (Suc n) cv W px g =
    (if cv_type g cv = 1 then
       Some (Inr (draw_canvas 65536 0 cv W (cv_texture_w g cv) (cv_texture_h g cv) px (Vmem (unat (cv_texture_pixels g cv))) g))
     else if cv_type g cv = 2 then
       let w = cv_w g cv; h = cv_h g cv
       in case vbuf_alloc (w * h * 3) g of
            Inl e \<Rightarrow> Some (Inl e)
          | Inr (loc, g) \<Rightarrow>
              (case render_children n (cv_child g cv) w loc g of
                 Some (Inr g) \<Rightarrow> Some (Inr (draw_canvas 65536 0 cv W w h px loc g))
               | r \<Rightarrow> r)
     else Some (Inl Invalid_node))"
| "render_children 0 ch W px g = None"
| "render_children (Suc n) ch W px g =
    (if ch = AM_GPU_NULL then Some (Inr g)
     else case render n ch W px g of
            Some (Inr g) \<Rightarrow> render_children n (cv_sibling g ch) W px g
          | r \<Rightarrow> r)"

definition gpu_render :: "nat \<Rightarrow> u32 \<Rightarrow> nat \<Rightarrow> gpu \<Rightarrow> (gpu_panic + gpu) option" where
  "gpu_render n root W g = render n root W (Fb 0) (g\<lparr>vbuf_head := 0\<rparr>)"

section \<open>The table of registers\<close>

datatype reg_handler =
    Uart_config | Uart_tx | Uart_rx | Timer_config | Timer_rtc | Timer_uptime
  | Input_config | Input_keybrd | Gpu_config | Gpu_fbdraw | Gpu_status | Gpu_memcpy
  | Gpu_render | Audio_config | Disk_config | Disk_status | Disk_blkio | Net_config | Fail

text \<open>The table after \<open>ioe_init\<close> has filled its gaps; reading or writing a register that is \<open>Fail\<close>
  panics.  The arguments of \<open>ioe_read\<close> are register numbers below 128.\<close>

definition lut :: "nat \<Rightarrow> reg_handler" where
  "lut reg = (case map_of [
    (1, Uart_config), (2, Uart_tx), (3, Uart_rx), (4, Timer_config), (5, Timer_rtc), (6, Timer_uptime),
    (7, Input_config), (8, Input_keybrd), (9, Gpu_config), (11, Gpu_fbdraw), (10, Gpu_status), (12, Gpu_memcpy),
    (13, Gpu_render), (14, Audio_config), (18, Disk_config), (19, Disk_status), (20, Disk_blkio), (21, Net_config)] reg of
     None \<Rightarrow> Fail | Some h \<Rightarrow> h)"

record display =
  display_w :: nat
  display_h :: nat
  framebuffer :: u32

definition gpu_init :: "mem \<Rightarrow> display" where
  "gpu_init m = \<lparr>display_w = unat (load16 m (0x4000 + 18)), display_h = unat (load16 m (0x4000 + 20)),
    framebuffer = load32 m (0x4000 + 40)\<rparr>"

record gpu_config_t =
  gpu_present :: bool
  gpu_width :: nat
  gpu_height :: nat
  gpu_vmemsz :: nat

definition gpu_config :: "display \<Rightarrow> gpu_config_t" where
  "gpu_config d = \<lparr>gpu_present = True, gpu_width = display_w d, gpu_height = display_h d, gpu_vmemsz = VMEM_SIZE\<rparr>"

record disk_config_t =
  disk_present :: bool
  disk_blksz :: nat
  disk_blkcnt :: nat

definition disk_config :: disk_config_t where
  "disk_config = \<lparr>disk_present = True, disk_blksz = 512, disk_blkcnt = 64 * 2 ^ 20 div 512\<rparr>"

text \<open>\<open>Inl\<close> is the panic of a processor other than the first.\<close>

definition ioe_init :: "u8 list \<Rightarrow> ('w, 'x) hw_scheme \<Rightarrow> nat \<Rightarrow> mem \<Rightarrow> 'w \<Rightarrow> (unit + timer \<times> display \<times> 'w) option" where
  "ioe_init ord bus cpu m w =
    (if cpu \<noteq> 0 then Some (Inl ())
     else do {
       let w = uart_init bus w;
       (t, w) \<leftarrow> timer_init ord bus w;
       Some (Inr (t, gpu_init m, w))
     })"

section \<open>Interrupt controllers\<close>

text \<open>Registers of the local controller as indices into \<open>__am_lapic\<close>, whose value is \<open>base\<close>.\<close>

abbreviation (input) "LAPIC_ID \<equiv> 0x20 div 4 :: u32"
abbreviation (input) "LAPIC_VER \<equiv> 0x30 div 4 :: u32"
abbreviation (input) "LAPIC_TPR \<equiv> 0x80 div 4 :: u32"
abbreviation (input) "LAPIC_EOI \<equiv> 0xB0 div 4 :: u32"
abbreviation (input) "LAPIC_SVR \<equiv> 0xF0 div 4 :: u32"
abbreviation (input) "LAPIC_ESR \<equiv> 0x280 div 4 :: u32"
abbreviation (input) "LAPIC_ICRLO \<equiv> 0x300 div 4 :: u32"
abbreviation (input) "LAPIC_ICRHI \<equiv> 0x310 div 4 :: u32"
abbreviation (input) "LAPIC_TIMER \<equiv> 0x320 div 4 :: u32"
abbreviation (input) "LAPIC_PCINT \<equiv> 0x340 div 4 :: u32"
abbreviation (input) "LAPIC_LINT0 \<equiv> 0x350 div 4 :: u32"
abbreviation (input) "LAPIC_LINT1 \<equiv> 0x360 div 4 :: u32"
abbreviation (input) "LAPIC_ERROR \<equiv> 0x370 div 4 :: u32"
abbreviation (input) "LAPIC_TICR \<equiv> 0x380 div 4 :: u32"
abbreviation (input) "LAPIC_TDCR \<equiv> 0x3E0 div 4 :: u32"

definition lapicw :: "('w, 'x) hw_scheme \<Rightarrow> u32 \<Rightarrow> u32 \<Rightarrow> u32 \<Rightarrow> 'w \<Rightarrow> 'w" where
  "lapicw bus base index v w = snd (ld bus (base + 4 * LAPIC_ID) (st bus (base + 4 * index) v w))"

partial_function (option) wait_delivered :: "('w, 'x) hw_scheme \<Rightarrow> u32 \<Rightarrow> 'w \<Rightarrow> 'w option" where
  "wait_delivered bus base w =
    (case ld bus (base + 4 * LAPIC_ICRLO) w of (v, w) \<Rightarrow>
       if v AND 0x1000 \<noteq> 0 then wait_delivered bus base w else Some w)"

definition percpu_initlapic :: "('w, 'x) hw_scheme \<Rightarrow> u32 \<Rightarrow> 'w \<Rightarrow> 'w option" where
  "percpu_initlapic bus base w = do {
     let w = lapicw bus base LAPIC_SVR (0x100 OR (32 + 31)) w;
     let w = lapicw bus base LAPIC_TDCR 0xB w;
     let w = lapicw bus base LAPIC_TIMER (0x20000 OR (32 + 0)) w;
     let w = lapicw bus base LAPIC_TICR 10000000 w;
     let w = lapicw bus base LAPIC_LINT0 0x10000 w;
     let w = lapicw bus base LAPIC_LINT1 0x10000 w;
     let (ver, w) = ld bus (base + 4 * LAPIC_VER) w;
     let w = (if 4 \<le> drop_bit 16 ver AND 0xFF then lapicw bus base LAPIC_PCINT 0x10000 w else w);
     let w = lapicw bus base LAPIC_ERROR (32 + 19) w;
     let w = lapicw bus base LAPIC_ESR 0 w;
     let w = lapicw bus base LAPIC_ESR 0 w;
     let w = lapicw bus base LAPIC_EOI 0 w;
     let w = lapicw bus base LAPIC_ICRHI 0 w;
     let w = lapicw bus base LAPIC_ICRLO (0x80000 OR 0x500 OR 0x8000) w;
     w \<leftarrow> wait_delivered bus base w;
     Some (lapicw bus base LAPIC_TPR 0 w)
   }"

definition am_lapic_eoi :: "('w, 'x) hw_scheme \<Rightarrow> u32 \<Rightarrow> 'w \<Rightarrow> 'w" where
  "am_lapic_eoi bus base w = (if base \<noteq> 0 then lapicw bus base LAPIC_EOI 0 w else w)"

definition startup_ipi :: "('w, 'x) hw_scheme \<Rightarrow> u32 \<Rightarrow> u32 \<Rightarrow> u32 \<Rightarrow> 'w \<Rightarrow> 'w" where
  "startup_ipi bus base apicid addr w =
    (let w = lapicw bus base LAPIC_ICRHI (push_bit 24 apicid) w
     in lapicw bus base LAPIC_ICRLO (0x600 OR drop_bit 12 addr) w)"

definition lapic_bootap :: "('w, 'x) hw_scheme \<Rightarrow> u32 \<Rightarrow> u32 \<Rightarrow> u32 \<Rightarrow> mem \<Rightarrow> 'w \<Rightarrow> mem \<times> 'w" where
  "lapic_bootap bus base apicid addr m w =
    (let w = out8 bus 0x70 0xF w;
         w = out8 bus 0x71 0x0A w;
         wrv = push_bit 4 0x40 OR 0x67;
         m = m(wrv := 0, wrv + 1 := 0);
         v = drop_bit 4 addr;
         m = m(wrv + 2 := ucast v, wrv + 3 := ucast (drop_bit 8 v));
         w = lapicw bus base LAPIC_ICRHI (push_bit 24 apicid) w;
         w = lapicw bus base LAPIC_ICRLO (0x500 OR 0x8000 OR 0x4000) w;
         w = lapicw bus base LAPIC_ICRLO (0x500 OR 0x8000) w;
         w = startup_ipi bus base apicid addr w;
         w = startup_ipi bus base apicid addr w
     in (m, w))"

abbreviation (input) IOAPIC_ADDR :: u32 where "IOAPIC_ADDR \<equiv> 0xFEC00000"

definition ioapicread :: "('w, 'x) hw_scheme \<Rightarrow> u32 \<Rightarrow> 'w \<Rightarrow> u32 \<times> 'w" where
  "ioapicread bus reg w = ld bus (IOAPIC_ADDR + 16) (st bus IOAPIC_ADDR reg w)"

definition ioapicwrite :: "('w, 'x) hw_scheme \<Rightarrow> u32 \<Rightarrow> u32 \<Rightarrow> 'w \<Rightarrow> 'w" where
  "ioapicwrite bus reg data w = st bus (IOAPIC_ADDR + 16) data (st bus IOAPIC_ADDR reg w)"

primrec ioapic_init_loop :: "('w, 'x) hw_scheme \<Rightarrow> nat \<Rightarrow> u32 \<Rightarrow> 'w \<Rightarrow> 'w" where
  "ioapic_init_loop bus 0 i w = w"
| "ioapic_init_loop bus (Suc k) i w =
    ioapic_init_loop bus k (i + 1)
      (ioapicwrite bus (0x10 + 2 * i + 1) 0 (ioapicwrite bus (0x10 + 2 * i) (0x10000 OR (32 + i)) w))"

definition ioapic_init :: "('w, 'x) hw_scheme \<Rightarrow> 'w \<Rightarrow> 'w" where
  "ioapic_init bus w =
    (case ioapicread bus 1 w of (v, w) \<Rightarrow>
       let maxintr = drop_bit 16 v AND 0xFF in ioapic_init_loop bus (unat maxintr + 1) 0 w)"

definition ioapic_enable :: "('w, 'x) hw_scheme \<Rightarrow> u32 \<Rightarrow> u32 \<Rightarrow> 'w \<Rightarrow> 'w" where
  "ioapic_enable bus irq cpunum w =
    ioapicwrite bus (0x10 + 2 * irq + 1) (push_bit 24 cpunum) (ioapicwrite bus (0x10 + 2 * irq) (32 + irq) w)"

text \<open>\<open>__am_percpu_initirq\<close> of cte.c: the keyboard and the serial line are routed to the first processor and
  the interrupt descriptor table at \<open>idt\<close> is loaded.\<close>

record idt_register =
  idtr_size :: u16
  idtr_base :: u32

definition percpu_initirq :: "('w, 'x) hw_scheme \<Rightarrow> u32 \<Rightarrow> 'w \<Rightarrow> idt_register \<times> 'w" where
  "percpu_initirq bus idt w =
    (let w = ioapic_enable bus 1 0 w;
         w = ioapic_enable bus 4 0 w
     in (\<lparr>idtr_size = of_nat (256 * 8), idtr_base = idt\<rparr>, w))"

section \<open>Drawing\<close>

lemma draw_row_eq:
  "draw_row k px i pixels fb q = (if px \<le> q \<and> q < px + int k then pixel_of (pixels (i + (q - px))) else fb q)"
  by (induction k arbitrary: px i fb) (auto simp: algebra_simps)

lemma row_index:
  fixes W :: int
  assumes "0 \<le> x" "x + len \<le> W" "0 \<le> x'" "x' < W"
  shows "x + r * W \<le> x' + y' * W \<and> x' + y' * W < x + r * W + len \<longleftrightarrow> y' = r \<and> x \<le> x' \<and> x' < x + len"
proof (cases y' r rule: linorder_cases)
  case less
  then have "(y' + 1) * W \<le> r * W" using assms by (intro mult_right_mono) auto
  then show ?thesis using assms less by (auto simp: algebra_simps)
next
  case greater
  then have "(r + 1) * W \<le> y' * W" using assms by (intro mult_right_mono) auto
  then show ?thesis using assms greater by (auto simp: algebra_simps)
qed auto

lemma draw_rows_eq:
  assumes "0 \<le> x" "x + len \<le> W" "0 < W" "0 \<le> y" "0 \<le> j" "0 < k \<longrightarrow> y + j + int k \<le> 2 ^ 31"
    "\<forall>i. j \<le> i \<and> i < j + int k \<and> y + i < H \<longrightarrow> x + (y + i) * W < 2 ^ 31"
  shows "\<exists>fb'. draw_rows k j base x y w W H len pixels fb = Some fb' \<and>
    (\<forall>x' y'. 0 \<le> x' \<longrightarrow> x' < W \<longrightarrow> fb' (x' + y' * W)
      = (if x \<le> x' \<and> x' < x + len \<and> y + j \<le> y' \<and> y' < y + j + int k \<and> y' < H
         then pixel_of (pixels (base + (y' - y - j) * w + (x' - x))) else fb (x' + y' * W)))"
  using assms(5-7)
proof (induction k arbitrary: j base fb)
  case (Suc k)
  have row: "draw_row (nat len) (x + (j + y) * W) base pixels fb (x' + y' * W)
      = (if y' = j + y \<and> x \<le> x' \<and> x' < x + len then pixel_of (pixels (base + (x' - x))) else fb (x' + y' * W))"
    if "0 \<le> x'" "x' < W" for x' y'
  proof (cases "0 \<le> len")
    case True
    then show ?thesis using row_index [OF assms(1,2) that, of "j + y" y'] by (auto simp: draw_row_eq)
  qed (use assms that in \<open>auto simp: draw_row_eq\<close>)
  define fb1 where "fb1 = (if y + j < H then draw_row (nat len) (x + (j + y) * W) base pixels fb else fb)"
  have "y + j < H \<Longrightarrow> 0 \<le> (j + y) * W \<and> x + (j + y) * W < 2 ^ 31"
    using Suc.prems(1) Suc.prems(3) [rule_format, of j] assms(3,4) by (simp add: algebra_simps)
  then have "y + j < H \<Longrightarrow> i32 ((j + y) * W) = Some ((j + y) * W) \<and> i32 (x + (j + y) * W) = Some (x + (j + y) * W)"
    using assms(1) by (simp add: i32_Some)
  moreover have "i32 (y + j) = Some (y + j)" "i32 (j + y) = Some (j + y)"
    using Suc.prems(1,2) assms(4) by (simp_all add: i32_Some)
  ultimately have step: "draw_rows (Suc k) j base x y w W H len pixels fb = draw_rows k (j + 1) (base + w) x y w W H len pixels fb1"
    by (cases "y + j < H") (simp_all add: fb1_def)
  obtain fb' where fb': "draw_rows k (j + 1) (base + w) x y w W H len pixels fb1 = Some fb'"
    "\<And>x' y'. 0 \<le> x' \<Longrightarrow> x' < W \<Longrightarrow> fb' (x' + y' * W)
      = (if x \<le> x' \<and> x' < x + len \<and> y + (j + 1) \<le> y' \<and> y' < y + (j + 1) + int k \<and> y' < H
         then pixel_of (pixels (base + w + (y' - y - (j + 1)) * w + (x' - x))) else fb1 (x' + y' * W))"
    using Suc.IH [of "j + 1" "base + w" fb1] Suc.prems by auto
  have "fb' (x' + y' * W)
      = (if x \<le> x' \<and> x' < x + len \<and> y + j \<le> y' \<and> y' < y + j + int (Suc k) \<and> y' < H
         then pixel_of (pixels (base + (y' - y - j) * w + (x' - x))) else fb (x' + y' * W))"
    if "0 \<le> x'" "x' < W" for x' y'
    unfolding fb'(2) [OF that] fb1_def
    by (cases "y + j < H"; simp only: if_True if_False row [OF that]; auto simp: algebra_simps)
  with fb'(1) step show ?case by simp
qed auto

text \<open>Where the arithmetic of the rows overflows, the result is not defined.\<close>

lemma draw_rows_undefined:
  assumes "0 \<le> x" "0 \<le> y" "0 < W"
  shows "0 \<le> j \<Longrightarrow> j \<le> i \<Longrightarrow> i < j + int k \<Longrightarrow> 2 ^ 31 \<le> y + i \<or> y + i < H \<and> 2 ^ 31 \<le> x + (y + i) * W \<Longrightarrow>
    draw_rows k j base x y w W H len pixels fb = None"
proof (induction k arbitrary: j base fb)
  case (Suc k)
  show ?case
  proof (cases "i = j")
    case True
    have "i32 (y + j) = None \<or> y + j < H \<and> 2 ^ 31 \<le> x + (j + y) * W"
      using Suc.prems(4) True i32_overflow [of "y + j"] by (auto simp: add.commute)
    then show ?thesis
    proof
      assume o: "y + j < H \<and> 2 ^ 31 \<le> x + (j + y) * W"
      have inner: "i32 (j + y) \<bind> (\<lambda>r. i32 (r * W) \<bind> (\<lambda>m. i32 (x + m) \<bind>
          (\<lambda>px. Some (draw_row (nat len) px base pixels fb)))) = None"
        by (rule i32_bind_None, rule i32_bind_None) (simp only: i32_overflow [OF o [THEN conjunct2]] bind.bind_lzero)
      show ?thesis unfolding draw_rows.simps
        by (rule i32_bind_None) (simp only: o [THEN conjunct1] inner if_True bind.bind_lzero)
    qed simp
  next
    case False
    then show ?thesis using Suc.IH [of "j + 1"] Suc.prems by (auto simp: bind_eq_None_conv)
  qed
qed simp

section \<open>The keyboard table\<close>

lemma keylut_distinct: "distinct (filter (\<lambda>k. k \<noteq> ''NONE'') (map keylut [0..<128]))"
  by code_simp

lemma keylut_unreported:
  "filter (\<lambda>k. k \<notin> set (map keylut [0..<128])) AM_KEYS
    = [''LALT'', ''RCTRL'', ''UP'', ''DOWN'', ''LEFT'', ''RIGHT'', ''PAGEUP'', ''PAGEDOWN'']"
  by code_simp

lemma inj_on_filter_map:
  assumes "distinct (filter P (map f xs))" "x \<in> set xs" "y \<in> set xs" "P (f x)" "f x = f y"
  shows "x = y"
proof -
  have "distinct (map f (filter (P \<circ> f) xs))" using assms(1) by (simp add: filter_map)
  then have "inj_on f (set (filter (P \<circ> f) xs))" by (simp add: distinct_map)
  then show ?thesis using assms(2-5) by (auto dest: inj_onD)
qed

section \<open>The clock\<close>

text \<open>The real-time clock counts seconds and shows them, and what follows from them, as the date.  One
  register access takes less than a second; the two digits of a field are coded in four bits each.\<close>

definition bcd :: "int \<Rightarrow> u8" where
  "bcd n = word_of_int (16 * (n div 10) + n mod 10)"

definition rtc_field :: "u8 \<Rightarrow> rtc \<Rightarrow> int" where
  "rtc_field reg d =
    (if reg = 0 then rtc_second d else if reg = 2 then rtc_minute d else if reg = 4 then rtc_hour d
     else if reg = 7 then rtc_day d else if reg = 8 then rtc_month d else rtc_year d - 2000)"

definition calendar :: "(nat \<Rightarrow> rtc) \<Rightarrow> bool" where
  "calendar date \<longleftrightarrow> (\<forall>t. rtc_second (date t) = int (t mod 60)
     \<and> (\<forall>reg \<in> {0, 2, 4, 7, 8, 9}. 0 \<le> rtc_field reg (date t) \<and> rtc_field reg (date t) < 100))"

definition cmos_ok :: "('w, 'x) hw_scheme \<Rightarrow> ('w \<Rightarrow> nat) \<Rightarrow> (nat \<Rightarrow> rtc) \<Rightarrow> bool" where
  "cmos_ok bus clock date \<longleftrightarrow> calendar date \<and>
    (\<forall>w. \<forall>reg \<in> {0, 2, 4, 7, 8, 9}.
       let w1 = out8 bus 0x70 reg w; (v, w2) = in8 bus 0x71 w1
       in clock w \<le> clock w1 \<and> clock w1 \<le> clock w2 \<and> clock w2 \<le> clock w + 1
         \<and> v = bcd (rtc_field reg (date (clock w1))))"

text \<open>One round of \<open>timer_rtc\<close>, and a round in which no second passes.\<close>

definition rtc_round :: "u8 list \<Rightarrow> ('w, 'x) hw_scheme \<Rightarrow> 'w \<Rightarrow> 'w" where
  "rtc_round ord bus w = snd (read_rtc bus 0 (snd (read_rtc_async ord bus w)))"

definition quiet :: "u8 list \<Rightarrow> ('w, 'x) hw_scheme \<Rightarrow> ('w \<Rightarrow> nat) \<Rightarrow> 'w \<Rightarrow> bool" where
  "quiet ord bus clock w \<longleftrightarrow> clock (rtc_round ord bus w) = clock w"

text \<open>The registers read from the seconds on, and a date that agrees with another one on some of them.\<close>

definition from_seconds :: "u8 list \<Rightarrow> u8 set" where
  "from_seconds ord = set (dropWhile (\<lambda>reg. reg \<noteq> 0) ord)"

definition same_fields :: "u8 set \<Rightarrow> rtc \<Rightarrow> rtc \<Rightarrow> bool" where
  "same_fields regs d d' \<longleftrightarrow> (\<forall>reg \<in> regs. rtc_field reg d = rtc_field reg d')"

lemma same_fields_all: "same_fields {0, 2, 4, 7, 8, 9} d d' \<longleftrightarrow> d = d'"
  by (auto simp: same_fields_def rtc_field_def)

lemma from_seconds_hd: "rtc_order ord \<Longrightarrow> hd ord = 0 \<Longrightarrow> from_seconds ord = {0, 2, 4, 7, 8, 9}"
  by (cases ord) (simp_all add: rtc_order_def from_seconds_def)

lemma from_seconds_later:
  "sorted_wrt (\<lambda>a b. T a \<le> T b) ord \<Longrightarrow> reg \<in> from_seconds ord \<Longrightarrow> (T 0 :: nat) \<le> T reg"
  unfolding from_seconds_def by (induction ord) (auto split: if_splits)

lemma bcd_decode: "0 \<le> n \<Longrightarrow> n < 100 \<Longrightarrow> uint (bcd n AND 0xf) + uint (drop_bit 4 (bcd n)) * 10 = n"
proof -
  assume n: "0 \<le> n" "n < 100"
  then have u: "uint (bcd n) = 16 * (n div 10) + n mod 10"
    unfolding bcd_def uint_word_of_int using pos_mod_bound [of 10 n] pos_mod_sign [of 10 n]
    by (intro mod_pos_pos_trivial) auto
  have "uint (bcd n AND 0xf) = uint (take_bit 4 (bcd n))"
    by (simp add: take_bit_eq_mask mask_eq_exp_minus_1)
  also have "\<dots> = uint (bcd n) mod 16"
    unfolding unsigned_take_bit_eq by (simp add: take_bit_eq_mod)
  finally have "uint (bcd n AND 0xf) = uint (bcd n) mod 16" .
  moreover have "uint (drop_bit 4 (bcd n)) = uint (bcd n) div 16"
    using arg_cong [OF unat_drop_bit [of 4 "bcd n"], of int] by (simp add: zdiv_int)
  ultimately show ?thesis using u n by simp
qed

lemma read_rtc_field:
  assumes "cmos_ok bus clock date" "reg \<in> {0, 2, 4, 7, 8, 9}"
  shows "\<exists>t w'. read_rtc bus reg w = (rtc_field reg (date t), w')
    \<and> clock w \<le> t \<and> t \<le> clock w' \<and> clock w' \<le> clock w + 1"
proof -
  let ?w1 = "out8 bus 0x70 reg w"
  obtain v w2 where v: "in8 bus 0x71 ?w1 = (v, w2)" by (cases "in8 bus 0x71 ?w1")
  have c: "clock w \<le> clock ?w1 \<and> clock ?w1 \<le> clock w2 \<and> clock w2 \<le> clock w + 1 \<and> v = bcd (rtc_field reg (date (clock ?w1)))"
    using assms(1) [unfolded cmos_ok_def Let_def, THEN conjunct2, rule_format, OF assms(2), of w] by (simp add: v)
  moreover have "0 \<le> rtc_field reg (date t)" "rtc_field reg (date t) < 100" for t
    using assms by (auto simp: cmos_ok_def calendar_def)
  ultimately have "read_rtc bus reg w = (rtc_field reg (date (clock ?w1)), w2)"
    using v bcd_decode by (simp add: read_rtc_def Let_def)
  then show ?thesis using c by blast
qed

lemma read_regs_times:
  assumes "cmos_ok bus clock date"
  shows "distinct regs \<Longrightarrow> set regs \<subseteq> {0, 2, 4, 7, 8, 9} \<Longrightarrow>
    \<exists>f' T w'. read_regs bus regs f w = (f', w') \<and> sorted_wrt (\<lambda>a b. T a \<le> T b) regs
      \<and> (\<forall>reg \<in> set regs. clock w \<le> T reg \<and> T reg \<le> clock w' \<and> f' reg = rtc_field reg (date (T reg)))
      \<and> (\<forall>reg. reg \<notin> set regs \<longrightarrow> f' reg = f reg) \<and> clock w \<le> clock w' \<and> clock w' \<le> clock w + length regs"
proof (induction regs arbitrary: f w)
  case (Cons reg regs)
  obtain t w1 where 1: "read_rtc bus reg w = (rtc_field reg (date t), w1)" "clock w \<le> t" "t \<le> clock w1" "clock w1 \<le> clock w + 1"
    using read_rtc_field [OF assms, of reg w] Cons.prems(2) by auto
  have prems: "distinct regs" "set regs \<subseteq> {0, 2, 4, 7, 8, 9}" using Cons.prems by simp_all
  obtain f' T w' where 2: "read_regs bus regs (f(reg := rtc_field reg (date t))) w1 = (f', w')"
    "sorted_wrt (\<lambda>a b. T a \<le> T b) regs"
    "\<forall>r \<in> set regs. clock w1 \<le> T r \<and> T r \<le> clock w' \<and> f' r = rtc_field r (date (T r))"
    "\<forall>r. r \<notin> set regs \<longrightarrow> f' r = (f(reg := rtc_field reg (date t))) r"
    "clock w1 \<le> clock w'" "clock w' \<le> clock w1 + length regs"
    using Cons.IH [OF prems, of "f(reg := rtc_field reg (date t))" w1] by blast
  have n: "reg \<notin> set regs" using Cons.prems(1) by simp
  have "sorted_wrt (\<lambda>a b. (T(reg := t)) a \<le> (T(reg := t)) b) regs"
    using 2(2) n by (auto simp: sorted_wrt_iff_nth_less)
  then have "sorted_wrt (\<lambda>a b. (T(reg := t)) a \<le> (T(reg := t)) b) (reg # regs)"
    using 2(3) 1(3) n by auto
  then show ?case
    using 1 2 n by (intro exI [of _ f'] exI [of _ "T(reg := t)"] exI [of _ w']) auto
qed auto

text \<open>One round: if the seconds are the same again, the fields read from the seconds on belong together.\<close>

lemma rtc_round_result:
  assumes "cmos_ok bus clock date" "rtc_order ord"
  shows "\<exists>d w1 tmp w2. read_rtc_async ord bus w = (d, w1) \<and> read_rtc bus 0 w1 = (tmp, w2) \<and> clock w \<le> clock w2
    \<and> (tmp = rtc_second d \<longrightarrow> (\<exists>t. clock w \<le> t \<and> t \<le> clock w2 \<and> same_fields (from_seconds ord) d (date t)))
    \<and> (quiet ord bus clock w \<longrightarrow> tmp = rtc_second d)"
proof -
  have ord: "distinct ord" "set ord = {0, 2, 4, 7, 8, 9}" using assms(2) by (simp_all add: rtc_order_def)
  obtain f T w1 where f: "read_regs bus ord (\<lambda>reg. 0) w = (f, w1)" "sorted_wrt (\<lambda>a b. T a \<le> T b) ord"
    "\<forall>reg \<in> set ord. clock w \<le> T reg \<and> T reg \<le> clock w1 \<and> f reg = rtc_field reg (date (T reg))"
    "clock w \<le> clock w1" "clock w1 \<le> clock w + length ord"
    using read_regs_times [OF assms(1) ord(1), of "\<lambda>reg. 0" w] ord(2) by auto
  obtain t' w2 where l: "read_rtc bus 0 w1 = (rtc_field 0 (date t'), w2)" "clock w1 \<le> t'" "t' \<le> clock w2" "clock w2 \<le> clock w1 + 1"
    using read_rtc_field [OF assms(1), of 0 w1] by blast
  define d where "d = \<lparr>rtc_year = f 9 + 2000, rtc_month = f 8, rtc_day = f 7, rtc_hour = f 4, rtc_minute = f 2, rtc_second = f 0\<rparr>"
  have a: "read_rtc_async ord bus w = (d, w1)" by (simp add: read_rtc_async_def f(1) d_def)
  have df: "rtc_field reg d = f reg" if "reg \<in> set ord" for reg
    using that ord(2) by (auto simp: rtc_field_def d_def)
  have sec: "rtc_field 0 (date t) = int (t mod 60)" for t
    using assms by (simp add: cmos_ok_def calendar_def rtc_field_def)
  have d0: "rtc_second d = int (T 0 mod 60)" using f(3) ord(2) by (simp add: d_def sec)
  have len: "length ord = 6" using distinct_card [OF ord(1)] ord(2) by simp
  have le: "clock w \<le> T 0" "T 0 \<le> t'" "t' \<le> T 0 + 7" "t' \<le> clock w2"
    using f(3-5) l ord(2) len by fastforce+
  have "\<exists>t. clock w \<le> t \<and> t \<le> clock w2 \<and> same_fields (from_seconds ord) d (date t)" if "rtc_field 0 (date t') = rtc_second d"
  proof -
    have "t' mod 60 = T 0 mod 60" using that by (simp add: d0 sec)
    then obtain k where "t' - T 0 = 60 * k" using le mod_eq_dvd_iff_nat [of "T 0" t' 60] by (auto simp: dvd_def)
    then have eq: "t' = T 0" using le by (cases k) auto
    have "rtc_field reg d = rtc_field reg (date (T 0))" if r: "reg \<in> from_seconds ord" for reg
    proof -
      have m: "reg \<in> set ord" using r set_dropWhileD unfolding from_seconds_def by fastforce
      have "T 0 \<le> T reg" by (rule from_seconds_later [OF f(2) r])
      moreover have "T reg \<le> t'" using f(3) m l(2) by fastforce
      ultimately have "T reg = T 0" using eq by simp
      then show ?thesis using df [OF m] f(3) m by simp
    qed
    then show ?thesis using le by (intro exI [of _ "T 0"]) (auto simp: same_fields_def)
  qed
  moreover have "rtc_field 0 (date t') = rtc_second d" if "quiet ord bus clock w"
  proof -
    have "clock w2 = clock w" using that by (simp add: quiet_def rtc_round_def a l(1))
    then have "t' = T 0" using le by linarith
    then show ?thesis by (simp add: d0 sec)
  qed
  moreover have "clock w \<le> clock w2" using f(4) l by linarith
  ultimately show ?thesis using a l(1) by blast
qed

lemma timer_rtc_effect:
  assumes "cmos_ok bus clock date" "rtc_order ord" "quiet ord bus clock ((rtc_round ord bus ^^ n) w)"
  shows "\<exists>d w'. timer_rtc ord bus w = Some (d, w')
    \<and> (\<exists>t. clock w \<le> t \<and> t \<le> clock w' \<and> same_fields (from_seconds ord) d (date t))"
  using assms(3)
proof (induction n arbitrary: w)
  case 0
  obtain d w1 tmp w2 where r: "read_rtc_async ord bus w = (d, w1)" "read_rtc bus 0 w1 = (tmp, w2)"
      "tmp = rtc_second d \<longrightarrow> (\<exists>t. clock w \<le> t \<and> t \<le> clock w2 \<and> same_fields (from_seconds ord) d (date t))"
      "quiet ord bus clock w \<longrightarrow> tmp = rtc_second d"
    using rtc_round_result [OF assms(1,2), of w] by blast
  then show ?case using 0 by (subst timer_rtc.simps) auto
next
  case (Suc n)
  obtain d w1 tmp w2 where r: "read_rtc_async ord bus w = (d, w1)" "read_rtc bus 0 w1 = (tmp, w2)" "clock w \<le> clock w2"
      "tmp = rtc_second d \<longrightarrow> (\<exists>t. clock w \<le> t \<and> t \<le> clock w2 \<and> same_fields (from_seconds ord) d (date t))"
    using rtc_round_result [OF assms(1,2), of w] by blast
  show ?case
  proof (cases "tmp = rtc_second d")
    case True
    then show ?thesis using r by (subst timer_rtc.simps) auto
  next
    case False
    have "rtc_round ord bus w = w2" by (simp add: rtc_round_def r)
    then obtain d' w' t where "timer_rtc ord bus w2 = Some (d', w')" "clock w2 \<le> t" "t \<le> clock w'"
        "same_fields (from_seconds ord) d' (date t)"
      using Suc.IH [of w2] Suc.prems by (auto simp: funpow_swap1)
    moreover have "timer_rtc ord bus w = timer_rtc ord bus w2"
      using False r by (subst timer_rtc.simps) simp
    ultimately show ?thesis using r(3) by (intro exI [of _ d'] exI [of _ w'] conjI exI [of _ t]) auto
  qed
qed


section \<open>The time stamp counter\<close>

text \<open>With \<open>F\<close> ticks per second: the estimate counts in units of \<open>2^20\<close> ticks, not in millions.\<close>

lemma freq_of_exact:
  assumes "tsc2 - tsc1 = of_nat (F * dt)" "t2 - t1 = of_nat dt" "0 < dt" "0 < F" "F * dt < 2 ^ 64" "F div 2 ^ 20 < 2 ^ 32"
  shows "unat (freq_of tsc1 tsc2 t1 t2) = F div 2 ^ 20"
proof -
  have "dt \<le> F * dt" using assms(4) by simp
  then have dt: "dt < 2 ^ 64" using assms(5) by (rule le_less_trans)
  have u: "unat (of_nat n :: u64) = n" if "n < 2 ^ 64" for n
    using that by (simp add: unat_of_nat)
  have "unat (drop_bit 20 (tsc2 - tsc1) div (t2 - t1)) = F * dt div 2 ^ 20 div dt"
    unfolding assms(1,2) by (simp only: unat_div unat_drop_bit u [OF assms(5)] u [OF dt])
  also have "\<dots> = F div 2 ^ 20"
    using assms(3) by (simp add: div_mult2_eq [symmetric])
  finally have "unat (freq_of tsc1 tsc2 t1 t2) = F div 2 ^ 20 mod 2 ^ 32"
    unfolding freq_of_def unat_ucast_mod by simp
  then show ?thesis using assms(6) by simp
qed

lemma uptime_value:
  assumes "rdtsc bus w = (tsc, w')" "freq_mhz t \<noteq> 0" "tsc - uptsc t = of_nat n" "n < 2 ^ 64"
  shows "\<exists>us. timer_uptime bus t w = Some (us, w') \<and> unat us = n div unat (freq_mhz t)"
  using assms by (simp add: timer_uptime_def unat_div unat_of_nat)

section \<open>The I/O interrupt controller\<close>

text \<open>Its registers are reached through an index register and a data window.  \<open>R w sel f\<close>: index
  \<open>sel\<close>, contents \<open>f\<close>.  Only the table of redirection entries, two registers for each input of which the
  version register shows the number, is known to store what is written to it.\<close>

definition ioapic_inputs :: "(u32 \<Rightarrow> u32) \<Rightarrow> nat" where
  "ioapic_inputs f = unat (drop_bit 16 (f 1) AND 0xFF) + 1"

definition ioapic_ok :: "('w, 'x) hw_scheme \<Rightarrow> ('w \<Rightarrow> u32 \<Rightarrow> (u32 \<Rightarrow> u32) \<Rightarrow> bool) \<Rightarrow> bool" where
  "ioapic_ok bus R \<longleftrightarrow> (\<forall>w sel f. R w sel f \<longrightarrow>
     (\<forall>i. R (st bus IOAPIC_ADDR i w) i f)
     \<and> (\<forall>v. 16 \<le> unat sel \<and> unat sel < 16 + 2 * ioapic_inputs f \<longrightarrow> R (st bus (IOAPIC_ADDR + 16) v w) sel (f(sel := v)))
     \<and> fst (ld bus (IOAPIC_ADDR + 16) w) = f sel \<and> R (snd (ld bus (IOAPIC_ADDR + 16) w)) sel f)"

lemma ioapicwrite_effect:
  "ioapic_ok bus R \<Longrightarrow> R w sel f \<Longrightarrow> 16 \<le> unat reg \<Longrightarrow> unat reg < 16 + 2 * ioapic_inputs f \<Longrightarrow>
    R (ioapicwrite bus reg v w) reg (f(reg := v))"
  unfolding ioapic_ok_def ioapicwrite_def by blast

lemma ioapicread_effect:
  "ioapic_ok bus R \<Longrightarrow> R w sel f \<Longrightarrow> fst (ioapicread bus reg w) = f reg \<and> R (snd (ioapicread bus reg w)) reg f"
  unfolding ioapic_ok_def ioapicread_def by blast

definition masked_table :: "nat \<Rightarrow> nat \<Rightarrow> (u32 \<Rightarrow> u32) \<Rightarrow> u32 \<Rightarrow> u32" where
  "masked_table i n f r =
    (if 16 + 2 * i \<le> unat r \<and> unat r < 16 + 2 * (i + n) then
       if even (unat r) then 0x10000 OR (32 + of_nat ((unat r - 16) div 2)) else 0
     else f r)"

lemma ioapic_inputs_upd [simp]: "16 \<le> unat r \<Longrightarrow> ioapic_inputs (f(r := v)) = ioapic_inputs f"
  by (auto simp: ioapic_inputs_def)

lemma ioapic_inputs_le: "ioapic_inputs f \<le> 256"
proof -
  have "drop_bit 16 (f 1) AND 0xFF = take_bit 8 (drop_bit 16 (f 1))"
    by (simp add: take_bit_eq_mask mask_eq_exp_minus_1)
  then have "unat (drop_bit 16 (f 1) AND 0xFF) < 256"
    by (simp only: unsigned_take_bit_eq) (simp add: take_bit_eq_mod)
  then show ?thesis by (simp add: ioapic_inputs_def)
qed

lemma unat_table_reg: "i < 256 \<Longrightarrow> unat (0x10 + 2 * of_nat i :: u32) = 16 + 2 * i \<and> unat (0x10 + 2 * of_nat i + 1 :: u32) = 17 + 2 * i"
  using unat_of_nat_u32 [of "16 + 2 * i"] unat_of_nat_u32 [of "17 + 2 * i"] by (simp add: algebra_simps)

lemma ioapic_entry_effect:
  assumes "ioapic_ok bus R" "R w sel f" "i < ioapic_inputs f"
  shows "R (ioapicwrite bus (0x10 + 2 * of_nat i + 1) v (ioapicwrite bus (0x10 + 2 * of_nat i) u w)) (0x10 + 2 * of_nat i + 1)
    (f(0x10 + 2 * of_nat i := u, 0x10 + 2 * of_nat i + 1 := v))"
proof -
  have r: "unat (0x10 + 2 * of_nat i :: u32) = 16 + 2 * i" "unat (0x10 + 2 * of_nat i + 1 :: u32) = 17 + 2 * i"
    using unat_table_reg [of i] assms(3) ioapic_inputs_le [of f] by auto
  have "R (ioapicwrite bus (0x10 + 2 * of_nat i) u w) (0x10 + 2 * of_nat i) (f(0x10 + 2 * of_nat i := u))"
    by (rule ioapicwrite_effect [where R = R, OF assms(1,2)]) (use r assms(3) in simp_all)
  then show ?thesis
    by (rule ioapicwrite_effect [where R = R, OF assms(1)]) (use r assms(3) in simp_all)
qed

lemma ioapic_init_loop_effect:
  assumes "ioapic_ok bus R"
  shows "R w sel f \<Longrightarrow> i + n \<le> ioapic_inputs f \<Longrightarrow> \<exists>sel'. R (ioapic_init_loop bus n (of_nat i) w) sel' (masked_table i n f)"
proof (induction n arbitrary: w sel f i)
  case 0
  have "masked_table i 0 f = f" by (auto simp: masked_table_def fun_eq_iff)
  then show ?case using 0 by auto
next
  case (Suc n)
  define r :: u32 where "r = 0x10 + 2 * of_nat i"
  let ?f = "(f(r := 0x10000 OR (32 + of_nat i)))(r + 1 := 0)"
  define w' where "w' = ioapicwrite bus (r + 1) 0 (ioapicwrite bus r (0x10000 OR (32 + of_nat i)) w)"
  have u: "unat r = 16 + 2 * i" "unat (r + 1) = 17 + 2 * i"
    using unat_table_reg [of i] Suc.prems(2) ioapic_inputs_le [of f] by (auto simp: r_def)
  have eff: "R w' (r + 1) ?f"
    using ioapic_entry_effect [where R = R, OF assms Suc.prems(1), of i] Suc.prems(2) by (simp add: w'_def r_def)
  moreover have "i + 1 + n \<le> ioapic_inputs ?f" using Suc.prems(2) u by simp
  ultimately have "\<exists>sel'. R (ioapic_init_loop bus n (of_nat (i + 1)) w') sel' (masked_table (i + 1) n ?f)"
    by (rule Suc.IH)
  then obtain sel' where "R (ioapic_init_loop bus n (of_nat (i + 1)) w') sel' (masked_table (i + 1) n ?f)" ..
  moreover have "masked_table (i + 1) n ?f = masked_table i (Suc n) f"
    using u by (auto simp: masked_table_def fun_eq_iff word_unat_eq_iff)
  ultimately show ?case by (auto simp: w'_def r_def algebra_simps)
qed

lemma percpu_initirq_effect:
  assumes "ioapic_ok bus R" "R w sel f" "5 \<le> ioapic_inputs f"
  shows "\<exists>sel'. R (snd (percpu_initirq bus idt w)) sel' (f(0x12 := 33, 0x13 := 0, 0x18 := 36, 0x19 := 0))"
proof -
  have "R (ioapic_enable bus 1 0 w) 0x13 (f(0x12 := 33, 0x13 := 0))"
    using ioapic_entry_effect [where R = R, OF assms(1,2), of 1] assms(3) by (simp add: ioapic_enable_def)
  then have "R (ioapic_enable bus 4 0 (ioapic_enable bus 1 0 w)) 0x19 (f(0x12 := 33, 0x13 := 0, 0x18 := 36, 0x19 := 0))"
    using ioapic_entry_effect [where R = R, OF assms(1), of _ _ _ 4] assms(3) by (simp add: ioapic_enable_def)
  then show ?thesis by (auto simp: percpu_initirq_def Let_def)
qed

section \<open>Devices\<close>

text \<open>A clock at the turn of a year whose port accesses take a twenty-eighth of a second each, an interrupt controller with 24
  inputs and a counter that the next reading adds a second of a one-gigahertz machine to, for the witnesses.\<close>

definition demo_date :: "nat \<Rightarrow> rtc" where
  "demo_date t =
    (if t < 60 then \<lparr>rtc_year = 2023, rtc_month = 12, rtc_day = 31, rtc_hour = 23, rtc_minute = 59, rtc_second = int t\<rparr>
     else \<lparr>rtc_year = 2024, rtc_month = 1, rtc_day = 1, rtc_hour = int ((t - 60) div 3600 mod 24),
       rtc_minute = int ((t - 60) div 60 mod 60), rtc_second = int (t mod 60)\<rparr>)"

definition demo_clock :: "u8 \<times> nat \<Rightarrow> nat" where
  "demo_clock w = snd w div 28"

definition demo_cmos :: "(u8 \<times> nat) hw" where
  "demo_cmos = \<lparr>
     in8 = (\<lambda>p (r, n). (bcd (rtc_field r (demo_date (n div 28))), (r, n + 1))),
     out8 = (\<lambda>p v (r, n). (v, n + 1)),
     in32 = (\<lambda>p w. (0, w)), out32 = (\<lambda>p v w. w), ld = (\<lambda>a w. (0, w)), st = (\<lambda>a v w. w), rdtsc = (\<lambda>w. (0, w))\<rparr>"

lemma demo_calendar: "calendar demo_date"
proof -
  have b: "x mod 60 < 100" "x mod 24 < 100" for x :: nat
    using mod_less_divisor [of 60 x] mod_less_divisor [of 24 x] by linarith+
  have "rtc_second (demo_date t) = int (t mod 60)" for t
    by (simp add: demo_date_def)
  moreover have "0 \<le> rtc_field reg (demo_date t) \<and> rtc_field reg (demo_date t) < 100" if "reg \<in> {0, 2, 4, 7, 8, 9}" for reg t
    using that b(1) [of t] b(1) [of "(t - 60) div 60"] b(2) [of "(t - 60) div 3600"]
    by (auto simp: demo_date_def rtc_field_def)
  ultimately show ?thesis by (simp add: calendar_def)
qed

lemma demo_cmos_ok: "cmos_ok demo_cmos demo_clock demo_date"
proof -
  have "n div 28 \<le> Suc n div 28" "Suc n div 28 \<le> Suc (Suc n) div 28" "Suc (Suc n) div 28 \<le> Suc (n div 28)" for n :: nat
    by (simp_all add: div_le_mono)
  then show ?thesis unfolding cmos_ok_def
    using demo_calendar by (auto simp: demo_cmos_def demo_clock_def)
qed

lemma demo_read:
  "reg \<in> {0, 2, 4, 7, 8, 9} \<Longrightarrow>
    read_rtc demo_cmos reg w = (rtc_field reg (demo_date (Suc (snd w) div 28)), (reg, snd w + 2))"
  using demo_calendar bcd_decode [of "rtc_field reg (demo_date (Suc (snd w) div 28))"]
  unfolding calendar_def by (cases w) (auto simp: read_rtc_def demo_cmos_def Let_def simp del: insert_iff)

lemma demo_read_regs:
  "set regs \<subseteq> {0, 2, 4, 7, 8, 9} \<Longrightarrow> snd w div 28 = t \<Longrightarrow> (snd w + 2 * length regs) div 28 = t \<Longrightarrow>
    \<exists>r. read_regs demo_cmos regs f w
      = (\<lambda>reg. if reg \<in> set regs then rtc_field reg (demo_date t) else f reg, (r, snd w + 2 * length regs))"
proof (induction regs arbitrary: f w)
  case Nil
  show ?case by (cases w) auto
next
  case (Cons reg regs)
  have le: "snd w div 28 \<le> Suc (snd w) div 28" "Suc (snd w) div 28 \<le> (snd w + 2) div 28"
    "(snd w + 2) div 28 \<le> (snd w + 2 * length (reg # regs)) div 28"
    by (intro div_le_mono; simp)+
  have len: "(snd w + 2 + 2 * length regs) div 28 = t" using Cons.prems(3) by simp
  have sub: "set regs \<subseteq> {0, 2, 4, 7, 8, 9}" using Cons.prems(1) by simp
  have t: "Suc (snd w) div 28 = t" "(snd w + 2) div 28 = t" using Cons.prems(2,3) le by linarith+
  obtain r where "read_regs demo_cmos regs (f(reg := rtc_field reg (demo_date t))) (reg, snd w + 2)
      = (\<lambda>i. if i \<in> set regs then rtc_field i (demo_date t) else (f(reg := rtc_field reg (demo_date t))) i,
         (r, snd w + 2 + 2 * length regs))"
    using Cons.IH [of "(reg, snd w + 2)" "f(reg := rtc_field reg (demo_date t))", OF sub, unfolded snd_conv, OF t(2) len] by blast
  moreover have "read_rtc demo_cmos reg w = (rtc_field reg (demo_date t), (reg, snd w + 2))"
    using demo_read [of reg w] Cons.prems(1) t(1) by (simp del: insert_iff)
  ultimately show ?case by (auto simp: fun_eq_iff)
qed

lemma demo_regs_time: "set regs \<subseteq> {0, 2, 4, 7, 8, 9} \<Longrightarrow> snd (snd (read_regs demo_cmos regs f w)) = snd w + 2 * length regs"
  by (induction regs arbitrary: f w) (auto simp: demo_read simp del: insert_iff)

lemma rtc_order_length: "rtc_order ord \<Longrightarrow> length ord = 6"
  using distinct_card [of ord] by (simp add: rtc_order_def)

lemma demo_round: "rtc_order ord \<Longrightarrow> snd (rtc_round ord demo_cmos w) = snd w + 14"
  using demo_regs_time [of ord "\<lambda>reg. 0" w] rtc_order_length [of ord]
  by (auto simp: rtc_round_def read_rtc_async_def demo_read rtc_order_def split: prod.splits)

lemma demo_quiet:
  "rtc_order ord \<Longrightarrow> quiet ord demo_cmos demo_clock ((rtc_round ord demo_cmos ^^ (if n mod 28 < 14 then 0 else 1)) (r, n))"
proof -
  have "(n + 14) div 28 = n div 28" if "n mod 28 < 14"
    using that div_mult_mod_eq [of n 28] div_nat_eqI [of "n div 28" "n + 14" 28] by linarith
  moreover have "(n + 14) div 28 = n div 28 + 1" if "\<not> n mod 28 < 14"
  proof -
    define q r where "q = n div 28" and "r = n mod 28"
    have "n = 28 * q + r" "r < 28" "14 \<le> r" using that by (simp_all add: q_def r_def)
    then have "(n + 14) div 28 = q + 1" by (intro div_nat_eqI) simp_all
    then show ?thesis by (simp add: q_def)
  qed
  moreover have "(28 + n) div 28 = n div 28 + 1" by (rule div_add_self1) simp
  moreover assume "rtc_order ord"
  ultimately show ?thesis by (simp add: quiet_def demo_clock_def demo_round)
qed

text \<open>At the turn of the year, a field read before the seconds is still the old one.\<close>

lemma demo_torn:
  assumes "rtc_order ord" "hd ord \<noteq> 0"
  shows "\<exists>d w'. timer_rtc ord demo_cmos (0, 1678) = Some (d, w')
    \<and> \<not> (\<exists>t. demo_clock (0, 1678) \<le> t \<and> t \<le> demo_clock w' \<and> d = demo_date t)"
proof -
  obtain reg regs where ord: "ord = reg # regs" using rtc_order_length [OF assms(1)] by (cases ord) auto
  have s: "reg \<notin> set regs" "insert reg (set regs) = {0, 2, 4, 7, 8, 9}" "length regs = 5"
    using assms(1) rtc_order_length [OF assms(1)] by (simp_all add: ord rtc_order_def)
  have reg: "reg \<in> {2, 4, 7, 8, 9}" using s(2) assms(2) by (auto simp: ord)
  have sub: "set regs \<subseteq> {0, 2, 4, 7, 8, 9}" using s(2) by blast
  define f where "f = (\<lambda>i. if i \<in> set regs then rtc_field i (demo_date 60)
    else ((\<lambda>reg. 0 :: int)(reg := rtc_field reg (demo_date 59))) i)"
  obtain r where "read_regs demo_cmos regs ((\<lambda>reg. 0)(reg := rtc_field reg (demo_date 59))) (reg, 1680) = (f, (r, 1690))"
    using demo_read_regs [OF sub, of "(reg, 1680)" 60 "(\<lambda>reg. 0)(reg := rtc_field reg (demo_date 59))"] s(3) by (auto simp: f_def)
  then have regs: "read_regs demo_cmos ord (\<lambda>reg. 0) (0, 1678) = (f, (r, 1690))"
    using demo_read [of reg "(0, 1678)"] reg by (auto simp: ord)
  have f0: "f 0 = 0" using reg s(2) by (auto simp: f_def demo_date_def rtc_field_def)
  have freg: "f reg = rtc_field reg (demo_date 59)" using s(1) by (simp add: f_def)
  define d where "d = \<lparr>rtc_year = f 9 + 2000, rtc_month = f 8, rtc_day = f 7, rtc_hour = f 4, rtc_minute = f 2, rtc_second = f 0\<rparr>"
  have "timer_rtc ord demo_cmos (0, 1678) = Some (d, (0, 1692))"
    by (subst timer_rtc.simps) (simp add: read_rtc_async_def regs d_def demo_read f0 Let_def, simp add: rtc_field_def demo_date_def)
  moreover have "d \<noteq> demo_date 59" by (simp add: d_def f0 demo_date_def)
  moreover have "d \<noteq> demo_date 60"
  proof
    assume "d = demo_date 60"
    then have "rtc_field reg d = rtc_field reg (demo_date 60)" by simp
    moreover have "rtc_field reg d = f reg" using reg by (auto simp: rtc_field_def d_def)
    ultimately show False using reg freg by (auto simp: rtc_field_def demo_date_def)
  qed
  moreover have "t = 59 \<or> t = 60" if "demo_clock (0, 1678) \<le> t" "t \<le> demo_clock (0, 1692)" for t
    using that by (simp add: demo_clock_def) linarith
  ultimately show ?thesis by blast
qed

definition demo_ioapic :: "(u32 \<times> (u32 \<Rightarrow> u32)) hw" where
  "demo_ioapic = \<lparr>
     in8 = (\<lambda>p w. (0, w)), out8 = (\<lambda>p v w. w), in32 = (\<lambda>p w. (0, w)), out32 = (\<lambda>p v w. w),
     ld = (\<lambda>a (sel, f). (if a = IOAPIC_ADDR + 16 then f sel else sel, (sel, f))),
     st = (\<lambda>a v (sel, f). if a = IOAPIC_ADDR then (v, f) else if a = IOAPIC_ADDR + 16 then (sel, f(sel := v)) else (sel, f)),
     rdtsc = (\<lambda>w. (0, w))\<rparr>"

text \<open>A keyboard controller that answers with a status and a byte.\<close>

definition keyboard :: "u8 \<Rightarrow> u8 \<Rightarrow> 'w hw" where
  "keyboard s b = \<lparr>
     in8 = (\<lambda>p w. (if p = 0x64 then s else b, w)), out8 = (\<lambda>p v w. w), in32 = (\<lambda>p w. (0, w)), out32 = (\<lambda>p v w. w),
     ld = (\<lambda>a w. (0, w)), st = (\<lambda>a v w. w), rdtsc = (\<lambda>w. (0, w))\<rparr>"

lemma demo_ioapic_ok: "ioapic_ok demo_ioapic (\<lambda>w sel f. w = (sel, f))"
  by (simp add: ioapic_ok_def demo_ioapic_def)

section \<open>Properties\<close>

text \<open>C36: \<open>timer_rtc\<close> returns once no second passes in some round of register readings, whatever the order
  of the readings, which C leaves open in the initialiser of \<open>read_rtc_async\<close>.  The seconds of the date it
  returns and all fields read after them were shown at one moment of the call.  So with the seconds read first
  the whole date was the date at one moment, never mixed from before and after a change; with every order
  that reads another field first this fails: at the turn of a year a date is accepted that was not the date at
  any moment of the call.\<close>
theorem timer_rtc_consistent:
  assumes "rtc_order ord" "cmos_ok bus clock date" "\<exists>n. quiet ord bus clock ((rtc_round ord bus ^^ n) w)"
  shows "(\<exists>d w'. timer_rtc ord bus w = Some (d, w')
      \<and> (\<exists>t. clock w \<le> t \<and> t \<le> clock w' \<and> same_fields (from_seconds ord) d (date t) \<and> (hd ord = 0 \<longrightarrow> d = date t)))
    \<and> (hd ord \<noteq> 0 \<longrightarrow> (\<exists>v d v'. timer_rtc ord demo_cmos v = Some (d, v')
      \<and> \<not> (\<exists>t. demo_clock v \<le> t \<and> t \<le> demo_clock v' \<and> d = demo_date t)))"
proof
  obtain d w' t where "timer_rtc ord bus w = Some (d, w')" "clock w \<le> t" "t \<le> clock w'"
    "same_fields (from_seconds ord) d (date t)"
    using timer_rtc_effect [OF assms(2,1)] assms(3) by blast
  moreover from this(4) have "hd ord = 0 \<Longrightarrow> d = date t"
    using from_seconds_hd [OF assms(1)] same_fields_all by simp
  ultimately show "\<exists>d w'. timer_rtc ord bus w = Some (d, w')
      \<and> (\<exists>t. clock w \<le> t \<and> t \<le> clock w' \<and> same_fields (from_seconds ord) d (date t) \<and> (hd ord = 0 \<longrightarrow> d = date t))"
    by blast
  show "hd ord \<noteq> 0 \<longrightarrow> (\<exists>v d v'. timer_rtc ord demo_cmos v = Some (d, v')
      \<and> \<not> (\<exists>t. demo_clock v \<le> t \<and> t \<le> demo_clock v' \<and> d = demo_date t))"
    using demo_torn [OF assms(1)] by blast
qed

theorem timer_rtc_consistent_witness:
  "(\<exists>d w'. timer_rtc [0, 2, 4, 7, 8, 9] demo_cmos (0, 20) = Some (d, w')
      \<and> (\<exists>t. demo_clock (0, 20) \<le> t \<and> t \<le> demo_clock w' \<and> d = demo_date t))
    \<and> (\<exists>v d v'. timer_rtc [9, 8, 7, 4, 2, 0] demo_cmos v = Some (d, v')
      \<and> \<not> (\<exists>t. demo_clock v \<le> t \<and> t \<le> demo_clock v' \<and> d = demo_date t))"
proof
  have o: "rtc_order [0, 2, 4, 7, 8, 9]" "rtc_order [9, 8, 7, 4, 2, 0]" by (auto simp: rtc_order_def)
  show "\<exists>d w'. timer_rtc [0, 2, 4, 7, 8, 9] demo_cmos (0, 20) = Some (d, w')
      \<and> (\<exists>t. demo_clock (0, 20) \<le> t \<and> t \<le> demo_clock w' \<and> d = demo_date t)"
    using timer_rtc_consistent [OF o(1) demo_cmos_ok exI, OF demo_quiet [OF o(1)], of 0 20] by auto
  show "\<exists>v d v'. timer_rtc [9, 8, 7, 4, 2, 0] demo_cmos v = Some (d, v')
      \<and> \<not> (\<exists>t. demo_clock v \<le> t \<and> t \<le> demo_clock v' \<and> d = demo_date t)"
    using timer_rtc_consistent [OF o(2) demo_cmos_ok exI, OF demo_quiet [OF o(2)], of 0 20] by simp
qed

text \<open>C37: the uptime runs too fast.  On a machine whose counter makes \<open>F\<close> ticks per second, the
  calibration over \<open>dt\<close> seconds takes \<open>F div 2^20\<close> for the ticks per microsecond, and after \<open>S\<close> seconds
  \<open>timer_uptime\<close> shows at least \<open>1048576 * S\<close> microseconds, 4.8 percent more than have passed.  A counter
  slower than \<open>2^20\<close> ticks per second makes it divide by zero.\<close>
theorem timer_uptime_too_fast:
  assumes "tsc2 - tsc1 = of_nat (F * dt)" "t2 - t1 = of_nat dt" "0 < dt" "0 < F" "F * dt < 2 ^ 64" "F div 2 ^ 20 < 2 ^ 32"
    and "freq_mhz t = freq_of tsc1 tsc2 t1 t2" "rdtsc bus w = (tsc, w')" "tsc - uptsc t = of_nat (F * S)" "F * S < 2 ^ 64"
  shows "if F < 2 ^ 20 then timer_uptime bus t w = None
    else \<exists>us. timer_uptime bus t w = Some (us, w') \<and> 1048576 * S \<le> unat us"
proof -
  have f: "unat (freq_mhz t) = F div 2 ^ 20" using freq_of_exact [OF assms(1-6)] assms(7) by simp
  show ?thesis
  proof (cases "F < 2 ^ 20")
    case True
    then have "freq_mhz t = 0" using f by (simp add: unat_eq_zero)
    then show ?thesis using True assms(8) by (simp add: timer_uptime_def)
  next
    case False
    then have g: "0 < F div 2 ^ 20" by (simp add: div_greater_zero_iff)
    then have "freq_mhz t \<noteq> 0" using f by auto
    then obtain us where us: "timer_uptime bus t w = Some (us, w')" "unat us = F * S div (F div 2 ^ 20)"
      using uptime_value [OF assms(8) _ assms(9,10)] f by auto
    have "F div 2 ^ 20 * 2 ^ 20 * S \<le> F * S" by (intro mult_le_mono1 div_times_less_eq_dividend)
    then have "1048576 * S * (F div 2 ^ 20) \<le> F * S" by (simp add: algebra_simps)
    then have "1048576 * S \<le> F * S div (F div 2 ^ 20)" using g by (simp add: less_eq_div_iff_mult_less_eq)
    then show ?thesis using False us by auto
  qed
qed

theorem timer_uptime_too_fast_witness:
  "\<exists>us. timer_uptime (demo_cmos\<lparr>rdtsc := (\<lambda>w. (60000000000, w))\<rparr>)
      \<lparr>boot_date = demo_date 0, freq_mhz = freq_of 0 1000000000 7 8, uptsc = 0\<rparr> (0, 0) = Some (us, (0, 0))
    \<and> 1048576 * 60 \<le> unat us"
  using timer_uptime_too_fast [of 1000000000 0 1000000000 1 8 7 "\<lparr>boot_date = demo_date 0, freq_mhz = freq_of 0 1000000000 7 8, uptsc = 0\<rparr>"
      "demo_cmos\<lparr>rdtsc := (\<lambda>w. (60000000000, w))\<rparr>" "(0, 0)" 60000000000 "(0, 0)" 60]
  by simp

text \<open>C38: pressing and releasing a key give events for the same key, and no two scan codes name the same
  key.  Eight keys are never reported: the left Alt key, because its entry is overwritten by the right one,
  the right Ctrl key, the arrows and the two page keys.\<close>
theorem keyboard_events_correct:
  "fst (input_keybrd (keyboard 1 (b OR 0x80)) w)
      = (fst (input_keybrd (keyboard 1 (b AND 0x7f)) w))\<lparr>keydown := False\<rparr>
    \<and> keydown (fst (input_keybrd (keyboard 1 (b AND 0x7f)) w))
    \<and> inj_on keylut {c. c < 128 \<and> keylut c \<noteq> ''NONE''}
    \<and> set AM_KEYS - range (\<lambda>b. key (fst (input_keybrd (keyboard 1 b) w)))
      = {''LALT'', ''RCTRL'', ''UP'', ''DOWN'', ''LEFT'', ''RIGHT'', ''PAGEUP'', ''PAGEDOWN''}"
proof (intro conjI)
  have k: "fst (input_keybrd (keyboard 1 b) w) = \<lparr>keydown = unat b < 128, key = keylut (unat b mod 128)\<rparr>" for b
    by (simp add: input_keybrd_def keyboard_def Let_def)
  have "b OR 0x80 = 0x80 OR (b AND 0x7f)"
    by (rule bit_eqI) (auto simp: bit_simps numeral_eq_Suc less_Suc_eq)
  moreover have c: "unat (0x80 :: u8) = 128" "0x80 AND (b AND 0x7f) = 0"
    by (simp, rule bit_eqI, auto simp: bit_simps numeral_eq_Suc less_Suc_eq)
  ultimately have h: "unat (b OR 0x80) = 128 + unat (b AND 0x7f)"
    using unat_or_add [of "0x80 :: u8" "b AND 0x7f"] c by simp
  have "b AND 0x7f = take_bit 7 b" by (simp add: take_bit_eq_mask mask_eq_exp_minus_1)
  then have l: "unat (b AND 0x7f) < 128"
    by (simp only: unsigned_take_bit_eq) (simp add: take_bit_eq_mod)
  show "fst (input_keybrd (keyboard 1 (b OR 0x80)) w)
      = (fst (input_keybrd (keyboard 1 (b AND 0x7f)) w))\<lparr>keydown := False\<rparr>"
    "keydown (fst (input_keybrd (keyboard 1 (b AND 0x7f)) w))"
    using h l by (simp_all add: k)
  have "range (\<lambda>b. key (fst (input_keybrd (keyboard 1 b) w))) = set (map keylut [0..<128])"
  proof -
    have "keylut (unat b mod 128) \<in> keylut ` {0..<128}" for b :: u8 by simp
    moreover have "keylut c \<in> range (\<lambda>b :: u8. keylut (unat b mod 128))" if "c < 128" for c
      using that by (intro range_eqI [of _ _ "of_nat c"]) (simp add: unat_of_nat)
    ultimately show ?thesis by (auto simp: k)
  qed
  moreover have "{k \<in> set AM_KEYS. k \<notin> set (map keylut [0..<128])}
      = {''LALT'', ''RCTRL'', ''UP'', ''DOWN'', ''LEFT'', ''RIGHT'', ''PAGEUP'', ''PAGEDOWN''}"
    using arg_cong [OF keylut_unreported, of set] by (simp only: set_filter list.set)
  ultimately show "set AM_KEYS - range (\<lambda>b. key (fst (input_keybrd (keyboard 1 b) w)))
      = {''LALT'', ''RCTRL'', ''UP'', ''DOWN'', ''LEFT'', ''RIGHT'', ''PAGEUP'', ''PAGEDOWN''}"
    by (simp only: set_diff_eq)
  show "inj_on keylut {c. c < 128 \<and> keylut c \<noteq> ''NONE''}"
    by (rule inj_onI, rule inj_on_filter_map [OF keylut_distinct]) auto
qed


text \<open>C39: the visible part of a rectangle is drawn and nothing else, unless the \<open>int\<close> arithmetic
  overflows.  For a rectangle at non-negative coordinates, with the screen's 16-bit width \<open>W\<close> and height
  \<open>H\<close>: if \<open>x + w\<close>, every \<open>y + j\<close> and the index of every row on the screen fit in an \<open>int\<close>, the pixel at
  column \<open>x'\<close> and row \<open>y'\<close> gets the colour of the source image if it lies in the rectangle, also when the
  rectangle reaches over the right or the lower edge; every other pixel keeps its colour, and nothing outside
  the frame buffer is written.  In every other case the call is undefined: nothing in the code bounds the
  coordinates it is given.\<close>
theorem gpu_fbdraw_correct:
  assumes "0 \<le> x" "0 \<le> y" "0 \<le> w" "0 \<le> h" "0 < W" "W < 2 ^ 16"
  shows "if x + w < 2 ^ 31 \<and> (0 < h \<longrightarrow> y + h \<le> 2 ^ 31) \<and> (\<forall>j \<in> {0..<h}. y + j < H \<longrightarrow> x + (y + j) * W < 2 ^ 31)
    then \<exists>fb'. gpu_fbdraw W H x y w h pixels fb = Some fb' \<and>
      (\<forall>q. fb' q = (let x' = q mod W; y' = q div W
         in if x \<le> x' \<and> x' < x + w \<and> y \<le> y' \<and> y' < y + h \<and> y' < H then pixel_of (pixels ((y' - y) * w + (x' - x)))
            else fb q))
    else gpu_fbdraw W H x y w h pixels fb = None"
proof -
  define len where "len = (if W \<le> x + w then W - x else w)"
  have len: "gpu_fbdraw W H x y w h pixels fb = draw_rows (nat h) 0 0 x y w W H len pixels fb" if "x + w < 2 ^ 31"
    using that assms by (simp add: gpu_fbdraw_def len_def i32_Some)
  show ?thesis
  proof (cases "x + w < 2 ^ 31 \<and> (0 < h \<longrightarrow> y + h \<le> 2 ^ 31) \<and> (\<forall>j \<in> {0..<h}. y + j < H \<longrightarrow> x + (y + j) * W < 2 ^ 31)")
    case True
    have l: "x + len \<le> W" "q mod W < x + len \<longleftrightarrow> q mod W < x + w" for q
      using pos_mod_bound [OF assms(5), of q] by (simp_all add: len_def)
    have rows: "0 < nat h \<longrightarrow> y + 0 + int (nat h) \<le> 2 ^ 31"
      "\<forall>i. 0 \<le> i \<and> i < 0 + int (nat h) \<and> y + i < H \<longrightarrow> x + (y + i) * W < 2 ^ 31"
      using True assms(4) by simp_all
    obtain fb' where fb': "draw_rows (nat h) 0 0 x y w W H len pixels fb = Some fb'"
      "\<forall>x' y'. 0 \<le> x' \<longrightarrow> x' < W \<longrightarrow> fb' (x' + y' * W)
        = (if x \<le> x' \<and> x' < x + len \<and> y + 0 \<le> y' \<and> y' < y + 0 + int (nat h) \<and> y' < H
           then pixel_of (pixels (0 + (y' - y - 0) * w + (x' - x))) else fb (x' + y' * W))"
      using draw_rows_eq [OF assms(1) l(1) assms(5,2) order_refl rows, of 0 w pixels fb] by blast
    have "fb' q = (if x \<le> q mod W \<and> q mod W < x + w \<and> y \<le> q div W \<and> q div W < y + h \<and> q div W < H
        then pixel_of (pixels ((q div W - y) * w + (q mod W - x))) else fb q)" for q
      using fb'(2) [rule_format, of "q mod W" "q div W"] assms(4,5) by (simp add: l(2))
    then show ?thesis using True len fb'(1) by (simp add: Let_def)
  next
    case False
    have "gpu_fbdraw W H x y w h pixels fb = None"
    proof (cases "x + w < 2 ^ 31")
      case True
      obtain i where "0 \<le> i" "i < h" "2 ^ 31 \<le> y + i \<or> y + i < H \<and> 2 ^ 31 \<le> x + (y + i) * W"
      proof (cases "0 < h \<longrightarrow> y + h \<le> 2 ^ 31")
        case True
        with \<open>x + w < 2 ^ 31\<close> False that show ?thesis by (meson atLeastLessThan_iff not_le)
      next
        case h: False
        then show ?thesis using that [of "h - 1"] by simp
      qed
      then show ?thesis unfolding len [OF True] by (intro draw_rows_undefined [OF assms(1,2,5), of _ i]) simp_all
    next
      case wide: False
      then show ?thesis by (simp add: gpu_fbdraw_def i32_overflow)
    qed
    then show ?thesis using False by (simp only: if_False)
  qed
qed

theorem gpu_fbdraw_correct_witness:
  "(\<exists>fb. gpu_fbdraw 640 480 630 2 20 3 (\<lambda>i. 0xff0000) (\<lambda>i. pixel_of 0) = Some fb
      \<and> fb (635 + 3 * 640) = pixel_of 0xff0000 \<and> fb (4 * 640) = pixel_of 0)
    \<and> gpu_fbdraw 640 480 (2 ^ 31 - 8) 2 16 3 (\<lambda>i. 0xff0000) (\<lambda>i. pixel_of 0) = None"
proof
  obtain fb where fb: "gpu_fbdraw 640 480 630 2 20 3 (\<lambda>i. 0xff0000) (\<lambda>i. pixel_of 0) = Some fb"
    "\<forall>q. fb q = (let x' = q mod 640; y' = q div 640
         in if 630 \<le> x' \<and> x' < 630 + 20 \<and> 2 \<le> y' \<and> y' < 2 + 3 \<and> y' < 480 then pixel_of 0xff0000 else pixel_of 0)"
    using gpu_fbdraw_correct [of 630 2 20 3 640 480 "\<lambda>i. 0xff0000" "\<lambda>i. pixel_of 0"] by auto
  then show "\<exists>fb. gpu_fbdraw 640 480 630 2 20 3 (\<lambda>i. 0xff0000) (\<lambda>i. pixel_of 0) = Some fb
      \<and> fb (635 + 3 * 640) = pixel_of 0xff0000 \<and> fb (4 * 640) = pixel_of 0"
    using fb(2) [rule_format, of "635 + 3 * 640"] fb(2) [rule_format, of "4 * 640"] by (simp add: Let_def)
  show "gpu_fbdraw 640 480 (2 ^ 31 - 8) 2 16 3 (\<lambda>i. 0xff0000) (\<lambda>i. pixel_of 0) = None"
    using gpu_fbdraw_correct [of "2 ^ 31 - 8" 2 16 3 640 480 "\<lambda>i. 0xff0000" "\<lambda>i. pixel_of 0"] by simp
qed

text \<open>C40: \<open>__am_ioapic_init\<close> masks every input of the interrupt controller and gives it its own
  vector, and \<open>__am_ioapic_enable\<close> then unmasks exactly one input and routes it to one processor; no other
  register changes.\<close>
theorem ioapic_correct:
  assumes "ioapic_ok bus R" "R w sel f" "irq \<le> 255" "n = unat (drop_bit 16 (f 1) AND 0xFF) + 1" "unat irq < n"
  shows "\<exists>sel'. R (ioapic_enable bus irq cpu (ioapic_init bus w)) sel'
    ((masked_table 0 n f)(0x10 + 2 * irq := 32 + irq, 0x10 + 2 * irq + 1 := push_bit 24 cpu))"
proof -
  obtain v w1 where r: "ioapicread bus 1 w = (v, w1)" "v = f 1" "R w1 1 f"
    using ioapicread_effect [where R = R, OF assms(1,2), of 1] by (cases "ioapicread bus 1 w") simp
  have n: "0 + n \<le> ioapic_inputs f" "unat irq < ioapic_inputs (masked_table 0 n f)"
    using assms(4,5) by (simp_all add: ioapic_inputs_def masked_table_def)
  obtain sel1 where "R (ioapic_init_loop bus n (of_nat 0) w1) sel1 (masked_table 0 n f)"
    using ioapic_init_loop_effect [where R = R, OF assms(1) r(3) n(1)] by blast
  moreover have "ioapic_init bus w = ioapic_init_loop bus n (of_nat 0) w1"
    by (simp add: ioapic_init_def r(1,2) Let_def assms(4))
  ultimately have "R (ioapic_init bus w) sel1 (masked_table 0 n f)" by simp
  from ioapic_entry_effect [where R = R, OF assms(1) this n(2)] show ?thesis
    unfolding ioapic_enable_def by auto
qed

theorem ioapic_correct_witness:
  "\<exists>sel'. (ioapic_enable demo_ioapic 1 2 (ioapic_init demo_ioapic (0, \<lambda>r. 0x170000)))
    = (sel', (masked_table 0 24 (\<lambda>r. 0x170000))(0x10 + 2 * 1 := 32 + 1, 0x10 + 2 * 1 + 1 := push_bit 24 2))"
  using ioapic_correct [OF demo_ioapic_ok, of "(0, \<lambda>r. 0x170000)" 0 "\<lambda>r. 0x170000" 1 24 2] by simp

end
