(* ===== verification/Am_Smp.thy ===== *)
theory Am_Smp
  imports Am_Disk
begin

text \<open>
  Processors and the machine start of the \<open>x86-qemu\<close> port: \<open>abstract-machine/am/src/x86/qemu/trm.c\<close> and
  \<open>mpe.c\<close>.

  The start of the other processors is a step relation: the boot processor runs \<open>mpe_init\<close>, the others
  the start code, \<open>_start_c\<close> and \<open>othercpu_entry\<close>, and their steps interleave in every order.  A step is an
  access to the shared variables (\<open>ap_ready\<close>, the boot record, \<open>user_entry\<close>) or the arrival of the
  start-up interrupt.

  The theorems: the start code and its stack are used by one processor at a time, no processor takes itself
  for the boot processor, every processor calls the entry the client gave, and all of them can always get
  there; the processor table of the firmware is counted correctly; segment descriptors hold the base and the
  limit they are made from.
\<close>

section \<open>Start of the other processors\<close>

datatype cpu_pc =
    Off
  | Boot nat
  | Wait nat
  | Real_mode
  | Start_code
  | Percpu_init
  | Announced
  | In_entry u32
  | Spinning
  | Booting_again

record smp =
  ncpu :: nat
  user_entry :: u32
  ap_ready :: u32
  jmp_code :: u32
  is_ap :: u32
  pc :: "nat \<Rightarrow> cpu_pc"

definition goto :: "nat \<Rightarrow> cpu_pc \<Rightarrow> smp \<Rightarrow> smp" where
  "goto i p s = s\<lparr>pc := (pc s)(i := p)\<rparr>"

text \<open>Up to the loop of \<open>mpe_init\<close>, which starts with processor 1.\<close>

definition mpe_start :: "u32 \<Rightarrow> smp \<Rightarrow> smp" where
  "mpe_start entry s = goto 0 (Boot 1) (s\<lparr>user_entry := entry, jmp_code := 0x000bfde9\<rparr>)"

text \<open>\<open>xchg(&ap_ready, v)\<close>: the old value and the new state.\<close>

definition xchg_ready :: "u32 \<Rightarrow> smp \<Rightarrow> u32 \<times> smp" where
  "xchg_ready v s = (ap_ready s, s\<lparr>ap_ready := v\<rparr>)"

text \<open>The start-up interrupt makes the other processor begin at the boot record, whatever it does.\<close>

definition bsp_step :: "smp \<Rightarrow> smp option" where
  "bsp_step s =
    (case pc s 0 of
       Boot cpu \<Rightarrow>
         if cpu < ncpu s then Some (goto 0 (Wait cpu) (goto cpu Real_mode (s\<lparr>is_ap := 1\<rparr>)))
         else Some (goto 0 (In_entry (user_entry s)) s)
     | Wait cpu \<Rightarrow>
         (case xchg_ready 0 s of (old, s) \<Rightarrow> if old \<noteq> 1 then Some s else Some (goto 0 (Boot (cpu + 1)) s))
     | _ \<Rightarrow> None)"

text \<open>The other processors.  The jump of the boot record leads to the start code, which calls
  \<open>load_kernel\<close> and \<open>_start_c\<close> on a fixed stack; \<open>__am_othercpu_entry\<close> switches to the stack of the
  processor.\<close>

definition ap_step :: "nat \<Rightarrow> smp \<Rightarrow> smp option" where
  "ap_step i s =
    (case pc s i of
       Real_mode \<Rightarrow> Some (goto i (if jmp_code s = 0x000bfde9 then Start_code else Spinning) s)
     | Start_code \<Rightarrow> Some (goto i (if is_ap s \<noteq> 0 then Percpu_init else Booting_again) s)
     | Percpu_init \<Rightarrow> Some (goto i Announced (snd (xchg_ready 1 s)))
     | Announced \<Rightarrow> Some (goto i (In_entry (user_entry s)) s)
     | _ \<Rightarrow> None)"

inductive smp_step :: "smp \<Rightarrow> smp \<Rightarrow> bool" where
  bsp: "bsp_step s = Some s' \<Longrightarrow> smp_step s s'"
| ap: "0 < i \<Longrightarrow> i < ncpu s \<Longrightarrow> ap_step i s = Some s' \<Longrightarrow> smp_step s s'"

inductive_cases smp_stepE: "smp_step s s'"

inductive smp_steps :: "smp \<Rightarrow> smp \<Rightarrow> bool" where
  refl: "smp_steps s s"
| step: "smp_step s t \<Longrightarrow> smp_steps t u \<Longrightarrow> smp_steps s u"

text \<open>The state before \<open>mpe_init\<close>: only the boot processor runs.\<close>

definition before_mpe :: "smp \<Rightarrow> bool" where
  "before_mpe s \<longleftrightarrow> 0 < ncpu s \<and> ap_ready s = 0 \<and> (\<forall>i. 0 < i \<longrightarrow> pc s i = Off)"

section \<open>Invariant\<close>

definition arrived :: "u32 \<Rightarrow> cpu_pc \<Rightarrow> bool" where
  "arrived e p \<longleftrightarrow> p = Announced \<or> p = In_entry e"

lemma arrived_Announced: "arrived e Announced" "arrived e (In_entry e)"
  by (simp_all add: arrived_def)

definition smp_inv :: "nat \<Rightarrow> u32 \<Rightarrow> smp \<Rightarrow> bool" where
  "smp_inv n e s \<longleftrightarrow> ncpu s = n \<and> 0 < n \<and> user_entry s = e \<and> jmp_code s = 0x000bfde9
    \<and> (case pc s 0 of
         Boot c \<Rightarrow> 0 < c \<and> c \<le> n \<and> ap_ready s = 0 \<and> (\<forall>i. 0 < i \<longrightarrow> (if i < c then arrived e (pc s i) else pc s i = Off))
       | Wait c \<Rightarrow> 0 < c \<and> c < n \<and> is_ap s = 1
           \<and> (\<forall>i. 0 < i \<longrightarrow> i \<noteq> c \<longrightarrow> (if i < c then arrived e (pc s i) else pc s i = Off))
           \<and> (if ap_ready s = 0 then pc s c \<in> {Real_mode, Start_code, Percpu_init}
              else ap_ready s = 1 \<and> arrived e (pc s c))
       | In_entry x \<Rightarrow> x = e \<and> ap_ready s = 0 \<and> (\<forall>i. 0 < i \<longrightarrow> (if i < n then arrived e (pc s i) else pc s i = Off))
       | _ \<Rightarrow> False)"

lemma smp_inv_start: "before_mpe s \<Longrightarrow> smp_inv (ncpu s) e (mpe_start e s)"
  by (simp add: smp_inv_def mpe_start_def before_mpe_def goto_def)

lemma smp_inv_bsp:
  assumes "smp_inv n e s" "bsp_step s = Some t"
  shows "smp_inv n e t"
proof (cases "pc s 0")
  case (Boot c)
  note i = assms(1) [unfolded smp_inv_def Boot cpu_pc.case]
  show ?thesis
  proof (cases "c < n")
    case True
    then have "t = goto 0 (Wait c) (goto c Real_mode (s\<lparr>is_ap := 1\<rparr>))"
      using assms(2) Boot i by (simp add: bsp_step_def)
    then show ?thesis using i True by (simp add: smp_inv_def goto_def)
  next
    case False
    then have "t = goto 0 (In_entry (user_entry s)) s" "c = n"
      using assms(2) Boot i by (simp_all add: bsp_step_def)
    then show ?thesis using i by (simp add: smp_inv_def goto_def)
  qed
next
  case (Wait c)
  note i = assms(1) [unfolded smp_inv_def Wait cpu_pc.case]
  show ?thesis
  proof (cases "ap_ready s = 0")
    case True
    then have "t = s\<lparr>ap_ready := 0\<rparr>" using assms(2) Wait by (simp add: bsp_step_def xchg_ready_def)
    then show ?thesis using i True Wait by (simp add: smp_inv_def)
  next
    case False
    then have "t = goto 0 (Boot (c + 1)) (s\<lparr>ap_ready := 0\<rparr>)"
      using assms(2) Wait i by (simp add: bsp_step_def xchg_ready_def)
    then show ?thesis using i False by (simp add: smp_inv_def goto_def less_Suc_eq)
  qed
qed (use assms in \<open>simp_all add: bsp_step_def\<close>)

text \<open>The only other processor on its way is the one the boot processor waits for.\<close>

lemma smp_inv_active:
  assumes "smp_inv n e s" "0 < i" "pc s i \<noteq> Off" "\<not> arrived e (pc s i)"
  shows "pc s 0 = Wait i" "ap_ready s = 0" "is_ap s = 1" "pc s i \<in> {Real_mode, Start_code, Percpu_init}"
proof -
  have "\<exists>c. pc s 0 = Wait c"
    using assms(1) [unfolded smp_inv_def] assms(2-4)
    by (cases "pc s 0") (auto dest!: spec [of _ i] split: if_splits)
  then obtain c where c: "pc s 0 = Wait c" ..
  note inv = assms(1) [unfolded smp_inv_def c cpu_pc.case]
  have "i = c" using inv assms(2-4) by (meson)
  then show "pc s 0 = Wait i" "ap_ready s = 0" "is_ap s = 1" "pc s i \<in> {Real_mode, Start_code, Percpu_init}"
    using c inv assms(4) by (simp_all split: if_splits)
qed

lemma smp_inv_ap:
  assumes "smp_inv n e s" "0 < i" "i < n" "ap_step i s = Some t"
  shows "smp_inv n e t"
proof (cases "arrived e (pc s i)")
  case True
  then have p: "pc s i = Announced" using assms(4) by (auto simp: arrived_def ap_step_def)
  then have t: "t = goto i (In_entry e) s" using assms(1,4) by (simp add: ap_step_def smp_inv_def)
  have "arrived e (pc t k) = arrived e (pc s k)" "pc t k = Off \<longleftrightarrow> pc s k = Off" for k
    by (simp_all add: t goto_def arrived_def p)
  moreover have "pc t k \<in> {Real_mode, Start_code, Percpu_init} \<longleftrightarrow> pc s k \<in> {Real_mode, Start_code, Percpu_init}" for k
    by (simp add: t goto_def p)
  moreover have "pc t 0 = pc s 0" "ncpu t = ncpu s" "user_entry t = user_entry s" "jmp_code t = jmp_code s"
      "ap_ready t = ap_ready s" "is_ap t = is_ap s"
    using assms(2) by (simp_all add: t goto_def)
  ultimately show ?thesis
    using assms(1) unfolding smp_inv_def by (cases "pc s 0") (simp_all del: insert_iff)
next
  case False
  moreover have "pc s i \<noteq> Off" using assms(4) by (auto simp: ap_step_def)
  ultimately have a: "pc s 0 = Wait i" "ap_ready s = 0" "is_ap s = 1" "pc s i \<in> {Real_mode, Start_code, Percpu_init}"
    using smp_inv_active [OF assms(1,2)] by blast+
  note inv = assms(1) [unfolded smp_inv_def a(1) cpu_pc.case]
  consider "t = goto i Start_code s" | "t = goto i Percpu_init s" | "t = goto i Announced (s\<lparr>ap_ready := 1\<rparr>)"
    using assms(4) a inv by (auto simp: ap_step_def xchg_ready_def)
  then show ?thesis
    by cases (use inv a assms(2) in \<open>simp_all add: smp_inv_def goto_def arrived_Announced\<close>)
qed

lemma smp_inv_ncpu: "smp_inv n e s \<Longrightarrow> ncpu s = n"
  by (simp add: smp_inv_def)

lemma smp_inv_step: "smp_step s t \<Longrightarrow> smp_inv n e s \<Longrightarrow> smp_inv n e t"
  by (erule smp_stepE) (auto intro: smp_inv_bsp smp_inv_ap simp: smp_inv_ncpu)

lemma smp_inv_steps: "smp_steps s s' \<Longrightarrow> smp_inv n e s \<Longrightarrow> smp_inv n e s'"
  by (induction rule: smp_steps.induct) (auto dest: smp_inv_step)

section \<open>Progress\<close>

fun ap_rank :: "cpu_pc \<Rightarrow> nat" where
  "ap_rank Off = 5"
| "ap_rank Real_mode = 4"
| "ap_rank Start_code = 3"
| "ap_rank Percpu_init = 2"
| "ap_rank Announced = 1"
| "ap_rank _ = 0"

fun bsp_rank :: "nat \<Rightarrow> cpu_pc \<Rightarrow> nat" where
  "bsp_rank n (Boot c) = 2 * (n - c) + 1"
| "bsp_rank n (Wait c) = 2 * (n - c)"
| "bsp_rank n _ = 0"

definition smp_rank :: "smp \<Rightarrow> nat" where
  "smp_rank s = bsp_rank (ncpu s) (pc s 0) + (\<Sum>i \<in> {1..<ncpu s}. ap_rank (pc s i))"

definition all_in :: "u32 \<Rightarrow> smp \<Rightarrow> bool" where
  "all_in e s \<longleftrightarrow> (\<forall>i < ncpu s. pc s i = In_entry e)"

lemma rank_goto_ap:
  assumes "0 < i" "i < ncpu s" "ap_rank p < ap_rank (pc s i)"
  shows "smp_rank (goto i p s) < smp_rank s"
proof -
  have "(\<Sum>k \<in> {1..<ncpu s}. ap_rank (((pc s)(i := p)) k)) < (\<Sum>k \<in> {1..<ncpu s}. ap_rank (pc s k))"
    using assms by (intro sum_strict_mono_ex1) auto
  then show ?thesis using assms(1) by (simp add: smp_rank_def goto_def)
qed

lemma rank_goto_bsp: "bsp_rank (ncpu s) p < bsp_rank (ncpu s) (pc s 0) \<Longrightarrow> smp_rank (goto 0 p s) < smp_rank s"
  by (simp add: smp_rank_def goto_def)

lemma rank_cong: "ncpu s = ncpu t \<Longrightarrow> pc s = pc t \<Longrightarrow> smp_rank s = smp_rank t"
  by (simp add: smp_rank_def)

lemma progress_ap:
  assumes "smp_inv n e s" "0 < i" "i < n" "pc s i \<in> {Real_mode, Start_code, Percpu_init, Announced}"
    and "pc s 0 = Wait i \<or> pc s i = Announced"
  shows "\<exists>t. smp_step s t \<and> smp_rank t < smp_rank s"
proof -
  have i: "0 < i" "i < ncpu s" using assms(1-3) by (simp_all add: smp_inv_ncpu)
  have "jmp_code s = 0x000bfde9" "pc s 0 = Wait i \<Longrightarrow> is_ap s = 1"
    using assms(1) by (auto simp: smp_inv_def)
  then obtain p t where t: "ap_step i s = Some t" "ncpu t = ncpu s" "pc t = pc (goto i p s)" "ap_rank p < ap_rank (pc s i)"
    using assms(4,5) by (auto simp: ap_step_def goto_def xchg_ready_def)
  then show ?thesis
    using rank_goto_ap [OF i t(4)] rank_cong [of t "goto i p s"] ap [OF i t(1)] by (auto simp: goto_def)
qed

lemma smp_progress:
  assumes "smp_inv n e s" "\<not> all_in e s"
  shows "\<exists>t. smp_step s t \<and> smp_rank t < smp_rank s"
proof (cases "pc s 0")
  case (Boot c)
  show ?thesis
  proof (cases "c < n")
    case True
    then have c: "0 < c" "c < ncpu s" "pc s c = Off" using assms(1) Boot by (auto simp: smp_inv_def)
    let ?s = "s\<lparr>is_ap := 1\<rparr>"
    have "bsp_step s = Some (goto 0 (Wait c) (goto c Real_mode ?s))" using Boot c by (simp add: bsp_step_def)
    moreover have "smp_rank (goto c Real_mode ?s) < smp_rank ?s" using c by (intro rank_goto_ap) simp_all
    moreover have "smp_rank (goto 0 (Wait c) (goto c Real_mode ?s)) < smp_rank (goto c Real_mode ?s)"
      using Boot c by (intro rank_goto_bsp) (simp add: goto_def)
    moreover have "smp_rank ?s = smp_rank s" by (rule rank_cong) simp_all
    ultimately show ?thesis using bsp [of s] by fastforce
  next
    case False
    then have "bsp_step s = Some (goto 0 (In_entry (user_entry s)) s)"
      using assms(1) Boot by (simp add: bsp_step_def smp_inv_def)
    moreover have "smp_rank (goto 0 (In_entry (user_entry s)) s) < smp_rank s"
      using Boot by (intro rank_goto_bsp) simp
    ultimately show ?thesis using bsp by blast
  qed
next
  case (Wait c)
  then have c: "0 < c" "c < n" using assms(1) by (auto simp: smp_inv_def)
  show ?thesis
  proof (cases "ap_ready s = 0")
    case True
    then show ?thesis using progress_ap [OF assms(1) c] assms(1) Wait by (auto simp: smp_inv_def)
  next
    case False
    let ?s = "s\<lparr>ap_ready := 0\<rparr>"
    have "bsp_step s = Some (goto 0 (Boot (c + 1)) ?s)"
      using False Wait assms(1) by (simp add: bsp_step_def xchg_ready_def smp_inv_def)
    moreover have "smp_rank (goto 0 (Boot (c + 1)) ?s) < smp_rank ?s"
      using Wait c assms(1) by (intro rank_goto_bsp) (simp add: smp_inv_ncpu)
    moreover have "smp_rank ?s = smp_rank s" by (rule rank_cong) simp_all
    ultimately show ?thesis using bsp [of s] by fastforce
  qed
next
  case (In_entry x)
  then obtain i where "i < n" "pc s i \<noteq> In_entry e"
    using assms by (auto simp: all_in_def smp_inv_ncpu)
  moreover from this have "0 < i" using assms(1) In_entry by (cases "i = 0") (auto simp: smp_inv_def)
  moreover from this have "arrived e (pc s i)" using assms(1) In_entry \<open>i < n\<close> by (auto simp: smp_inv_def)
  ultimately show ?thesis using progress_ap [OF assms(1), of i] by (auto simp: arrived_def)
qed (use assms(1) in \<open>auto simp: smp_inv_def\<close>)

lemma smp_reaches:
  assumes "smp_inv n e s"
  shows "\<exists>t. smp_steps s t \<and> all_in e t"
  using assms
proof (induction s rule: measure_induct_rule [where f = smp_rank])
  case (less s)
  show ?case
  proof (cases "all_in e s")
    case False
    then obtain t where "smp_step s t" "smp_rank t < smp_rank s" using smp_progress [OF less.prems] by blast
    then show ?thesis using less.IH [of t] less.prems smp_inv_step [of s t] by (blast intro: smp_steps.step)
  qed (use smp_steps.refl in blast)
qed


section \<open>The processor table of the firmware\<close>

text \<open>The search for the pointer structure; \<open>None\<close> is the panic after the loop.\<close>

function mp_find :: "mem \<Rightarrow> u32 \<Rightarrow> u32 option" where
  "mp_find m p = (if p = 0xffffff then None else if load32 m p = 0x5f504d5f then Some p else mp_find m (p + 1))"
  by pat_completeness auto
termination
proof (relation "measure (\<lambda>(m, p). unat (0xffffff - p))", goal_cases)
  case (2 m p)
  then have "0xffffff - p \<noteq> 0" by simp
  then have "unat (0xffffff - p - 1) = unat (0xffffff - p) - 1" "0 < unat (0xffffff - p)"
    by (rule unat_minus_one, simp only: unat_gt_0 not_False_eq_True)
  then have "unat (0xffffff - p - 1) < unat (0xffffff - p)" by linarith
  moreover have "0xffffff - p - 1 = 0xffffff - (p + 1)" by simp
  ultimately have "unat (0xffffff - (p + 1)) < unat (0xffffff - p)" by (simp only:)
  then show ?case by simp
qed simp

declare mp_find.simps [simp del]

datatype mp_panic = Internal_error | Too_many_cpus

abbreviation (input) MAX_CPU :: nat where "MAX_CPU \<equiv> 8"

partial_function (option) mp_entries :: "mem \<Rightarrow> u32 \<Rightarrow> u32 \<Rightarrow> nat \<Rightarrow> (mp_panic + nat) option" where
  "mp_entries m p ed cnt =
    (if p < ed then
       if m p = 0 then
         if MAX_CPU < cnt + 1 then Some (Inl Too_many_cpus) else mp_entries m (p + 12 + 8) ed (cnt + 1)
       else mp_entries m (p + 8) ed cnt
     else Some (Inr cnt))"

text \<open>The address of the local interrupt controller and the number of processors.\<close>

definition lapic_init :: "mem \<Rightarrow> nat \<Rightarrow> (mp_panic + u32 \<times> nat) option" where
  "lapic_init m cnt =
    (case mp_find m 0xf0000 of
       None \<Rightarrow> Some (Inl Internal_error)
     | Some p \<Rightarrow>
         let conf = load32 m (p + 4); lapic = load32 m (conf + 36)
         in case mp_entries m (conf + 44) (conf + ucast (load16 m (conf + 4))) cnt of
              None \<Rightarrow> None
            | Some (Inl e) \<Rightarrow> Some (Inl e)
            | Some (Inr n) \<Rightarrow> Some (Inr (lapic, n)))"

text \<open>A table of entries, given by their kinds: a processor entry (kind 0) has 20 bytes, any other 8.\<close>

fun entry_size :: "u8 \<Rightarrow> nat" where
  "entry_size k = (if k = 0 then 20 else 8)"

definition table_size :: "u8 list \<Rightarrow> nat" where
  "table_size ks = sum_list (map entry_size ks)"

definition table_at :: "mem \<Rightarrow> u32 \<Rightarrow> u8 list \<Rightarrow> bool" where
  "table_at m p ks \<longleftrightarrow> unat p + table_size ks < 2 ^ 32 \<and> (\<forall>i < length ks. m (p + of_nat (table_size (take i ks))) = ks ! i)"

lemma table_at_Cons:
  "table_at m p (k # ks) \<Longrightarrow> m p = k \<and> table_at m (p + of_nat (entry_size k)) ks \<and> unat (p + of_nat (entry_size k)) = unat p + entry_size k"
proof -
  assume t: "table_at m p (k # ks)"
  have u: "unat (p + of_nat (entry_size k)) = unat p + entry_size k"
    using t by (subst unat_word_ariths) (cases "k = 0"; simp add: table_at_def table_size_def)
  have "m (p + of_nat (entry_size k) + of_nat (table_size (take i ks))) = ks ! i" if "i < length ks" for i
    using t that unfolding table_at_def by (auto dest!: spec [of _ "Suc i"] simp: table_size_def add.assoc)
  moreover have "m p = k" using t unfolding table_at_def by (auto dest!: spec [of _ 0] simp: table_size_def)
  moreover have "unat (p + of_nat (entry_size k)) + table_size ks < 2 ^ 32"
    using t u by (simp add: table_at_def table_size_def)
  ultimately show ?thesis using u by (simp add: table_at_def)
qed

lemma mp_entries_effect:
  assumes "table_at m p ks" "unat ed = unat p + table_size ks" "n \<le> 8"
  shows "mp_entries m p ed n =
    Some (if n + count_list ks 0 \<le> 8 then Inr (n + count_list ks 0) else Inl Too_many_cpus)"
  using assms
proof (induction ks arbitrary: p n)
  case Nil
  then have "\<not> p < ed" by (simp add: word_less_nat_alt table_size_def)
  then show ?case using Nil by (subst mp_entries.simps) simp
next
  case (Cons k ks)
  note t = table_at_Cons [OF Cons.prems(1)]
  have lt: "p < ed" using Cons.prems(2) by (simp add: word_less_nat_alt table_size_def)
  have e: "unat ed = unat (p + of_nat (entry_size k)) + table_size ks"
    using Cons.prems(2) t by (simp add: table_size_def)
  show ?case
  proof (cases "k = 0")
    case True
    then show ?thesis using Cons.IH [of "p + 20" "n + 1"] Cons.prems(3) t lt e
      by (subst mp_entries.simps) (auto simp: add.assoc)
  next
    case False
    then show ?thesis using Cons.IH [of "p + 8" n] Cons.prems(3) t lt e
      by (subst mp_entries.simps) auto
  qed
qed

lemma mp_find_effect:
  assumes "load32 m (p + of_nat k) = 0x5f504d5f" "\<forall>i < k. load32 m (p + of_nat i) \<noteq> 0x5f504d5f"
    and "unat p + k < 0xffffff"
  shows "mp_find m p = Some (p + of_nat k)"
  using assms
proof (induction k arbitrary: p)
  case 0
  then show ?case by (subst mp_find.simps) auto
next
  case (Suc k)
  have "p \<noteq> 0xffffff" using Suc.prems(3) by auto
  moreover have "load32 m p \<noteq> 0x5f504d5f" using Suc.prems(2) by (auto dest: spec [of _ 0])
  moreover have "unat (p + 1) = unat p + 1" using Suc.prems(3) by (subst unat_word_ariths) simp
  then have "mp_find m (p + 1) = Some (p + 1 + of_nat k)"
    using Suc.prems by (intro Suc.IH) (auto simp: add.assoc dest: spec [of _ "Suc i" for i])
  ultimately show ?case by (subst mp_find.simps) (simp add: algebra_simps)
qed


section \<open>Segment descriptors\<close>

record SegDesc =
  lim_15_0 :: u32
  base_15_0 :: u32
  base_23_16 :: u32
  sd_type :: u32
  sd_s :: u32
  sd_dpl :: u32
  sd_p :: u32
  lim_19_16 :: u32
  sd_avl :: u32
  sd_l :: u32
  sd_db :: u32
  sd_g :: u32
  base_31_24 :: u32

text \<open>\<open>SegDesc\<close> by position; the fields keep as many bits as they have in the struct.\<close>

definition SEG16 :: "u32 \<Rightarrow> u32 \<Rightarrow> u32 \<Rightarrow> u32 \<Rightarrow> SegDesc" where
  "SEG16 type base lim dpl = \<lparr>
     lim_15_0 = lim AND 0xffff, base_15_0 = base AND 0xffff, base_23_16 = drop_bit 16 base AND 0xff,
     sd_type = take_bit 4 type, sd_s = 0, sd_dpl = take_bit 2 dpl, sd_p = 1,
     lim_19_16 = take_bit 4 (drop_bit 16 lim), sd_avl = 0, sd_l = 0, sd_db = 1, sd_g = 0,
     base_31_24 = take_bit 8 (drop_bit 24 base)\<rparr>"

definition SEG32 :: "u32 \<Rightarrow> u32 \<Rightarrow> u32 \<Rightarrow> u32 \<Rightarrow> SegDesc" where
  "SEG32 type base lim dpl = \<lparr>
     lim_15_0 = drop_bit 12 lim AND 0xffff, base_15_0 = base AND 0xffff, base_23_16 = drop_bit 16 base AND 0xff,
     sd_type = take_bit 4 type, sd_s = 1, sd_dpl = take_bit 2 dpl, sd_p = 1,
     lim_19_16 = take_bit 4 (drop_bit 28 lim), sd_avl = 0, sd_l = 0, sd_db = 1, sd_g = 1,
     base_31_24 = take_bit 8 (drop_bit 24 base)\<rparr>"

text \<open>The table of a processor, whose task state segment is at \<open>tss\<close>.\<close>

definition percpu_initgdt :: "u32 \<Rightarrow> SegDesc list \<Rightarrow> SegDesc list" where
  "percpu_initgdt tss gdt =
    gdt[1 := SEG32 (0x8 OR 0x2) 0 0xffffffff 0,
        2 := SEG32 0x2 0 0xffffffff 0,
        3 := SEG32 (0x8 OR 0x2) 0 0xffffffff 3,
        4 := SEG32 0x2 0 0xffffffff 3,
        5 := SEG16 0x9 tss (104 - 1) 0]"

text \<open>What the processor makes of a descriptor.\<close>

definition seg_base :: "SegDesc \<Rightarrow> u32" where
  "seg_base d = base_15_0 d OR push_bit 16 (base_23_16 d) OR push_bit 24 (base_31_24 d)"

definition seg_limit :: "SegDesc \<Rightarrow> u32" where
  "seg_limit d =
    (let l = lim_15_0 d OR push_bit 16 (lim_19_16 d) in if sd_g d = 1 then push_bit 12 l OR 0xfff else l)"

lemma and_masks: "(x :: u32) AND 0xffff = take_bit 16 x" "(x :: u32) AND 0xff = take_bit 8 x"
  by (simp_all add: take_bit_eq_mask mask_eq_exp_minus_1)

lemma base_parts:
  "take_bit 16 b OR push_bit 16 (take_bit 8 (drop_bit 16 b)) OR push_bit 24 (take_bit 8 (drop_bit 24 b)) = (b :: u32)"
proof (rule bit_eqI)
  fix n :: nat
  consider "n < 16" | "16 \<le> n" "n < 24" | "24 \<le> n" by linarith
  then show "bit (take_bit 16 b OR push_bit 16 (take_bit 8 (drop_bit 16 b)) OR push_bit 24 (take_bit 8 (drop_bit 24 b))) n
      = bit b n"
    by cases (auto simp: bit_simps simp del: push_bit_numeral dest: bit_imp_le_length)
qed

lemma limit_parts:
  assumes "unat lim < 2 ^ 20"
  shows "take_bit 16 lim OR push_bit 16 (take_bit 4 (drop_bit 16 lim)) = (lim :: u32)"
proof -
  have "unat lim div 2 ^ 16 < 2 ^ 4" using assms by (simp add: less_mult_imp_div_less)
  then have "unat (take_bit 4 (drop_bit 16 lim)) = unat (drop_bit 16 lim)"
    by (simp only: unsigned_take_bit_eq unat_drop_bit) (simp add: take_bit_eq_mod)
  then have "take_bit 4 (drop_bit 16 lim) = drop_bit 16 lim" by (simp only: word_unat_eq_iff)
  moreover have "take_bit 16 lim OR push_bit 16 (drop_bit 16 lim) = lim"
  proof (rule bit_eqI)
    fix n :: nat
    show "bit (take_bit 16 lim OR push_bit 16 (drop_bit 16 lim)) n = bit lim n"
      by (cases "n < 16") (auto simp: bit_simps simp del: push_bit_numeral dest: bit_imp_le_length)
  qed
  ultimately show ?thesis by (simp only:)
qed

lemma seg_base_eq: "seg_base (SEG32 type base lim dpl) = base" "seg_base (SEG16 type base lim dpl) = base"
  by (simp_all only: seg_base_def SEG32_def SEG16_def SegDesc.simps and_masks base_parts)

lemma seg_limit_SEG16: "unat lim < 2 ^ 20 \<Longrightarrow> seg_limit (SEG16 type base lim dpl) = lim"
  by (simp only: seg_limit_def SEG16_def SegDesc.simps and_masks limit_parts Let_def) simp

section \<open>The end of a program\<close>

text \<open>What \<open>halt\<close> prints on processor \<open>cpu\<close>.\<close>

definition hex_digit :: "nat \<Rightarrow> char" where
  "hex_digit d = ''0123456789abcdef'' ! d"

definition halt_text :: "nat \<Rightarrow> u32 \<Rightarrow> string" where
  "halt_text cpu code = map (\<lambda>ch.
     if ch = CHR ''$'' then hex_digit cpu
     else if ch = CHR ''0'' \<or> ch = CHR ''4'' then
       hex_digit (unat (signed_drop_bit (of_char ch - of_char (CHR ''0'')) code AND 0xf))
     else ch) (''CPU #$ Halt (40).'' @ [CHR 0x0A])"

definition heap_init :: "('w, 'x) bus_scheme \<Rightarrow> u32 \<Rightarrow> 'w \<Rightarrow> u32 \<times> u32 \<times> 'w" where
  "heap_init bus prog_end w =
    (let (lo, w) = in8 bus 0x71 (out8 bus 0x70 0x34 w);
         (hi, w) = in8 bus 0x71 (out8 bus 0x70 0x35 w);
         hi = ucast hi + 1 :: u32
     in ((prog_end + 2 ^ 20 - 1) AND NOT (2 ^ 20 - 1), push_bit 16 (ucast lo OR push_bit 8 hi), w))"

section \<open>Properties\<close>

lemma smp_reachable_inv: "before_mpe s0 \<Longrightarrow> smp_steps (mpe_start e s0) s \<Longrightarrow> smp_inv (ncpu s0) e s"
  using smp_inv_steps smp_inv_start by blast

text \<open>C33: starting the processors.  In every interleaving the start code, which works on one fixed stack, is
  run by one processor at a time; no processor takes itself for the boot processor; a processor that reaches
  the client's code is in the entry that \<open>mpe_init\<close> was given; and when the boot processor is there, every
  other one has finished its own initialisation.\<close>
theorem mpe_start_safe:
  assumes "before_mpe s0" "smp_steps (mpe_start e s0) s"
  shows "(\<forall>i j. pc s i = Start_code \<longrightarrow> pc s j = Start_code \<longrightarrow> i = j)
    \<and> (\<forall>i. pc s i \<noteq> Booting_again)
    \<and> (\<forall>i x. pc s i = In_entry x \<longrightarrow> x = e)
    \<and> (pc s 0 = In_entry e \<longrightarrow> (\<forall>i. 0 < i \<longrightarrow> i < ncpu s0 \<longrightarrow> pc s i = Announced \<or> pc s i = In_entry e))"
proof -
  note inv = smp_reachable_inv [OF assms]
  have zero: "pc s 0 \<noteq> Start_code" "pc s 0 \<noteq> Booting_again" "pc s 0 = In_entry x \<Longrightarrow> x = e" for x
    using inv by (auto simp: smp_inv_def)
  have active: "pc s 0 = Wait i" if "pc s i = Start_code" for i
    using smp_inv_active(1) [OF inv, of i] that zero by (cases "i = 0") (auto simp: arrived_def)
  have "pc s i \<noteq> Booting_again" "pc s i = In_entry x \<Longrightarrow> x = e" for i x
    using smp_inv_active(4) [OF inv, of i] zero by (cases "i = 0"; fastforce simp: arrived_def)+
  moreover have "pc s i = Announced \<or> pc s i = In_entry e" if "pc s 0 = In_entry e" "0 < i" "i < ncpu s0" for i
  proof -
    have "arrived e (pc s i)" using inv that by (simp add: smp_inv_def)
    then show ?thesis by (simp add: arrived_def)
  qed
  ultimately show ?thesis using active by (metis cpu_pc.inject(2))
qed

definition demo_smp :: smp where
  "demo_smp = \<lparr>ncpu = 4, user_entry = 0, ap_ready = 0, jmp_code = 0, is_ap = 0, pc = (\<lambda>i. Off)\<rparr>"

lemma demo_smp_before: "before_mpe demo_smp"
  by (simp add: before_mpe_def demo_smp_def)

theorem mpe_start_safe_witness:
  "let s = mpe_start 0x100000 demo_smp in (\<forall>i j. pc s i = Start_code \<longrightarrow> pc s j = Start_code \<longrightarrow> i = j)
    \<and> (\<forall>i. pc s i \<noteq> Booting_again) \<and> (\<forall>i x. pc s i = In_entry x \<longrightarrow> x = 0x100000)
    \<and> (pc s 0 = In_entry 0x100000 \<longrightarrow>
        (\<forall>i. 0 < i \<longrightarrow> i < ncpu demo_smp \<longrightarrow> pc s i = Announced \<or> pc s i = In_entry 0x100000))"
  unfolding Let_def by (rule mpe_start_safe [OF demo_smp_before smp_steps.refl])

text \<open>C34: the start cannot get stuck: from every state it can reach, whatever the interleaving so far, it
  can go on until all processors are in the client's entry.\<close>
theorem mpe_start_completes:
  assumes "before_mpe s0" "smp_steps (mpe_start e s0) s"
  shows "\<exists>t. smp_steps s t \<and> (\<forall>i < ncpu t. pc t i = In_entry e)"
  using smp_reaches [OF smp_reachable_inv [OF assms]] unfolding all_in_def .

theorem mpe_start_completes_witness:
  "\<exists>t. smp_steps (mpe_start 0x100000 demo_smp) t \<and> (\<forall>i < ncpu t. pc t i = In_entry 0x100000)"
  by (rule mpe_start_completes [OF demo_smp_before smp_steps.refl])

text \<open>C35: the number of processors is the number of processor entries of the firmware's table, and the
  start panics exactly when there are more than eight.  The pointer structure is at the first place at or
  above \<open>0xf0000\<close> that holds its signature.\<close>
theorem lapic_init_correct:
  assumes "load32 m (0xf0000 + of_nat k) = 0x5f504d5f" "\<forall>i < k. load32 m (0xf0000 + of_nat i) \<noteq> 0x5f504d5f"
    and "0xf0000 + k < 0xffffff"
    and "conf = load32 m (0xf0000 + of_nat k + 4)" "table_at m (conf + 44) ks" "unat conf + 44 < 2 ^ 32"
    and "unat (load16 m (conf + 4)) = 44 + table_size ks"
  shows "lapic_init m 0 = Some (if count_list ks 0 \<le> 8 then Inr (load32 m (conf + 36), count_list ks 0)
    else Inl Too_many_cpus)"
proof -
  have f: "mp_find m 0xf0000 = Some (0xf0000 + of_nat k)" by (rule mp_find_effect) (use assms(1-3) in simp_all)
  have "unat (conf + 44) = unat conf + 44" using assms(6) by (subst unat_word_ariths) simp
  then have "unat (conf + ucast (load16 m (conf + 4))) = unat (conf + 44) + table_size ks"
    using assms(5,7) by (subst unat_word_ariths) (simp add: unat_ucast_mod table_at_def)
  then have g: "mp_entries m (conf + 44) (conf + ucast (load16 m (conf + 4))) 0
      = Some (if count_list ks 0 \<le> 8 then Inr (count_list ks 0) else Inl Too_many_cpus)"
    using mp_entries_effect [OF assms(5), of _ 0] by simp
  show ?thesis
    unfolding lapic_init_def f option.case Let_def assms(4) [symmetric] g by simp
qed

text \<open>A table of two processors, a bus and an input.\<close>

definition demo_firmware :: mem where
  "demo_firmware a =
    (case map_of [(0xf0000, 0x5f), (0xf0001, 0x4d), (0xf0002, 0x50), (0xf0003, 0x5f), (0xf0005, 0x90),
        (0x9004, 100), (0x9054, 1), (0x905c, 2)] a of None \<Rightarrow> 0 | Some b \<Rightarrow> b)"

lemma demo_firmware_loads:
  "load32 demo_firmware 0xf0000 = 0x5f504d5f" "load32 demo_firmware 0xf0004 = 0x9000"
  "unat (load16 demo_firmware 0x9004) = 100"
  by (simp_all add: load32_def load16_def demo_firmware_def)

lemma demo_firmware_table: "table_at demo_firmware (0x9000 + 44) [0, 0, 1, 2]"
  unfolding table_at_def by (simp add: table_size_def demo_firmware_def less_Suc_eq all_conj_distrib imp_disjL)

theorem lapic_init_correct_witness:
  "lapic_init demo_firmware 0 = Some (Inr (load32 demo_firmware (0x9000 + 36), 2))"
  using lapic_init_correct [of demo_firmware 0 "0x9000" "[0, 0, 1, 2]"] demo_firmware_table demo_firmware_loads
  by (simp add: table_size_def)

text \<open>The segment table of a processor.  The four code and data segments are flat, two for the kernel
  and two for user programs, and the task state segment has exactly the base and the size of the
  structure.\<close>
theorem percpu_gdt_correct:
  assumes "length gdt = 6"
  shows "(\<forall>k \<in> {1, 2, 3, 4}. seg_base (percpu_initgdt tss gdt ! k) = 0
        \<and> seg_limit (percpu_initgdt tss gdt ! k) = 0xffffffff
        \<and> sd_dpl (percpu_initgdt tss gdt ! k) = (if k \<le> 2 then 0 else 3))
    \<and> seg_base (percpu_initgdt tss gdt ! 5) = tss \<and> seg_limit (percpu_initgdt tss gdt ! 5) = 103
    \<and> sd_dpl (percpu_initgdt tss gdt ! 5) = 0 \<and> percpu_initgdt tss gdt ! 0 = gdt ! 0"
proof -
  have "seg_limit (SEG32 type 0 0xffffffff dpl) = 0xffffffff" for type dpl
    by (simp add: seg_limit_def SEG32_def)
  moreover have "seg_limit (SEG16 type base 103 dpl) = 103" for type base dpl
    by (rule seg_limit_SEG16) simp
  moreover have "sd_dpl (SEG32 type base lim dpl) = take_bit 2 dpl" "sd_dpl (SEG16 type base lim dpl) = take_bit 2 dpl"
    for type base lim dpl
    by (simp_all add: SEG32_def SEG16_def)
  ultimately show ?thesis using assms by (simp add: percpu_initgdt_def seg_base_eq)
qed

theorem percpu_gdt_correct_witness:
  "seg_base (percpu_initgdt 0x123456 (replicate 6 (SEG32 0 0 0 0)) ! 5) = 0x123456
    \<and> seg_limit (percpu_initgdt 0x123456 (replicate 6 (SEG32 0 0 0 0)) ! 5) = 103"
  using percpu_gdt_correct [of "replicate 6 (SEG32 0 0 0 0)" "0x123456"] by simp

end
