(* ===== verification/Int64.thy ===== *)
theory Int64
  imports Prelude "HOL-Library.Signed_Division"
begin

text \<open>
  64-bit integer arithmetic for a 32-bit target: \<open>abstract-machine/klib/src/int64.c\<close>, the
  run-time routines the compiler calls for \<open>long long\<close> division and bit counting.

  A \<open>udwords\<close> union is the record \<open>udwords\<close> of its two halves; reading or writing its
  member \<open>all\<close> is \<open>udw_all\<close> and \<open>udw_of\<close>.  Shifts, additions and subtractions are
  those of \<open>32 word\<close> and \<open>64 word\<close>, so they wrap as the C unsigned types do, and
  \<open>signed_drop_bit\<close> is the arithmetic shift of a \<open>di_int\<close>.  The division by zero the
  source reaches in \<open>__udivmoddi4\<close> is the result \<open>None\<close>.  \<open>__builtin_clz\<close> and
  \<open>__builtin_ctz\<close>, which the source only applies to non-zero words, are the file's own
  \<open>__clzsi2\<close> and \<open>__ctzsi2\<close>.  Division is proved correct for every input, and the
  signed routines are derived from the contract \<open>unsigned_divider\<close> of the unsigned one.
\<close>

section \<open>Model\<close>

record udwords =
  s_low :: u32
  s_high :: u32

definition udw_all :: "udwords \<Rightarrow> u64" where
  "udw_all d = push_bit 32 (ucast (s_high d)) OR ucast (s_low d)"

definition udw_of :: "u64 \<Rightarrow> udwords" where
  "udw_of x = \<lparr>s_low = ucast x, s_high = ucast (drop_bit 32 x)\<rparr>"

definition c_bool :: "bool \<Rightarrow> u32" where
  "c_bool b = (if b then 1 else 0)"

definition clzsi2 :: "u32 \<Rightarrow> u32" where
  "clzsi2 a =
    (let x = a;
         t = push_bit 4 (c_bool (x AND 0xFFFF0000 = 0));
         x = drop_bit (unat (16 - t)) x;
         r = t;
         t = push_bit 3 (c_bool (x AND 0xFF00 = 0));
         x = drop_bit (unat (8 - t)) x;
         r = r + t;
         t = push_bit 2 (c_bool (x AND 0xF0 = 0));
         x = drop_bit (unat (4 - t)) x;
         r = r + t;
         t = push_bit 1 (c_bool (x AND 0xC = 0));
         x = drop_bit (unat (2 - t)) x;
         r = r + t
     in r + ((2 - x) AND - c_bool (x AND 2 = 0)))"

definition ctzsi2 :: "u32 \<Rightarrow> u32" where
  "ctzsi2 a =
    (let x = a;
         t = push_bit 4 (c_bool (x AND 0x0000FFFF = 0));
         x = drop_bit (unat t) x;
         r = t;
         t = push_bit 3 (c_bool (x AND 0x00FF = 0));
         x = drop_bit (unat t) x;
         r = r + t;
         t = push_bit 2 (c_bool (x AND 0x0F = 0));
         x = drop_bit (unat t) x;
         r = r + t;
         t = push_bit 1 (c_bool (x AND 0x3 = 0));
         x = drop_bit (unat t) x;
         x = x AND 3;
         r = r + t
     in r + ((2 - drop_bit 1 x) AND - c_bool (x AND 1 = 0)))"

datatype udivmod_init = Trap | Done u64 u64 | Loop u32 udwords udwords

definition udivmoddi4_init :: "u64 \<Rightarrow> u64 \<Rightarrow> udivmod_init" where
  "udivmoddi4_init a b =
    (let n = udw_of a; d = udw_of b in
     if s_high n = 0 then
       if s_high d = 0 then
         if s_low d = 0 then Trap
         else Done (ucast (s_low n div s_low d)) (ucast (s_low n mod s_low d))
       else Done 0 (ucast (s_low n))
     else if s_low d = 0 then
       if s_high d = 0 then Trap
       else if s_low n = 0 then
         Done (ucast (s_high n div s_high d))
           (udw_all \<lparr>s_low = 0, s_high = s_high n mod s_high d\<rparr>)
       else if s_high d AND (s_high d - 1) = 0 then
         Done (ucast (drop_bit (unat (ctzsi2 (s_high d))) (s_high n)))
           (udw_all \<lparr>s_low = s_low n, s_high = s_high n AND (s_high d - 1)\<rparr>)
       else
         let sr = clzsi2 (s_high d) - clzsi2 (s_high n) in
         if 32 - 2 < sr then Done 0 a
         else let sr = sr + 1 in
           Loop sr
             \<lparr>s_low = 0, s_high = push_bit (unat (32 - sr)) (s_low n)\<rparr>
             \<lparr>s_low = push_bit (unat (32 - sr)) (s_high n) OR drop_bit (unat sr) (s_low n),
              s_high = drop_bit (unat sr) (s_high n)\<rparr>
     else if s_high d = 0 then
       if s_low d AND (s_low d - 1) = 0 then
         if s_low d = 1 then Done a (ucast (s_low n AND (s_low d - 1)))
         else let sr = ctzsi2 (s_low d) in
           Done (udw_all
              \<lparr>s_low = push_bit (unat (32 - sr)) (s_high n) OR drop_bit (unat sr) (s_low n),
               s_high = drop_bit (unat sr) (s_high n)\<rparr>)
             (ucast (s_low n AND (s_low d - 1)))
       else
         let sr = 1 + 32 + clzsi2 (s_low d) - clzsi2 (s_high n) in
         if sr = 32 then
           Loop sr \<lparr>s_low = 0, s_high = s_low n\<rparr> \<lparr>s_low = s_high n, s_high = 0\<rparr>
         else if sr < 32 then
           Loop sr
             \<lparr>s_low = 0, s_high = push_bit (unat (32 - sr)) (s_low n)\<rparr>
             \<lparr>s_low = push_bit (unat (32 - sr)) (s_high n) OR drop_bit (unat sr) (s_low n),
              s_high = drop_bit (unat sr) (s_high n)\<rparr>
         else
           Loop sr
             \<lparr>s_low = push_bit (unat (64 - sr)) (s_low n),
              s_high = push_bit (unat (64 - sr)) (s_high n) OR drop_bit (unat (sr - 32)) (s_low n)\<rparr>
             \<lparr>s_low = drop_bit (unat (sr - 32)) (s_high n), s_high = 0\<rparr>
     else
       let sr = clzsi2 (s_high d) - clzsi2 (s_high n) in
       if 32 - 1 < sr then Done 0 a
       else let sr = sr + 1 in
         if sr = 32 then
           Loop sr \<lparr>s_low = 0, s_high = s_low n\<rparr> \<lparr>s_low = s_high n, s_high = 0\<rparr>
         else
           Loop sr
             \<lparr>s_low = 0, s_high = push_bit (unat (32 - sr)) (s_low n)\<rparr>
             \<lparr>s_low = push_bit (unat (32 - sr)) (s_high n) OR drop_bit (unat sr) (s_low n),
              s_high = drop_bit (unat sr) (s_high n)\<rparr>)"

definition udivmod_step :: "udwords \<Rightarrow> udwords \<times> udwords \<times> u32 \<Rightarrow> udwords \<times> udwords \<times> u32" where
  "udivmod_step d st =
    (case st of (q, r, carry) \<Rightarrow>
      let r = \<lparr>s_low = push_bit 1 (s_low r) OR drop_bit 31 (s_high q),
               s_high = push_bit 1 (s_high r) OR drop_bit 31 (s_low r)\<rparr>;
          q = \<lparr>s_low = push_bit 1 (s_low q) OR carry,
               s_high = push_bit 1 (s_high q) OR drop_bit 31 (s_low q)\<rparr>;
          s = signed_drop_bit 63 (udw_all d - udw_all r - 1)
      in (q, udw_of (udw_all r - (udw_all d AND s)), ucast (s AND 1)))"

primrec udivmod_loop :: "nat \<Rightarrow> udwords \<Rightarrow> udwords \<times> udwords \<times> u32 \<Rightarrow> udwords \<times> udwords \<times> u32" where
  "udivmod_loop 0 d st = st"
| "udivmod_loop (Suc sr) d st = udivmod_loop sr d (udivmod_step d st)"

definition udivmoddi4 :: "u64 \<Rightarrow> u64 \<Rightarrow> (u64 \<times> u64) option" where
  "udivmoddi4 a b =
    (case udivmoddi4_init a b of
       Trap \<Rightarrow> None
     | Done q r \<Rightarrow> Some (q, r)
     | Loop sr q r \<Rightarrow>
        (case udivmod_loop (unat sr) (udw_of b) (q, r, 0) of
          (q, r, carry) \<Rightarrow> Some (push_bit 1 (udw_all q) OR ucast carry, udw_all r)))"

definition udivdi3 :: "u64 \<Rightarrow> u64 \<Rightarrow> u64 option" where
  "udivdi3 a b = map_option fst (udivmoddi4 a b)"

definition umoddi3 :: "u64 \<Rightarrow> u64 \<Rightarrow> u64 option" where
  "umoddi3 a b = map_option snd (udivmoddi4 a b)"

definition divdi3 :: "u64 \<Rightarrow> u64 \<Rightarrow> u64 option" where
  "divdi3 a b =
    (let s_a = signed_drop_bit 63 a;
         s_b = signed_drop_bit 63 b;
         a = (a XOR s_a) - s_a;
         b = (b XOR s_b) - s_b;
         s_a = s_a XOR s_b
     in map_option (\<lambda>(q, r). (q XOR s_a) - s_a) (udivmoddi4 a b))"

definition divmoddi4 :: "u64 \<Rightarrow> u64 \<Rightarrow> (u64 \<times> u64) option" where
  "divmoddi4 a b = map_option (\<lambda>d. (d, a - d * b)) (divdi3 a b)"

definition moddi3 :: "u64 \<Rightarrow> u64 \<Rightarrow> u64 option" where
  "moddi3 a b =
    (let s = signed_drop_bit 63 b;
         b = (b XOR s) - s;
         s = signed_drop_bit 63 a;
         a = (a XOR s) - s
     in map_option (\<lambda>(q, r). (r XOR s) - s) (udivmoddi4 a b))"

definition ctzdi2 :: "u64 \<Rightarrow> u32" where
  "ctzdi2 a =
    (let x = udw_of a;
         f = - c_bool (s_low x = 0)
     in ctzsi2 ((s_high x AND f) OR (s_low x AND NOT f)) + (f AND 32))"

definition clzdi2 :: "u64 \<Rightarrow> u32" where
  "clzdi2 a =
    (let x = udw_of a;
         f = - c_bool (s_high x = 0)
     in clzsi2 ((s_high x AND NOT f) OR (s_low x AND f)) + (f AND 32))"

section \<open>Lemmas\<close>

lemma unat_udw_all: "unat (udw_all d) = unat (s_high d) * 2 ^ 32 + unat (s_low d)"
proof -
  have *: "push_bit 32 (ucast (s_high d)) AND ucast (s_low d) = (0 :: u64)"
    by (rule bit_eqI) (auto simp: bit_simps dest: bit_imp_le_length)
  have "unat (s_high d) * 2 ^ 32 < 2 ^ 64"
    using unat_u32_less [of "s_high d"] by simp
  then show ?thesis
    unfolding udw_all_def by (simp add: unat_or_add [OF *] unat_push_bit)
qed

lemma udw_all_of [simp]: "udw_all (udw_of x) = x"
  by (rule bit_eqI) (auto simp: udw_all_def udw_of_def bit_simps dest: bit_imp_le_length)

lemma udw_of_all [simp]: "udw_of (udw_all d) = d"
proof -
  have "s_low (udw_of (udw_all d)) = s_low d" "s_high (udw_of (udw_all d)) = s_high d"
    by (rule bit_eqI; auto simp: udw_all_def udw_of_def bit_simps dest: bit_imp_le_length)+
  then show ?thesis by simp
qed

definition clz_inv :: "u32 \<Rightarrow> nat \<Rightarrow> u32 \<Rightarrow> u32 \<Rightarrow> bool" where
  "clz_inv X w r x \<longleftrightarrow> w + unat r \<le> 32 \<and> 0 < unat x \<and> unat x < 2 ^ w
     \<and> unat X div 2 ^ (32 - w - unat r) = unat x"

lemma clz_step:
  assumes inv: "clz_inv X (2 * h) r x" and H: "unat H = h"
    and t: "t = (if unat x < 2 ^ h then H else 0)"
  shows "clz_inv X h (r + t) (drop_bit (unat (H - t)) x)"
proof -
  have h: "2 * h + unat r \<le> 32"
    using inv by (auto simp: clz_inv_def)
  show ?thesis
  proof (cases "unat x < 2 ^ h")
    case True
    have "unat (r + H) = unat r + h"
      using h H by (simp add: unat_word_ariths)
    moreover have "32 - h - (unat r + h) = 32 - 2 * h - unat r" by simp
    ultimately show ?thesis
      using True h inv unfolding t clz_inv_def by simp
  next
    case False
    have "unat X div 2 ^ (32 - h - unat r) = unat X div 2 ^ (32 - 2 * h - unat r) div 2 ^ h"
      using h by (simp add: div_mult2_eq [symmetric] power_add [symmetric])
    moreover have "unat x div 2 ^ h < 2 ^ h"
      using inv by (simp add: clz_inv_def less_mult_imp_div_less mult_2 power_add)
    moreover have "0 < unat x div 2 ^ h" using False by (simp add: div_greater_zero_iff)
    ultimately show ?thesis
      using False h H inv unfolding t clz_inv_def by (simp add: unat_drop_bit)
  qed
qed

lemma clz_inv_init: "X \<noteq> 0 \<Longrightarrow> clz_inv X 32 0 X"
  using unat_u32_less [of X] by (simp add: clz_inv_def unat_gt_0)

lemma clz_mask:
  assumes "clz_inv X (2 * h) r x"
  shows "x AND push_bit h (mask h) = 0 \<longleftrightarrow> unat x < 2 ^ h"
  using assms by (simp add: clz_inv_def and_high_mask_eq_0_iff)


lemma clz_final:
  assumes "clz_inv X 2 r x" and c: "c = r + ((2 - x) AND - c_bool (x AND 2 = 0))"
  shows "unat c \<le> 31 \<and> unat X div 2 ^ (31 - unat c) = 1"
proof -
  have r: "unat r \<le> 30" and X: "unat X div 2 ^ (30 - unat r) = unat x" and x: "0 < unat x" "unat x < 4"
    using assms(1) by (auto simp: clz_inv_def)
  have S: "31 - unat r = 30 - unat r + 1" "2 ^ 1 = (2::nat)" using r by simp_all
  consider "x = 1" | "x = 2" | "x = 3"
    using x by (cases "unat x = 1"; cases "unat x = 2") (auto simp: word_nat)
  then show ?thesis
  proof cases
    case 1
    then have "unat c = unat r + 1"
      using r unfolding c by (simp add: c_bool_def unat_word_ariths)
    with X 1 r show ?thesis by simp
  next
    case 2
    then have "c = r" unfolding c by (simp add: c_bool_def)
    moreover have "unat X div 2 ^ (31 - unat r) = unat X div 2 ^ (30 - unat r) div 2"
      using r div_exp_div_exp [of "unat X" "30 - unat r" 1] by (simp only: S)
    ultimately show ?thesis using X 2 r by simp
  next
    case 3
    then have "c = r" unfolding c by (simp add: c_bool_def)
    moreover have "unat X div 2 ^ (31 - unat r) = unat X div 2 ^ (30 - unat r) div 2"
      using r div_exp_div_exp [of "unat X" "30 - unat r" 1] by (simp only: S)
    ultimately show ?thesis using X 3 r by simp
  qed
qed

lemma clzsi2_correct:
  assumes "X \<noteq> 0"
  shows "unat (clzsi2 X) \<le> 31 \<and> unat X div 2 ^ (31 - unat (clzsi2 X)) = 1"
proof -
  define t1 where "t1 = push_bit 4 (c_bool (X AND 0xFFFF0000 = 0))"
  define x1 where "x1 = drop_bit (unat (16 - t1)) X"
  define t2 where "t2 = push_bit 3 (c_bool (x1 AND 0xFF00 = 0))"
  define x2 where "x2 = drop_bit (unat (8 - t2)) x1"
  define t3 where "t3 = push_bit 2 (c_bool (x2 AND 0xF0 = 0))"
  define x3 where "x3 = drop_bit (unat (4 - t3)) x2"
  define t4 where "t4 = push_bit 1 (c_bool (x3 AND 0xC = 0))"
  define x4 where "x4 = drop_bit (unat (2 - t4)) x3"
  have i0: "clz_inv X (2 * 16) 0 X" using assms clz_inv_init by simp
  have t1: "t1 = (if unat X < 2 ^ 16 then 16 else 0)"
    using clz_mask [OF i0] by (simp add: t1_def c_bool_def mask_numeral)
  have i1: "clz_inv X (2 * 8) (t1) x1"
    using clz_step [OF i0 _ t1] by (simp add: x1_def)
  have t2: "t2 = (if unat x1 < 2 ^ 8 then 8 else 0)"
    using clz_mask [OF i1] by (simp add: t2_def c_bool_def mask_numeral)
  have i2: "clz_inv X (2 * 4) (t1 + t2) x2"
    using clz_step [OF i1 _ t2] by (simp add: x2_def)
  have t3: "t3 = (if unat x2 < 2 ^ 4 then 4 else 0)"
    using clz_mask [OF i2] by (simp add: t3_def c_bool_def mask_numeral)
  have i3: "clz_inv X (2 * 2) (t1 + t2 + t3) x3"
    using clz_step [OF i2 _ t3] by (simp add: x3_def)
  have t4: "t4 = (if unat x3 < 2 ^ 2 then 2 else 0)"
    using clz_mask [OF i3] by (simp add: t4_def c_bool_def mask_numeral)
  have i4: "clz_inv X (2) (t1 + t2 + t3 + t4) x4"
    using clz_step [OF i3 _ t4] by (simp add: x4_def)
  have "clzsi2 X = t1 + t2 + t3 + t4 + ((2 - x4) AND - c_bool (x4 AND 2 = 0))"
    unfolding clzsi2_def Let_def t1_def x1_def t2_def x2_def t3_def x3_def t4_def x4_def ..
  with i4 show ?thesis by (rule clz_final)
qed


definition ctz_inv :: "u32 \<Rightarrow> nat \<Rightarrow> u32 \<Rightarrow> u32 \<Rightarrow> bool" where
  "ctz_inv X w r x \<longleftrightarrow> w + unat r \<le> 32 \<and> \<not> 2 ^ w dvd unat x
     \<and> 2 ^ unat r dvd unat X \<and> unat X div 2 ^ unat r = unat x"

lemma ctz_step:
  assumes inv: "ctz_inv X (2 * h) r x" and H: "unat H = h"
    and t: "t = (if 2 ^ h dvd unat x then H else 0)"
  shows "ctz_inv X h (r + t) (drop_bit (unat t) x)"
proof (cases "2 ^ h dvd unat x")
  case True
  have h: "2 * h + unat r \<le> 32" and x: "unat X div 2 ^ unat r = unat x" "2 ^ unat r dvd unat X"
    and n: "\<not> 2 ^ (2 * h) dvd unat x"
    using inv by (auto simp: ctz_inv_def)
  from h H have r: "unat (r + H) = unat r + h" by (simp add: unat_word_ariths)
  from True obtain m where m: "unat x = 2 ^ h * m" by (elim dvdE)
  then have "unat X = 2 ^ (unat r + h) * m"
    using x by (metis dvd_mult_div_cancel mult.assoc power_add)
  moreover have "\<not> 2 ^ h dvd m"
    using n m by (metis mult_2 mult_dvd_mono dvd_refl power_add)
  ultimately show ?thesis
    using True h H m unfolding t ctz_inv_def by (simp add: r unat_drop_bit)
next
  case False
  with inv show ?thesis unfolding t ctz_inv_def by simp
qed

lemma ctz_mask:
  assumes "ctz_inv X (2 * h) r x"
  shows "x AND mask h = 0 \<longleftrightarrow> 2 ^ h dvd unat x"
  by (rule and_mask_eq_0_iff_dvd)

lemma ctz_final:
  assumes "ctz_inv X 2 r y" and x: "x = y AND 3"
    and c: "c = r + ((2 - drop_bit 1 x) AND - c_bool (x AND 1 = 0))"
  shows "unat c \<le> 31 \<and> 2 ^ unat c dvd unat X \<and> odd (unat X div 2 ^ unat c)"
proof -
  have r: "unat r \<le> 30" and X: "unat X div 2 ^ unat r = unat y" "2 ^ unat r dvd unat X"
    and n: "\<not> 4 dvd unat y"
    using assms(1) by (auto simp: ctz_inv_def)
  have "unat x = unat y AND mask 2"
    by (simp add: x unsigned_and_eq mask_eq_exp_minus_1)
  then have ux: "unat x = unat y mod 4"
    by (simp only: take_bit_eq_mask [symmetric] take_bit_eq_mod) simp
  have "unat x = 1 \<or> unat x = 2 \<or> unat x = 3"
    using n ux by presburger
  then consider "unat x = 1" | "unat x = 2" | "unat x = 3" by blast
  then show ?thesis
  proof cases
    case 1
    then have "x = 1" by (simp add: word_nat)
    then have "c = r" unfolding c by (simp add: c_bool_def)
    moreover have "odd (unat y)" using ux 1 by presburger
    ultimately show ?thesis using X r by simp
  next
    case 2
    then have "x = 2" by (simp add: word_nat)
    then have c': "unat c = unat r + 1"
      using r unfolding c by (simp add: c_bool_def unat_word_ariths)
    have "unat y mod 2 = 0" "odd (unat y div 2)" using ux 2 by presburger+
    then show ?thesis
      using X r c' div_exp_div_exp [of "unat X" "unat r" 1]
      by (auto simp: dvd_def)
  next
    case 3
    then have "x = 3" by (simp add: word_nat)
    then have "c = r" unfolding c by (simp add: c_bool_def)
    moreover have "odd (unat y)" using ux 3 by presburger
    ultimately show ?thesis using X r by simp
  qed
qed

lemma ctzsi2_correct:
  assumes "X \<noteq> 0"
  shows "unat (ctzsi2 X) \<le> 31 \<and> 2 ^ unat (ctzsi2 X) dvd unat X \<and> odd (unat X div 2 ^ unat (ctzsi2 X))"
proof -
  define t1 where "t1 = push_bit 4 (c_bool (X AND 0x0000FFFF = 0))"
  define x1 where "x1 = drop_bit (unat t1) X"
  define t2 where "t2 = push_bit 3 (c_bool (x1 AND 0x00FF = 0))"
  define x2 where "x2 = drop_bit (unat t2) x1"
  define t3 where "t3 = push_bit 2 (c_bool (x2 AND 0x0F = 0))"
  define x3 where "x3 = drop_bit (unat t3) x2"
  define t4 where "t4 = push_bit 1 (c_bool (x3 AND 0x3 = 0))"
  define x4 where "x4 = drop_bit (unat t4) x3"
  have "\<not> 4294967296 dvd unat X"
    using assms unat_u32_less [of X] by (metis dvd_imp_le not_le unat_gt_0 word_neq_0_conv)
  then have i0: "ctz_inv X (2 * 16) 0 X" by (simp add: ctz_inv_def)
  have t1: "t1 = (if 2 ^ 16 dvd unat X then 16 else 0)"
    using ctz_mask [OF i0] by (simp add: t1_def c_bool_def mask_numeral)
  have i1: "ctz_inv X (2 * 8) (t1) x1"
    using ctz_step [OF i0 _ t1] by (simp add: x1_def)
  have t2: "t2 = (if 2 ^ 8 dvd unat x1 then 8 else 0)"
    using ctz_mask [OF i1] by (simp add: t2_def c_bool_def mask_numeral)
  have i2: "ctz_inv X (2 * 4) (t1 + t2) x2"
    using ctz_step [OF i1 _ t2] by (simp add: x2_def)
  have t3: "t3 = (if 2 ^ 4 dvd unat x2 then 4 else 0)"
    using ctz_mask [OF i2] by (simp add: t3_def c_bool_def mask_numeral)
  have i3: "ctz_inv X (2 * 2) (t1 + t2 + t3) x3"
    using ctz_step [OF i2 _ t3] by (simp add: x3_def)
  have t4: "t4 = (if 2 ^ 2 dvd unat x3 then 2 else 0)"
    using ctz_mask [OF i3] by (simp add: t4_def c_bool_def mask_numeral)
  have i4: "ctz_inv X (2) (t1 + t2 + t3 + t4) x4"
    using ctz_step [OF i3 _ t4] by (simp add: x4_def)
  have "ctzsi2 X = t1 + t2 + t3 + t4 + ((2 - drop_bit 1 (x4 AND 3)) AND - c_bool ((x4 AND 3) AND 1 = 0))"
    unfolding ctzsi2_def Let_def t1_def x1_def t2_def x2_def t3_def x3_def t4_def x4_def ..
  with i4 show ?thesis by (rule ctz_final [OF _ refl])
qed


subsection \<open>The shift-subtract loop\<close>

lemma shl1_pair:
  fixes h l x :: nat
  assumes "h < 2 ^ 32" "l < 2 ^ 32" "x \<le> 1"
  shows "(h * 2 mod 2 ^ 32 + l div 2 ^ 31) * 2 ^ 32 + (l * 2 mod 2 ^ 32 + x)
    = (2 * (h * 2 ^ 32 + l) + x) mod 2 ^ 64"
proof -
  define a h' b l' where d: "a = h div 2 ^ 31" "h' = h mod 2 ^ 31" "b = l div 2 ^ 31" "l' = l mod 2 ^ 31"
  have h: "h = a * 2 ^ 31 + h'" "h' < 2 ^ 31" and l: "l = b * 2 ^ 31 + l'" "l' < 2 ^ 31" "b \<le> 1"
    using assms by (auto simp: d)
  have m: "h * 2 mod 2 ^ 32 = 2 * h'" "l * 2 mod 2 ^ 32 = 2 * l'"
    using mult_mod_right [of 2 h "2 ^ 31"] mult_mod_right [of 2 l "2 ^ 31"]
    by (simp_all add: d mult.commute)
  have "2 * (h * 2 ^ 32 + l) + x = a * 2 ^ 64 + ((2 * h' + b) * 2 ^ 32 + (2 * l' + x))"
    unfolding h(1) l(1) by (simp add: algebra_simps)
  moreover have "(2 * h' + b) * 2 ^ 32 + (2 * l' + x) < 2 ^ 64"
    using h l assms(3) by simp
  ultimately have "(2 * (h * 2 ^ 32 + l) + x) mod 2 ^ 64 = (2 * h' + b) * 2 ^ 32 + (2 * l' + x)"
    by (simp only: mod_mult_self3 mod_less)
  then show ?thesis unfolding m d(3) by simp
qed

lemma unat_shl1_or:
  assumes "unat (y :: u32) \<le> 1"
  shows "unat (push_bit 1 x OR y) = unat x * 2 mod 2 ^ 32 + unat y"
proof -
  have "y = 0 \<or> y = 1" using assms by (auto simp: word_nat le_Suc_eq)
  then have "push_bit 1 x AND y = 0"
    by (auto simp: and_one_eq mod_2_eq_odd)
  then have "unat (push_bit 1 x OR y) = unat (push_bit 1 x) + unat y"
    by (rule unat_or_add)
  then show ?thesis by (simp only: unat_push_bit) simp
qed

lemma unat_udw_shl1:
  assumes "unat y \<le> 1"
  shows "unat (udw_all \<lparr>s_low = push_bit 1 (s_low r) OR y,
      s_high = push_bit 1 (s_high r) OR drop_bit 31 (s_low r)\<rparr>)
    = (2 * unat (udw_all r) + unat y) mod 2 ^ 64"
proof -
  have "unat (drop_bit 31 (s_low r)) \<le> 1"
    using unat_u32_less [of "s_low r"] by (simp add: unat_drop_bit)
  then show ?thesis
    using shl1_pair [of "unat (s_high r)" "unat (s_low r)" "unat y"] assms
      unat_u32_less [of "s_high r"] unat_u32_less [of "s_low r"]
    by (simp only: unat_udw_all unat_shl1_or udwords.select_convs unat_drop_bit) simp
qed

lemma top_bit_udw: "unat (drop_bit 31 (s_high q)) = unat (udw_all q) div 2 ^ 63"
  using unat_u32_less [of "s_low q"] by (simp add: unat_drop_bit unat_udw_all div_mult2_eq [of _ "2 ^ 32" "2 ^ 31", simplified])

lemma sign_fill: "signed_drop_bit 63 (x :: u64) = (if unat x < 2 ^ 63 then 0 else - 1)"
proof (rule bit_word_eqI)
  fix n assume "n < LENGTH(64)"
  have "bit x 63 \<longleftrightarrow> bit (unat x) 63" by (simp add: bit_unsigned_iff)
  also have "\<dots> \<longleftrightarrow> odd (unat x div 2 ^ 63)" by (simp add: bit_iff_odd)
  also have "\<dots> \<longleftrightarrow> \<not> unat x < 2 ^ 63"
  proof (cases "unat x < 2 ^ 63")
    case False
    then have "unat x div 2 ^ 63 = 1"
      using unat_u64_less [of x] by (intro div_nat_eqI) simp_all
    with False show ?thesis by simp
  qed simp
  finally have "bit x 63 \<longleftrightarrow> \<not> unat x < 2 ^ 63" .
  then show "bit (signed_drop_bit 63 x) n = bit (if unat x < 2 ^ 63 then 0 else - 1 :: u64) n"
    using \<open>n < LENGTH(64)\<close> by (cases n) (auto simp: bit_simps min_def)
qed


lemma udivmod_step_nat:
  fixes d q r :: udwords and c :: u32
  assumes c: "unat c \<le> 1"
    and R: "R' = 2 * unat (udw_all r) + unat (udw_all q) div 2 ^ 63" "R' < 2 ^ 64"
    and D: "D = unat (udw_all d)"
    and ge: "D \<le> R' \<Longrightarrow> R' - D < 2 ^ 63" and lt: "R' < D \<Longrightarrow> D - R' \<le> 2 ^ 63"
    and st: "udivmod_step d (q, r, c) = (q', r', c')"
  shows "unat (udw_all q') = (2 * unat (udw_all q) + unat c) mod 2 ^ 64"
    and "unat (udw_all r') = (if D \<le> R' then R' - D else R')"
    and "unat c' = (if D \<le> R' then 1 else 0)"
proof -
  define rr where "rr = \<lparr>s_low = push_bit 1 (s_low r) OR drop_bit 31 (s_high q),
               s_high = push_bit 1 (s_high r) OR drop_bit 31 (s_low r)\<rparr>"
  define s where "s = signed_drop_bit 63 (udw_all d - udw_all rr - 1)"
  have q': "q' = \<lparr>s_low = push_bit 1 (s_low q) OR c,
               s_high = push_bit 1 (s_high q) OR drop_bit 31 (s_low q)\<rparr>"
    and r': "r' = udw_of (udw_all rr - (udw_all d AND s))" and c': "c' = ucast (s AND 1)"
    using st unfolding udivmod_step_def Let_def rr_def s_def by auto
  have "unat (drop_bit 31 (s_high q)) \<le> 1"
    using unat_u32_less [of "s_high q"] by (simp add: unat_drop_bit)
  then have rr: "unat (udw_all rr) = R'"
    using unat_udw_shl1 [of "drop_bit 31 (s_high q)" r] R unfolding rr_def top_bit_udw by simp
  show "unat (udw_all q') = (2 * unat (udw_all q) + unat c) mod 2 ^ 64"
    unfolding q' by (rule unat_udw_shl1 [OF c])
  have Dl: "D < 2 ^ 64" using D unat_u64_less by simp
  have s: "s = (if D \<le> R' then - 1 else 0)"
  proof (cases "D \<le> R'")
    case True
    have "unat (udw_all d - udw_all rr - 1) = 2 ^ 64 - (1 + (R' - D))"
      using True rr D R(2) by (auto simp: unat_sub_if')
    then show ?thesis
      using True ge [OF True] unfolding s_def sign_fill by simp
  next
    case False
    have "unat (udw_all d - udw_all rr - 1) = D - R' - 1"
      using False rr D by (simp add: unat_sub_if')
    then show ?thesis
      using False lt unfolding s_def sign_fill by simp
  qed
  show "unat c' = (if D \<le> R' then 1 else 0)"
    unfolding c' s by simp
  show "unat (udw_all r') = (if D \<le> R' then R' - D else R')"
    using rr D unfolding r' s by (simp add: unat_sub_if')
qed


text \<open>
  The state of the loop with \<open>m\<close> iterations left: \<open>r\<close> holds the remainder of the
  leading bits of \<open>N\<close>, the top of \<open>q\<close> the bits of \<open>N\<close> still to come, and the bottom of
  \<open>q\<close> together with the carry the quotient so far.
\<close>

definition udivmod_inv :: "nat \<Rightarrow> nat \<Rightarrow> nat \<Rightarrow> udwords \<times> udwords \<times> u32 \<Rightarrow> bool" where
  "udivmod_inv N D m st \<longleftrightarrow>
    (case st of (q, r, c) \<Rightarrow>
      unat (udw_all r) = N div 2 ^ m mod D \<and>
      unat (udw_all q) = N mod 2 ^ m * 2 ^ (64 - m) + N div 2 ^ m div D div 2 \<and>
      unat c = N div 2 ^ m div D mod 2)"

lemma double_div_mod:
  fixes A D b :: nat
  assumes "0 < D" "b \<le> 1"
  shows "(2 * A + b) div D = 2 * (A div D) + (if D \<le> 2 * (A mod D) + b then 1 else 0)"
    and "(2 * A + b) mod D = (if D \<le> 2 * (A mod D) + b then 2 * (A mod D) + b - D else 2 * (A mod D) + b)"
proof -
  have A: "2 * A + b = D * (2 * (A div D)) + (2 * (A mod D) + b)"
    using mult_div_mod_eq [of D A] mult.left_commute [of D 2 "A div D"] by linarith
  have lt: "2 * (A mod D) + b < 2 * D"
    using assms(2) mod_less_divisor [OF assms(1), of A] by linarith
  have "(2 * (A mod D) + b) div D = (if D \<le> 2 * (A mod D) + b then 1 else 0)"
    using lt by (auto intro!: div_nat_eqI)
  then show "(2 * A + b) div D = 2 * (A div D) + (if D \<le> 2 * (A mod D) + b then 1 else 0)"
    unfolding A using assms by simp
  have "(2 * (A mod D) + b) mod D = (if D \<le> 2 * (A mod D) + b then 2 * (A mod D) + b - D else 2 * (A mod D) + b)"
    using lt by (auto simp: le_mod_geq)
  then show "(2 * A + b) mod D = (if D \<le> 2 * (A mod D) + b then 2 * (A mod D) + b - D else 2 * (A mod D) + b)"
    unfolding A using assms by simp
qed

lemma split_bit:
  fixes N m :: nat
  defines "b \<equiv> N div 2 ^ m mod 2"
  shows "N div 2 ^ m = 2 * (N div 2 ^ Suc m) + b" and "N mod 2 ^ Suc m = b * 2 ^ m + N mod 2 ^ m" and "b \<le> 1"
proof -
  have "N div 2 ^ Suc m = N div 2 ^ m div 2"
    using div_exp_div_exp [of N m 1] by simp
  then show "N div 2 ^ m = 2 * (N div 2 ^ Suc m) + b" unfolding b_def by simp
  show "N mod 2 ^ Suc m = b * 2 ^ m + N mod 2 ^ m"
    unfolding b_def using mod_mult2_eq [of N "2 ^ m" 2] by (simp add: mult.commute)
  show "b \<le> 1" unfolding b_def by simp
qed

lemma udivmod_inv_step:
  assumes inv: "udivmod_inv N D (Suc m) (q, r, c)" and D: "D = unat (udw_all d)" "0 < D"
    and N: "N < 2 ^ 64" and m: "m < 63"
    and H: "D \<le> 2 ^ 63 \<or> (m = 0 \<and> 2 ^ 63 \<le> N)"
  shows "udivmod_inv N D m (udivmod_step d (q, r, c))"
proof -
  define A b where "A = N div 2 ^ Suc m" and "b = N div 2 ^ m mod 2"
  note sb = split_bit [of N m, folded A_def b_def]
  have r: "unat (udw_all r) = A mod D" and c: "unat c = A div D mod 2"
    and q: "unat (udw_all q) = (b * 2 ^ m + N mod 2 ^ m) * 2 ^ (63 - m) + A div D div 2"
    using inv sb(2) by (simp_all add: udivmod_inv_def A_def)
  have "(2::nat) ^ 64 = 2 ^ (63 - m) * 2 ^ Suc m"
    using m by (simp only: power_add [symmetric]) simp
  then have "A < 2 ^ (63 - m)"
    unfolding A_def using N by (intro less_mult_imp_div_less) (simp only:)
  then have k: "A div D div 2 < 2 ^ (63 - m)"
    by (meson div_le_dividend le_less_trans)
  have lo: "N mod 2 ^ m * 2 ^ (63 - m) + A div D div 2 < 2 ^ 63"
  proof -
    have "N mod 2 ^ m * 2 ^ (63 - m) + A div D div 2 < (N mod 2 ^ m + 1) * 2 ^ (63 - m)"
      using k by simp
    also have "\<dots> \<le> 2 ^ m * 2 ^ (63 - m)"
      by (intro mult_right_mono) (simp_all add: Suc_leI)
    also have "\<dots> = 2 ^ 63" using m by (simp flip: power_add)
    finally show ?thesis .
  qed
  have q': "unat (udw_all q) = b * 2 ^ 63 + (N mod 2 ^ m * 2 ^ (63 - m) + A div D div 2)"
    unfolding q using m by (simp add: add_mult_distrib mult.assoc flip: power_add)
  have top: "unat (udw_all q) div 2 ^ 63 = b"
    unfolding q' using lo by simp
  obtain q1 r1 c1 where st: "udivmod_step d (q, r, c) = (q1, r1, c1)" by (cases "udivmod_step d (q, r, c)")
  define R' where "R' = 2 * unat (udw_all r) + unat (udw_all q) div 2 ^ 63"
  have R': "R' = 2 * (A mod D) + b" unfolding R'_def top r ..
  have "R' \<le> 2 * A + b" unfolding R' by simp
  also have "\<dots> = N div 2 ^ m" using sb by simp
  finally have "R' \<le> N div 2 ^ m" .
  then have R64: "R' < 2 ^ 64" using N by (meson div_le_dividend le_less_trans)
  have R2: "R' < 2 * D" unfolding R' using sb(3) mod_less_divisor [OF D(2), of A] by linarith
  have big: "2 ^ 63 \<le> R'" if "\<not> D \<le> 2 ^ 63"
  proof -
    have "m = 0" "2 ^ 63 \<le> N" using H that by auto
    then have "A < D" using N that unfolding A_def by simp
    then show ?thesis using R' sb(1) \<open>m = 0\<close> \<open>2 ^ 63 \<le> N\<close> by simp
  qed
  note step = udivmod_step_nat [OF _ R'_def R64 D(1) _ _ st]
  have c': "unat c \<le> 1" unfolding c by simp
  have ge: "R' - D < 2 ^ 63" if "D \<le> R'" using R2 R64 big that by (cases "D \<le> 2 ^ 63") auto
  have lt: "D - R' \<le> 2 ^ 63" if "R' < D"
    using big that D unat_u64_less [of "udw_all d"] by (cases "D \<le> 2 ^ 63") auto
  have "64 - m = Suc (63 - m)" using m by simp
  then have p: "(2::nat) ^ (64 - m) = 2 * 2 ^ (63 - m)" by simp
  have "unat (udw_all q1) = (2 * unat (udw_all q) + unat c) mod 2 ^ 64"
    by (rule step(1) [OF c' ge lt])
  also have "2 * unat (udw_all q) + unat c = b * 2 ^ 64 + (N mod 2 ^ m * 2 ^ (64 - m) + A div D)"
    unfolding q' c p by (simp add: algebra_simps)
  also have "\<dots> mod 2 ^ 64 = N mod 2 ^ m * 2 ^ (64 - m) + A div D"
  proof -
    have "N mod 2 ^ m * 2 ^ (64 - m) + A div D < 2 ^ 64"
      using lo unfolding p by simp
    then show ?thesis by (simp only: mod_mult_self3 mod_less)
  qed
  finally have q1: "unat (udw_all q1) = N mod 2 ^ m * 2 ^ (64 - m) + A div D" .
  have "N div 2 ^ m = 2 * A + b" by (rule sb(1))
  then show ?thesis
    unfolding st udivmod_inv_def
    using q1 step(2,3) [OF c' ge lt] double_div_mod [OF D(2) sb(3), of A] R' by auto
qed


lemma udivmod_loop_inv:
  assumes "udivmod_inv N D s st" and "D = unat (udw_all d)" "0 < D" "N < 2 ^ 64" "s \<le> 63"
    and "D \<le> 2 ^ 63 \<or> (s = 1 \<and> 2 ^ 63 \<le> N)"
  shows "udivmod_inv N D 0 (udivmod_loop s d st)"
  using assms
proof (induction s arbitrary: st)
  case 0
  then show ?case by simp
next
  case (Suc s)
  obtain q r c where st: "st = (q, r, c)" by (cases st)
  have "udivmod_inv N D s (udivmod_step d st)"
    using Suc.prems unfolding st by (intro udivmod_inv_step) auto
  then show ?case
    using Suc by (cases "s = 0") auto
qed

lemma udivmod_loop_correct:
  assumes N: "N = unat (udw_all n)" and D: "D = unat (udw_all d)" "0 < D"
    and s: "0 < s" "s \<le> 63"
    and q: "udw_all q = push_bit (64 - s) (udw_all n)" and r: "udw_all r = drop_bit s (udw_all n)"
    and less: "N div 2 ^ s < D" and H: "D \<le> 2 ^ 63 \<or> (s = 1 \<and> 2 ^ 63 \<le> N)"
    and l: "udivmod_loop s d (q, r, 0) = (q', r', c')"
  shows "unat (push_bit 1 (udw_all q') OR ucast c') = N div D \<and> unat (udw_all r') = N mod D"
proof -
  have N64: "N < 2 ^ 64" using N unat_u64_less by simp
  have "unat (udw_all q) = N * 2 ^ (64 - s) mod (2 ^ s * 2 ^ (64 - s))"
    unfolding q N unat_push_bit using s by (simp flip: power_add)
  then have "udivmod_inv N D s (q, r, 0)"
    unfolding udivmod_inv_def using less r N by (simp add: mult_mod_left unat_drop_bit)
  then have "udivmod_inv N D 0 (q', r', c')"
    using udivmod_loop_inv [OF _ D N64 s(2) H] l by metis
  then have r': "unat (udw_all r') = N mod D" and q': "unat (udw_all q') = N div D div 2"
    and c': "unat c' = N div D mod 2"
    by (auto simp: udivmod_inv_def)
  have "unat c' = 0 \<or> unat c' = 1" using c' by auto
  then have "c' = 0 \<or> c' = 1" by (auto simp: word_nat)
  then have "push_bit 1 (udw_all q') AND ucast c' = 0"
    by (auto simp: and_one_eq mod_2_eq_odd)
  then have "unat (push_bit 1 (udw_all q') OR ucast c') = unat (push_bit 1 (udw_all q')) + unat (ucast c' :: u64)"
    by (rule unat_or_add)
  also have "\<dots> = N div D div 2 * 2 mod 2 ^ 64 + N div D mod 2"
    by (simp only: unat_push_bit q' unat_ucast_u32_u64 c') simp
  also have "N div D div 2 * 2 mod 2 ^ 64 = N div D div 2 * 2"
    by (rule mod_less) (meson N64 div_le_dividend div_times_less_eq_dividend le_less_trans)
  finally show ?thesis using r' by simp
qed

subsection \<open>The initial shift\<close>

lemma bit_u32_beyond [simp]: "32 \<le> i \<Longrightarrow> \<not> bit (x :: u32) i"
  using bit_imp_le_length [of x i] by auto

lemma bit_udw_all: "bit (udw_all d) i = (if i < 32 then bit (s_low d) i else bit (s_high d) (i - 32))"
proof (cases "i < 64")
  case True
  then show ?thesis by (cases "i < 32") (auto simp: udw_all_def bit_simps not_less)
next
  case False
  then show ?thesis using bit_imp_le_length [of "udw_all d" i] by auto
qed

lemma udw_shift_low:
  assumes "0 < s" "s < 32"
  shows "udw_all \<lparr>s_low = push_bit (32 - s) (s_high n) OR drop_bit s (s_low n),
      s_high = drop_bit s (s_high n)\<rparr> = drop_bit s (udw_all n)"
    and "udw_all \<lparr>s_low = 0, s_high = push_bit (32 - s) (s_low n)\<rparr> = push_bit (64 - s) (udw_all n)"
  using assms
  by (auto intro!: bit_word_eqI simp: bit_udw_all bit_simps add.commute not_less split: if_splits)

lemma udw_shift_32:
  "udw_all \<lparr>s_low = s_high n, s_high = 0\<rparr> = drop_bit 32 (udw_all n)"
  "udw_all \<lparr>s_low = 0, s_high = s_low n\<rparr> = push_bit 32 (udw_all n)"
  by (auto intro!: bit_word_eqI simp: bit_udw_all bit_simps add.commute not_less split: if_splits)

lemma udw_shift_high:
  assumes "32 < s" "s < 64"
  shows "udw_all \<lparr>s_low = drop_bit (s - 32) (s_high n), s_high = 0\<rparr> = drop_bit s (udw_all n)"
    and "udw_all \<lparr>s_low = push_bit (64 - s) (s_low n),
        s_high = push_bit (64 - s) (s_high n) OR drop_bit (s - 32) (s_low n)\<rparr>
      = push_bit (64 - s) (udw_all n)"
  using assms
  by (auto intro!: bit_word_eqI simp: bit_udw_all bit_simps add.commute not_less split: if_splits)


lemma ctz_power_of_two:
  assumes "d \<noteq> 0" "d AND (d - 1) = 0"
  shows "unat d = 2 ^ unat (ctzsi2 d)"
proof -
  obtain k where k: "unat d = 2 ^ k" using word_and_pred_eq_0 [OF assms] by blast
  define c where "c = unat (ctzsi2 d)"
  have dvd: "2 ^ c dvd (2::nat) ^ k" and od: "odd ((2::nat) ^ k div 2 ^ c)"
    using ctzsi2_correct [OF assms(1)] k by (auto simp: c_def)
  from dvd have "c \<le> k" by (simp add: power_dvd_imp_le)
  then have "(2::nat) ^ k div 2 ^ c = 2 ^ (k - c)" by (simp add: power_diff)
  with od \<open>c \<le> k\<close> have "c = k" by (cases "k - c") auto
  then show ?thesis using k c_def by simp
qed

lemma clz_bounds:
  assumes "x \<noteq> 0"
  shows "unat (clzsi2 x) \<le> 31" "2 ^ (31 - unat (clzsi2 x)) \<le> unat x" "unat x < 2 ^ (32 - unat (clzsi2 x))"
proof -
  define c where "c = unat (clzsi2 x)"
  have c: "c \<le> 31" and one: "unat x div 2 ^ (31 - c) = 1"
    using clzsi2_correct [OF assms] by (auto simp: c_def)
  then have "2 ^ (31 - c) \<le> unat x" "unat x < 2 * 2 ^ (31 - c)"
    using dividend_less_div_times [of "2 ^ (31 - c)" "unat x"]
    by (auto simp: div_eq_0_iff intro: leI)
  moreover have "32 - c = Suc (31 - c)" using c by simp
  ultimately show "unat (clzsi2 x) \<le> 31" "2 ^ (31 - unat (clzsi2 x)) \<le> unat x"
    "unat x < 2 ^ (32 - unat (clzsi2 x))"
    using c by (auto simp: c_def)
qed


text \<open>What the case analysis in front of the loop has to deliver.\<close>

definition init_ok :: "u64 \<Rightarrow> u64 \<Rightarrow> udivmod_init \<Rightarrow> bool" where
  "init_ok a b x \<longleftrightarrow>
    (case x of
       Trap \<Rightarrow> b = 0
     | Done q r \<Rightarrow> b \<noteq> 0 \<and> unat q = unat a div unat b \<and> unat r = unat a mod unat b
     | Loop sr q r \<Rightarrow> b \<noteq> 0 \<and> 0 < unat sr \<and> unat sr \<le> 63
         \<and> udw_all q = push_bit (64 - unat sr) a \<and> udw_all r = drop_bit (unat sr) a
         \<and> unat a div 2 ^ unat sr < unat b
         \<and> (unat b \<le> 2 ^ 63 \<or> (unat sr = 1 \<and> 2 ^ 63 \<le> unat a)))"

lemma unat_split: "unat x = unat (s_high (udw_of x)) * 2 ^ 32 + unat (s_low (udw_of x))"
  using unat_udw_all [of "udw_of x"] by simp

lemma udivmoddi4_from_init:
  assumes "init_ok a b (udivmoddi4_init a b)"
  shows "udivmoddi4 a b = (if b = 0 then None else Some (a div b, a mod b))"
proof (cases "udivmoddi4_init a b")
  case Trap
  then show ?thesis using assms by (simp add: udivmoddi4_def init_ok_def)
next
  case (Done q r)
  then show ?thesis
    using assms by (auto simp: udivmoddi4_def init_ok_def word_unat_eq_iff unat_div unat_mod)
next
  case (Loop sr q r)
  obtain q' r' c' where l: "udivmod_loop (unat sr) (udw_of b) (q, r, 0) = (q', r', c')"
    by (cases "udivmod_loop (unat sr) (udw_of b) (q, r, 0)")
  have "unat (push_bit 1 (udw_all q') OR ucast c') = unat a div unat b \<and> unat (udw_all r') = unat a mod unat b"
    using assms Loop l
    by (intro udivmod_loop_correct [of _ "udw_of a" _ "udw_of b" "unat sr" q r])
      (auto simp: init_ok_def unat_gt_0)
  moreover have "b \<noteq> 0" using assms Loop by (simp add: init_ok_def)
  ultimately show ?thesis
    unfolding udivmoddi4_def Loop using l by (simp add: word_unat_eq_iff unat_div unat_mod)
qed


lemma high_bounds:
  assumes "s_high (udw_of x) \<noteq> 0"
  defines "c \<equiv> unat (clzsi2 (s_high (udw_of x)))"
  shows "c \<le> 31" "2 ^ (63 - c) \<le> unat x" "unat x < 2 ^ (64 - c)"
proof -
  note b = clz_bounds [OF assms(1), folded c_def]
  show c: "c \<le> 31" by (rule b(1))
  have "(2::nat) ^ (63 - c) = 2 ^ (31 - c) * 2 ^ 32" "(2::nat) ^ (64 - c) = 2 ^ (32 - c) * 2 ^ 32"
    using c by (simp_all only: power_add [symmetric]) simp_all
  moreover have "unat (s_high (udw_of x)) * 2 ^ 32 \<le> unat x"
    "unat x < (unat (s_high (udw_of x)) + 1) * 2 ^ 32"
    using unat_split [of x] unat_u32_less [of "s_low (udw_of x)"] by simp_all
  moreover have "(unat (s_high (udw_of x)) + 1) * 2 ^ 32 \<le> 2 ^ (32 - c) * (2 ^ 32 :: nat)"
    using b(3) by simp
  moreover have "2 ^ (31 - c) * (2 ^ 32 :: nat) \<le> unat (s_high (udw_of x)) * 2 ^ 32"
    using b(2) by simp
  ultimately show "2 ^ (63 - c) \<le> unat x" "unat x < 2 ^ (64 - c)" by linarith+
qed

lemma shift_amount_high:
  assumes a: "s_high (udw_of a) \<noteq> 0" and b: "s_high (udw_of b) \<noteq> 0"
    and sr: "sr = clzsi2 (s_high (udw_of b)) - clzsi2 (s_high (udw_of a))"
  shows "31 < sr \<Longrightarrow> unat a < unat b"
    and "\<not> 31 < sr \<Longrightarrow> 0 < unat (sr + 1) \<and> unat (sr + 1) \<le> 32 \<and> unat a div 2 ^ unat (sr + 1) < unat b
      \<and> (unat b \<le> 2 ^ 63 \<or> (unat (sr + 1) = 1 \<and> 2 ^ 63 \<le> unat a))"
proof -
  define cn cd where "cn = unat (clzsi2 (s_high (udw_of a)))" and "cd = unat (clzsi2 (s_high (udw_of b)))"
  note A = high_bounds [OF a, folded cn_def] and B = high_bounds [OF b, folded cd_def]
  have sr': "unat sr = (if cn \<le> cd then cd - cn else cd + 2 ^ 32 - cn)"
    unfolding sr cn_def cd_def by (simp add: unat_sub_if')
  have cond: "31 < sr \<longleftrightarrow> cd < cn"
    using sr' A(1) B(1) by (auto simp: word_less_nat_alt)
  show "unat a < unat b" if "31 < sr"
  proof -
    have "(2::nat) ^ (64 - cn) \<le> 2 ^ (63 - cd)"
      using that cond A(1) by (intro power_increasing) auto
    then show ?thesis using A(3) B(2) by linarith
  qed
  show "0 < unat (sr + 1) \<and> unat (sr + 1) \<le> 32 \<and> unat a div 2 ^ unat (sr + 1) < unat b
      \<and> (unat b \<le> 2 ^ 63 \<or> (unat (sr + 1) = 1 \<and> 2 ^ 63 \<le> unat a))" if "\<not> 31 < sr"
  proof -
    have le: "cn \<le> cd" using that cond by simp
    then have s: "unat (sr + 1) = cd - cn + 1"
      using sr' B(1) by (simp add: unat_word_ariths)
    have "64 - cn = 63 - cd + (cd - cn + 1)" using le B(1) by simp
    then have "2 ^ (64 - cn) = (2::nat) ^ (63 - cd) * 2 ^ (cd - cn + 1)"
      by (simp only: power_add)
    then have "unat a div 2 ^ (cd - cn + 1) < 2 ^ (63 - cd)"
      using A(3) by (intro less_mult_imp_div_less) simp
    then have "unat a div 2 ^ unat (sr + 1) < unat b" using B(2) s by simp
    moreover have "unat b \<le> 2 ^ 63 \<or> (unat (sr + 1) = 1 \<and> 2 ^ 63 \<le> unat a)"
    proof (cases "cd = 0")
      case True
      then show ?thesis using le s A(2) by simp
    next
      case False
      then have "(2::nat) ^ (64 - cd) \<le> 2 ^ 63" by (intro power_increasing) auto
      then show ?thesis using B(3) by linarith
    qed
    ultimately show ?thesis using s B(1) by simp
  qed
qed

lemma shift_amount_low:
  assumes a: "s_high (udw_of a) \<noteq> 0" and b: "s_high (udw_of b) = 0" "s_low (udw_of b) \<noteq> 0"
    and np: "s_low (udw_of b) AND (s_low (udw_of b) - 1) \<noteq> 0"
    and sr: "sr = 1 + 32 + clzsi2 (s_low (udw_of b)) - clzsi2 (s_high (udw_of a))"
  shows "0 < unat sr \<and> unat sr \<le> 63 \<and> unat a div 2 ^ unat sr < unat b \<and> unat b \<le> 2 ^ 63"
proof -
  define cn cd where "cn = unat (clzsi2 (s_high (udw_of a)))" and "cd = unat (clzsi2 (s_low (udw_of b)))"
  note A = high_bounds [OF a, folded cn_def] and B = clz_bounds [OF b(2), folded cd_def]
  have ub: "unat b = unat (s_low (udw_of b))" using unat_split [of b] b(1) by simp
  have "cd \<noteq> 31"
  proof
    assume "cd = 31"
    then have "unat (s_low (udw_of b)) = 1" using B(2,3) by simp
    then have "s_low (udw_of b) = 1" by (simp add: word_unat_eq_iff)
    with np show False by simp
  qed
  then have s: "unat sr = 33 + cd - cn"
    unfolding sr using A(1) B(1) by (simp add: unat_sub_if' unat_word_ariths cn_def cd_def)
  have "2 ^ (64 - cn) = (2::nat) ^ (31 - cd) * 2 ^ (33 + cd - cn)"
    using A(1) B(1) by (simp only: power_add [symmetric]) simp
  then have "unat a div 2 ^ (33 + cd - cn) < 2 ^ (31 - cd)"
    using A(3) by (intro less_mult_imp_div_less) simp
  then show ?thesis
    using s ub A(1) B(1,2) \<open>cd \<noteq> 31\<close> unat_u32_less [of "s_low (udw_of b)"] by auto
qed


lemma unat_and_pred:
  assumes "unat (d :: u32) = 2 ^ c" "d \<noteq> 0"
  shows "unat (x AND (d - 1)) = unat x mod 2 ^ c"
proof -
  have "unat (d - 1) = mask c"
    using assms by (simp add: unat_minus_one mask_eq_exp_minus_1)
  then show ?thesis
    by (simp add: unsigned_and_eq flip: take_bit_eq_mask take_bit_eq_mod)
qed

lemma init_ok_pow2_high:
  assumes "s_high (udw_of a) \<noteq> 0" "s_low (udw_of b) = 0" "s_high (udw_of b) \<noteq> 0"
    and p2: "s_high (udw_of b) AND (s_high (udw_of b) - 1) = 0"
  shows "init_ok a b (Done (ucast (drop_bit (unat (ctzsi2 (s_high (udw_of b)))) (s_high (udw_of a))))
           (udw_all \<lparr>s_low = s_low (udw_of a), s_high = s_high (udw_of a) AND (s_high (udw_of b) - 1)\<rparr>))"
proof -
  define c where "c = unat (ctzsi2 (s_high (udw_of b)))"
  have dh: "unat (s_high (udw_of b)) = 2 ^ c"
    unfolding c_def by (rule ctz_power_of_two [OF assms(3) p2])
  have ub: "unat b = 2 ^ 32 * 2 ^ c" using unat_split [of b] assms(2) dh by simp
  have ua: "unat a div 2 ^ 32 = unat (s_high (udw_of a))" "unat a mod 2 ^ 32 = unat (s_low (udw_of a))"
    using unat_split [of a] unat_u32_less [of "s_low (udw_of a)"] by simp_all
  have "unat a div unat b = unat (s_high (udw_of a)) div 2 ^ c"
    unfolding ub by (simp only: div_mult2_eq ua)
  moreover have "unat a mod unat b = unat (s_high (udw_of a)) mod 2 ^ c * 2 ^ 32 + unat (s_low (udw_of a))"
    unfolding ub by (simp only: mod_mult2_eq ua) simp
  ultimately show ?thesis
    using dh ub unfolding init_ok_def
    by (simp add: unat_udw_all unat_and_pred [OF dh assms(3)] c_def [symmetric] unat_drop_bit unat_eq_zero [symmetric] del: unat_eq_zero)
qed

lemma init_ok_pow2_low:
  assumes "s_high (udw_of b) = 0" "s_low (udw_of b) \<noteq> 0"
    and p2: "s_low (udw_of b) AND (s_low (udw_of b) - 1) = 0"
    and q: "q = drop_bit (unat (ctzsi2 (s_low (udw_of b)))) a"
  shows "init_ok a b (Done q (ucast (s_low (udw_of a) AND (s_low (udw_of b) - 1))))"
proof -
  define c where "c = unat (ctzsi2 (s_low (udw_of b)))"
  have dl: "unat (s_low (udw_of b)) = 2 ^ c"
    unfolding c_def by (rule ctz_power_of_two [OF assms(2) p2])
  have c: "c \<le> 31" using ctzsi2_correct [OF assms(2)] by (simp add: c_def)
  have ub: "unat b = 2 ^ c" using unat_split [of b] assms(1) dl by simp
  have "(2::nat) ^ 32 = 2 ^ (32 - c) * 2 ^ c" using c by (simp flip: power_add)
  then have "unat a = unat (s_high (udw_of a)) * 2 ^ (32 - c) * 2 ^ c + unat (s_low (udw_of a))"
    using unat_split [of a] by simp
  then have "unat a mod 2 ^ c = unat (s_low (udw_of a)) mod 2 ^ c"
    by simp
  then show ?thesis
    using ub unfolding init_ok_def q
    by (auto simp: unat_and_pred [OF dl assms(2)] c_def [symmetric] unat_drop_bit)
qed


lemma init_ok_small:
  assumes "s_high (udw_of a) = 0"
  shows "init_ok a b (udivmoddi4_init a b)"
proof -
  let ?nl = "s_low (udw_of a)" and ?dl = "s_low (udw_of b)" and ?dh = "s_high (udw_of b)"
  have a: "unat a = unat ?nl" using unat_split [of a] assms by simp
  show ?thesis
  proof (cases "?dh = 0")
    case True
    then have b: "unat b = unat ?dl" using unat_split [of b] by simp
    then have "?dl = 0 \<longleftrightarrow> b = 0" by (simp add: word_unat_eq_iff)
    then show ?thesis
      using assms True a b
      by (auto simp: udivmoddi4_init_def Let_def init_ok_def unat_div unat_mod)
  next
    case False
    then have "1 * 2 ^ 32 \<le> unat ?dh * 2 ^ 32" by (simp add: unat_gt_0 Suc_leI)
    then have "unat a < unat b"
      using a unat_split [of b] unat_u32_less [of ?nl] by simp
    moreover then have "b \<noteq> 0" by auto
    ultimately show ?thesis
      using assms False a by (simp add: udivmoddi4_init_def Let_def init_ok_def)
  qed
qed

lemma unat_32_minus: "unat (t :: u32) < 32 \<Longrightarrow> unat (32 - t) = 32 - unat t"
  by (simp add: unat_sub_if')

lemma init_ok_done0: "unat a < unat b \<Longrightarrow> init_ok a b (Done 0 a)"
  by (auto simp: init_ok_def)

lemma init_ok_loop_high:
  assumes "s_high (udw_of a) \<noteq> 0" "s_high (udw_of b) \<noteq> 0"
    and sr: "s = clzsi2 (s_high (udw_of b)) - clzsi2 (s_high (udw_of a))" "\<not> 31 < s"
  shows "s + 1 \<noteq> 32 \<Longrightarrow> init_ok a b (Loop (s + 1)
             \<lparr>s_low = 0, s_high = push_bit (unat (32 - (s + 1))) (s_low (udw_of a))\<rparr>
             \<lparr>s_low = push_bit (unat (32 - (s + 1))) (s_high (udw_of a)) OR drop_bit (unat (s + 1)) (s_low (udw_of a)),
              s_high = drop_bit (unat (s + 1)) (s_high (udw_of a))\<rparr>)"
    and "s + 1 = 32 \<Longrightarrow> init_ok a b (Loop (s + 1) \<lparr>s_low = 0, s_high = s_low (udw_of a)\<rparr>
             \<lparr>s_low = s_high (udw_of a), s_high = 0\<rparr>)"
proof -
  note S = shift_amount_high(2) [OF assms(1,2) sr]
  have b: "b \<noteq> 0" using assms(2) by (auto simp: udw_of_def)
  show "init_ok a b (Loop (s + 1)
             \<lparr>s_low = 0, s_high = push_bit (unat (32 - (s + 1))) (s_low (udw_of a))\<rparr>
             \<lparr>s_low = push_bit (unat (32 - (s + 1))) (s_high (udw_of a)) OR drop_bit (unat (s + 1)) (s_low (udw_of a)),
              s_high = drop_bit (unat (s + 1)) (s_high (udw_of a))\<rparr>)" if "s + 1 \<noteq> 32"
  proof -
    have "unat (s + 1) \<noteq> 32" using that by (auto simp: word_unat_eq_iff)
    then have l: "unat (s + 1) < 32" using S by simp
    then have "unat (32 - (s + 1)) = 32 - unat (s + 1)" by (rule unat_32_minus)
    then show ?thesis
      using S l b udw_shift_low [of "unat (s + 1)" "udw_of a"] by (simp add: init_ok_def)
  qed
  show "init_ok a b (Loop (s + 1) \<lparr>s_low = 0, s_high = s_low (udw_of a)\<rparr>
             \<lparr>s_low = s_high (udw_of a), s_high = 0\<rparr>)" if "s + 1 = 32"
    using S b udw_shift_32 [of "udw_of a"] unfolding that by (simp add: init_ok_def)
qed


lemma init_ok_K0:
  assumes nh: "s_high (udw_of a) \<noteq> 0" and dl: "s_low (udw_of b) = 0"
  shows "init_ok a b (udivmoddi4_init a b)"
proof -
  let ?nh = "s_high (udw_of a)" and ?nl = "s_low (udw_of a)" and ?dh = "s_high (udw_of b)"
  have b: "unat b = unat ?dh * 2 ^ 32" using unat_split [of b] dl by simp
  consider "?dh = 0" | "?dh \<noteq> 0" "?nl = 0" | "?dh \<noteq> 0" "?nl \<noteq> 0" "?dh AND (?dh - 1) = 0"
    | "?dh \<noteq> 0" "?nl \<noteq> 0" "?dh AND (?dh - 1) \<noteq> 0" by blast
  then show ?thesis
  proof cases
    case 1
    then show ?thesis
      using nh dl b by (simp add: udivmoddi4_init_def Let_def init_ok_def word_unat_eq_iff)
  next
    case 2
    then have a: "unat a = unat ?nh * 2 ^ 32" using unat_split [of a] by simp
    have "unat a div unat b = unat ?nh div unat ?dh" "unat a mod unat b = unat ?nh mod unat ?dh * 2 ^ 32"
      unfolding a b by (simp_all add: mult_mod_left)
    moreover have "b \<noteq> 0" using b 2 by (auto simp: word_unat_eq_iff)
    ultimately show ?thesis
      using nh dl 2 by (simp add: udivmoddi4_init_def Let_def init_ok_def unat_udw_all unat_div unat_mod)
  next
    case 3
    then show ?thesis
      using nh dl init_ok_pow2_high [OF nh dl] by (simp add: udivmoddi4_init_def Let_def)
  next
    case 4
    define s where "s = clzsi2 ?dh - clzsi2 ?nh"
    have ne: "s \<noteq> 31"
    proof
      assume "s = 31"
      then have "unat (clzsi2 ?dh) = 31"
        using clz_bounds(1) [OF nh] clz_bounds(1) [OF 4(1)] unfolding s_def
        by (auto simp: word_unat_eq_iff unat_sub_if' split: if_splits)
      then have "unat ?dh = 1" using clz_bounds(2,3) [OF 4(1)] by simp
      then have "?dh = 1" by (simp add: word_unat_eq_iff)
      with 4 show False by simp
    qed
    then have g: "30 < s \<longleftrightarrow> 31 < s" by (auto simp: word_less_nat_alt word_unat_eq_iff)
    have ne': "s + 1 \<noteq> 32"
    proof
      assume "s + 1 = 32"
      then have "s = 32 - 1" by (simp only: eq_diff_eq)
      with ne show False by simp
    qed
    show ?thesis
    proof (cases "31 < s")
      case True
      then show ?thesis
        using nh dl 4 g shift_amount_high(1) [OF nh 4(1) s_def]
        by (simp add: udivmoddi4_init_def Let_def init_ok_done0 s_def)
    next
      case False
      then show ?thesis
        using nh dl 4 g init_ok_loop_high(1) [OF nh 4(1) s_def False ne']
        by (simp add: udivmoddi4_init_def Let_def s_def)
    qed
  qed
qed

lemma udivmoddi4_init_0K:
  assumes "s_high (udw_of a) \<noteq> 0" "s_low (udw_of b) \<noteq> 0" "s_high (udw_of b) = 0"
    and "s_low (udw_of b) AND (s_low (udw_of b) - 1) \<noteq> 0"
    and s: "s = 1 + 32 + clzsi2 (s_low (udw_of b)) - clzsi2 (s_high (udw_of a))"
  shows "s = 32 \<Longrightarrow> udivmoddi4_init a b =
      Loop s \<lparr>s_low = 0, s_high = s_low (udw_of a)\<rparr> \<lparr>s_low = s_high (udw_of a), s_high = 0\<rparr>"
    and "s \<noteq> 32 \<Longrightarrow> s < 32 \<Longrightarrow> udivmoddi4_init a b =
      Loop s \<lparr>s_low = 0, s_high = push_bit (unat (32 - s)) (s_low (udw_of a))\<rparr>
        \<lparr>s_low = push_bit (unat (32 - s)) (s_high (udw_of a)) OR drop_bit (unat s) (s_low (udw_of a)),
         s_high = drop_bit (unat s) (s_high (udw_of a))\<rparr>"
    and "s \<noteq> 32 \<Longrightarrow> \<not> s < 32 \<Longrightarrow> udivmoddi4_init a b =
      Loop s \<lparr>s_low = push_bit (unat (64 - s)) (s_low (udw_of a)),
         s_high = push_bit (unat (64 - s)) (s_high (udw_of a)) OR drop_bit (unat (s - 32)) (s_low (udw_of a))\<rparr>
        \<lparr>s_low = drop_bit (unat (s - 32)) (s_high (udw_of a)), s_high = 0\<rparr>"
  unfolding udivmoddi4_init_def Let_def s [symmetric] using assms(1-4) by (simp_all only: if_False if_True simp_thms)

lemma init_ok_0K:
  assumes nh: "s_high (udw_of a) \<noteq> 0" and dl: "s_low (udw_of b) \<noteq> 0" and dh: "s_high (udw_of b) = 0"
  shows "init_ok a b (udivmoddi4_init a b)"
proof (cases "s_low (udw_of b) AND (s_low (udw_of b) - 1) = 0")
  case True
  let ?c = "ctzsi2 (s_low (udw_of b))"
  have p: "unat (s_low (udw_of b)) = 2 ^ unat ?c" by (rule ctz_power_of_two [OF dl True])
  show ?thesis
  proof (cases "s_low (udw_of b) = 1")
    case one: True
    then have "(2::nat) ^ unat ?c = 1" using p by simp
    then have "unat ?c = 0" by (cases "unat ?c") simp_all
    then show ?thesis
      using nh dl dh True one init_ok_pow2_low [OF dh dl True, of a a] by (simp add: udivmoddi4_init_def Let_def)
  next
    case False
    have "unat ?c \<noteq> 0" using p False by (auto simp: word_unat_eq_iff)
    moreover have "unat ?c < 32" using ctzsi2_correct [OF dl] by simp
    ultimately show ?thesis
      using nh dl dh True False init_ok_pow2_low [OF dh dl True refl, of a]
        udw_shift_low(1) [of "unat ?c" "udw_of a"] unat_32_minus [of ?c]
      by (simp add: udivmoddi4_init_def Let_def)
  qed
next
  case False
  define s where "s = 1 + 32 + clzsi2 (s_low (udw_of b)) - clzsi2 (s_high (udw_of a))"
  note S = shift_amount_low [OF nh dh dl False s_def]
  note I = udivmoddi4_init_0K [OF nh dl dh False s_def]
  have b: "b \<noteq> 0" using dl by (auto simp: udw_of_def)
  consider "s = 32" | "s < 32" "s \<noteq> 32" | "\<not> s < 32" "s \<noteq> 32" by blast
  then show ?thesis
  proof cases
    case 1
    then show ?thesis
      using S b udw_shift_32 [of "udw_of a"] unfolding I(1) [OF 1] init_ok_def by simp
  next
    case 2
    then have "unat s < 32" by (simp add: word_less_nat_alt)
    then show ?thesis
      using S b udw_shift_low [of "unat s" "udw_of a"] unat_32_minus [of s]
      unfolding I(2) [OF 2(2,1)] init_ok_def by simp
  next
    case 3
    then have s: "32 < unat s" by (auto simp: word_less_nat_alt word_unat_eq_iff)
    then have "unat (64 - s) = 64 - unat s" "unat (s - 32) = unat s - 32"
      using S by (simp_all add: unat_sub_if')
    then show ?thesis
      using S b s udw_shift_high [of "unat s" "udw_of a"]
      unfolding I(3) [OF 3(2,1)] init_ok_def by simp
  qed
qed

lemma init_ok_KK:
  assumes nh: "s_high (udw_of a) \<noteq> 0" and dl: "s_low (udw_of b) \<noteq> 0" and dh: "s_high (udw_of b) \<noteq> 0"
  shows "init_ok a b (udivmoddi4_init a b)"
proof -
  define s where "s = clzsi2 (s_high (udw_of b)) - clzsi2 (s_high (udw_of a))"
  show ?thesis
  proof (cases "31 < s")
    case True
    then show ?thesis
      using nh dl dh shift_amount_high(1) [OF nh dh s_def]
      by (simp add: udivmoddi4_init_def Let_def init_ok_done0 flip: s_def)
  next
    case False
    then show ?thesis
      using nh dl dh init_ok_loop_high [OF nh dh s_def False]
      by (simp add: udivmoddi4_init_def Let_def flip: s_def)
  qed
qed

lemma udivmoddi4_eq: "udivmoddi4 a b = (if b = 0 then None else Some (a div b, a mod b))"
proof -
  have "init_ok a b (udivmoddi4_init a b)"
    using init_ok_small init_ok_K0 init_ok_0K init_ok_KK by blast
  then show ?thesis by (rule udivmoddi4_from_init)
qed


subsection \<open>Signed division\<close>

lemma sign_word: "signed_drop_bit 63 (y :: u64) = (if sint y < 0 then - 1 else 0)"
proof (rule bit_word_eqI)
  fix n assume "n < LENGTH(64)"
  then show "bit (signed_drop_bit 63 y) n = bit (if sint y < 0 then - 1 else 0 :: u64) n"
    using bit_last_iff [of y] by (cases n) (auto simp: bit_simps)
qed

lemma cond_negate_mask:
  "((x :: u64) XOR (if c then - 1 else 0)) - (if c then - 1 else 0) = (if c then - x else x)"
  by (simp add: not_eq_complement)

lemma cond_negate: "((x :: u64) XOR signed_drop_bit 63 y) - signed_drop_bit 63 y = (if sint y < 0 then - x else x)"
  unfolding sign_word by (rule cond_negate_mask)

lemma uint_abs:
  fixes a :: "'a::len word"
  shows "uint (if sint a < 0 then - a else a) = \<bar>sint a\<bar>"
proof -
  have r: "- (2 ^ (LENGTH('a) - 1)) \<le> sint a" "sint a < 2 ^ (LENGTH('a) - 1)"
    by (rule sint_ge, rule sint_lt)
  have "(2 :: int) ^ (LENGTH('a) - 1) < 2 ^ LENGTH('a)" by (rule power_strict_increasing) simp_all
  then have "\<bar>sint a\<bar> < 2 ^ LENGTH('a)" using r by linarith
  then have m: "\<bar>sint a\<bar> mod 2 ^ LENGTH('a) = \<bar>sint a\<bar>" by simp
  have "(if sint a < 0 then - a else a) = word_of_int \<bar>sint a\<bar>" by simp
  then show ?thesis using m by (simp only: uint_word_of_int)
qed

text \<open>
  The contract of an unsigned divider and what the signed routines, which strip the signs,
  divide and put the sign back, make of it.
\<close>

locale unsigned_divider =
  fixes udm :: "u64 \<Rightarrow> u64 \<Rightarrow> (u64 \<times> u64) option"
  assumes udm_eq: "udm a b = (if b = 0 then None else Some (a div b, a mod b))"
begin

lemma udm_euclid:
  assumes "b \<noteq> 0"
  shows "\<exists>q r. udm a b = Some (q, r) \<and> unat a = unat q * unat b + unat r \<and> unat r < unat b"
proof -
  have "0 < unat b" using assms by (simp add: unat_gt_0)
  then show ?thesis
    using assms by (simp add: udm_eq unat_div_distrib unat_mod_distrib)
qed

lemma signed_quotient:
  fixes a b :: u64
  defines "sa \<equiv> signed_drop_bit 63 a" and "sb \<equiv> signed_drop_bit 63 b"
  shows "map_option (\<lambda>(q, r). (q XOR (sa XOR sb)) - (sa XOR sb))
      (udm ((a XOR sa) - sa) ((b XOR sb) - sb))
    = (if b = 0 then None else Some (word_of_int (sint a sdiv sint b)))"
proof (cases "b = 0")
  case True
  then show ?thesis by (simp add: sa_def sb_def cond_negate udm_eq)
next
  case False
  define A B where "A = (if sint a < 0 then - a else a)" and "B = (if sint b < 0 then - b else b)"
  have B: "B \<noteq> 0" using False by (simp add: B_def)
  have q: "A div B = word_of_int (\<bar>sint a\<bar> div \<bar>sint b\<bar>)"
    unfolding word_div_def A_def B_def uint_abs ..
  have x: "sa XOR sb = (if (sint a < 0) \<noteq> (sint b < 0) then - 1 else 0)"
    by (simp add: sa_def sb_def sign_word)
  have "map_option (\<lambda>(q, r). (q XOR (sa XOR sb)) - (sa XOR sb)) (udm A B)
      = Some (if (sint a < 0) \<noteq> (sint b < 0) then - (A div B) else A div B)"
    using B unfolding udm_eq x cond_negate_mask by simp
  then show ?thesis
    using False unfolding q by (auto simp: A_def B_def sa_def sb_def cond_negate signed_divide_int_def sgn_if)
qed

lemma signed_remainder:
  fixes a b :: u64
  defines "sa \<equiv> signed_drop_bit 63 a" and "sb \<equiv> signed_drop_bit 63 b"
  shows "map_option (\<lambda>(q, r). (r XOR sa) - sa) (udm ((a XOR sa) - sa) ((b XOR sb) - sb))
    = (if b = 0 then None else Some (word_of_int (sint a smod sint b)))"
proof (cases "b = 0")
  case True
  then show ?thesis by (simp add: sa_def sb_def cond_negate udm_eq)
next
  case False
  define A B where "A = (if sint a < 0 then - a else a)" and "B = (if sint b < 0 then - b else b)"
  have B: "B \<noteq> 0" using False by (simp add: B_def)
  have r: "A mod B = word_of_int (\<bar>sint a\<bar> mod \<bar>sint b\<bar>)"
    unfolding word_mod_def A_def B_def uint_abs ..
  have "map_option (\<lambda>(q, r). (r XOR sa) - sa) (udm A B)
      = Some (if sint a < 0 then - (A mod B) else A mod B)"
    using B unfolding udm_eq sa_def cond_negate by simp
  then show ?thesis
    using False unfolding r by (auto simp: A_def B_def sa_def sb_def cond_negate signed_modulo_int_def sgn_if)
qed

end

interpretation klib_div: unsigned_divider udivmoddi4
  by unfold_locales (rule udivmoddi4_eq)

lemma divdi3_eq: "divdi3 a b = (if b = 0 then None else Some (word_of_int (sint a sdiv sint b)))"
  unfolding divdi3_def Let_def by (rule klib_div.signed_quotient)

lemma moddi3_eq: "moddi3 a b = (if b = 0 then None else Some (word_of_int (sint a smod sint b)))"
  unfolding moddi3_def Let_def by (rule klib_div.signed_remainder)

lemma divmoddi4_eq:
  "divmoddi4 a b = (if b = 0 then None
     else Some (word_of_int (sint a sdiv sint b), word_of_int (sint a smod sint b)))"
proof -
  have "a - word_of_int (sint a sdiv sint b) * b = word_of_int (sint a - (sint a sdiv sint b) * sint b)"
    by simp
  also have "\<dots> = word_of_int (sint a smod sint b)"
    by (simp add: minus_sdiv_mult_eq_smod)
  finally show ?thesis by (simp add: divmoddi4_def divdi3_eq)
qed

lemma clzdi2_correct:
  assumes "X \<noteq> 0"
  shows "unat (clzdi2 X) \<le> 63 \<and> unat X div 2 ^ (63 - unat (clzdi2 X)) = 1"
proof (cases "s_high (udw_of X) = 0")
  case True
  then have X: "unat X = unat (s_low (udw_of X))" using unat_split [of X] by simp
  then have nz: "s_low (udw_of X) \<noteq> 0" using assms by (auto simp: word_unat_eq_iff)
  have "clzdi2 X = clzsi2 (s_low (udw_of X)) + 32"
    using True by (simp add: clzdi2_def Let_def c_bool_def)
  then have "unat (clzdi2 X) = unat (clzsi2 (s_low (udw_of X))) + 32"
    using clzsi2_correct [OF nz] by (simp add: unat_word_ariths)
  then show ?thesis using clzsi2_correct [OF nz] X by simp
next
  case False
  define c where "c = unat (clzsi2 (s_high (udw_of X)))"
  have c: "c \<le> 31" "unat (s_high (udw_of X)) div 2 ^ (31 - c) = 1"
    using clzsi2_correct [OF False] by (simp_all add: c_def)
  have "unat X div 2 ^ 32 = unat (s_high (udw_of X))"
    using unat_split [of X] unat_u32_less [of "s_low (udw_of X)"] by simp
  moreover have "63 - c = 32 + (31 - c)" using c by simp
  ultimately have "unat X div 2 ^ (63 - c) = 1"
    using c(2) by (simp only: div_exp_div_exp [symmetric])
  moreover have "clzdi2 X = clzsi2 (s_high (udw_of X))"
    using False by (simp add: clzdi2_def Let_def c_bool_def)
  ultimately show ?thesis using c by (simp add: c_def)
qed

lemma ctzdi2_correct:
  assumes "X \<noteq> 0"
  shows "unat (ctzdi2 X) \<le> 63 \<and> 2 ^ unat (ctzdi2 X) dvd unat X \<and> odd (unat X div 2 ^ unat (ctzdi2 X))"
proof (cases "s_low (udw_of X) = 0")
  case True
  then have X: "unat X = unat (s_high (udw_of X)) * 2 ^ 32" using unat_split [of X] by simp
  then have nz: "s_high (udw_of X) \<noteq> 0" using assms by (auto simp: word_unat_eq_iff)
  define c where "c = unat (ctzsi2 (s_high (udw_of X)))"
  have c: "c \<le> 31" "2 ^ c dvd unat (s_high (udw_of X))" "odd (unat (s_high (udw_of X)) div 2 ^ c)"
    using ctzsi2_correct [OF nz] by (simp_all add: c_def)
  have "ctzdi2 X = ctzsi2 (s_high (udw_of X)) + 32"
    using True by (simp add: ctzdi2_def Let_def c_bool_def)
  then have u: "unat (ctzdi2 X) = c + 32"
    using c(1) by (simp add: unat_word_ariths c_def)
  have "unat X div 2 ^ (c + 32) = unat (s_high (udw_of X)) div 2 ^ c"
    unfolding X by (simp only: power_add) simp
  moreover have "2 ^ (c + 32) dvd unat X"
    unfolding X using c(2) by (simp only: power_add) (rule mult_dvd_mono, simp_all)
  ultimately show ?thesis using c u by simp
next
  case False
  define c where "c = unat (ctzsi2 (s_low (udw_of X)))"
  have c: "c \<le> 31" "2 ^ c dvd unat (s_low (udw_of X))" "odd (unat (s_low (udw_of X)) div 2 ^ c)"
    using ctzsi2_correct [OF False] by (simp_all add: c_def)
  have X: "unat X = unat (s_high (udw_of X)) * 2 ^ (31 - c) * 2 * 2 ^ c + unat (s_low (udw_of X))"
  proof -
    have "(2::nat) ^ (31 - c) * 2 * 2 ^ c = 2 ^ 32"
      using c(1) by (simp add: power_add [symmetric] flip: power_Suc)
    then show ?thesis using unat_split [of X] by (metis mult.assoc)
  qed
  have "unat X div 2 ^ c = unat (s_high (udw_of X)) * 2 ^ (31 - c) * 2 + unat (s_low (udw_of X)) div 2 ^ c"
    by (subst X) simp
  moreover have "2 ^ c dvd unat X" by (subst X) (use c(2) in simp)
  moreover have "ctzdi2 X = ctzsi2 (s_low (udw_of X))"
    using False by (simp add: ctzdi2_def Let_def c_bool_def)
  ultimately show ?thesis using c by (simp add: c_def)
qed

section \<open>Properties\<close>

text \<open>
  C1: \<open>__udivmoddi4\<close> traps exactly when the divisor is zero; otherwise it returns the quotient
  and the remainder of the unsigned division of its 64-bit arguments, whichever of its special
  cases or its shift-subtract loop computes them.
\<close>
theorem udivmoddi4_correct:
  "(udivmoddi4 a 0 = None) \<and>
   (b \<noteq> 0 \<longrightarrow> (\<exists>q r. udivmoddi4 a b = Some (q, r)
       \<and> unat a = unat q * unat b + unat r \<and> unat r < unat b))"
  using klib_div.udm_euclid [of b a] by (simp add: udivmoddi4_eq)

theorem udivmoddi4_correct_witness:
  "\<exists>q r. udivmoddi4 0xFFFFFFFF00000007 0x300000005 = Some (q, r)
     \<and> unat (0xFFFFFFFF00000007 :: u64) = unat q * unat (0x300000005 :: u64) + unat r
     \<and> unat r < unat (0x300000005 :: u64)"
  using udivmoddi4_correct [of "0xFFFFFFFF00000007" "0x300000005"] by simp

text \<open>
  \<open>__divmoddi4\<close> is C's signed division: it traps on a zero divisor, otherwise its quotient
  truncates towards zero and its remainder has the sign of the dividend, both reduced to 64 bits
  (so that \<open>INT64_MIN / -1\<close> wraps); \<open>__divdi3\<close> and \<open>__moddi3\<close> return the same two
  values.
\<close>
theorem divmoddi4_correct:
  "divmoddi4 a b = (if b = 0 then None
     else Some (word_of_int (sint a sdiv sint b), word_of_int (sint a smod sint b)))
   \<and> divdi3 a b = map_option fst (divmoddi4 a b)
   \<and> moddi3 a b = map_option snd (divmoddi4 a b)"
  by (simp add: divmoddi4_eq divdi3_eq moddi3_eq)

text \<open>
  for a non-zero word, \<open>__clzdi2\<close> is the number of zero bits above the highest set bit and
  \<open>__ctzdi2\<close> the number of zero bits below the lowest one.
\<close>
theorem count_zeros_correct:
  assumes "X \<noteq> 0"
  shows "unat (clzdi2 X) \<le> 63 \<and> unat X div 2 ^ (63 - unat (clzdi2 X)) = 1
    \<and> unat (ctzdi2 X) \<le> 63 \<and> 2 ^ unat (ctzdi2 X) dvd unat X
    \<and> odd (unat X div 2 ^ unat (ctzdi2 X))"
  using clzdi2_correct [OF assms] ctzdi2_correct [OF assms] by simp

theorem count_zeros_correct_witness:
  "unat (clzdi2 0x5000) \<le> 63 \<and> unat (0x5000 :: u64) div 2 ^ (63 - unat (clzdi2 0x5000)) = 1
    \<and> unat (ctzdi2 0x5000) \<le> 63 \<and> 2 ^ unat (ctzdi2 0x5000) dvd unat (0x5000 :: u64)
    \<and> odd (unat (0x5000 :: u64) div 2 ^ unat (ctzdi2 0x5000))"
  by (rule count_zeros_correct) simp

end
