(* ===== verification/Am_Libgcc.thy ===== *)
theory Am_Libgcc
  imports Int64 "HOL-Library.Signed_Division"
begin

text \<open>
  The compiler support routines of the \<open>riscv32-npc\<close> port
  (\<open>abstract-machine/am/src/riscv/npc/libgcc\<close>).  The port is built for RV32I, so every
  multiplication and division of the programs it runs is a call of these routines:
  \<open>__mulsi3\<close> (\<open>muldi3.S\<close>), \<open>__udivsi3\<close>, \<open>__umodsi3\<close>, \<open>__divsi3\<close> and \<open>__modsi3\<close>
  (\<open>div.S\<close>), \<open>__muldi3\<close> (\<open>multi3.c\<close>) and \<open>__ashldi3\<close> (\<open>ashldi3.c\<close>).

  \<open>DWunion\<close> is the record \<open>udwords\<close> of \<open>Int64\<close>: both unions lay a 64-bit value over its low
  and its high word.  The assembly loops are recursive functions over the registers they
  change, one per label that is jumped back to.  A C shift by a count that is negative or not
  below the width is undefined; it is the result \<open>None\<close>.

  The theorems: the four division routines are the instructions \<open>divu\<close>, \<open>remu\<close>, \<open>div\<close> and
  \<open>rem\<close> of the M extension, the special cases of division by zero and of signed overflow
  included; the products are the products modulo the word size; the shift is the 64-bit shift.
\<close>

unbundle bit_operations_syntax

section \<open>Multiplication\<close>

text \<open>
  The loop at \<open>.L1\<close> of \<open>muldi3.S\<close>: \<open>a0\<close> the sum, \<open>a1\<close> what is left of the multiplier, \<open>a2\<close> the
  shifted multiplicand.
\<close>

function mulsi3_L1 :: "u32 \<Rightarrow> u32 \<Rightarrow> u32 \<Rightarrow> u32" where
  "mulsi3_L1 a0 a1 a2 =
    (let a0 = (if a1 AND 1 = 0 then a0 else a0 + a2);
         a1 = drop_bit 1 a1;
         a2 = push_bit 1 a2
     in if a1 \<noteq> 0 then mulsi3_L1 a0 a1 a2 else a0)"
  by pat_completeness auto

lemma unat_drop_1_less: "drop_bit 1 (x :: u32) \<noteq> 0 \<Longrightarrow> unat (drop_bit 1 x) < unat x"
proof -
  assume "drop_bit 1 x \<noteq> 0"
  then have "0 < unat x" by (cases "x = 0") (simp_all add: unat_gt_0)
  then show ?thesis unfolding unat_drop_bit by simp
qed

termination mulsi3_L1
  by (relation "measure (\<lambda>(a0, a1, a2). unat a1)", rule wf_measure)
    (simp only: in_measure prod.case, rule unat_drop_1_less)

declare mulsi3_L1.simps [simp del]

definition mulsi3 :: "u32 \<Rightarrow> u32 \<Rightarrow> u32" where
  "mulsi3 a0 a1 = mulsi3_L1 0 a1 a0"

text \<open>The loop of \<open>__multi3\<close>, which for 32-bit words is \<open>__muldi3\<close>; the result is the pair of
  \<open>w_low\<close> and \<open>w_high\<close>.\<close>

function muldi3_loop :: "u32 \<Rightarrow> u32 \<Rightarrow> u32 \<Rightarrow> u32 \<Rightarrow> u32 \<Rightarrow> u32 \<times> u32" where
  "muldi3_loop u_low v_low w_low w_high w_high_tmp =
    (let new_w_low = w_low + u_low;
         w_high_tmp2x = push_bit 1 w_high_tmp;
         w_high_tmp = w_high_tmp + w_high;
         (w_low, w_high) =
           (if v_low AND 1 \<noteq> 0
            then (new_w_low, (if new_w_low < w_low then 1 else 0) + w_high_tmp)
            else (w_low, w_high));
         u_low_msb = drop_bit 31 u_low;
         v_low = drop_bit 1 v_low;
         u_low = push_bit 1 u_low;
         w_high_tmp = u_low_msb OR w_high_tmp2x
     in if v_low \<noteq> 0 then muldi3_loop u_low v_low w_low w_high w_high_tmp else (w_low, w_high))"
  by pat_completeness auto

termination muldi3_loop
  by (relation "measure (\<lambda>(u, v, w, h, t). unat v)", rule wf_measure)
    (simp only: in_measure prod.case, rule unat_drop_1_less)

declare muldi3_loop.simps [simp del]

definition muldi3 :: "u64 \<Rightarrow> u64 \<Rightarrow> u64" where
  "muldi3 u v =
    (let uu = udw_of u;
         vv = udw_of v;
         (w_low, w_high) = muldi3_loop (s_low uu) (s_low vv) 0 0 0;
         w_high = (if s_high uu \<noteq> 0 then w_high + mulsi3 (s_low vv) (s_high uu) else w_high);
         w_high = (if s_high vv \<noteq> 0 then w_high + mulsi3 (s_low uu) (s_high vv) else w_high)
     in udw_all \<lparr>s_low = w_low, s_high = w_high\<rparr>)"

section \<open>The 64-bit left shift\<close>

definition shl :: "u32 \<Rightarrow> int \<Rightarrow> u32 option" where
  "shl x n = (if 0 \<le> n \<and> n < 32 then Some (push_bit (nat n) x) else None)"

definition shr :: "u32 \<Rightarrow> int \<Rightarrow> u32 option" where
  "shr x n = (if 0 \<le> n \<and> n < 32 then Some (drop_bit (nat n) x) else None)"

definition ashldi3 :: "u64 \<Rightarrow> int \<Rightarrow> u64 option" where
  "ashldi3 u b =
    (if b = 0 then Some u
     else
       let uu = udw_of u;
           bm = 32 - b
       in if bm \<le> 0
          then map_option (\<lambda>high. udw_all \<lparr>s_low = 0, s_high = high\<rparr>) (shl (s_low uu) (- bm))
          else (case (shr (s_low uu) bm, shl (s_low uu) b, shl (s_high uu) b) of
                 (Some carries, Some low, Some high) \<Rightarrow>
                   Some (udw_all \<lparr>s_low = low, s_high = high OR carries\<rparr>)
               | _ \<Rightarrow> None))"

section \<open>Division\<close>

text \<open>The loops at \<open>.L1\<close> (scale the divisor up) and \<open>.L3\<close> (subtract and scale down) of
  \<open>div.S\<close>.\<close>

function udivsi3_L1 :: "u32 \<Rightarrow> u32 \<Rightarrow> u32 \<Rightarrow> u32 \<times> u32" where
  "udivsi3_L1 a1 a2 a3 =
    (if sint a2 \<le> 0 then (a2, a3)
     else
       let a2 = push_bit 1 a2;
           a3 = push_bit 1 a3
       in if a2 < a1 then udivsi3_L1 a1 a2 a3 else (a2, a3))"
  by pat_completeness auto

lemma sint_pos_u32: "\<not> sint (x :: u32) \<le> 0 \<longleftrightarrow> 0 < unat x \<and> unat x < 2 ^ 31"
proof -
  have "sint x = 0 \<longleftrightarrow> x = 0" using signed_eq_0_iff by blast
  then show ?thesis
    using sint_u32_neg_iff [of x] by (auto simp: unat_gt_0 not_le order_le_less)
qed

lemma unat_push_1: "unat (x :: u32) < 2 ^ 31 \<Longrightarrow> unat (push_bit 1 x) = 2 * unat x"
  unfolding unat_push_bit by simp

termination udivsi3_L1
proof (relation "measure (\<lambda>(a1, a2, a3). 2 ^ 32 - unat a2)")
  fix a1 a2 a3 x xa :: u32
  assume "\<not> sint a2 \<le> 0" and x: "x = push_bit 1 a2"
  then have "0 < unat a2" "unat a2 < 2 ^ 31" by (simp_all only: sint_pos_u32)
  then show "((a1, x, xa), (a1, a2, a3)) \<in> measure (\<lambda>(a1, a2, a3). 2 ^ 32 - unat a2)"
    unfolding x in_measure prod.case unat_push_1 [OF \<open>unat a2 < 2 ^ 31\<close>] by simp
qed simp

declare udivsi3_L1.simps [simp del]

function udivsi3_L3 :: "u32 \<Rightarrow> u32 \<Rightarrow> u32 \<Rightarrow> u32 \<Rightarrow> u32 \<times> u32" where
  "udivsi3_L3 a0 a1 a2 a3 =
    (let (a0, a1) = (if a1 < a2 then (a0, a1) else (a0 OR a3, a1 - a2));
         a3 = drop_bit 1 a3;
         a2 = drop_bit 1 a2
     in if a3 \<noteq> 0 then udivsi3_L3 a0 a1 a2 a3 else (a0, a1))"
  by pat_completeness auto

termination udivsi3_L3
  by (relation "measure (\<lambda>(a0, a1, a2, a3). unat a3)", rule wf_measure)
    (simp only: in_measure prod.case, rule unat_drop_1_less)

declare udivsi3_L3.simps [simp del]

text \<open>The quotient is returned in \<open>a0\<close>, the remainder left in \<open>a1\<close>.\<close>

definition udivsi3 :: "u32 \<Rightarrow> u32 \<Rightarrow> u32 \<times> u32" where
  "udivsi3 a0 a1 =
    (let a2 = a1; a1 = a0
     in if a2 = 0 then (- 1, a1)
        else let (a2, a3) = (if a1 \<le> a2 then (a2, 1) else udivsi3_L1 a1 a2 1)
             in udivsi3_L3 0 a1 a2 a3)"

definition umodsi3 :: "u32 \<Rightarrow> u32 \<Rightarrow> u32" where
  "umodsi3 a0 a1 = snd (udivsi3 a0 a1)"

definition divsi3 :: "u32 \<Rightarrow> u32 \<Rightarrow> u32" where
  "divsi3 a0 a1 =
    (if sint a0 < 0
     then if 0 < sint a1 then - fst (udivsi3 (- a0) a1)
          else fst (udivsi3 (- a0) (- a1))
     else if sint a1 < 0 then - fst (udivsi3 a0 (- a1))
     else fst (udivsi3 a0 a1))"

definition modsi3 :: "u32 \<Rightarrow> u32 \<Rightarrow> u32" where
  "modsi3 a0 a1 =
    (if sint a1 < 0
     then if 0 \<le> sint a0 then snd (udivsi3 a0 (- a1)) else - snd (udivsi3 (- a0) (- a1))
     else if sint a0 < 0 then - snd (udivsi3 (- a0) a1)
     else snd (udivsi3 a0 a1))"


section \<open>The products\<close>

lemma odd_and_1: "(x :: u32) AND 1 = 0 \<longleftrightarrow> even x"
  by (simp add: and_one_eq even_iff_mod_2_eq_zero)

lemma halves: "(x :: u32) = 2 * drop_bit 1 x + (x AND 1)"
proof -
  have "x AND 1 = x mod 2" by (rule and_one_eq)
  moreover have "drop_bit 1 x = x div 2" by (simp add: drop_bit_eq_div)
  ultimately show ?thesis using mult_div_mod_eq [of 2 x] by (simp only:)
qed

lemma mulsi3_L1_eq: "mulsi3_L1 a0 a1 a2 = a0 + a1 * a2"
proof (induction a0 a1 a2 rule: mulsi3_L1.induct)
  case (1 a0 a1 a2)
  let ?a0 = "if a1 AND 1 = 0 then a0 else a0 + a2"
  have s: "?a0 + drop_bit 1 a1 * push_bit 1 a2 = a0 + a1 * a2"
  proof -
    have "a0 + a1 * a2 = a0 + (2 * drop_bit 1 a1 + (a1 AND 1)) * a2" by (simp only: halves [symmetric])
    moreover have "?a0 = a0 + (a1 AND 1) * a2" by (auto simp: and_one_eq)
    ultimately show ?thesis by (simp add: algebra_simps push_bit_eq_mult)
  qed
  show ?case
    using 1 [OF refl refl refl] s
    by (subst mulsi3_L1.simps) (auto simp: Let_def simp del: push_bit_numeral)
qed

lemma mulsi3_eq: "mulsi3 a b = a * b"
  by (simp add: mulsi3_def mulsi3_L1_eq)

text \<open>A double word as its two halves; the two steps of the multiplication loop on it.\<close>

definition dw :: "u32 \<Rightarrow> u32 \<Rightarrow> u64" where
  "dw h l = udw_all \<lparr>s_low = l, s_high = h\<rparr>"

lemma unat_dw: "unat (dw h l) = unat h * 2 ^ 32 + unat l"
  unfolding dw_def unat_udw_all by simp

lemma ucast_of_nat: "(ucast (x :: u32) :: u64) = of_nat (unat x)"
  by (simp add: of_nat_unat)

lemma dw_alt: "dw h l = ucast h * 2 ^ 32 + ucast l"
proof -
  have "dw h l = of_nat (unat (dw h l))" by simp
  also have "\<dots> = of_nat (unat h) * 2 ^ 32 + of_nat (unat l)"
    unfolding unat_dw by simp
  finally show ?thesis by (simp only: ucast_of_nat)
qed

lemma of_nat_mod_len: "(of_nat (m mod 2 ^ LENGTH('a)) :: 'a::len word) = of_nat m"
  by (simp only: word_of_nat_eq_iff take_bit_eq_mod mod_mod_trivial)

lemma of_nat_mod_high: "(of_nat (n mod 2 ^ LENGTH(32)) :: u64) * 2 ^ 32 = of_nat n * 2 ^ 32"
proof -
  have "n mod 2 ^ LENGTH(32) * 2 ^ 32 = (n * 2 ^ 32) mod 2 ^ LENGTH(64)"
    using mod_mult_mult2 [of n "2 ^ 32" "2 ^ 32"] by simp
  then have "(of_nat (n mod 2 ^ LENGTH(32) * 2 ^ 32) :: u64) = of_nat (n * 2 ^ 32)"
    by (simp only: of_nat_mod_len)
  then show ?thesis by (simp only: of_nat_mult of_nat_power of_nat_numeral)
qed

lemma high_add: "(ucast (x + y :: u32) :: u64) * 2 ^ 32 = ucast x * 2 ^ 32 + ucast y * 2 ^ 32"
  by (simp only: ucast_of_nat unat_word_ariths of_nat_mod_high of_nat_add distrib_right)

lemma high_mult: "(ucast (x * y :: u32) :: u64) * 2 ^ 32 = ucast x * ucast y * 2 ^ 32"
  by (simp only: ucast_of_nat unat_word_ariths of_nat_mod_high of_nat_mult)

lemma low_add:
  "(ucast (l :: u32) :: u64) + ucast u = ucast (l + u) + ucast (if l + u < l then 1 else 0 :: u32) * 2 ^ 32"
proof -
  have "unat l + unat u = unat (l + u) + (if l + u < l then 2 ^ 32 else 0)"
    using unat_u32_less [of l] unat_u32_less [of u]
    by (auto simp: word_less_nat_alt unat_word_ariths mod_if)
  then have "(of_nat (unat l + unat u) :: u64) = of_nat (unat (l + u) + (if l + u < l then 2 ^ 32 else 0))"
    by (rule arg_cong)
  then show ?thesis by (simp only: ucast_of_nat of_nat_add split: if_splits) auto
qed

lemma dw_add: "dw ((if l + u < l then 1 else 0) + (t + h)) (l + u) = dw h l + dw t u"
  unfolding dw_alt high_add using low_add [of l u] by (simp add: algebra_simps)

lemma dw_shift: "dw (drop_bit 31 l OR push_bit 1 h) (push_bit 1 l) = 2 * dw h l"
proof -
  have "unat (dw (drop_bit 31 l OR push_bit 1 h) (push_bit 1 l)) = (2 * unat (dw h l)) mod 2 ^ 64"
    using unat_udw_shl1 [of 0 "\<lparr>s_low = l, s_high = h\<rparr>"]
    by (simp only: dw_def udwords.select_convs or.commute) simp
  moreover have "unat (2 * dw h l) = (2 * unat (dw h l)) mod 2 ^ 64"
    by (simp add: unat_word_ariths)
  ultimately show ?thesis by (simp only: word_unat_eq_iff)
qed

lemma halves_u64: "(ucast (v :: u32) :: u64) = 2 * ucast (drop_bit 1 v) + (if v AND 1 \<noteq> 0 then 1 else 0)"
proof -
  have "unat v = 2 * unat (drop_bit 1 v) + (if v AND 1 \<noteq> 0 then 1 else 0)"
    using and_mask_eq_0_iff_dvd [of v 1] by (simp add: unat_drop_bit)
  then have "(of_nat (unat v) :: u64) = of_nat (2 * unat (drop_bit 1 v) + (if v AND 1 \<noteq> 0 then 1 else 0))"
    by (rule arg_cong)
  then show ?thesis by (simp only: ucast_of_nat of_nat_add of_nat_mult split: if_splits) auto
qed

lemma muldi3_loop_eq:
  "(case muldi3_loop u v l h t of (l', h') \<Rightarrow> dw h' l') = dw h l + dw t u * ucast v"
proof (induction u v l h t rule: muldi3_loop.induct)
  case (1 u v l h t)
  define l1 h1 where "l1 = (if v AND 1 \<noteq> 0 then l + u else l)"
    and "h1 = (if v AND 1 \<noteq> 0 then (if l + u < l then 1 else 0) + (t + h) else h)"
  let ?t = "drop_bit 31 u OR push_bit 1 t"
  have s: "dw h1 l1 + dw ?t (push_bit 1 u) * ucast (drop_bit 1 v) = dw h l + dw t u * ucast v"
    unfolding halves_u64 [of v] dw_shift l1_def h1_def
    using dw_add [of l u t h] by (simp add: algebra_simps)
  have e: "muldi3_loop u v l h t =
      (if drop_bit 1 v \<noteq> 0 then muldi3_loop (push_bit 1 u) (drop_bit 1 v) l1 h1 ?t else (l1, h1))"
    by (subst muldi3_loop.simps) (simp only: Let_def l1_def h1_def split: if_splits, simp)
  show ?case
  proof (cases "drop_bit 1 v = 0")
    case True
    then show ?thesis using e s by simp
  next
    case False
    have "(case muldi3_loop (push_bit 1 u) (drop_bit 1 v) l1 h1 ?t of (l', h') \<Rightarrow> dw h' l')
        = dw h1 l1 + dw ?t (push_bit 1 u) * ucast (drop_bit 1 v)"
      by (rule 1 [OF refl refl refl refl _ refl refl refl refl False]) (simp only: l1_def h1_def split: if_splits, simp)
    then show ?thesis using e s False by (simp only: if_True not_False_eq_True)
  qed
qed

lemma dw_udw_of [simp]: "dw (s_high (udw_of u)) (s_low (udw_of u)) = u"
proof -
  have "\<lparr>s_low = s_low (udw_of u), s_high = s_high (udw_of u)\<rparr> = udw_of u" by simp
  then show ?thesis unfolding dw_def by (simp only: udw_all_of)
qed

lemma muldi3_eq: "muldi3 u v = u * v"
proof -
  define uu vv where "uu = udw_of u" and "vv = udw_of v"
  obtain l h where lh: "muldi3_loop (s_low uu) (s_low vv) 0 0 0 = (l, h)" by fastforce
  then have p: "dw h l = ucast (s_low uu) * ucast (s_low vv)"
    using muldi3_loop_eq [of "s_low uu" "s_low vv" 0 0 0] by (simp add: dw_alt)
  have u: "u = dw (s_high uu) (s_low uu)" and v: "v = dw (s_high vv) (s_low vv)"
    by (simp_all add: uu_def vv_def)
  have z: "x * 2 ^ 32 * (y * 2 ^ 32) = (0 :: u64)" for x y
  proof -
    have "(2 ^ 32 * 2 ^ 32 :: u64) = 0" using word_exp_length_eq_0 [where 'a = 64] by simp
    moreover have "x * 2 ^ 32 * (y * 2 ^ 32) = x * y * (2 ^ 32 * 2 ^ 32)" by (simp only: ac_simps)
    ultimately show ?thesis by (simp only: mult_zero_right)
  qed
  have "muldi3 u v = dw (h + s_low vv * s_high uu + s_low uu * s_high vv) l"
    using lh unfolding muldi3_def Let_def uu_def [symmetric] vv_def [symmetric] dw_def mulsi3_eq
    by auto
  also have "\<dots> = dw h l + ucast (s_low vv) * ucast (s_high uu) * 2 ^ 32 + ucast (s_low uu) * ucast (s_high vv) * 2 ^ 32"
    unfolding dw_alt high_add high_mult by (simp only: ac_simps)
  also have "\<dots> = u * v"
    unfolding p unfolding u v dw_alt distrib_left distrib_right z by (simp only: ac_simps add_0)
  finally show ?thesis .
qed

section \<open>The shift\<close>

lemma push_bit_dw:
  assumes "0 < n" "n < 32"
  shows "dw (push_bit n h OR drop_bit (32 - n) l) (push_bit n l) = push_bit n (dw h l)"
  unfolding dw_def udw_all_def udwords.select_convs using assms
  by (intro bit_word_eqI)
    (auto simp: bit_simps le_diff_conv2 less_diff_conv2 not_le add.commute dest: bit_imp_le_length)

lemma push_bit_dw_high:
  assumes "32 \<le> n" "n < 64"
  shows "dw (push_bit (n - 32) l) 0 = push_bit n (dw h l)"
  unfolding dw_def udw_all_def udwords.select_convs using assms
  by (intro bit_word_eqI) (auto simp: bit_simps dest: bit_imp_le_length)

lemma ashldi3_eq: "ashldi3 u b = (if 0 \<le> b \<and> b < 64 then Some (push_bit (nat b) u) else None)"
proof -
  consider "b < 0" | "b = 0" | "0 < b" "b < 32" | "32 \<le> b" "b < 64" | "64 \<le> b" by linarith
  then show ?thesis
  proof cases
    case 3
    then have n: "0 < nat b" "nat b < 32" "nat (32 - b) = 32 - nat b" by auto
    have "ashldi3 u b = Some (dw (push_bit (nat b) (s_high (udw_of u)) OR drop_bit (32 - nat b) (s_low (udw_of u)))
        (push_bit (nat b) (s_low (udw_of u))))"
      using 3 n by (simp add: ashldi3_def Let_def shl_def shr_def dw_def)
    then show ?thesis using 3 by (simp only: push_bit_dw [OF n(1,2)] dw_udw_of) simp
  next
    case 4
    then have n: "32 \<le> nat b" "nat b < 64" "nat (b - 32) = nat b - 32" by auto
    have "ashldi3 u b = Some (dw (push_bit (nat b - 32) (s_low (udw_of u))) 0)"
      using 4 n by (simp add: ashldi3_def Let_def shl_def dw_def)
    then show ?thesis
      using 4 by (simp only: push_bit_dw_high [OF n(1,2), where h = "s_high (udw_of u)"] dw_udw_of) simp
  qed (auto simp: ashldi3_def Let_def shl_def shr_def)
qed

section \<open>Division\<close>

text \<open>
  Scaling up keeps \<open>a2 = d * 2 ^ k\<close> and \<open>a3 = 2 ^ k\<close> and ends with a divisor of more than half
  the dividend.
\<close>

lemma udivsi3_L1_scaled:
  assumes "unat a2 = d * 2 ^ k" "unat a3 = 2 ^ k" "k < 32" "0 < d" "unat a2 < unat a1"
  shows "\<exists>k' < 32. case udivsi3_L1 a1 a2 a3 of (a2', a3') \<Rightarrow>
    unat a2' = d * 2 ^ k' \<and> unat a3' = 2 ^ k' \<and> unat a1 < 2 * unat a2'"
  using assms
proof (induction a1 a2 a3 arbitrary: k rule: udivsi3_L1.induct)
  case (1 a1 a2 a3)
  show ?case
  proof (cases "sint a2 \<le> 0")
    case True
    have "2 ^ 31 \<le> unat a2" using True sint_pos_u32 [of a2] 1(2) \<open>0 < d\<close> by auto
    then have "unat a1 < 2 * unat a2" using unat_u32_less [of a1] by simp
    then show ?thesis using True 1 by (subst udivsi3_L1.simps) auto
  next
    case False
    then have a2: "unat a2 < 2 ^ 31" by (simp only: sint_pos_u32)
    then have "2 ^ k < (2 ^ 31 :: nat)" using 1(2) \<open>0 < d\<close>
      by (metis le_less_trans mult_le_mono1 mult_1 Suc_leI One_nat_def)
    then have k: "k < 31" using power_less_imp_less_exp [of 2 k 31] by simp
    have s: "unat (push_bit 1 a2) = d * 2 ^ Suc k" "unat (push_bit 1 a3) = 2 ^ Suc k"
      using unat_push_1 [OF a2] unat_push_1 [of a3] \<open>2 ^ k < 2 ^ 31\<close> 1(2,3) by simp_all
    show ?thesis
    proof (cases "push_bit 1 a2 < a1")
      case True
      then have l: "unat (push_bit 1 a2) < unat a1" by (simp only: word_less_nat_alt)
      have e: "udivsi3_L1 a1 a2 a3 = udivsi3_L1 a1 (push_bit 1 a2) (push_bit 1 a3)"
        using False True by (subst udivsi3_L1.simps) (simp only: Let_def if_True if_False)
      show ?thesis
        unfolding e by (rule 1(1) [OF False refl refl True s _ \<open>0 < d\<close> l]) (use k in simp)
    next
      case F2: False
      then have "unat a1 < 2 * unat (push_bit 1 a2)"
        using s \<open>0 < d\<close> unfolding not_less word_le_nat_alt
        by (metis le_less_trans lessI mult_2 less_add_same_cancel1 nat_0_less_mult_iff zero_less_numeral zero_less_power)
      then show ?thesis
        using s k False F2 by (subst udivsi3_L1.simps) (auto simp only: Let_def if_False prod.case intro!: exI [of _ "Suc k"])
    qed
  qed
qed

text \<open>Scaling down and subtracting is long division with remainder.\<close>

lemma or_exp_below:
  assumes "2 ^ Suc k dvd unat (a :: u32)" "unat b = 2 ^ k"
  shows "unat (a OR b) = unat a + 2 ^ k"
proof -
  obtain m where "unat a = 2 ^ Suc k * m" using assms(1) by (elim dvdE)
  then have "unat a div 2 ^ k = 2 * m" by simp
  then have "\<not> bit (unat a) k" by (simp add: bit_iff_odd)
  then have "unat a AND unat b = 0" unfolding assms(2) by (simp add: and_exp_eq_0_iff_not_bit)
  then have "a AND b = 0" by (simp only: word_unat_eq_iff unsigned_and_eq unsigned_0)
  then show ?thesis using assms(2) by (simp add: unat_or_add)
qed

text \<open>One round: the numbers stay \<open>q * d + r\<close>, the bit is set exactly when the scaled divisor
  fits.\<close>

lemma udivsi3_round:
  fixes a0 a1 a2 a3 q r :: u32
  assumes "unat a2 = d * 2 ^ k" "unat a3 = 2 ^ k" "2 ^ Suc k dvd unat a0"
    and "unat a0 * d + unat a1 = n" "unat a1 < 2 * unat a2"
    and "(q, r) = (if a1 < a2 then (a0, a1) else (a0 OR a3, a1 - a2))"
  shows "unat q * d + unat r = n" "unat r < d * 2 ^ k" "2 ^ k dvd unat q"
proof -
  have *: "unat q * d + unat r = n \<and> unat r < d * 2 ^ k \<and> 2 ^ k dvd unat q"
  proof (cases "a1 < a2")
    case True
    then show ?thesis
      using assms power_le_dvd [of "2 :: nat" "Suc k" "unat a0" k] by (simp add: word_less_nat_alt)
  next
    case False
    then have le: "unat a2 \<le> unat a1" by (simp add: word_le_nat_alt not_less)
    have q: "unat q = unat a0 + 2 ^ k" and r: "unat r = unat a1 - unat a2"
      using False assms(6) or_exp_below [OF assms(3,2)] le by (simp_all add: unat_sub word_le_nat_alt)
    have "2 ^ k dvd unat a0" by (rule power_le_dvd [OF assms(3)]) simp
    then show ?thesis using q r le assms by (simp add: algebra_simps)
  qed
  then show "unat q * d + unat r = n" "unat r < d * 2 ^ k" "2 ^ k dvd unat q" by simp_all
qed

lemma udivsi3_L3_divides:
  assumes "unat a2 = d * 2 ^ k" "unat a3 = 2 ^ k" "0 < d" "k < 32" "2 ^ Suc k dvd unat a0"
    and "unat a0 * d + unat a1 = n" "unat a1 < 2 * unat a2"
  shows "case udivsi3_L3 a0 a1 a2 a3 of (q, r) \<Rightarrow> unat q = n div d \<and> unat r = n mod d"
  using assms
proof (induction k arbitrary: a0 a1 a2 a3)
  case (0 a0 a1 a2 a3)
  obtain q r where qr: "(q, r) = (if a1 < a2 then (a0, a1) else (a0 OR a3, a1 - a2))" by (metis surj_pair)
  have "drop_bit 1 a3 = 0" using 0(2) by (simp add: word_unat_eq_iff unat_drop_bit)
  then have "udivsi3_L3 a0 a1 a2 a3 = (q, r)"
    by (subst udivsi3_L3.simps) (simp only: Let_def qr [symmetric] prod.case if_False simp_thms)
  moreover have "unat q * d + unat r = n" "unat r < d"
    using udivsi3_round [OF 0(1,2,5,6,7) qr] by simp_all
  ultimately show ?case by auto
next
  case (Suc k a0 a1 a2 a3)
  obtain q r where qr: "(q, r) = (if a1 < a2 then (a0, a1) else (a0 OR a3, a1 - a2))" by (metis surj_pair)
  have s: "unat (drop_bit 1 a2) = d * 2 ^ k" "unat (drop_bit 1 a3) = 2 ^ k"
    unfolding unat_drop_bit Suc.prems(1,2) by simp_all
  then have "drop_bit 1 a3 \<noteq> 0" by (auto simp del: drop_bit_Suc)
  then have e: "udivsi3_L3 a0 a1 a2 a3 = udivsi3_L3 q r (drop_bit 1 a2) (drop_bit 1 a3)"
    by (subst udivsi3_L3.simps) (simp only: Let_def qr [symmetric] prod.case if_True not_False_eq_True)
  note rd = udivsi3_round [OF Suc.prems(1,2,5,6,7) qr]
  show ?case unfolding e
  proof (rule Suc.IH)
    show "unat r < 2 * unat (drop_bit 1 a2)" using rd(2) s by simp
  qed (use s rd Suc.prems in simp_all)
qed

lemma udivsi3_nat:
  assumes "b \<noteq> 0"
  shows "case udivsi3 a b of (q, r) \<Rightarrow> unat q = unat a div unat b \<and> unat r = unat a mod unat b"
proof -
  have d: "0 < unat b" using assms by (simp add: unat_gt_0)
  obtain a2 a3 where a: "(a2, a3) = (if a \<le> b then (b, 1) else udivsi3_L1 a b 1)" by (metis surj_pair)
  have "\<exists>k < 32. unat a2 = unat b * 2 ^ k \<and> unat a3 = 2 ^ k \<and> unat a < 2 * unat a2"
  proof (cases "a \<le> b")
    case True
    then have "unat a < 2 * unat b" using d by (simp add: word_le_nat_alt)
    then show ?thesis using True a by (intro exI [of _ 0]) simp
  next
    case False
    then have "udivsi3_L1 a b 1 = (a2, a3)" using a by simp
    then show ?thesis
      using False udivsi3_L1_scaled [of b "unat b" 0 1 a] d by (auto simp: word_less_nat_alt not_le)
  qed
  then obtain k where k: "k < 32" "unat a2 = unat b * 2 ^ k" "unat a3 = 2 ^ k" "unat a < 2 * unat a2"
    by blast
  have "udivsi3 a b = udivsi3_L3 0 a a2 a3"
    using assms by (simp only: udivsi3_def Let_def a [symmetric] prod.case if_False)
  then show ?thesis
    using udivsi3_L3_divides [OF k(2,3) d k(1), of 0 a "unat a"] k(4) by simp
qed

lemma udivsi3_eq: "udivsi3 a b = (if b = 0 then (- 1, a) else (a div b, a mod b))"
proof (cases "b = 0")
  case False
  obtain q r where "udivsi3 a b = (q, r)" by fastforce
  then show ?thesis
    using udivsi3_nat [OF False, of a] False
    by (simp add: word_unat_eq_iff unat_div_distrib unat_mod_distrib)
qed (simp add: udivsi3_def)

lemma div_abs:
  fixes a b :: u32
  shows "(if sint a < 0 then - a else a) div (if sint b < 0 then - b else b)
      = word_of_int (\<bar>sint a\<bar> div \<bar>sint b\<bar>)"
    and "(if sint a < 0 then - a else a) mod (if sint b < 0 then - b else b)
      = word_of_int (\<bar>sint a\<bar> mod \<bar>sint b\<bar>)"
  unfolding word_div_def word_mod_def uint_abs by (rule refl)+

lemma divsi3_eq: "divsi3 a b = (if b = 0 then - 1 else word_of_int (sint a sdiv sint b))"
proof (cases "b = 0")
  case True
  then show ?thesis by (simp add: divsi3_def udivsi3_eq)
next
  case False
  then have "sint b \<noteq> 0" by (simp add: signed_eq_0_iff)
  then show ?thesis
    using div_abs(1) [of a b] False
    by (auto simp: divsi3_def udivsi3_eq signed_divide_int_def sgn_if split: if_splits)
qed

lemma modsi3_eq: "modsi3 a b = (if b = 0 then a else word_of_int (sint a smod sint b))"
proof (cases "b = 0")
  case True
  then show ?thesis by (simp add: modsi3_def udivsi3_eq)
next
  case False
  then have "sint b \<noteq> 0" by (simp add: signed_eq_0_iff)
  then show ?thesis
    using div_abs(2) [of a b] False
    by (auto simp: modsi3_def udivsi3_eq signed_modulo_int_def sgn_if split: if_splits)
qed

section \<open>The routines are the instructions of the M extension\<close>

text \<open>
  C22: on a processor without the M extension the library routines compute what its
  instructions would: \<open>__udivsi3\<close> is \<open>divu\<close> (all ones for a zero divisor), \<open>__umodsi3\<close> is
  \<open>remu\<close> (the dividend for a zero divisor), \<open>__divsi3\<close> is \<open>div\<close> (truncating; minus one for a zero
  divisor; the wrapped quotient for the most negative number by minus one) and \<open>__modsi3\<close> is
  \<open>rem\<close>.
\<close>
theorem soft_division_correct:
  "fst (udivsi3 a b) = (if b = 0 then - 1 else a div b)
   \<and> umodsi3 a b = (if b = 0 then a else a mod b)
   \<and> divsi3 a b = (if b = 0 then - 1 else word_of_int (sint a sdiv sint b))
   \<and> modsi3 a b = (if b = 0 then a else word_of_int (sint a smod sint b))"
  by (simp add: udivsi3_eq umodsi3_def divsi3_eq modsi3_eq)

text \<open>
  C23: the shift-and-add products are the products modulo \<open>2 ^ 32\<close> and \<open>2 ^ 64\<close>, and
  \<open>__ashldi3\<close> is the 64-bit left shift for exactly the counts below 64.
\<close>
theorem soft_multiplication_correct:
  "mulsi3 x y = x * y \<and> muldi3 u v = u * v
   \<and> ashldi3 u n = (if 0 \<le> n \<and> n < 64 then Some (push_bit (nat n) u) else None)"
  by (simp add: mulsi3_eq muldi3_eq ashldi3_eq)

end
