(* ===== verification/Am_Vme.thy ===== *)
theory Am_Vme
  imports Prelude
begin

text \<open>
  Virtual memory of the \<open>x86-qemu\<close> port, 32-bit build
  (\<open>abstract-machine/am/src/x86/qemu/vme.c\<close>).

  The state \<open>vme\<close> holds the memory as cells of type \<open>uintptr_t\<close> by byte address, the kernel page
  directory \<open>kpt\<close>, the control registers, and the client's allocator: \<open>pool\<close> is the sequence of
  pages \<open>pgalloc\<close> answers (a client without pages answers NULL), \<open>freed\<close> the sequence of pages
  given to \<open>pgfree\<close>.  An \<open>AddrSpace\<close> is the address of its four cells \<open>pgsize\<close>, \<open>area.start\<close>,
  \<open>area.end\<close> and \<open>ptr\<close>.  A panic is a value of \<open>vme_panic\<close>.  The loops that compare with
  \<open>!=\<close> run forever when the bounds are not aligned; they are partial functions with the result
  \<open>None\<close> in that case.

  \<open>mmu_walk\<close> is what the processor makes of the tables.  The theorems: \<open>map\<close> refines the update of
  a finite map from pages to frames and rights, its panics included (\<open>spec_map\<close>); \<open>vme_init\<close>
  builds the identity mapping of the kernel areas; \<open>protect\<close> creates a space that shares
  exactly the kernel's mappings; \<open>unprotect\<close> frees exactly the directory and the user tables.
\<close>

unbundle bit_operations_syntax

section \<open>Data\<close>

datatype vme_panic =
    Cannot_allocate_page
  | Non_bootstrap_CPU
  | Invalid_address
  | Non_page_boundary
  | Unmapping_non_mapped
  | Remapping_mapped
  | AM_bug

record vme =
  cells :: "u32 \<Rightarrow> u32"
  kpt :: u32
  pool :: "u32 list"
  freed :: "u32 list"
  cr0 :: u32
  cr3 :: u32

abbreviation PTE_P :: u32 where "PTE_P \<equiv> 1"
abbreviation PTE_W :: u32 where "PTE_W \<equiv> 2"
abbreviation PTE_U :: u32 where "PTE_U \<equiv> 4"

definition MMAP_NONE :: u32 where "MMAP_NONE = 0"
definition MMAP_READ :: u32 where "MMAP_READ = 1"
definition MMAP_WRITE :: u32 where "MMAP_WRITE = 2"

definition CR0_PG :: u32 where "CR0_PG = 0x80000000"

record ptinfo =
  pt_mask :: u32
  pt_shift :: nat
  pt_bits :: nat

definition pgsize :: u32 where "pgsize = 4096"

definition ptlevels :: nat where "ptlevels = 2"

definition pgtables :: "ptinfo list" where
  "pgtables =
    [\<lparr>pt_mask = 0, pt_shift = 0, pt_bits = 0\<rparr>,
     \<lparr>pt_mask = 0xffc00000, pt_shift = 22, pt_bits = 10\<rparr>,
     \<lparr>pt_mask = 0x003ff000, pt_shift = 12, pt_bits = 10\<rparr>]"

record vm_area =
  area_start :: u32
  area_end :: u32
  kernel :: bool

definition vm_areas :: "vm_area list" where
  "vm_areas =
    [\<lparr>area_start = 0x40000000, area_end = 0x80000000, kernel = False\<rparr>,
     \<lparr>area_start = 0x00000000, area_end = 0x40000000, kernel = True\<rparr>,
     \<lparr>area_start = 0xfd000000, area_end = 0x00000000, kernel = True\<rparr>]"

definition uvm_area :: vm_area where
  "uvm_area = vm_areas ! 0"

text \<open>The cells of an \<open>AddrSpace\<close>.\<close>

definition as_pgsize :: "u32 \<Rightarrow> u32" where "as_pgsize as = as"
definition as_start :: "u32 \<Rightarrow> u32" where "as_start as = as + 4"
definition as_end :: "u32 \<Rightarrow> u32" where "as_end as = as + 8"
definition as_ptr :: "u32 \<Rightarrow> u32" where "as_ptr as = as + 12"

definition slot :: "u32 \<Rightarrow> u32 \<Rightarrow> u32" where
  "slot pt index = pt + 4 * index"

definition put_cell :: "u32 \<Rightarrow> u32 \<Rightarrow> vme \<Rightarrow> vme" where
  "put_cell a v s = s\<lparr>cells := (cells s)(a := v)\<rparr>"

section \<open>Operations\<close>

definition zero_page :: "u32 \<Rightarrow> (u32 \<Rightarrow> u32) \<Rightarrow> u32 \<Rightarrow> u32" where
  "zero_page base c = fold (\<lambda>i c. c(slot base (of_nat i) := 0)) [0..<1024] c"

definition pgallocz :: "vme \<Rightarrow> vme_panic + u32 \<times> vme" where
  "pgallocz s =
    (case pool s of
       [] \<Rightarrow> Inl Cannot_allocate_page
     | base # rest \<Rightarrow>
         if base = 0 then Inl Cannot_allocate_page
         else Inr (base, s\<lparr>pool := rest, cells := zero_page base (cells s)\<rparr>))"

definition indexof :: "u32 \<Rightarrow> ptinfo \<Rightarrow> u32" where
  "indexof addr info = drop_bit (pt_shift info) (addr AND pt_mask info)"

definition baseof :: "u32 \<Rightarrow> u32" where
  "baseof addr = addr AND NOT (pgsize - 1)"

function ptwalk_loop :: "nat \<Rightarrow> u32 \<Rightarrow> u32 \<Rightarrow> u32 \<Rightarrow> vme \<Rightarrow> vme_panic + u32 \<times> vme" where
  "ptwalk_loop i cur addr flags s =
    (if ptlevels < i then Inl AM_bug
     else
       let pt = cur;
           index = indexof addr (pgtables ! i)
       in if i = ptlevels then Inr (slot pt index, s)
          else if cells s (slot pt index) AND PTE_P = 0
          then (case pgallocz s of
                  Inl e \<Rightarrow> Inl e
                | Inr (next_page, s) \<Rightarrow>
                    ptwalk_loop (Suc i) next_page addr flags
                      (put_cell (slot pt index) (next_page OR PTE_P OR flags) s))
          else ptwalk_loop (Suc i) (baseof (cells s (slot pt index))) addr flags s)"
  by pat_completeness auto

termination ptwalk_loop
  by (relation "measure (\<lambda>(i, _). Suc ptlevels - i)") auto

declare ptwalk_loop.simps [simp del]

definition ptwalk :: "u32 \<Rightarrow> u32 \<Rightarrow> u32 \<Rightarrow> vme \<Rightarrow> vme_panic + u32 \<times> vme" where
  "ptwalk as addr flags s = ptwalk_loop 0 (as_ptr as) addr flags s"

text \<open>The pages \<open>teardown\<close> hands to \<open>pgfree\<close>, in order.\<close>

function teardown :: "nat \<Rightarrow> u32 \<Rightarrow> (u32 \<Rightarrow> u32) \<Rightarrow> u32 list" where
  "teardown level pt c =
    (if ptlevels < level then []
     else
       concat (map (\<lambda>index.
           let e = c (slot pt (of_nat index))
           in if e AND PTE_P \<noteq> 0 \<and> e AND PTE_U \<noteq> 0
              then teardown (Suc level) (baseof e) c else [])
         [0..<2 ^ pt_bits (pgtables ! level)])
       @ (if 1 \<le> level then [pt] else []))"
  by pat_completeness auto

termination teardown
  by (relation "measure (\<lambda>(level, _). Suc ptlevels - level)") auto

declare teardown.simps [simp del]

text \<open>
  \<open>*ptwalk(&as, cur, PTE_W) = cur | PTE_P | PTE_W\<close> for every page of a kernel area; \<open>as\<close> is the
  address of the local variable of \<open>vme_init\<close>.
\<close>

partial_function (option) kmap_loop :: "u32 \<Rightarrow> u32 \<Rightarrow> u32 \<Rightarrow> vme \<Rightarrow> (vme_panic + vme) option" where
  "kmap_loop as end cur s =
    (if cur = end then Some (Inr s)
     else case ptwalk as cur PTE_W s of
        Inl e \<Rightarrow> Some (Inl e)
      | Inr (entry, s) \<Rightarrow>
          kmap_loop as end (cur + pgsize) (put_cell entry (cur OR PTE_P OR PTE_W) s))"

fun kmap_areas :: "u32 \<Rightarrow> vm_area list \<Rightarrow> vme \<Rightarrow> (vme_panic + vme) option" where
  "kmap_areas as [] s = Some (Inr s)"
| "kmap_areas as (vma # vmas) s =
    (if kernel vma
     then case kmap_loop as (area_end vma) (area_start vma) s of
            None \<Rightarrow> None
          | Some (Inl e) \<Rightarrow> Some (Inl e)
          | Some (Inr s) \<Rightarrow> kmap_areas as vmas s
     else kmap_areas as vmas s)"

definition vme_init :: "u32 \<Rightarrow> u32 \<Rightarrow> vme \<Rightarrow> (vme_panic + vme) option" where
  "vme_init cpu_current as s =
    (if cpu_current \<noteq> 0 then Some (Inl Non_bootstrap_CPU)
     else case kmap_areas as vm_areas (put_cell (as_ptr as) 0 s) of
        None \<Rightarrow> None
      | Some (Inl e) \<Rightarrow> Some (Inl e)
      | Some (Inr s) \<Rightarrow>
          (let k = baseof (cells s (as_ptr as))
           in Some (Inr (s\<lparr>kpt := k, cr3 := k, cr0 := cr0 s OR CR0_PG\<rparr>))))"

partial_function (option) copy_loop :: "u32 \<Rightarrow> u32 \<Rightarrow> u32 \<Rightarrow> vme \<Rightarrow> vme option" where
  "copy_loop pd end cur s =
    (if cur = end then Some s
     else
       let info = pgtables ! 1;
           index = indexof cur info
       in copy_loop pd end (cur + push_bit (pt_shift info) 1)
            (put_cell (slot pd index) (cells s (slot (kpt s) index)) s))"

fun copy_areas :: "u32 \<Rightarrow> vm_area list \<Rightarrow> vme \<Rightarrow> vme option" where
  "copy_areas pd [] s = Some s"
| "copy_areas pd (vma # vmas) s =
    (if kernel vma
     then case copy_loop pd (area_end vma) (area_start vma) s of
            None \<Rightarrow> None
          | Some s \<Rightarrow> copy_areas pd vmas s
     else copy_areas pd vmas s)"

definition protect :: "u32 \<Rightarrow> vme \<Rightarrow> (vme_panic + vme) option" where
  "protect as s =
    (case pgallocz s of
       Inl e \<Rightarrow> Some (Inl e)
     | Inr (pd, s) \<Rightarrow>
         (case copy_areas pd vm_areas s of
            None \<Rightarrow> None
          | Some s \<Rightarrow> Some (Inr
              (put_cell (as_ptr as) (pd OR PTE_P OR PTE_U)
                (put_cell (as_end as) (area_end uvm_area)
                  (put_cell (as_start as) (area_start uvm_area)
                    (put_cell (as_pgsize as) pgsize s)))))))"

definition unprotect :: "u32 \<Rightarrow> vme \<Rightarrow> vme" where
  "unprotect as s = s\<lparr>freed := freed s @ teardown 0 (as_ptr as) (cells s)\<rparr>"

definition vme_map :: "u32 \<Rightarrow> u32 \<Rightarrow> u32 \<Rightarrow> u32 \<Rightarrow> vme \<Rightarrow> vme_panic + vme" where
  "vme_map as va pa prot s =
    (if \<not> (area_start uvm_area \<le> va \<and> va < area_end uvm_area) then Inl Invalid_address
     else if va \<noteq> va AND NOT (pgsize - 1) \<or> pa \<noteq> pa AND NOT (pgsize - 1) then Inl Non_page_boundary
     else case ptwalk as va (PTE_W OR PTE_U) s of
        Inl e \<Rightarrow> Inl e
      | Inr (ptentry, s) \<Rightarrow>
          (case
             (if prot = MMAP_NONE
              then if cells s ptentry AND PTE_P = 0 then Inl Unmapping_non_mapped
                   else Inr (put_cell ptentry 0 s)
              else if cells s ptentry AND PTE_P \<noteq> 0 then Inl Remapping_mapped
                   else Inr (put_cell ptentry
                     (pa OR PTE_P OR PTE_U OR (if prot AND MMAP_WRITE \<noteq> 0 then PTE_W else 0)) s)) of
             Inl e \<Rightarrow> Inl e
           | Inr s \<Rightarrow> map_sum id snd (ptwalk as va (PTE_W OR PTE_U) s)))"

section \<open>Pages and slots\<close>

lemma baseof_mask: "baseof a = a AND NOT (mask 12)"
  by (simp add: baseof_def pgsize_def mask_eq_exp_minus_1)

lemma bit_baseof: "bit (baseof a) n \<longleftrightarrow> bit a n \<and> 12 \<le> n"
  unfolding baseof_mask by (auto simp: bit_simps dest: bit_imp_le_length)

lemma baseof_idem [simp]: "baseof (baseof a) = baseof a"
  by (rule bit_word_eqI) (auto simp: bit_baseof)

definition l1 :: "u32 \<Rightarrow> u32" where "l1 va = indexof va (pgtables ! 1)"
definition l2 :: "u32 \<Rightarrow> u32" where "l2 va = indexof va (pgtables ! 2)"

lemma l1_mask: "l1 va = drop_bit 22 va"
proof -
  have "(0xffc00000 :: u32) = push_bit 22 (mask 10)" by (simp add: mask_eq_exp_minus_1)
  then have "l1 va = drop_bit 22 (va AND push_bit 22 (mask 10))"
    by (simp add: l1_def indexof_def pgtables_def)
  also have "\<dots> = drop_bit 22 va"
    by (rule bit_word_eqI) (auto simp: bit_simps dest: bit_imp_le_length)
  finally show ?thesis .
qed

lemma l2_mask: "l2 va = take_bit 10 (drop_bit 12 va)"
proof -
  have "(0x003ff000 :: u32) = push_bit 12 (mask 10)" by (simp add: mask_eq_exp_minus_1)
  then have "l2 va = drop_bit 12 (va AND push_bit 12 (mask 10))"
    by (simp add: l2_def indexof_def pgtables_def)
  also have "\<dots> = take_bit 10 (drop_bit 12 va)"
    by (rule bit_word_eqI) (auto simp: bit_simps dest: bit_imp_le_length)
  finally show ?thesis .
qed

lemma bit_l1: "bit (l1 va) n \<longleftrightarrow> bit va (22 + n)"
  by (simp add: l1_mask bit_simps)

lemma bit_l2: "bit (l2 va) n \<longleftrightarrow> n < 10 \<and> bit va (12 + n)"
  by (auto simp: l2_mask bit_simps)

lemma l1_less [simp]: "l1 va < 1024"
  unfolding l1_mask word_less_nat_alt unat_drop_bit using unat_u32_less [of va] by simp

lemma l2_less [simp]: "l2 va < 1024"
proof -
  have "unat (l2 va) = unat (drop_bit 12 va) mod 2 ^ 10"
    unfolding l2_mask take_bit_eq_mask by (rule unat_and_mask)
  then show ?thesis by (simp add: word_less_nat_alt)
qed

lemma same_page_iff: "l1 a = l1 b \<and> l2 a = l2 b \<longleftrightarrow> baseof a = baseof b"
proof
  assume e: "l1 a = l1 b \<and> l2 a = l2 b"
  show "baseof a = baseof b"
  proof (rule bit_word_eqI)
    fix n
    have "bit a n = bit b n" if "22 \<le> n"
      using e that bit_l1 [of a "n - 22"] bit_l1 [of b "n - 22"] by simp
    moreover have "bit a n = bit b n" if "12 \<le> n" "n < 22"
      using e that bit_l2 [of a "n - 12"] bit_l2 [of b "n - 12"] by auto
    ultimately show "bit (baseof a) n = bit (baseof b) n"
      unfolding bit_baseof by (cases "22 \<le> n") auto
  qed
next
  assume e: "baseof a = baseof b"
  have "bit a n = bit b n" if "12 \<le> n" for n using e that bit_baseof by metis
  then show "l1 a = l1 b \<and> l2 a = l2 b"
    by (auto intro!: bit_word_eqI simp: bit_l1 bit_l2)
qed

lemma bit_small: "bit (i :: u32) n \<Longrightarrow> i < 1024 \<Longrightarrow> n < 10"
proof (rule ccontr)
  assume b: "bit i n" and i: "i < 1024" and "\<not> n < 10"
  then have "take_bit 10 i \<noteq> i" by (metis bit_take_bit_iff)
  moreover have "unat i < 1024" using i by (simp add: word_less_nat_alt)
  then have "unat (take_bit 10 i) = unat i"
    unfolding take_bit_eq_mask unat_and_mask by simp
  ultimately show False by (simp add: word_unat_eq_iff)
qed

lemma bit_page: "baseof p = p \<Longrightarrow> bit p n \<Longrightarrow> 12 \<le> n"
  using bit_baseof [of p n] by simp

lemma slot_or:
  assumes "baseof p = p" "i < 1024"
  shows "slot p i = p OR push_bit 2 i"
proof -
  have "p AND push_bit 2 i = 0"
  proof (rule bit_word_eqI)
    fix n :: nat
    have "\<not> (12 \<le> n \<and> n - 2 < 10)" by arith
    then show "bit (p AND push_bit 2 i) n = bit 0 n"
      using bit_page [OF assms(1), of n] bit_small [OF _ assms(2), of "n - 2"] by (auto simp: bit_simps)
  qed
  then have "p + push_bit 2 i = p OR push_bit 2 i" by (rule disjunctive_add_eq_or)
  then show ?thesis by (simp add: slot_def push_bit_eq_mult ac_simps)
qed

lemma baseof_slot [simp]:
  assumes "baseof p = p" "i < 1024"
  shows "baseof (slot p i) = p"
proof (rule bit_word_eqI)
  fix n :: nat
  have "\<not> (12 \<le> n \<and> n - 2 < 10)" by arith
  then show "bit (baseof (slot p i)) n = bit p n"
    unfolding slot_or [OF assms] bit_baseof
    using bit_page [OF assms(1), of n] bit_small [OF _ assms(2), of "n - 2"] by (auto simp: bit_simps)
qed

lemma slot_eq_iff [simp]:
  assumes "baseof p = p" "baseof q = q" "i < 1024" "j < 1024"
  shows "slot p i = slot q j \<longleftrightarrow> p = q \<and> i = j"
proof
  assume e: "slot p i = slot q j"
  then have "p = q" using assms by (metis baseof_slot)
  moreover have "4 * i = 4 * j" using e \<open>p = q\<close> by (simp add: slot_def)
  then have "i = j" using assms(3,4) by (simp add: word_unat_eq_iff unat_word_ariths word_less_nat_alt)
  ultimately show "p = q \<and> i = j" by simp
qed simp

lemma slot_in_page: "baseof p = p \<Longrightarrow> i < 1024 \<Longrightarrow> baseof a \<noteq> p \<Longrightarrow> slot p i \<noteq> a"
  by auto

lemma fold_zero:
  "fold (\<lambda>i c. c(slot p (of_nat i) := 0)) is c a = (if a \<in> (\<lambda>i. slot p (of_nat i)) ` set is then 0 else c a)"
  by (induction "is" arbitrary: c) auto

lemma zero_page_slot: "i < 1024 \<Longrightarrow> zero_page p c (slot p i) = 0"
proof -
  assume "i < 1024"
  then have "unat i < 1024" "i = of_nat (unat i)" by (simp_all add: word_less_nat_alt)
  then show ?thesis unfolding zero_page_def fold_zero by (metis atLeastLessThan_iff imageI set_upt zero_le)
qed

lemma zero_page_other: "baseof p = p \<Longrightarrow> baseof a \<noteq> p \<Longrightarrow> zero_page p c a = c a"
proof -
  assume p: "baseof p = p" "baseof a \<noteq> p"
  have "a \<noteq> slot p (of_nat i)" if "i < 1024" for i
  proof -
    have "(of_nat i :: u32) < 1024" using that by (simp add: word_less_nat_alt unat_of_nat)
    then show ?thesis using p by auto
  qed
  then have "a \<notin> (\<lambda>i. slot p (of_nat i)) ` set [0..<1024]" by force
  then show ?thesis unfolding zero_page_def fold_zero by (rule if_not_P)
qed

section \<open>What the processor makes of the tables\<close>

abbreviation present :: "u32 \<Rightarrow> bool" where "present e \<equiv> e AND PTE_P \<noteq> 0"

text \<open>Two-level translation: the frame with the offset, writable, accessible from user mode.\<close>

type_synonym translation = "u32 \<Rightarrow> (u32 \<times> bool \<times> bool) option"

definition translate :: "u32 \<Rightarrow> u32 \<Rightarrow> u32 \<Rightarrow> (u32 \<times> bool \<times> bool) option" where
  "translate pde pte va =
    (if present pte
     then Some (baseof pte OR (va AND 0xfff), pde AND pte AND PTE_W \<noteq> 0, pde AND pte AND PTE_U \<noteq> 0)
     else None)"

definition mmu_walk :: "(u32 \<Rightarrow> u32) \<Rightarrow> u32 \<Rightarrow> translation" where
  "mmu_walk c d va =
    (let pde = c (slot d (l1 va))
     in if present pde then translate pde (c (slot (baseof pde) (l2 va))) va else None)"

definition tables :: "(u32 \<Rightarrow> u32) \<Rightarrow> u32 \<Rightarrow> u32 set" where
  "tables c d = {baseof (c (slot d i)) |i. i < 1024 \<and> present (c (slot d i))}"

definition dir_ok :: "(u32 \<Rightarrow> u32) \<Rightarrow> u32 \<Rightarrow> bool" where
  "dir_ok c d \<longleftrightarrow> baseof d = d \<and> d \<notin> tables c d \<and>
    (\<forall>i j. i < 1024 \<longrightarrow> j < 1024 \<longrightarrow> present (c (slot d i)) \<longrightarrow> present (c (slot d j)) \<longrightarrow>
      baseof (c (slot d i)) = baseof (c (slot d j)) \<longrightarrow> i = j)"

lemma tables_base: "t \<in> tables c d \<Longrightarrow> baseof t = t"
  by (auto simp: tables_def)

lemma tablesI: "i < 1024 \<Longrightarrow> present (c (slot d i)) \<Longrightarrow> baseof (c (slot d i)) \<in> tables c d"
  by (auto simp: tables_def)

lemma dir_ok_base: "dir_ok c d \<Longrightarrow> baseof d = d"
  by (simp add: dir_ok_def)

text \<open>Directory and tables depend only on the cells of the directory; the translation also on
  those of the tables.\<close>

lemma dir_frame:
  assumes "\<And>i. i < 1024 \<Longrightarrow> c' (slot d i) = c (slot d i)"
  shows "tables c' d = tables c d" "dir_ok c' d = dir_ok c d"
proof -
  show t: "tables c' d = tables c d"
    unfolding tables_def by (intro Collect_cong ex_cong1) (auto simp: assms)
  show "dir_ok c' d = dir_ok c d"
    unfolding dir_ok_def t by (auto simp: assms)
qed

lemma walk_frame:
  assumes "dir_ok c d" "\<And>a. baseof a = d \<or> baseof a \<in> tables c d \<Longrightarrow> c' a = c a"
  shows "mmu_walk c' d = mmu_walk c d"
proof
  fix va
  have "c' (slot d (l1 va)) = c (slot d (l1 va))" using assms by (simp add: dir_ok_base)
  moreover have "c' (slot (baseof e) (l2 va)) = c (slot (baseof e) (l2 va))"
    if "e = c (slot d (l1 va))" "present e" for e
    using assms(2) that tablesI [of "l1 va" c d] by simp
  ultimately show "mmu_walk c' d va = mmu_walk c d va" by (simp add: mmu_walk_def Let_def)
qed

text \<open>Writing the entry of an address changes the translation of its page only.\<close>

lemma walk_entry:
  fixes c d va v
  defines "pde \<equiv> c (slot d (l1 va))"
  defines "c' \<equiv> c(slot (baseof pde) (l2 va) := v)"
  assumes ok: "dir_ok c d" and pr: "present pde"
  shows "\<And>i. i < 1024 \<Longrightarrow> c' (slot d i) = c (slot d i)"
    and "mmu_walk c' d va' = (if baseof va' = baseof va then translate pde v va' else mmu_walk c d va')"
proof -
  have t: "baseof pde \<in> tables c d" using pr by (auto simp: pde_def intro: tablesI)
  then have "baseof pde \<noteq> d" using ok by (auto simp: dir_ok_def)
  then show d: "c' (slot d i) = c (slot d i)" if "i < 1024" for i
    using that ok by (simp add: c'_def dir_ok_base)
  show "mmu_walk c' d va' = (if baseof va' = baseof va then translate pde v va' else mmu_walk c d va')"
  proof (cases "baseof va' = baseof va")
    case True
    then have "l1 va' = l1 va" "l2 va' = l2 va" using same_page_iff by blast+
    then show ?thesis using True pr d [of "l1 va"] by (simp add: mmu_walk_def Let_def pde_def [symmetric], simp add: c'_def)
  next
    case False
    then have ne: "l1 va' \<noteq> l1 va \<or> l2 va' \<noteq> l2 va" using same_page_iff by blast
    have "c' (slot (baseof e) (l2 va')) = c (slot (baseof e) (l2 va'))"
      if e: "e = c (slot d (l1 va'))" "present e" for e
    proof -
      have "\<not> (baseof e = baseof pde \<and> l2 va' = l2 va)"
        using ok ne e pr unfolding dir_ok_def pde_def by (metis l1_less)
      then show ?thesis by (auto simp: c'_def)
    qed
    then show ?thesis using False d [of "l1 va'"] by (simp add: mmu_walk_def Let_def)
  qed
qed

text \<open>A new, empty table changes no translation.\<close>

definition entry_of :: "u32 \<Rightarrow> u32 \<Rightarrow> u32" where
  "entry_of p f = p OR PTE_P OR f"

lemma baseof_or: "baseof (a OR b) = baseof a OR baseof b"
  by (rule bit_word_eqI) (auto simp: bit_baseof bit_simps)

lemma baseof_entry: "baseof p = p \<Longrightarrow> baseof f = 0 \<Longrightarrow> baseof (entry_of p f) = p"
  by (simp add: entry_of_def baseof_or) (simp add: baseof_mask mask_eq_exp_minus_1)

lemma present_bit: "present e \<longleftrightarrow> bit e 0"
  by (simp add: and_one_eq bit_0 odd_iff_mod_2_eq_one)

lemma present_entry: "present (entry_of p f)"
  unfolding present_bit by (simp add: entry_of_def bit_simps)

lemma walk_new_table:
  fixes c d va p f
  defines "c' \<equiv> (zero_page p c)(slot d (l1 va) := entry_of p f)"
  assumes ok: "dir_ok c d" and ab: "\<not> present (c (slot d (l1 va)))"
    and p: "baseof p = p" "p \<noteq> d" "p \<notin> tables c d" and f: "baseof f = 0"
  shows "c' (slot d (l1 va)) = entry_of p f"
    and "\<And>i. i < 1024 \<Longrightarrow> i \<noteq> l1 va \<Longrightarrow> c' (slot d i) = c (slot d i)"
    and "tables c' d = insert p (tables c d)" and "dir_ok c' d" and "mmu_walk c' d = mmu_walk c d"
proof -
  have d: "baseof d = d" by (rule dir_ok_base [OF ok])
  show new: "c' (slot d (l1 va)) = entry_of p f" by (simp add: c'_def)
  show old: "c' (slot d i) = c (slot d i)" if "i < 1024" "i \<noteq> l1 va" for i
    using that p d by (simp add: c'_def zero_page_other)
  show t: "tables c' d = insert p (tables c d)"
  proof (intro set_eqI iffI)
    fix x assume "x \<in> tables c' d"
    then obtain i where i: "i < 1024" "x = baseof (c' (slot d i))" "present (c' (slot d i))"
      by (auto simp: tables_def)
    then show "x \<in> insert p (tables c d)"
      using old [of i] new baseof_entry [OF p(1) f] by (cases "i = l1 va") (auto intro: tablesI)
  next
    fix x assume "x \<in> insert p (tables c d)"
    then consider "x = p" | i where "i < 1024" "x = baseof (c (slot d i))" "present (c (slot d i))"
      by (auto simp: tables_def)
    then show "x \<in> tables c' d"
    proof cases
      case 1
      then show ?thesis
        using tablesI [of "l1 va" c' d] new baseof_entry [OF p(1) f] present_entry by simp
    next
      case 2
      then have "i \<noteq> l1 va" using ab by auto
      then show ?thesis using tablesI [of i c' d] old [of i] 2 by simp
    qed
  qed
  have np: "baseof (c (slot d i)) \<noteq> p" if "i < 1024" "present (c (slot d i))" for i
    using tablesI [of i c d] that p(3) by auto
  show "dir_ok c' d"
    unfolding dir_ok_def
  proof (intro conjI allI impI)
    fix i j assume ij: "i < 1024" "j < 1024" "present (c' (slot d i))" "present (c' (slot d j))"
      "baseof (c' (slot d i)) = baseof (c' (slot d j))"
    show "i = j"
    proof (cases "i = l1 va \<or> j = l1 va")
      case True
      then show ?thesis
        using ij np [of i] np [of j] old [of i] old [of j] new baseof_entry [OF p(1) f] by metis
    next
      case False
      then show ?thesis using ij ok old [of i] old [of j] unfolding dir_ok_def by metis
    qed
  qed (use ok p t d in \<open>auto simp: dir_ok_def\<close>)
  show "mmu_walk c' d = mmu_walk c d"
  proof
    fix v
    show "mmu_walk c' d v = mmu_walk c d v"
    proof (cases "l1 v = l1 va")
      case True
      have "c' (slot p (l2 v)) = 0"
        using p d by (simp add: c'_def zero_page_slot)
      then show ?thesis
        using True ab new baseof_entry [OF p(1) f] by (simp add: mmu_walk_def Let_def translate_def)
    next
      case False
      have "c' (slot (baseof e) (l2 v)) = c (slot (baseof e) (l2 v))"
        if e: "e = c (slot d (l1 v))" "present e" for e
      proof -
        have "baseof e \<in> tables c d" using tablesI [of "l1 v" c d] e by simp
        then have "baseof e \<noteq> p" "baseof e \<noteq> d" using p ok by (auto simp: dir_ok_def)
        then show ?thesis using p d by (simp add: c'_def zero_page_other)
      qed
      then show ?thesis using old [OF l1_less False] by (simp add: mmu_walk_def Let_def)
    qed
  qed
qed

text \<open>A new directory translates nothing.\<close>

lemma walk_new_dir:
  assumes "baseof p = p" "\<And>i. i < 1024 \<Longrightarrow> c (slot p i) = 0"
  shows "tables c p = {}" "dir_ok c p" "mmu_walk c p = (\<lambda>_. None)"
  using assms by (auto simp: tables_def dir_ok_def mmu_walk_def Let_def fun_eq_iff)

section \<open>The walk through the tables\<close>

lemma ptlevels_2 [simp]: "ptlevels = 2"
  by (simp add: ptlevels_def)

lemma indexof_levels [simp]:
  "indexof va (pgtables ! 0) = 0"
  "indexof va (pgtables ! Suc 0) = l1 va" "indexof va (pgtables ! Suc (Suc 0)) = l2 va"
  by (simp_all add: l1_def l2_def numeral_2_eq_2) (simp add: indexof_def pgtables_def)

lemma slot_0 [simp]: "slot p 0 = p"
  by (simp add: slot_def)

lemma put_cell_sel [simp]:
  "cells (put_cell a v s) = (cells s)(a := v)" "pool (put_cell a v s) = pool s"
  "kpt (put_cell a v s) = kpt s" "freed (put_cell a v s) = freed s"
  "cr0 (put_cell a v s) = cr0 s" "cr3 (put_cell a v s) = cr3 s"
  by (simp_all add: put_cell_def)

definition dir_of :: "vme \<Rightarrow> u32 \<Rightarrow> u32" where
  "dir_of s as = baseof (cells s (as_ptr as))"

text \<open>Taking the next page of the pool and clearing it.\<close>

definition take_page :: "vme \<Rightarrow> vme" where
  "take_page s = s\<lparr>pool := tl (pool s), cells := zero_page (hd (pool s)) (cells s)\<rparr>"

lemma take_page_sel [simp]:
  "cells (take_page s) = zero_page (hd (pool s)) (cells s)" "pool (take_page s) = tl (pool s)"
  "kpt (take_page s) = kpt s" "freed (take_page s) = freed s"
  "cr0 (take_page s) = cr0 s" "cr3 (take_page s) = cr3 s"
  by (simp_all add: take_page_def)

lemma pgallocz_ok: "pool s = p # ps \<Longrightarrow> p \<noteq> 0 \<Longrightarrow> pgallocz s = Inr (p, take_page s)"
  by (simp add: pgallocz_def take_page_def)

lemma ptwalk_levels:
  "ptwalk as va f s =
    (if present (cells s (as_ptr as)) then ptwalk_loop (Suc 0) (dir_of s as) va f s
     else case pgallocz s of
        Inl e \<Rightarrow> Inl e
      | Inr (p, s) \<Rightarrow> ptwalk_loop (Suc 0) p va f (put_cell (as_ptr as) (entry_of p f) s))"
  "ptwalk_loop (Suc 0) d va f s =
    (if present (cells s (slot d (l1 va)))
     then ptwalk_loop (Suc (Suc 0)) (baseof (cells s (slot d (l1 va)))) va f s
     else case pgallocz s of
        Inl e \<Rightarrow> Inl e
      | Inr (p, s) \<Rightarrow> ptwalk_loop (Suc (Suc 0)) p va f (put_cell (slot d (l1 va)) (entry_of p f) s))"
  "ptwalk_loop (Suc (Suc 0)) t va f s = Inr (slot t (l2 va), s)"
  unfolding ptwalk_def dir_of_def entry_of_def
  by (simp_all add: ptwalk_loop.simps [of 0] ptwalk_loop.simps [of "Suc 0"] ptwalk_loop.simps [of "Suc (Suc 0)"] Let_def split: sum.split)

section \<open>Address spaces\<close>

text \<open>The directory entries of an address space (none before it has a directory) and its
  translation.\<close>

definition pdes :: "vme \<Rightarrow> u32 \<Rightarrow> u32 \<Rightarrow> u32" where
  "pdes s as i = (if present (cells s (as_ptr as)) then cells s (slot (dir_of s as) i) else 0)"

definition lookup :: "vme \<Rightarrow> u32 \<Rightarrow> translation" where
  "lookup s as va =
    (if present (cells s (as_ptr as)) then mmu_walk (cells s) (dir_of s as) va else None)"

definition table_pages :: "vme \<Rightarrow> u32 \<Rightarrow> u32 set" where
  "table_pages s as =
    (if present (cells s (as_ptr as)) then insert (dir_of s as) (tables (cells s) (dir_of s as)) else {})"

definition as_ok :: "vme \<Rightarrow> u32 \<Rightarrow> bool" where
  "as_ok s as \<longleftrightarrow> baseof (as_ptr as) \<notin> table_pages s as \<and>
    (present (cells s (as_ptr as)) \<longrightarrow> dir_ok (cells s) (dir_of s as))"

text \<open>The pages of the allocator are pages, and nothing else lives in them.\<close>

definition pool_ok :: "vme \<Rightarrow> u32 \<Rightarrow> bool" where
  "pool_ok s as \<longleftrightarrow> distinct (pool s) \<and>
    (\<forall>p \<in> set (pool s). baseof p = p \<and> p \<noteq> 0 \<and> p \<noteq> baseof (as_ptr as) \<and> p \<notin> table_pages s as)"

definition need :: "vme \<Rightarrow> u32 \<Rightarrow> u32 \<Rightarrow> nat" where
  "need s as va =
    (if \<not> present (cells s (as_ptr as)) then 2 else if \<not> present (pdes s as (l1 va)) then 1 else 0)"

text \<open>What a walk for \<open>va\<close> may change: the tables for it exist afterwards, nothing else is
  different.\<close>

definition grown :: "u32 \<Rightarrow> u32 \<Rightarrow> u32 \<Rightarrow> vme \<Rightarrow> vme \<Rightarrow> bool" where
  "grown as va f s s' \<longleftrightarrow>
    as_ok s' as \<and> pool_ok s' as \<and> present (cells s' (as_ptr as)) \<and> present (pdes s' as (l1 va)) \<and>
    lookup s' as = lookup s as \<and> pool s' = drop (need s as va) (pool s) \<and>
    table_pages s' as \<subseteq> table_pages s as \<union> set (pool s) \<and>
    kpt s' = kpt s \<and> freed s' = freed s \<and> cr0 s' = cr0 s \<and> cr3 s' = cr3 s \<and>
    (\<forall>i < 1024. i \<noteq> l1 va \<longrightarrow> pdes s' as i = pdes s as i) \<and>
    (if present (pdes s as (l1 va)) then pdes s' as (l1 va) = pdes s as (l1 va)
     else \<exists>p. baseof p = p \<and> pdes s' as (l1 va) = entry_of p f) \<and>
    (\<forall>a. baseof a \<notin> table_pages s as \<union> set (pool s) \<union> {baseof (as_ptr as)} \<longrightarrow> cells s' a = cells s a)"

lemma ptwalk_hit:
  assumes "present (cells s (as_ptr as))" "present (pdes s as (l1 va))"
  shows "ptwalk as va f s = Inr (slot (baseof (pdes s as (l1 va))) (l2 va), s)"
  using assms by (simp add: ptwalk_levels pdes_def)

lemma grown_hit:
  assumes "as_ok s as" "pool_ok s as" "present (cells s (as_ptr as))" "present (pdes s as (l1 va))"
  shows "grown as va f s s"
  using assms by (simp add: grown_def need_def)

lemma ptwalk_table:
  assumes ok: "as_ok s as" "pool_ok s as" and f: "baseof f = 0"
    and pr: "present (cells s (as_ptr as))" "\<not> present (pdes s as (l1 va))" "pool s \<noteq> []"
  shows "\<exists>s'. ptwalk as va f s = Inr (slot (baseof (pdes s' as (l1 va))) (l2 va), s') \<and> grown as va f s s'"
proof -
  obtain p ps where pool: "pool s = p # ps" using pr by (cases "pool s") auto
  let ?d = "dir_of s as"
  have p: "baseof p = p" "p \<noteq> 0" "p \<noteq> baseof (as_ptr as)" "p \<noteq> ?d" "p \<notin> tables (cells s) ?d"
    using ok(2) pr(1) pool by (auto simp: pool_ok_def table_pages_def)
  have d: "dir_ok (cells s) ?d" "?d \<noteq> baseof (as_ptr as)" "baseof (as_ptr as) \<notin> tables (cells s) ?d"
    using ok(1) pr(1) by (auto simp: as_ok_def table_pages_def)
  have db: "baseof ?d = ?d" by (rule dir_ok_base [OF d(1)])
  have ab: "\<not> present (cells s (slot ?d (l1 va)))" using pr by (simp add: pdes_def)
  define s' where "s' = put_cell (slot ?d (l1 va)) (entry_of p f) (take_page s)"
  have c': "cells s' = (zero_page p (cells s))(slot ?d (l1 va) := entry_of p f)"
    by (simp add: s'_def pool)
  note w = walk_new_table [OF d(1) ab p(1,4,5) f, folded c']
  have ptr: "cells s' (as_ptr as) = cells s (as_ptr as)"
    using slot_in_page [OF db l1_less d(2) [symmetric]] p by (simp add: c' zero_page_other) metis
  then have dir: "dir_of s' as = ?d" by (simp add: dir_of_def)
  have pd: "pdes s' as i = cells s' (slot ?d i)" "pdes s as i = cells s (slot ?d i)" for i
    using pr(1) by (simp_all add: pdes_def ptr dir)
  have "baseof (pdes s' as (l1 va)) = p" by (simp add: pd w(1) baseof_entry [OF p(1) f])
  then have walk: "ptwalk as va f s = Inr (slot (baseof (pdes s' as (l1 va))) (l2 va), s')"
    using pr(1) ab by (simp add: ptwalk_levels pgallocz_ok [OF pool p(2)] s'_def [symmetric])
  have tp: "table_pages s' as = insert p (table_pages s as)"
    using pr(1) by (simp add: table_pages_def ptr dir w(3) insert_commute)
  have "as_ok s' as" using ok(1) w(4) p(3) by (simp add: as_ok_def tp ptr dir)
  moreover have ps: "pool s' = ps" by (simp add: s'_def pool)
  have "pool_ok s' as" using ok(2) unfolding pool_ok_def tp ps pool by auto
  moreover have "lookup s' as = lookup s as" by (rule ext) (simp add: lookup_def ptr dir w(5))
  moreover have "table_pages s' as \<subseteq> table_pages s as \<union> set (pool s)" by (auto simp: tp pool)
  moreover have "cells s' a = cells s a"
    if "baseof a \<notin> table_pages s as \<union> set (pool s) \<union> {baseof (as_ptr as)}" for a
  proof -
    have "baseof a \<noteq> ?d" "baseof a \<noteq> p" using that pr(1) pool by (auto simp: table_pages_def)
    then show ?thesis using slot_in_page [OF db l1_less] p by (simp add: c' zero_page_other) metis
  qed
  ultimately have "grown as va f s s'"
    using pr w(1,2) p(1) pool unfolding grown_def
    by (auto simp: pd ptr need_def present_entry s'_def [symmetric]) (simp_all add: s'_def pool)
  then show ?thesis using walk by blast
qed

text \<open>Without a directory the walk first adds one and then goes on as if it had been there.\<close>

definition with_dir :: "u32 \<Rightarrow> u32 \<Rightarrow> vme \<Rightarrow> vme" where
  "with_dir as f s = put_cell (as_ptr as) (entry_of (hd (pool s)) f) (take_page s)"

lemma with_dir_ok:
  assumes ok: "as_ok s as" "pool_ok s as" and f: "baseof f = 0"
    and ab: "\<not> present (cells s (as_ptr as))" "pool s = p # ps"
  shows "ptwalk as va f s = ptwalk as va f (with_dir as f s)"
    and "as_ok (with_dir as f s) as" "pool_ok (with_dir as f s) as"
    and "lookup (with_dir as f s) as = lookup s as"
    and "present (cells (with_dir as f s) (as_ptr as))" "table_pages (with_dir as f s) as = {p}"
    and "\<And>i. i < 1024 \<Longrightarrow> pdes (with_dir as f s) as i = 0"
    and "\<And>a. baseof a \<noteq> p \<Longrightarrow> baseof a \<noteq> baseof (as_ptr as) \<Longrightarrow> cells (with_dir as f s) a = cells s a"
proof -
  let ?s = "with_dir as f s"
  have p: "baseof p = p" "p \<noteq> 0" "p \<noteq> baseof (as_ptr as)"
    using ok(2) ab(2) by (auto simp: pool_ok_def)
  have c: "cells ?s = (zero_page p (cells s))(as_ptr as := entry_of p f)" by (simp add: with_dir_def ab)
  then have ptr: "present (cells ?s (as_ptr as))" and d: "dir_of ?s as = p"
    by (simp_all add: dir_of_def present_entry baseof_entry [OF p(1) f])
  then show "present (cells ?s (as_ptr as))" by simp
  have z: "cells ?s (slot p i) = 0" if "i < 1024" for i
    using that p slot_in_page [OF p(1) that p(3) [symmetric]] by (simp add: c zero_page_slot)
  note w = walk_new_dir [OF p(1), of "cells ?s", OF z]
  show tp: "table_pages ?s as = {p}" by (simp add: table_pages_def ptr d w(1))
  show "as_ok ?s as" using p(3) w(2) by (simp add: as_ok_def tp d)
  have "pool ?s = ps" by (simp add: with_dir_def ab)
  then show "pool_ok ?s as" using ok(2) ab(2) unfolding pool_ok_def tp by auto
  show "lookup ?s as = lookup s as" using ab by (simp add: lookup_def fun_eq_iff ptr d w(3))
  show "pdes ?s as i = 0" if "i < 1024" for i using z [OF that] by (simp add: pdes_def ptr d)
  show "cells ?s a = cells s a" if "baseof a \<noteq> p" "baseof a \<noteq> baseof (as_ptr as)" for a
    using that p by (auto simp: c zero_page_other)
  have "ptwalk as va f s = ptwalk_loop (Suc 0) p va f ?s"
    using ab by (simp add: ptwalk_levels(1) pgallocz_ok [OF ab(2) p(2)] with_dir_def)
  also have "\<dots> = ptwalk as va f ?s" using ptr d by (simp add: ptwalk_levels(1))
  finally show "ptwalk as va f s = ptwalk as va f ?s" .
qed

lemma ptwalk_dir:
  assumes ok: "as_ok s as" "pool_ok s as" and f: "baseof f = 0"
    and ab: "\<not> present (cells s (as_ptr as))" "2 \<le> length (pool s)"
  shows "\<exists>s'. ptwalk as va f s = Inr (slot (baseof (pdes s' as (l1 va))) (l2 va), s') \<and> grown as va f s s'"
proof -
  obtain p q ps where pool: "pool s = p # q # ps"
    using ab(2) by (metis Suc_le_length_iff numeral_2_eq_2)
  let ?s = "with_dir as f s"
  note w = with_dir_ok [OF ok f ab(1) pool]
  have q: "pool ?s = q # ps" by (simp add: with_dir_def pool)
  have "\<not> present (pdes ?s as (l1 va))" using w(7) by simp
  then obtain s' where s': "ptwalk as va f ?s = Inr (slot (baseof (pdes s' as (l1 va))) (l2 va), s')"
      "grown as va f ?s s'"
    using ptwalk_table [OF w(2,3) f w(5), of va] q by auto
  have pd0: "pdes s as i = 0" for i using ab by (simp add: pdes_def)
  have "need ?s as va = 1" "need s as va = 2" using ab w(5,7) by (simp_all add: need_def)
  moreover have "table_pages s' as \<subseteq> table_pages s as \<union> set (pool s)"
    using s'(2) unfolding grown_def w(6) q pool by auto
  moreover have "kpt ?s = kpt s" "freed ?s = freed s" "cr0 ?s = cr0 s" "cr3 ?s = cr3 s"
    by (simp_all add: with_dir_def)
  moreover have "cells s' a = cells s a"
    if "baseof a \<notin> table_pages s as \<union> set (pool s) \<union> {baseof (as_ptr as)}" for a
  proof -
    have "cells s' a = cells ?s a" using s'(2) that unfolding grown_def w(6) q pool by auto
    also have "\<dots> = cells s a" using that by (intro w(8)) (auto simp: pool)
    finally show ?thesis .
  qed
  ultimately have "grown as va f s s'"
    using s'(2) unfolding grown_def w(4) q by (auto simp: pd0 w(7) pool)
  then show ?thesis using s'(1) unfolding w(1) by blast
qed

lemma ptwalk_ok:
  assumes "as_ok s as" "pool_ok s as" "baseof f = 0" "need s as va \<le> length (pool s)"
  shows "\<exists>s'. ptwalk as va f s = Inr (slot (baseof (pdes s' as (l1 va))) (l2 va), s') \<and> grown as va f s s'"
proof -
  consider "present (cells s (as_ptr as))" "present (pdes s as (l1 va))"
    | "present (cells s (as_ptr as))" "\<not> present (pdes s as (l1 va))"
    | "\<not> present (cells s (as_ptr as))" by blast
  then show ?thesis
  proof cases
    case 1
    then show ?thesis using grown_hit [OF assms(1,2)] ptwalk_hit by blast
  next
    case 2
    then show ?thesis using assms by (intro ptwalk_table) (auto simp: need_def)
  next
    case 3
    then show ?thesis using assms by (intro ptwalk_dir) (auto simp: need_def)
  qed
qed

section \<open>Writing an entry\<close>

lemma entry_update:
  fixes s :: vme and as va v :: u32
  assumes ok: "as_ok s as" and pr: "present (cells s (as_ptr as))" "present (pdes s as (l1 va))"
  defines "s' \<equiv> put_cell (slot (baseof (pdes s as (l1 va))) (l2 va)) v s"
  shows "cells s' (as_ptr as) = cells s (as_ptr as)" and "\<And>i. i < 1024 \<Longrightarrow> pdes s' as i = pdes s as i"
    and "table_pages s' as = table_pages s as" and "as_ok s' as"
    and "lookup s' as va' =
      (if baseof va' = baseof va then translate (pdes s as (l1 va)) v va' else lookup s as va')"
proof -
  let ?d = "dir_of s as" and ?e = "pdes s as (l1 va)"
  have e: "?e = cells s (slot ?d (l1 va))" using pr by (simp add: pdes_def)
  have d: "dir_ok (cells s) ?d" "baseof (as_ptr as) \<notin> tables (cells s) ?d"
    using ok pr by (auto simp: as_ok_def table_pages_def)
  note w = walk_entry [OF d(1), where va = va and v = v, folded e, OF pr(2)]
  have c: "cells s' = (cells s)(slot (baseof ?e) (l2 va) := v)" by (simp add: s'_def)
  have "baseof ?e \<in> tables (cells s) ?d" using tablesI [of "l1 va" "cells s" ?d] pr(2) e by simp
  then have "baseof (as_ptr as) \<noteq> baseof ?e" using d(2) by metis
  then have "slot (baseof ?e) (l2 va) \<noteq> as_ptr as" by (intro slot_in_page) simp_all
  then show ptr: "cells s' (as_ptr as) = cells s (as_ptr as)" by (simp add: c)
  then have dir: "dir_of s' as = ?d" by (simp add: dir_of_def)
  have f: "cells s' (slot ?d i) = cells s (slot ?d i)" if "i < 1024" for i
    using w(1) [OF that] by (simp only: c)
  show "pdes s' as i = pdes s as i" if "i < 1024" for i
    using pr(1) f [OF that] by (simp add: pdes_def ptr dir)
  note df = dir_frame [of "cells s'" ?d "cells s", OF f]
  show tp: "table_pages s' as = table_pages s as" by (simp add: table_pages_def ptr dir df(1))
  show "as_ok s' as" using ok by (simp add: as_ok_def tp ptr dir df(2))
  show "lookup s' as va' =
      (if baseof va' = baseof va then translate ?e v va' else lookup s as va')"
    using pr(1) w(2) [of va', folded c] by (simp add: lookup_def ptr dir)
qed

lemma entry_present_iff:
  assumes "present (cells s (as_ptr as))" "present (pdes s as (l1 va))"
  shows "present (cells s (slot (baseof (pdes s as (l1 va))) (l2 va))) \<longleftrightarrow> lookup s as va \<noteq> None"
  using assms by (simp add: lookup_def mmu_walk_def Let_def translate_def pdes_def)

section \<open>Mapping refines the update of a map\<close>

lemma and_bits: "(x :: u32) AND PTE_W \<noteq> 0 \<longleftrightarrow> bit x (Suc 0)" "x AND PTE_U \<noteq> 0 \<longleftrightarrow> bit x 2"
  using and_exp_eq_0_iff_not_bit [of x 1] and_exp_eq_0_iff_not_bit [of x 2] by simp_all

lemma translate_bits:
  "translate pde pte va =
    (if bit pte 0 then Some (baseof pte OR (va AND 0xfff), bit pde (Suc 0) \<and> bit pte (Suc 0), bit pde 2 \<and> bit pte 2)
     else None)"
  unfolding translate_def present_bit and.assoc [symmetric] and_bits by (simp only: bit_and_iff)

text \<open>
  The contract of \<open>map\<close>: an address space is a partial map from addresses to frames and rights;
  mapping and unmapping change it on one page.
\<close>

definition spec_map :: "u32 \<Rightarrow> u32 \<Rightarrow> u32 \<Rightarrow> translation \<Rightarrow> vme_panic + translation" where
  "spec_map va pa prot m =
    (if \<not> (0x40000000 \<le> va \<and> va < 0x80000000) then Inl Invalid_address
     else if baseof va \<noteq> va \<or> baseof pa \<noteq> pa then Inl Non_page_boundary
     else if prot = MMAP_NONE
     then if m va = None then Inl Unmapping_non_mapped
          else Inr (\<lambda>a. if baseof a = va then None else m a)
     else if m va \<noteq> None then Inl Remapping_mapped
          else Inr (\<lambda>a. if baseof a = va
                        then Some (pa OR (a AND 0xfff), prot AND MMAP_WRITE \<noteq> 0, True) else m a))"

text \<open>
  A user address space: the tables of the user area grant everything (the entries decide), those
  of the rest are for the kernel only.
\<close>

definition user_index :: "u32 \<Rightarrow> bool" where
  "user_index i \<longleftrightarrow> 256 \<le> i \<and> i < 512"

definition user_ok :: "vme \<Rightarrow> u32 \<Rightarrow> bool" where
  "user_ok s as \<longleftrightarrow> as_ok s as \<and> present (cells s (as_ptr as)) \<and>
    (\<forall>i < 1024. present (pdes s as i) \<longrightarrow>
      (if user_index i then bit (pdes s as i) (Suc 0) \<and> bit (pdes s as i) 2 else \<not> bit (pdes s as i) 2))"

lemma user_index_l1: "user_index (l1 va) \<longleftrightarrow> 0x40000000 \<le> va \<and> va < 0x80000000"
proof -
  have "256 \<le> unat va div 4194304 \<longleftrightarrow> 1073741824 \<le> unat va" by (simp add: less_eq_div_iff_mult_less_eq)
  moreover have "unat va div 4194304 < 512 \<longleftrightarrow> unat va < 2147483648" by (simp add: div_less_iff_less_mult)
  ultimately show ?thesis
    unfolding user_index_def l1_mask by (simp add: word_le_nat_alt word_less_nat_alt unat_drop_bit)
qed

lemma entry_user_bits: "bit (entry_of p (PTE_W OR PTE_U)) (Suc 0)" "bit (entry_of p (PTE_W OR PTE_U)) 2"
  by (simp_all add: entry_of_def bit_or_iff)

lemma user_walk:
  assumes ok: "user_ok s as" "pool_ok s as" and va: "user_index (l1 va)" and n: "pool s \<noteq> []"
  shows "\<exists>s'. ptwalk as va (PTE_W OR PTE_U) s = Inr (slot (baseof (pdes s' as (l1 va))) (l2 va), s')
    \<and> grown as va (PTE_W OR PTE_U) s s' \<and> user_ok s' as"
proof -
  have "baseof (PTE_W OR PTE_U) = 0" by (simp add: baseof_mask mask_eq_exp_minus_1)
  moreover have "need s as va \<le> length (pool s)"
    using ok(1) n by (cases "pool s") (auto simp: need_def user_ok_def)
  ultimately obtain s' where s': "ptwalk as va (PTE_W OR PTE_U) s = Inr (slot (baseof (pdes s' as (l1 va))) (l2 va), s')"
    "grown as va (PTE_W OR PTE_U) s s'"
    using ptwalk_ok ok unfolding user_ok_def by blast
  have "user_ok s' as" unfolding user_ok_def
  proof (intro conjI allI impI)
    fix i assume i: "i < 1024" "present (pdes s' as i)"
    show "if user_index i then bit (pdes s' as i) (Suc 0) \<and> bit (pdes s' as i) 2 else \<not> bit (pdes s' as i) 2"
    proof (cases "i = l1 va \<and> \<not> present (pdes s as i)")
      case True
      then show ?thesis using s'(2) va entry_user_bits unfolding grown_def by auto
    next
      case False
      then have "pdes s' as i = pdes s as i" using s'(2) i unfolding grown_def by (auto split: if_splits)
      then show ?thesis using ok(1) i unfolding user_ok_def by simp
    qed
  qed (use s'(2) in \<open>auto simp: grown_def\<close>)
  then show ?thesis using s' by blast
qed

lemma user_set_entry:
  assumes ok: "user_ok s as" "pool_ok s as" and pr: "present (pdes s as (l1 va))"
    and s2: "s2 = put_cell (slot (baseof (pdes s as (l1 va))) (l2 va)) v s"
  shows "ptwalk as va f s2 = Inr (slot (baseof (pdes s as (l1 va))) (l2 va), s2)"
    and "user_ok s2 as" "pool_ok s2 as" "pool s2 = pool s"
    and "lookup s2 as = (\<lambda>a. if baseof a = baseof va then translate (pdes s as (l1 va)) v a else lookup s as a)"
proof -
  have a: "as_ok s as" "present (cells s (as_ptr as))" using ok(1) by (auto simp: user_ok_def)
  note eu = entry_update [OF a pr, where v = v, folded s2]
  show ps: "pool s2 = pool s" by (simp add: s2)
  show "ptwalk as va f s2 = Inr (slot (baseof (pdes s as (l1 va))) (l2 va), s2)"
    using ptwalk_hit [of s2 as va] a pr eu(1) eu(2) [OF l1_less] by simp
  show "user_ok s2 as" using ok(1) eu(1,2,4) unfolding user_ok_def by simp
  show "pool_ok s2 as" using ok(2) eu(3) ps unfolding pool_ok_def by simp
  show "lookup s2 as = (\<lambda>a. if baseof a = baseof va then translate (pdes s as (l1 va)) v a else lookup s as a)"
    using eu(5) by (simp add: fun_eq_iff)
qed

text \<open>The entry \<open>map\<close> writes, seen through a table of the user area.\<close>

lemma translate_user_entry:
  assumes "bit e (Suc 0)" "bit e 2" "baseof pa = pa"
  shows "translate e (pa OR PTE_P OR PTE_U OR (if w then PTE_W else 0)) a = Some (pa OR (a AND 0xfff), w, True)"
proof -
  have "\<not> bit pa n" if "n < 12" for n using bit_page [OF assms(3), of n] that by auto
  moreover have "baseof (pa OR PTE_P OR PTE_U OR (if w then PTE_W else 0)) = pa"
    using assms(3) by (simp add: baseof_or) (simp add: baseof_mask mask_eq_exp_minus_1)
  ultimately show ?thesis using assms by (simp add: translate_bits bit_or_iff)
qed

text \<open>One call of \<open>map\<close>.\<close>

definition refines_map :: "u32 \<Rightarrow> u32 \<Rightarrow> u32 \<Rightarrow> u32 \<Rightarrow> vme \<Rightarrow> vme_panic + vme \<Rightarrow> bool" where
  "refines_map as va pa prot s r =
    (case r of
      Inl e \<Rightarrow> spec_map va pa prot (lookup s as) = Inl e
    | Inr s' \<Rightarrow> spec_map va pa prot (lookup s as) = Inr (lookup s' as)
        \<and> user_ok s' as \<and> pool_ok s' as \<and> length (pool s) \<le> Suc (length (pool s')))"

lemma map_refines:
  assumes ok: "user_ok s as" "pool_ok s as" and n: "pool s \<noteq> []"
  shows "refines_map as va pa prot s (vme_map as va pa prot s)"
proof (cases "0x40000000 \<le> va \<and> va < 0x80000000 \<and> baseof va = va \<and> baseof pa = pa")
  case False
  then show ?thesis
    by (auto simp: refines_map_def vme_map_def spec_map_def uvm_area_def vm_areas_def baseof_def)
next
  case True
  then have b: "baseof va = va" "baseof pa = pa" and ui: "user_index (l1 va)"
    by (auto simp: user_index_l1)
  obtain s1 where w: "ptwalk as va (PTE_W OR PTE_U) s = Inr (slot (baseof (pdes s1 as (l1 va))) (l2 va), s1)"
    and g: "grown as va (PTE_W OR PTE_U) s s1" and u1: "user_ok s1 as"
    using user_walk [OF ok ui n] by blast
  let ?e = "pdes s1 as (l1 va)"
  let ?slot = "slot (baseof ?e) (l2 va)"
  let ?v = "pa OR PTE_P OR PTE_U OR (if prot AND MMAP_WRITE \<noteq> 0 then PTE_W else 0)"
  have pr: "present (cells s1 (as_ptr as))" "present ?e" and lk: "lookup s1 as = lookup s as"
    and pk: "pool_ok s1 as" and ps: "length (pool s) \<le> Suc (length (pool s1))"
    using g ok(1) by (auto simp: grown_def need_def user_ok_def)
  have eb: "bit ?e (Suc 0)" "bit ?e 2" using u1 pr(2) ui unfolding user_ok_def by auto
  have pe: "cells s1 ?slot AND PTE_P = 0 \<longleftrightarrow> lookup s as va = None"
    using entry_present_iff [OF pr] unfolding lk by blast
  note se = user_set_entry [OF u1 pk pr(2) refl, unfolded b lk]
  have step: "refines_map as va pa prot s (map_sum id snd (ptwalk as va (PTE_W OR PTE_U) (put_cell ?slot v s1)))"
    if "spec_map va pa prot (lookup s as) = Inr (\<lambda>a. if baseof a = va then translate ?e v a else lookup s as a)" for v
    using that se ps by (simp add: refines_map_def)
  have guard: "(area_start uvm_area \<le> va \<and> va < area_end uvm_area)"
    "\<not> (va \<noteq> va AND NOT (pgsize - 1) \<or> pa \<noteq> pa AND NOT (pgsize - 1))"
    using True by (auto simp: uvm_area_def vm_areas_def baseof_def)
  have run: "vme_map as va pa prot s =
      (if prot = MMAP_NONE
       then if lookup s as va = None then Inl Unmapping_non_mapped
            else map_sum id snd (ptwalk as va (PTE_W OR PTE_U) (put_cell ?slot 0 s1))
       else if lookup s as va \<noteq> None then Inl Remapping_mapped
            else map_sum id snd (ptwalk as va (PTE_W OR PTE_U) (put_cell ?slot ?v s1)))"
    unfolding vme_map_def w using guard pe by simp
  consider "prot = MMAP_NONE" "lookup s as va = None" | "prot = MMAP_NONE" "lookup s as va \<noteq> None"
    | "prot \<noteq> MMAP_NONE" "lookup s as va = None" | "prot \<noteq> MMAP_NONE" "lookup s as va \<noteq> None" by blast
  then show ?thesis
  proof cases
    case 2
    then have "spec_map va pa prot (lookup s as) = Inr (\<lambda>a. if baseof a = va then translate ?e 0 a else lookup s as a)"
      using True by (simp add: spec_map_def translate_def cong: if_cong)
    moreover have "vme_map as va pa prot s = map_sum id snd (ptwalk as va (PTE_W OR PTE_U) (put_cell ?slot 0 s1))"
      by (rule trans [OF run]) (use 2 in auto)
    ultimately show ?thesis by (simp only: step)
  next
    case 3
    then have "spec_map va pa prot (lookup s as) = Inr (\<lambda>a. if baseof a = va then translate ?e ?v a else lookup s as a)"
      unfolding translate_user_entry [OF eb b(2)] using True by (simp add: spec_map_def)
    moreover have "vme_map as va pa prot s = map_sum id snd (ptwalk as va (PTE_W OR PTE_U) (put_cell ?slot ?v s1))"
      by (rule trans [OF run]) (use 3 in simp)
    ultimately show ?thesis by (simp only: step)
  qed (use True run in \<open>simp_all add: refines_map_def spec_map_def\<close>)
qed

text \<open>A sequence of calls, up to the first panic.\<close>

fun run_maps :: "u32 \<Rightarrow> (u32 \<times> u32 \<times> u32) list \<Rightarrow> vme \<Rightarrow> vme_panic + vme" where
  "run_maps as [] s = Inr s"
| "run_maps as ((va, pa, prot) # ops) s =
    (case vme_map as va pa prot s of Inl e \<Rightarrow> Inl e | Inr s' \<Rightarrow> run_maps as ops s')"

fun spec_maps :: "(u32 \<times> u32 \<times> u32) list \<Rightarrow> translation \<Rightarrow> vme_panic + translation" where
  "spec_maps [] m = Inr m"
| "spec_maps ((va, pa, prot) # ops) m =
    (case spec_map va pa prot m of Inl e \<Rightarrow> Inl e | Inr m' \<Rightarrow> spec_maps ops m')"

lemma run_maps_refines:
  assumes "user_ok s as" "pool_ok s as" "length ops \<le> length (pool s)"
  shows "map_sum id (\<lambda>s'. lookup s' as) (run_maps as ops s) = spec_maps ops (lookup s as)
    \<and> (\<forall>s'. run_maps as ops s = Inr s' \<longrightarrow> user_ok s' as \<and> pool_ok s' as)"
  using assms
proof (induction as ops s rule: run_maps.induct)
  case (2 as va pa prot ops s)
  have "pool s \<noteq> []" using 2 by auto
  then have r: "refines_map as va pa prot s (vme_map as va pa prot s)"
    using 2 by (intro map_refines)
  show ?case
  proof (cases "vme_map as va pa prot s")
    case (Inl e)
    then show ?thesis using r by (simp add: refines_map_def)
  next
    case (Inr s')
    then show ?thesis using r 2 by (simp add: refines_map_def)
  qed
qed simp

text \<open>Mappings outside the user area never change.\<close>

lemma spec_map_kernel:
  assumes "spec_map va pa prot m = Inr m'" "\<not> (0x40000000 \<le> a \<and> a < 0x80000000)"
  shows "m' a = m a"
proof -
  have "baseof a \<noteq> va" if "0x40000000 \<le> va" "va < 0x80000000" "baseof va = va"
    using that assms(2) same_page_iff [of a va] by (metis user_index_l1)
  then show ?thesis using assms(1) by (auto simp: spec_map_def split: if_splits)
qed

lemma spec_maps_kernel:
  "spec_maps ops m = Inr m' \<Longrightarrow> \<not> (0x40000000 \<le> a \<and> a < 0x80000000) \<Longrightarrow> m' a = m a"
proof (induction ops m rule: spec_maps.induct)
  case (2 va pa prot ops m)
  then show ?case by (auto split: sum.splits dest: spec_map_kernel)
qed simp

section \<open>The kernel's tables\<close>

definition kernel_index :: "u32 \<Rightarrow> bool" where
  "kernel_index i \<longleftrightarrow> i < 256 \<or> 1012 \<le> i \<and> i < 1024"

definition kernel_addr :: "u32 \<Rightarrow> bool" where
  "kernel_addr a \<longleftrightarrow> a < 0x40000000 \<or> 0xfd000000 \<le> a"

lemma kernel_index_l1: "kernel_index (l1 a) \<longleftrightarrow> kernel_addr a"
proof -
  have "unat a div 4194304 < 256 \<longleftrightarrow> unat a < 1073741824" by (simp add: div_less_iff_less_mult)
  moreover have "1012 \<le> unat a div 4194304 \<longleftrightarrow> 4244635648 \<le> unat a"
    by (simp add: less_eq_div_iff_mult_less_eq)
  moreover have "unat a div 4194304 < 1024" using unat_u32_less [of a] by (simp add: div_less_iff_less_mult)
  ultimately show ?thesis
    unfolding kernel_index_def kernel_addr_def l1_mask
    by (simp add: word_le_nat_alt word_less_nat_alt unat_drop_bit)
qed

lemma card_kernel_index: "finite {i. kernel_index i}" "card {i. kernel_index i} \<le> 268"
proof -
  let ?N = "{..<256} \<union> {1012..<1024 :: nat}"
  have sub: "{i. kernel_index i} \<subseteq> of_nat ` ?N"
  proof
    fix i assume "i \<in> {i. kernel_index i}"
    then have "unat i \<in> ?N" by (auto simp: kernel_index_def word_le_nat_alt word_less_nat_alt)
    then show "i \<in> of_nat ` ?N" by (metis imageI of_nat_unat ucast_id)
  qed
  then show "finite {i. kernel_index i}" by (rule finite_subset) simp
  have "card {i. kernel_index i} \<le> card ((of_nat :: nat \<Rightarrow> u32) ` ?N)"
    using sub by (intro card_mono) auto
  also have "\<dots> \<le> card ?N" by (rule card_image_le) simp
  also have "card ?N = card {..<256 :: nat} + card {1012..<1024 :: nat}" by (intro card_Un_disjoint) auto
  finally show "card {i. kernel_index i} \<le> 268" by simp
qed

text \<open>
  The state of the construction after the pages \<open>D\<close>: identity mapping, tables for the kernel only,
  and enough pages left for the tables still missing.
\<close>

definition used :: "vme \<Rightarrow> u32 \<Rightarrow> nat" where
  "used s as = (if present (cells s (as_ptr as))
     then Suc (card {i. i < 1024 \<and> present (pdes s as i)}) else 0)"

definition kinv :: "u32 set \<Rightarrow> vme \<Rightarrow> u32 \<Rightarrow> (u32 \<Rightarrow> bool) \<Rightarrow> bool" where
  "kinv P s as D \<longleftrightarrow> table_pages s as \<union> set (pool s) \<subseteq> P \<and> as_ok s as \<and> pool_ok s as \<and> card P = used s as + length (pool s) \<and> 269 \<le> card P \<and>
    (\<forall>i < 1024. present (pdes s as i) \<longrightarrow>
      kernel_index i \<and> bit (pdes s as i) (Suc 0) \<and> \<not> bit (pdes s as i) 2) \<and>
    lookup s as = (\<lambda>a. if D a then Some (a, True, False) else None)"

lemma kernel_indices_small: "kernel_index i \<Longrightarrow> i < 1024"
  by (auto simp: kernel_index_def word_less_nat_alt)

lemma kinv_need:
  assumes inv: "kinv P s as D" and k: "kernel_index (l1 va)"
  shows "need s as va \<le> length (pool s)"
proof (cases "need s as va = 1")
  case True
  then have pr: "present (cells s (as_ptr as))" "\<not> present (pdes s as (l1 va))"
    by (auto simp: need_def split: if_splits)
  have "{i. i < 1024 \<and> present (pdes s as i)} \<subset> {i. kernel_index i}"
    using inv k pr by (auto simp: kinv_def)
  then have "card {i. i < 1024 \<and> present (pdes s as i)} < card {i. kernel_index i}"
    by (rule psubset_card_mono [OF card_kernel_index(1)])
  then show ?thesis using inv card_kernel_index(2) pr(1) True by (simp add: kinv_def used_def)
next
  case False
  then show ?thesis using inv by (auto simp: kinv_def used_def need_def)
qed

lemma used_grown:
  assumes g: "grown as va f s s'"
  shows "used s' as = used s as + need s as va"
proof -
  let ?P = "\<lambda>s. {i. i < 1024 \<and> present (pdes s as i)}"
  have pr: "present (cells s' (as_ptr as))" "present (pdes s' as (l1 va))" using g by (simp_all add: grown_def)
  have "?P s' = insert (l1 va) (?P s)"
  proof (intro set_eqI)
    fix i show "i \<in> ?P s' \<longleftrightarrow> i \<in> insert (l1 va) (?P s)"
      using g pr(2) unfolding grown_def by (cases "i = l1 va") auto
  qed
  moreover have "finite (?P s)" by simp
  ultimately have c: "card (?P s') = (if present (pdes s as (l1 va)) then card (?P s) else Suc (card (?P s)))"
    by (simp add: card_insert_if)
  have "?P s = {}" if "\<not> present (cells s (as_ptr as))" using that by (simp add: pdes_def)
  then show ?thesis using c pr by (auto simp: used_def need_def pdes_def)
qed

lemma translate_kernel_entry:
  assumes "bit e (Suc 0)" "\<not> bit e 2" "baseof p = p" "baseof a = p"
  shows "translate e (p OR PTE_P OR PTE_W) a = Some (a, True, False)"
proof -
  have "baseof (p OR PTE_P OR PTE_W) = p"
    using assms(3) by (simp add: baseof_or) (simp add: baseof_mask mask_eq_exp_minus_1)
  moreover have "p OR (a AND 0xfff) = a"
  proof -
    have "(0xfff :: u32) = mask 12" by (simp add: mask_eq_exp_minus_1)
    then have "p OR (a AND 0xfff) = (a AND NOT (mask 12)) OR (a AND mask 12)"
      using assms(4) by (simp add: baseof_mask)
    also have "\<dots> = a" by (rule bit_word_eqI) (auto simp: bit_simps)
    finally show ?thesis .
  qed
  ultimately show ?thesis using assms by (simp add: translate_bits bit_or_iff)
qed

lemma kernel_flags_grown:
  assumes inv: "kinv P s as D" and k: "kernel_index (l1 va)" and g: "grown as va PTE_W s s1"
    and i: "i < 1024" "present (pdes s1 as i)"
  shows "kernel_index i \<and> bit (pdes s1 as i) (Suc 0) \<and> \<not> bit (pdes s1 as i) 2"
proof (cases "i = l1 va \<and> \<not> present (pdes s as i)")
  case True
  then obtain p where p: "baseof p = p" "pdes s1 as i = entry_of p PTE_W"
    using g unfolding grown_def by auto
  have "\<not> bit p 2" using bit_page [OF p(1), of 2] by auto
  then show ?thesis using True k p(2) by (simp add: entry_of_def bit_or_iff)
next
  case False
  then have "pdes s1 as i = pdes s as i" using g i unfolding grown_def by (auto split: if_splits)
  then show ?thesis using inv i unfolding kinv_def by simp
qed

lemma kmap_step:
  assumes inv: "kinv P s as D" and cur: "baseof cur = cur" "kernel_addr cur"
  shows "\<exists>entry s1. ptwalk as cur PTE_W s = Inr (entry, s1)
    \<and> kinv P (put_cell entry (cur OR PTE_P OR PTE_W) s1) as (\<lambda>a. baseof a = cur \<or> D a)"
proof -
  have k: "kernel_index (l1 cur)" using cur(2) by (simp only: kernel_index_l1)
  have "baseof PTE_W = 0" by (simp add: baseof_mask mask_eq_exp_minus_1)
  then obtain s1 where w: "ptwalk as cur PTE_W s = Inr (slot (baseof (pdes s1 as (l1 cur))) (l2 cur), s1)"
    and g: "grown as cur PTE_W s s1"
    using ptwalk_ok [of s as PTE_W cur] kinv_need [OF inv k] inv by (auto simp: kinv_def)
  let ?e = "pdes s1 as (l1 cur)" and ?v = "cur OR PTE_P OR PTE_W"
  define s2 where "s2 = put_cell (slot (baseof ?e) (l2 cur)) ?v s1"
  have pr: "as_ok s1 as" "present (cells s1 (as_ptr as))" "present ?e" using g by (simp_all add: grown_def)
  note fl = kernel_flags_grown [OF inv k g]
  note eu = entry_update [OF pr, where v = ?v, folded s2_def]
  have pd: "pdes s2 as i = pdes s1 as i" if "i < 1024" for i by (rule eu(2) [OF that])
  have us: "used s2 as + length (pool s2) = used s as + length (pool s)"
  proof -
    have "{i. i < 1024 \<and> present (pdes s2 as i)} = {i. i < 1024 \<and> present (pdes s1 as i)}"
      using pd by auto
    then have "used s2 as = used s1 as" by (simp add: used_def eu(1))
    moreover have "pool s2 = drop (need s as cur) (pool s)" using g by (simp add: s2_def grown_def)
    ultimately show ?thesis using used_grown [OF g] kinv_need [OF inv k] by simp
  qed
  have "lookup s2 as = (\<lambda>a. if baseof a = cur \<or> D a then Some (a, True, False) else None)"
  proof
    fix a
    have "lookup s1 as = lookup s as" using g by (simp add: grown_def)
    then show "lookup s2 as a = (if baseof a = cur \<or> D a then Some (a, True, False) else None)"
      using eu(5) [of a] translate_kernel_entry [of ?e cur a] fl [OF l1_less pr(3)] cur inv
      by (auto simp: kinv_def)
  qed
  moreover have "pool_ok s1 as" "pool s2 = pool s1" using g by (simp_all add: grown_def s2_def)
  then have "pool_ok s2 as" using eu(3) by (simp add: pool_ok_def)
  moreover have "table_pages s2 as \<union> set (pool s2) \<subseteq> P"
    using g inv set_drop_subset [of "need s as cur" "pool s"] \<open>pool s2 = pool s1\<close>
    unfolding grown_def kinv_def eu(3) by auto
  ultimately have "kinv P s2 as (\<lambda>a. baseof a = cur \<or> D a)"
    using eu(4) us inv fl pd unfolding kinv_def by simp
  then show ?thesis using w unfolding s2_def by blast
qed

text \<open>The loop over an area of \<open>n\<close> pages returns, with the area mapped.\<close>

lemma unat_baseof: "unat (baseof x) = 4096 * (unat x div 4096)"
  unfolding baseof_mask using unat_and_not_mask [of x 12] by (simp add: minus_mod_eq_mult_div)

lemma baseof_iff_dvd: "baseof x = x \<longleftrightarrow> 4096 dvd unat x"
  unfolding word_unat_eq_iff unat_baseof by (metis dvd_mult_div_cancel dvd_triv_left)

lemma page_add: "baseof cur = cur \<Longrightarrow> baseof (cur + pgsize) = cur + pgsize"
  by (simp add: baseof_iff_dvd pgsize_def unat_word_ariths dvd_mod_iff)

lemma kmap_loop_ok:
  assumes "kinv P s as D" "baseof cur = cur" "n * 4096 < 2 ^ 32"
    and "\<And>k. k < n \<Longrightarrow> kernel_addr (cur + of_nat (k * 4096))"
  shows "\<exists>s'. kmap_loop as (cur + of_nat (n * 4096)) cur s = Some (Inr s')
    \<and> kinv P s' as (\<lambda>a. (\<exists>k < n. baseof a = cur + of_nat (k * 4096)) \<or> D a)"
  using assms
proof (induction n arbitrary: cur s D)
  case 0
  then show ?case by (simp add: kmap_loop.simps)
next
  case (Suc n)
  have ka: "kernel_addr cur" using Suc.prems(4) [of 0] by simp
  obtain entry s1 where w: "ptwalk as cur PTE_W s = Inr (entry, s1)"
    and i: "kinv P (put_cell entry (cur OR PTE_P OR PTE_W) s1) as (\<lambda>a. baseof a = cur \<or> D a)"
    using kmap_step [OF Suc.prems(1,2) ka] by blast
  have sh: "cur + pgsize + of_nat (k * 4096) = cur + of_nat (Suc k * 4096)" for k
    by (simp add: pgsize_def algebra_simps)
  obtain s' where s': "kmap_loop as (cur + pgsize + of_nat (n * 4096)) (cur + pgsize)
        (put_cell entry (cur OR PTE_P OR PTE_W) s1) = Some (Inr s')"
    and inv': "kinv P s' as (\<lambda>a. (\<exists>k < n. baseof a = cur + pgsize + of_nat (k * 4096)) \<or> baseof a = cur \<or> D a)"
    using Suc.IH [OF i page_add [OF Suc.prems(2)]] Suc.prems(3,4) unfolding sh by force
  have "(of_nat (Suc n * 4096) :: u32) \<noteq> 0"
  proof -
    have "unat (of_nat (Suc n * 4096) :: u32) = Suc n * 4096"
      using Suc.prems(3) by (simp only: unat_of_nat) simp
    then show ?thesis by auto
  qed
  then have ne: "cur \<noteq> cur + of_nat (Suc n * 4096)" by simp
  have "kmap_loop as (cur + of_nat (Suc n * 4096)) cur s = Some (Inr s')"
    using ne s' unfolding sh by (subst kmap_loop.simps) (simp add: w)
  moreover have "(\<lambda>a. (\<exists>k < n. baseof a = cur + pgsize + of_nat (k * 4096)) \<or> baseof a = cur \<or> D a)
      = (\<lambda>a. (\<exists>k < Suc n. baseof a = cur + of_nat (k * 4096)) \<or> D a)"
    unfolding sh by (rule ext) (auto simp: Ex_less_Suc2)
  ultimately show ?case using inv' by simp
qed

lemma area_pages:
  fixes start a :: u32
  assumes "baseof start = start" "unat start + n * 4096 \<le> 2 ^ 32"
  shows "(\<exists>k < n. baseof a = start + of_nat (k * 4096)) \<longleftrightarrow> unat start \<le> unat a \<and> unat a < unat start + n * 4096"
proof -
  obtain m where m: "unat start = 4096 * m" using assms(1) by (auto simp: baseof_iff_dvd)
  have "unat (start + of_nat (k * 4096)) = 4096 * (m + k)" if "k < n" for k
  proof -
    have "k * 4096 < n * 4096" using that by simp
    then have "unat start + k * 4096 < 2 ^ 32" using assms(2) by linarith
    moreover have "unat (of_nat (k * 4096) :: u32) = (k * 4096) mod 2 ^ 32" by (simp only: unat_of_nat) simp
    ultimately show ?thesis using m by (simp add: unat_word_ariths)
  qed
  then have "(\<exists>k < n. baseof a = start + of_nat (k * 4096)) \<longleftrightarrow> (\<exists>k < n. unat a div 4096 = m + k)"
    by (auto simp: word_unat_eq_iff unat_baseof)
  also have "\<dots> \<longleftrightarrow> m \<le> unat a div 4096 \<and> unat a div 4096 < m + n"
    by (auto intro!: exI [of _ "unat a div 4096 - m"])
  also have "\<dots> \<longleftrightarrow> unat start \<le> unat a \<and> unat a < unat start + n * 4096"
    unfolding m by (simp add: less_eq_div_iff_mult_less_eq div_less_iff_less_mult algebra_simps)
  finally show ?thesis .
qed

lemma kmap_area_ok:
  assumes "kinv P s as D" "baseof start = start" "unat start + n * 4096 \<le> 2 ^ 32" "n * 4096 < 2 ^ 32"
    and "\<And>a. unat start \<le> unat a \<Longrightarrow> unat a < unat start + n * 4096 \<Longrightarrow> kernel_addr a"
  shows "\<exists>s'. kmap_loop as (start + of_nat (n * 4096)) start s = Some (Inr s')
    \<and> kinv P s' as (\<lambda>a. (unat start \<le> unat a \<and> unat a < unat start + n * 4096) \<or> D a)"
proof -
  have "kernel_addr (start + of_nat (k * 4096))" if "k < n" for k
  proof -
    have "baseof (start + of_nat (k * 4096)) = start + of_nat (k * 4096)"
    proof -
      have "(4096 :: nat) dvd (k * 4096) mod 2 ^ 32" by (simp add: dvd_mod_iff)
      then show ?thesis using assms(2)
        by (simp only: baseof_iff_dvd unat_word_ariths unat_of_nat) (simp add: dvd_mod_iff)
    qed
    then show ?thesis using area_pages [OF assms(2,3), of "start + of_nat (k * 4096)"] that by (intro assms(5)) auto
  qed
  from kmap_loop_ok [OF assms(1,2,4) this] show ?thesis
    unfolding area_pages [OF assms(2,3)] .
qed

lemma kmap_areas_ok:
  assumes "kinv P s as (\<lambda>a. False)"
  shows "\<exists>s'. kmap_areas as vm_areas s = Some (Inr s') \<and> kinv P s' as kernel_addr"
proof -
  obtain s1 where s1: "kmap_loop as 0x40000000 0 s = Some (Inr s1)"
    "kinv P s1 as (\<lambda>a. unat a < 0x40000000 \<or> False)"
    using kmap_area_ok [OF assms, of 0 262144]
    by (force simp: kernel_addr_def word_less_nat_alt baseof_iff_dvd)
  obtain s2 where s2: "kmap_loop as 0 0xfd000000 s1 = Some (Inr s2)"
    "kinv P s2 as (\<lambda>a. (0xfd000000 \<le> unat a \<and> unat a < 0x100000000) \<or> unat a < 0x40000000 \<or> False)"
  proof -
    have u: "unat (0xfd000000 :: u32) = 0xfd000000" by simp
    have e: "(0xfd000000 :: u32) + of_nat (12288 * 4096) = 0" by simp
    have "\<exists>s'. kmap_loop as (0xfd000000 + of_nat (12288 * 4096)) 0xfd000000 s1 = Some (Inr s')
      \<and> kinv P s' as (\<lambda>a. (unat (0xfd000000 :: u32) \<le> unat a \<and> unat a < unat (0xfd000000 :: u32) + 12288 * 4096)
          \<or> unat a < 0x40000000 \<or> False)"
      by (rule kmap_area_ok [OF s1(2)]) (simp_all add: kernel_addr_def word_le_nat_alt baseof_iff_dvd)
    then show ?thesis unfolding u e using that by auto
  qed
  have "(\<lambda>a. (0xfd000000 \<le> unat a \<and> unat a < 0x100000000) \<or> unat a < 0x40000000 \<or> False) = kernel_addr"
    using unat_u32_less by (auto simp: fun_eq_iff kernel_addr_def word_le_nat_alt word_less_nat_alt)
  then show ?thesis using s1(1) s2 by (simp add: vm_areas_def)
qed

text \<open>A directory that is for the kernel only.\<close>

definition kernel_dir :: "(u32 \<Rightarrow> u32) \<Rightarrow> u32 \<Rightarrow> bool" where
  "kernel_dir c k \<longleftrightarrow> dir_ok c k \<and>
    (\<forall>i < 1024. present (c (slot k i)) \<longrightarrow> kernel_index i \<and> \<not> bit (c (slot k i)) 2)"

definition fresh_pool :: "u32 list \<Rightarrow> u32 set \<Rightarrow> bool" where
  "fresh_pool ps U \<longleftrightarrow> distinct ps \<and> (\<forall>p \<in> set ps. baseof p = p \<and> p \<noteq> 0 \<and> p \<notin> U)"

lemma kinv_init:
  assumes "fresh_pool (pool s) {baseof (as_ptr as)}" "269 \<le> length (pool s)"
  shows "kinv (set (pool s)) (put_cell (as_ptr as) 0 s) as (\<lambda>a. False)"
  using assms
  by (auto simp: kinv_def as_ok_def pool_ok_def fresh_pool_def table_pages_def used_def pdes_def lookup_def
      distinct_card)

lemma kinv_used: "kinv P s as D \<Longrightarrow> used s as \<le> 269"
proof -
  assume "kinv P s as D"
  then have "{i. i < 1024 \<and> present (pdes s as i)} \<subseteq> {i. kernel_index i}" by (auto simp: kinv_def)
  then have "card {i. i < 1024 \<and> present (pdes s as i)} \<le> 268"
    using card_mono [OF card_kernel_index(1)] card_kernel_index(2) le_trans by blast
  then show ?thesis by (simp add: used_def)
qed

lemma vme_init_ok:
  assumes "fresh_pool (pool s) {baseof (as_ptr as)}" "269 \<le> length (pool s)"
  shows "\<exists>s'. vme_init 0 as s = Some (Inr s') \<and> cr3 s' = kpt s' \<and> bit (cr0 s') 31
    \<and> kernel_dir (cells s') (kpt s')
    \<and> fresh_pool (pool s') (insert (kpt s') (tables (cells s') (kpt s')))
    \<and> insert (kpt s') (tables (cells s') (kpt s')) \<union> set (pool s') \<subseteq> set (pool s)
    \<and> length (pool s) \<le> length (pool s') + 269
    \<and> mmu_walk (cells s') (kpt s') = (\<lambda>a. if kernel_addr a then Some (a, True, False) else None)"
proof -
  obtain s1 where s1: "kmap_areas as vm_areas (put_cell (as_ptr as) 0 s) = Some (Inr s1)"
    "kinv (set (pool s)) s1 as kernel_addr"
    using kmap_areas_ok [OF kinv_init [OF assms]] by blast
  have pr: "present (cells s1 (as_ptr as))"
  proof (rule ccontr)
    assume "\<not> present (cells s1 (as_ptr as))"
    then have "lookup s1 as 0 = None" by (simp add: lookup_def)
    then show False using s1(2) by (simp add: kinv_def kernel_addr_def)
  qed
  let ?k = "dir_of s1 as"
  have tp: "table_pages s1 as = insert ?k (tables (cells s1) ?k)" using pr by (simp add: table_pages_def)
  have pd: "pdes s1 as i = cells s1 (slot ?k i)" for i using pr by (simp add: pdes_def)
  have "lookup s1 as = mmu_walk (cells s1) ?k" using pr by (simp add: lookup_def fun_eq_iff)
  then have "mmu_walk (cells s1) ?k = (\<lambda>a. if kernel_addr a then Some (a, True, False) else None)"
    using s1(2) by (simp add: kinv_def)
  moreover have "kernel_dir (cells s1) ?k" using s1(2) pr by (simp add: kinv_def kernel_dir_def as_ok_def pd)
  moreover have "fresh_pool (pool s1) (table_pages s1 as)"
    using s1(2) by (simp add: kinv_def pool_ok_def fresh_pool_def)
  moreover have "length (pool s) \<le> length (pool s1) + 269"
    using s1(2) kinv_used [OF s1(2)] assms(1) distinct_card [of "pool s"] by (simp add: kinv_def fresh_pool_def)
  ultimately show ?thesis
    using s1 by (simp add: vme_init_def Let_def dir_of_def [symmetric] tp kinv_def CR0_PG_def bit_or_iff)
qed

section \<open>New address spaces\<close>

lemma l1_of_nat: "m < 1024 \<Longrightarrow> l1 (of_nat (m * 4194304)) = of_nat m"
proof -
  assume m: "m < 1024"
  then have "unat (of_nat (m * 4194304) :: u32) = m * 4194304" by (intro unat_of_nat_u32) simp
  moreover have "unat (of_nat m :: u32) = m" using m by (intro unat_of_nat_u32) simp
  ultimately show ?thesis by (simp add: word_unat_eq_iff l1_mask unat_drop_bit del: of_nat_mult)
qed

text \<open>The entries \<open>m\<close> to \<open>m + n - 1\<close> of the kernel directory are copied.\<close>

lemma copy_loop_ok:
  assumes pd: "baseof pd = pd" "baseof (kpt s) = kpt s" "pd \<noteq> kpt s" and mn: "m + n \<le> 1024" "n < 1024"
  shows "\<exists>c'. copy_loop pd (of_nat ((m + n) * 4194304)) (of_nat (m * 4194304)) s = Some (s\<lparr>cells := c'\<rparr>)
    \<and> (\<forall>a. baseof a \<noteq> pd \<longrightarrow> c' a = cells s a)
    \<and> (\<forall>i < 1024. c' (slot pd i) =
        (if m \<le> unat i \<and> unat i < m + n then cells s (slot (kpt s) i) else cells s (slot pd i)))"
  using assms
proof (induction n arbitrary: m s)
  case 0
  then show ?case by (auto simp: copy_loop.simps intro!: exI [of _ "cells s"])
next
  case (Suc n)
  let ?i = "of_nat m :: u32"
  have i: "unat ?i = m" "?i < 1024"
    using Suc.prems unat_of_nat_u32 [of m] by (simp_all add: word_less_nat_alt)
  have idx: "l1 (of_nat (m * 4194304)) = ?i" using Suc.prems(4) by (intro l1_of_nat) simp
  have sh: "pt_shift (pgtables ! Suc 0) = 22" by (simp add: pgtables_def)
  have ne: "(of_nat (m * 4194304) :: u32) \<noteq> of_nat ((m + Suc n) * 4194304)"
  proof
    assume e: "(of_nat (m * 4194304) :: u32) = of_nat ((m + Suc n) * 4194304)"
    then have "(of_nat (Suc n * 4194304) :: u32) = 0" by (simp add: distrib_right)
    moreover have "unat (of_nat (Suc n * 4194304) :: u32) = Suc n * 4194304"
      using Suc.prems(5) by (intro unat_of_nat_u32) simp
    ultimately show False by simp
  qed
  define s1 where "s1 = put_cell (slot pd ?i) (cells s (slot (kpt s) ?i)) s"
  have k1: "kpt s1 = kpt s" by (simp add: s1_def)
  obtain c' where c': "copy_loop pd (of_nat ((Suc m + n) * 4194304)) (of_nat (Suc m * 4194304)) s1 = Some (s1\<lparr>cells := c'\<rparr>)"
    and oth: "\<And>a. baseof a \<noteq> pd \<Longrightarrow> c' a = cells s1 a"
    and cp: "\<And>i. i < 1024 \<Longrightarrow> c' (slot pd i) =
        (if Suc m \<le> unat i \<and> unat i < Suc m + n then cells s1 (slot (kpt s) i) else cells s1 (slot pd i))"
    using Suc.IH [of s1 "Suc m"] Suc.prems unfolding k1 by auto
  have "copy_loop pd (of_nat ((m + Suc n) * 4194304)) (of_nat (m * 4194304)) s = Some (s1\<lparr>cells := c'\<rparr>)"
    using ne c' by (subst copy_loop.simps)
      (simp add: Let_def idx s1_def [symmetric] sh push_bit_eq_mult algebra_simps del: of_nat_mult)
  moreover have "s1\<lparr>cells := c'\<rparr> = s\<lparr>cells := c'\<rparr>" by (simp add: s1_def put_cell_def)
  moreover have "c' a = cells s a" if "baseof a \<noteq> pd" for a
    using oth [OF that] that pd(1) i by (auto simp: s1_def)
  moreover have "c' (slot pd j) =
      (if m \<le> unat j \<and> unat j < m + Suc n then cells s (slot (kpt s) j) else cells s (slot pd j))"
    if j: "j < 1024" for j
  proof (cases "j = ?i")
    case True
    then show ?thesis using cp [OF j] i by (simp add: s1_def)
  next
    case False
    then have "unat j \<noteq> m" using i(1) by (auto simp: word_unat_eq_iff)
    then show ?thesis using cp [OF j] j i(2) False Suc.prems(1-3) by (auto simp: s1_def)
  qed
  ultimately show ?case by (intro exI [of _ c']) auto
qed

lemma copy_areas_ok:
  assumes pd: "baseof pd = pd" "baseof (kpt s) = kpt s" "pd \<noteq> kpt s"
  shows "\<exists>c'. copy_areas pd vm_areas s = Some (s\<lparr>cells := c'\<rparr>)
    \<and> (\<forall>a. baseof a \<noteq> pd \<longrightarrow> c' a = cells s a)
    \<and> (\<forall>i < 1024. c' (slot pd i) = (if kernel_index i then cells s (slot (kpt s) i) else cells s (slot pd i)))"
proof -
  have e: "(of_nat ((0 + 256) * 4194304) :: u32) = 0x40000000" "(of_nat (0 * 4194304) :: u32) = 0"
    "(of_nat ((1012 + 12) * 4194304) :: u32) = 0" "(of_nat (1012 * 4194304) :: u32) = 0xfd000000" by simp_all
  obtain c1 where c1: "copy_loop pd 0x40000000 0 s = Some (s\<lparr>cells := c1\<rparr>)"
    and o1: "\<And>a. baseof a \<noteq> pd \<Longrightarrow> c1 a = cells s a"
    and p1: "\<And>i. i < 1024 \<Longrightarrow> c1 (slot pd i) =
        (if 0 \<le> unat i \<and> unat i < 0 + 256 then cells s (slot (kpt s) i) else cells s (slot pd i))"
    using copy_loop_ok [OF pd, of 0 256] unfolding e by auto
  let ?s = "s\<lparr>cells := c1\<rparr>"
  obtain c2 where c2: "copy_loop pd 0 0xfd000000 ?s = Some (?s\<lparr>cells := c2\<rparr>)"
    and o2: "\<And>a. baseof a \<noteq> pd \<Longrightarrow> c2 a = c1 a"
    and p2: "\<And>i. i < 1024 \<Longrightarrow> c2 (slot pd i) =
        (if 1012 \<le> unat i \<and> unat i < 1012 + 12 then c1 (slot (kpt s) i) else c1 (slot pd i))"
    using copy_loop_ok [of pd ?s 1012 12] pd unfolding e by auto
  have "c2 (slot pd i) = (if kernel_index i then cells s (slot (kpt s) i) else cells s (slot pd i))"
    if i: "i < 1024" for i
    using p1 [OF i] p2 [OF i] o1 [of "slot (kpt s) i"] pd i
    by (auto simp: kernel_index_def word_le_nat_alt word_less_nat_alt)
  moreover have "copy_areas pd vm_areas s = Some (s\<lparr>cells := c2\<rparr>)"
    using c1 c2 by (simp add: vm_areas_def)
  ultimately show ?thesis using o1 o2 by (intro exI [of _ c2]) auto
qed

text \<open>A directory with the kernel's entries and nothing else translates as the kernel's.\<close>

lemma copied_dir:
  assumes k: "kernel_dir c k" and p: "baseof p = p" "p \<noteq> k" "p \<notin> tables c k"
    and oth: "\<And>a. baseof a \<in> insert k (tables c k) \<Longrightarrow> c' a = c a"
    and cp: "\<And>i. i < 1024 \<Longrightarrow> c' (slot p i) = (if kernel_index i then c (slot k i) else 0)"
  shows "tables c' p = tables c k" "dir_ok c' p" "mmu_walk c' p = mmu_walk c k" "mmu_walk c' k = mmu_walk c k"
proof -
  have ok: "dir_ok c k" using k by (simp add: kernel_dir_def)
  have pr: "present (c' (slot p i)) \<longleftrightarrow> present (c (slot k i))" "present (c (slot k i)) \<Longrightarrow> c' (slot p i) = c (slot k i)"
    if "i < 1024" for i
    using cp [OF that] k that by (auto simp: kernel_dir_def)
  show t: "tables c' p = tables c k"
    unfolding tables_def by (intro Collect_cong ex_cong1) (auto simp: pr)
  show "dir_ok c' p"
    using ok p unfolding dir_ok_def t by (auto simp: pr)
  show "mmu_walk c' k = mmu_walk c k" using oth by (intro walk_frame [OF ok]) auto
  show "mmu_walk c' p = mmu_walk c k"
  proof
    fix va
    have "c' (slot (baseof e) (l2 va)) = c (slot (baseof e) (l2 va))"
      if "e = c (slot k (l1 va))" "present e" for e
      using that tablesI [of "l1 va" c k] by (intro oth) simp
    then show "mmu_walk c' p va = mmu_walk c k va"
      using pr [of "l1 va"] by (simp add: mmu_walk_def Let_def)
  qed
qed

definition as_cells :: "u32 \<Rightarrow> u32 set" where
  "as_cells as = {as_pgsize as, as_start as, as_end as, as_ptr as}"

lemma protect_ok:
  assumes k: "kernel_dir (cells s) (kpt s)" and pool: "pool s = p # ps"
    and fp: "fresh_pool (pool s) (insert (kpt s) (tables (cells s) (kpt s)) \<union> baseof ` as_cells as)"
    and as: "baseof ` as_cells as \<inter> insert (kpt s) (tables (cells s) (kpt s)) = {}"
  shows "\<exists>s'. protect as s = Some (Inr s') \<and> user_ok s' as \<and> pool_ok s' as \<and> pool s' = ps \<and> dir_of s' as = p
    \<and> kpt s' = kpt s \<and> lookup s' as = mmu_walk (cells s) (kpt s)
    \<and> mmu_walk (cells s') (kpt s') = mmu_walk (cells s) (kpt s)"
proof -
  let ?k = "kpt s" and ?T = "insert (kpt s) (tables (cells s) (kpt s))"
  have p: "baseof p = p" "p \<noteq> 0" "p \<notin> ?T" "p \<notin> baseof ` as_cells as" "p \<notin> set ps"
    using fp pool by (auto simp: fresh_pool_def)
  have kb: "baseof ?k = ?k" using k unfolding kernel_dir_def by (blast intro: dir_ok_base)
  obtain c1 where c1: "copy_areas p vm_areas (take_page s) = Some (take_page s\<lparr>cells := c1\<rparr>)"
    and o1: "\<And>a. baseof a \<noteq> p \<Longrightarrow> c1 a = zero_page p (cells s) a"
    and p1: "\<And>i. i < 1024 \<Longrightarrow> c1 (slot p i) =
        (if kernel_index i then zero_page p (cells s) (slot ?k i) else zero_page p (cells s) (slot p i))"
    using copy_areas_ok [of p "take_page s"] p kb by (auto simp: pool)
  define s' where "s' = put_cell (as_ptr as) (p OR PTE_P OR PTE_U)
      (put_cell (as_end as) (area_end uvm_area) (put_cell (as_start as) (area_start uvm_area)
        (put_cell (as_pgsize as) pgsize (take_page s\<lparr>cells := c1\<rparr>))))"
  have run: "protect as s = Some (Inr s')"
    using p by (simp add: protect_def pgallocz_ok [OF pool] c1 s'_def)
  have c': "cells s' a = (if a \<in> as_cells as then cells s' a else c1 a)" for a
    by (simp add: s'_def as_cells_def)
  have na: "a \<notin> as_cells as" if "baseof a \<in> insert p ?T" for a
  proof
    assume "a \<in> as_cells as"
    then have "baseof a \<in> baseof ` as_cells as" by (rule imageI)
    then show False using that p(4) as by blast
  qed
  have oth: "cells s' a = cells s a" if "baseof a \<in> ?T" for a
    using that na [of a] c' [of a] o1 [of a] zero_page_other [OF p(1), of a] p(3) by auto
  have cp: "cells s' (slot p i) = (if kernel_index i then cells s (slot ?k i) else 0)" if "i < 1024" for i
    using that na [of "slot p i"] c' [of "slot p i"] p1 [OF that] p(1,3) kb
    by (auto simp: zero_page_slot zero_page_other)
  note cd = copied_dir [OF k p(1) _ _ oth cp]
  have e: "cells s' (as_ptr as) = entry_of p PTE_U" by (simp add: s'_def entry_of_def)
  have "baseof PTE_U = 0" by (simp add: baseof_mask mask_eq_exp_minus_1)
  then have d: "dir_of s' as = p" and pr: "present (cells s' (as_ptr as))"
    using baseof_entry [OF p(1)] by (simp_all add: dir_of_def e present_entry)
  have tp: "table_pages s' as = insert p (tables (cells s) ?k)"
    using cd(1) p(3) by (simp add: table_pages_def pr d)
  have "as_ok s' as" using cd(2) p as by (auto simp: as_ok_def tp d as_cells_def)
  moreover have "pdes s' as i = (if kernel_index i then cells s (slot ?k i) else 0)" if "i < 1024" for i
    using cp [OF that] by (simp add: pdes_def pr d)
  moreover have "kernel_index i \<Longrightarrow> \<not> user_index i" for i
    by (auto simp: kernel_index_def user_index_def word_le_nat_alt word_less_nat_alt)
  ultimately have "user_ok s' as" using k pr by (auto simp: user_ok_def kernel_dir_def)
  moreover have ps: "pool s' = ps" by (simp add: s'_def pool)
  moreover have "pool_ok s' as" using fp p(5) unfolding pool_ok_def fresh_pool_def tp ps pool by (auto simp: as_cells_def)
  moreover have "lookup s' as = mmu_walk (cells s) ?k" using cd(3) p(3) by (simp add: lookup_def fun_eq_iff pr d)
  moreover have "kpt s' = ?k" by (simp add: s'_def)
  ultimately show ?thesis using run cd(4) p(3) d by simp
qed

section \<open>Releasing an address space\<close>

declare upt_rec_numeral [simp del]

lemma teardown_leaf: "teardown (Suc (Suc 0)) t c = [t]"
proof -
  have "teardown (Suc (Suc (Suc 0))) u c = []" for u by (simp add: teardown.simps)
  then show ?thesis by (subst teardown.simps) (auto simp: pgtables_def Let_def)
qed

lemma teardown_dir:
  "teardown (Suc 0) d c =
    map (\<lambda>i. baseof (c (slot d (of_nat i))))
      (filter (\<lambda>i. present (c (slot d (of_nat i))) \<and> bit (c (slot d (of_nat i))) 2) [0..<1024]) @ [d]"
proof -
  have "concat (map (\<lambda>i. if P i then [f i] else []) xs) = map f (filter P xs)" for P f and xs :: "nat list"
    by (induction xs) auto
  then show ?thesis
    by (subst teardown.simps) (simp add: Let_def teardown_leaf and_bits pgtables_def cong: if_cong)
qed

text \<open>The user tables of an address space, by increasing index.\<close>

definition user_tables :: "vme \<Rightarrow> u32 \<Rightarrow> u32 list" where
  "user_tables s as = map (\<lambda>i. baseof (pdes s as (of_nat i))) (filter (\<lambda>i. present (pdes s as (of_nat i))) [256..<512])"

lemma of_nat_index: "i < 1024 \<Longrightarrow> unat (of_nat i :: u32) = i" "i < 1024 \<Longrightarrow> (of_nat i :: u32) < 1024"
  using unat_of_nat_u32 [of i] by (simp_all add: word_less_nat_alt)

lemma user_index_of_nat: "x < 1024 \<Longrightarrow> user_index (of_nat x) \<longleftrightarrow> 256 \<le> x \<and> x < 512"
  using of_nat_index(1) [of x] by (simp add: user_index_def word_le_nat_alt word_less_nat_alt)

lemma unprotect_frees:
  assumes ok: "user_ok s as" and u: "bit (cells s (as_ptr as)) 2"
  shows "freed (unprotect as s) = freed s @ user_tables s as @ [dir_of s as]"
proof -
  have pr: "present (cells s (as_ptr as))" using ok by (simp add: user_ok_def)
  have pd: "cells s (slot (dir_of s as) i) = pdes s as i" for i using pr by (simp add: pdes_def)
  have t: "teardown 0 (as_ptr as) (cells s) = teardown (Suc 0) (dir_of s as) (cells s)"
    using pr u by (subst teardown.simps) (simp add: Let_def and_bits pgtables_def dir_of_def)
  have fl: "filter (\<lambda>i. present (pdes s as (of_nat i)) \<and> bit (pdes s as (of_nat i)) 2) [0..<1024]
      = filter (\<lambda>i. present (pdes s as (of_nat i))) [256..<512]"
  proof -
    have "filter (\<lambda>i. present (pdes s as (of_nat i)) \<and> bit (pdes s as (of_nat i)) 2) [0..<1024]
        = filter (\<lambda>i. present (pdes s as (of_nat i)) \<and> 256 \<le> i \<and> i < 512) [0..<1024]"
    proof (intro filter_cong refl)
      fix x assume "x \<in> set [0..<1024 :: nat]"
      then have x: "x < 1024" by simp
      then have "(of_nat x :: u32) < 1024" by (rule of_nat_index)
      then show "(present (pdes s as (of_nat x)) \<and> bit (pdes s as (of_nat x)) 2)
          = (present (pdes s as (of_nat x)) \<and> 256 \<le> x \<and> x < 512)"
        using ok user_index_of_nat [OF x] unfolding user_ok_def by metis
    qed
    moreover have "[0..<1024 :: nat] = [0..<256] @ [256..<512] @ [512..<1024]"
      using upt_add_eq_append [of 0 256 768] upt_add_eq_append [of 256 512 512] by simp
    moreover have "filter (\<lambda>i. present (pdes s as (of_nat i)) \<and> 256 \<le> i \<and> i < 512) [256..<512]
        = filter (\<lambda>i. present (pdes s as (of_nat i))) [256..<512]"
      by (intro filter_cong refl) auto
    ultimately show ?thesis by (auto simp: filter_empty_conv)
  qed
  then show ?thesis by (simp add: unprotect_def user_tables_def t teardown_dir pd fl)
qed

lemma freed_distinct:
  assumes ok: "user_ok s as"
  shows "distinct (user_tables s as @ [dir_of s as])"
    and "i < 1024 \<Longrightarrow> \<not> user_index i \<Longrightarrow> present (pdes s as i) \<Longrightarrow>
      baseof (pdes s as i) \<notin> set (user_tables s as @ [dir_of s as])"
proof -
  have pr: "present (cells s (as_ptr as))" and d: "dir_ok (cells s) (dir_of s as)"
    using ok by (auto simp: user_ok_def as_ok_def)
  have pd: "cells s (slot (dir_of s as) i) = pdes s as i" for i using pr by (simp add: pdes_def)
  have inj: "i = j" if "i < 1024" "j < 1024" "present (pdes s as i)" "present (pdes s as j)"
    "baseof (pdes s as i) = baseof (pdes s as j)" for i j
    using d that unfolding dir_ok_def pd by blast
  have nd: "baseof (pdes s as i) \<noteq> dir_of s as" if "i < 1024" "present (pdes s as i)" for i
    using d that tablesI [of i "cells s" "dir_of s as"] unfolding dir_ok_def pd by metis
  let ?U = "filter (\<lambda>i. present (pdes s as (of_nat i))) [256..<512]"
  have "inj_on (\<lambda>i. baseof (pdes s as (of_nat i))) (set ?U)"
  proof (rule inj_onI)
    fix i j assume ij: "i \<in> set ?U" "j \<in> set ?U"
      "baseof (pdes s as (of_nat i)) = baseof (pdes s as (of_nat j))"
    have "(of_nat i :: u32) = of_nat j"
      by (rule inj [OF of_nat_index(2) of_nat_index(2)]) (use ij in auto)
    moreover have "unat (of_nat i :: u32) = i" by (rule of_nat_index(1)) (use ij in auto)
    moreover have "unat (of_nat j :: u32) = j" by (rule of_nat_index(1)) (use ij in auto)
    ultimately show "i = j" by metis
  qed
  then have "distinct (user_tables s as)" unfolding user_tables_def distinct_map by simp
  moreover have "dir_of s as \<notin> set (user_tables s as)"
  proof
    assume "dir_of s as \<in> set (user_tables s as)"
    then obtain i where i: "dir_of s as = baseof (pdes s as (of_nat i))" "i < 512" "present (pdes s as (of_nat i))"
      by (auto simp: user_tables_def)
    then show False using nd [OF of_nat_index(2) i(3)] by simp
  qed
  ultimately show "distinct (user_tables s as @ [dir_of s as])" by simp
  show "baseof (pdes s as i) \<notin> set (user_tables s as @ [dir_of s as])"
    if i: "i < 1024" "\<not> user_index i" "present (pdes s as i)"
  proof
    assume "baseof (pdes s as i) \<in> set (user_tables s as @ [dir_of s as])"
    then obtain j where j: "256 \<le> j" "j < 512" "present (pdes s as (of_nat j))"
      "baseof (pdes s as i) = baseof (pdes s as (of_nat j))"
      using nd [OF i(1,3)] by (auto simp: user_tables_def)
    have "i = of_nat j" by (rule inj [OF i(1) of_nat_index(2)]) (use i j in auto)
    then have "user_index i" using j user_index_of_nat [of j] by simp
    then show False using i by simp
  qed
qed

section \<open>Theorems\<close>

text \<open>
  \<open>map\<close> refines the update of a map.  In a user address space whose tables are disjoint, with
  an allocator that hands out fresh pages (one page is enough for every call), every
  sequence of calls of \<open>map\<close> panics exactly when, and with the message with which, the
  specification fails; otherwise the processor translates afterwards as the specification says:
  the mapped pages lead to their frames with user access and the requested right to write, and no
  other address has changed.
\<close>
theorem map_refinement:
  assumes "user_ok s as" "pool_ok s as" "length ops \<le> length (pool s)"
  shows "map_sum id (\<lambda>s'. lookup s' as) (run_maps as ops s) = spec_maps ops (lookup s as)"
  using run_maps_refines [OF assms] by blast

definition sample_as :: u32 where "sample_as = 0xa000"

definition sample_space :: vme where
  "sample_space = \<lparr>cells = (\<lambda>a. if a = as_ptr sample_as then 0x1000005 else 0), kpt = 0x2000000,
     pool = [0x1001000, 0x1002000], freed = [], cr0 = 0, cr3 = 0\<rparr>"

lemma sample_dir: "dir_of sample_space sample_as = 0x1000000" "present (cells sample_space (as_ptr sample_as))"
  by (simp_all add: dir_of_def sample_space_def baseof_mask mask_eq_exp_minus_1)

lemma sample_tables: "tables (cells sample_space) 0x1000000 = {}"
  "i < 1024 \<Longrightarrow> cells sample_space (slot 0x1000000 i) = 0"
proof -
  have b: "baseof (0x1000000 :: u32) = 0x1000000" by (simp add: baseof_iff_dvd)
  have "baseof (as_ptr sample_as) \<noteq> 0x1000000"
    by (simp add: as_ptr_def sample_as_def baseof_mask mask_eq_exp_minus_1)
  then show z: "cells sample_space (slot 0x1000000 i) = 0" if "i < 1024" for i
    using slot_in_page [OF b that] by (simp add: sample_space_def)
  then show "tables (cells sample_space) 0x1000000 = {}" by (simp add: tables_def)
qed

lemma sample_user_ok: "user_ok sample_space sample_as" "pool_ok sample_space sample_as"
proof -
  note t = sample_tables sample_dir
  have "table_pages sample_space sample_as = {0x1000000}" using t by (simp add: table_pages_def)
  moreover have "baseof (as_ptr sample_as) = 0xa000"
    by (simp add: as_ptr_def sample_as_def baseof_mask mask_eq_exp_minus_1)
  moreover have "dir_ok (cells sample_space) 0x1000000"
    using t by (simp add: dir_ok_def baseof_iff_dvd)
  moreover have "pdes sample_space sample_as i = 0" if "i < 1024" for i using t that by (simp add: pdes_def)
  moreover have "baseof 0x1001000 = (0x1001000 :: u32)" "baseof 0x1002000 = (0x1002000 :: u32)"
    by (simp_all add: baseof_iff_dvd)
  moreover have "pool sample_space = [0x1001000, 0x1002000]" by (simp add: sample_space_def)
  ultimately show "user_ok sample_space sample_as" "pool_ok sample_space sample_as"
    using t by (simp_all add: user_ok_def as_ok_def pool_ok_def)
qed

lemma sample_lookup: "lookup sample_space sample_as = (\<lambda>_. None)"
  using sample_dir sample_tables by (simp add: lookup_def mmu_walk_def Let_def fun_eq_iff)

text \<open>Mapping a page and reading through it.\<close>

theorem map_refinement_witness:
  "user_ok sample_space sample_as \<and> pool_ok sample_space sample_as
   \<and> (\<exists>m. map_sum id (\<lambda>s'. lookup s' sample_as)
           (run_maps sample_as [(0x40000000, 0x123000, MMAP_WRITE)] sample_space) = Inr m
         \<and> m 0x40000abc = Some (0x123abc, True, True) \<and> m 0x40001abc = None)"
proof -
  have b: "baseof 0x40000000 = (0x40000000 :: u32)" "baseof 0x123000 = (0x123000 :: u32)"
    "baseof 0x40000abc = (0x40000000 :: u32)" "baseof 0x40001abc = (0x40001000 :: u32)"
    by (simp_all add: baseof_mask mask_eq_exp_minus_1)
  let ?ops = "[(0x40000000, 0x123000, MMAP_WRITE)] :: (u32 \<times> u32 \<times> u32) list"
  have "length ?ops \<le> length (pool sample_space)" by (simp add: sample_space_def)
  moreover have "spec_maps ?ops (\<lambda>_. None)
      = Inr (\<lambda>a. if baseof a = 0x40000000 then Some (0x123000 OR (a AND 0xfff), True, True) else None)"
    using b by (simp add: spec_map_def MMAP_WRITE_def MMAP_NONE_def cong: if_cong)
  ultimately show ?thesis
    using map_refinement [OF sample_user_ok, of ?ops] sample_user_ok b by (simp add: sample_lookup)
qed

definition kernel_map :: translation where
  "kernel_map a = (if kernel_addr a then Some (a, True, False) else None)"

text \<open>
  C24: the whole life of an address space.  With 270 fresh pages and one per call of \<open>map\<close>,
  \<open>vme_init\<close> returns with paging on and exactly the kernel areas identity mapped, writable and
  not accessible from user mode; \<open>protect\<close> returns an address space that translates as the
  kernel's; and after any sequence of calls of \<open>map\<close> that does not panic the mappings are
  those of the specification, the kernel's part unchanged.
\<close>
theorem address_space_lifecycle:
  assumes "fresh_pool (pool s) (insert (baseof (as_ptr tmp)) (baseof ` as_cells as))"
    and "270 + length ops \<le> length (pool s)"
  shows "\<exists>s1 s2. vme_init 0 tmp s = Some (Inr s1) \<and> bit (cr0 s1) 31
    \<and> mmu_walk (cells s1) (cr3 s1) = kernel_map
    \<and> protect as s1 = Some (Inr s2) \<and> lookup s2 as = kernel_map
    \<and> map_sum id (\<lambda>s'. lookup s' as) (run_maps as ops s2) = spec_maps ops kernel_map
    \<and> (\<forall>s3 a. run_maps as ops s2 = Inr s3 \<and> kernel_addr a \<longrightarrow> lookup s3 as a = Some (a, True, False))"
proof -
  have "fresh_pool (pool s) {baseof (as_ptr tmp)}" using assms(1) by (auto simp: fresh_pool_def)
  then obtain s1 where s1: "vme_init 0 tmp s = Some (Inr s1)" "cr3 s1 = kpt s1" "bit (cr0 s1) 31"
      "kernel_dir (cells s1) (kpt s1)"
      "fresh_pool (pool s1) (insert (kpt s1) (tables (cells s1) (kpt s1)))"
      "insert (kpt s1) (tables (cells s1) (kpt s1)) \<union> set (pool s1) \<subseteq> set (pool s)"
      "length (pool s) \<le> length (pool s1) + 269"
      "mmu_walk (cells s1) (kpt s1) = kernel_map"
    using vme_init_ok [of s tmp] assms(2) unfolding kernel_map_def by auto
  then obtain p ps where pool: "pool s1 = p # ps" "length ops \<le> length ps"
    using assms(2) by (cases "pool s1") auto
  have "fresh_pool (pool s1) (insert (kpt s1) (tables (cells s1) (kpt s1)) \<union> baseof ` as_cells as)"
    using s1(5,6) assms(1) unfolding fresh_pool_def by blast
  moreover have "baseof ` as_cells as \<inter> insert (kpt s1) (tables (cells s1) (kpt s1)) = {}"
    using s1(6) assms(1) unfolding fresh_pool_def by blast
  ultimately obtain s2 where s2: "protect as s1 = Some (Inr s2)" "user_ok s2 as" "pool_ok s2 as" "pool s2 = ps"
      "lookup s2 as = kernel_map"
    using protect_ok [OF s1(4) pool(1)] s1(8) by metis
  have r: "map_sum id (\<lambda>s'. lookup s' as) (run_maps as ops s2) = spec_maps ops kernel_map"
    using run_maps_refines [OF s2(2,3)] pool(2) unfolding s2(4,5) by blast
  have "lookup s3 as a = Some (a, True, False)" if "run_maps as ops s2 = Inr s3" "kernel_addr a" for s3 a
  proof -
    have "\<not> (0x40000000 \<le> a \<and> a < 0x80000000)"
      using that(2) by (auto simp: kernel_addr_def word_le_nat_alt word_less_nat_alt)
    moreover have "spec_maps ops kernel_map = Inr (lookup s3 as)" using r that(1) by simp
    ultimately have "lookup s3 as a = kernel_map a" by (rule spec_maps_kernel [rotated])
    then show ?thesis using that(2) by (simp add: kernel_map_def)
  qed
  then show ?thesis using s1 s2 r by auto
qed

definition sample_pool :: "u32 list" where
  "sample_pool = map (\<lambda>i. of_nat (0x1000000 + 4096 * i)) [0..<272]"

definition sample_start :: vme where
  "sample_start = \<lparr>cells = (\<lambda>_. 0), kpt = 0, pool = sample_pool, freed = [], cr0 = 0, cr3 = 0\<rparr>"

lemma sample_pool_fresh: "U \<subseteq> {0x9000, 0xa000} \<Longrightarrow> fresh_pool sample_pool U"
proof -
  have u: "unat (of_nat (0x1000000 + 4096 * i) :: u32) = 0x1000000 + 4096 * i" if "i < 272" for i
    using that by (intro unat_of_nat_u32) simp
  have "inj_on (\<lambda>i. of_nat (0x1000000 + 4096 * i) :: u32) (set [0..<272])"
  proof (rule inj_onI)
    fix i j assume "i \<in> set [0..<272]" "j \<in> set [0..<272]"
      "(of_nat (0x1000000 + 4096 * i) :: u32) = of_nat (0x1000000 + 4096 * j)"
    then have "0x1000000 + 4096 * i = 0x1000000 + 4096 * j" using u [of i] u [of j] by (metis atLeastLessThan_iff set_upt)
    then show "i = j" by simp
  qed
  then have d: "distinct sample_pool" unfolding sample_pool_def distinct_map by (simp only: distinct_upt simp_thms)
  have "baseof p = p \<and> 0x1000000 \<le> unat p" if p: "p \<in> set sample_pool" for p
  proof -
    have "\<exists>i < 272. p = of_nat (0x1000000 + 4096 * i)"
      using p unfolding sample_pool_def set_map set_upt image_iff by (metis atLeastLessThan_iff)
    then obtain i where "i < 272" "p = of_nat (0x1000000 + 4096 * i)" by blast
    then show ?thesis using u by (simp add: baseof_iff_dvd dvd_add_right_iff del: of_nat_add)
  qed
  then show "fresh_pool sample_pool U" if "U \<subseteq> {0x9000, 0xa000}"
    using that d by (force simp: fresh_pool_def)
qed

theorem address_space_lifecycle_witness:
  "fresh_pool (pool sample_start) (insert (baseof (as_ptr 0x9000)) (baseof ` as_cells sample_as))
   \<and> (\<exists>s1 s2. vme_init 0 0x9000 sample_start = Some (Inr s1) \<and> protect sample_as s1 = Some (Inr s2)
        \<and> map_sum id (\<lambda>s'. lookup s' sample_as) (run_maps sample_as [(0x40000000, 0x123000, MMAP_READ)] s2)
          = spec_maps [(0x40000000, 0x123000, MMAP_READ)] kernel_map)"
proof -
  have "baseof (as_ptr 0x9000) = 0x9000" "baseof ` as_cells sample_as = {0xa000}"
    by (simp_all add: as_cells_def as_ptr_def as_pgsize_def as_start_def as_end_def sample_as_def
        baseof_mask mask_eq_exp_minus_1)
  then have f: "fresh_pool (pool sample_start) (insert (baseof (as_ptr 0x9000)) (baseof ` as_cells sample_as))"
    using sample_pool_fresh [of "{0x9000, 0xa000}"] by (simp add: sample_start_def)
  have "270 + length [(0x40000000 :: u32, 0x123000 :: u32, MMAP_READ)] \<le> length (pool sample_start)"
    by (simp add: sample_start_def sample_pool_def)
  with address_space_lifecycle [OF f] f show ?thesis by meson
qed

text \<open>
  C25: \<open>unprotect\<close> gives back exactly the user tables and the directory of an address space, each
  once, and none of the tables it shares with the kernel.
\<close>
theorem unprotect_releases:
  assumes "user_ok s as" "bit (cells s (as_ptr as)) 2"
  shows "freed (unprotect as s) = freed s @ user_tables s as @ [dir_of s as]
    \<and> distinct (user_tables s as @ [dir_of s as])
    \<and> (\<forall>a. \<not> (0x40000000 \<le> a \<and> a < 0x80000000) \<and> lookup s as a \<noteq> None \<longrightarrow>
        baseof (pdes s as (l1 a)) \<notin> set (user_tables s as @ [dir_of s as]))"
proof -
  have "baseof (pdes s as (l1 a)) \<notin> set (user_tables s as @ [dir_of s as])"
    if "\<not> (0x40000000 \<le> a \<and> a < 0x80000000)" "lookup s as a \<noteq> None" for a
    using that assms(1) freed_distinct(2) [OF assms(1) l1_less, of a]
    by (auto simp: user_index_l1 user_ok_def lookup_def mmu_walk_def pdes_def Let_def split: if_splits)
  then show ?thesis using unprotect_frees [OF assms] freed_distinct(1) [OF assms(1)] by blast
qed

theorem unprotect_releases_witness:
  "user_ok sample_space sample_as \<and> bit (cells sample_space (as_ptr sample_as)) 2
   \<and> freed (unprotect sample_as sample_space) = [0x1000000]"
proof -
  have b: "bit (cells sample_space (as_ptr sample_as)) 2"
    by (simp add: sample_space_def)
  have "pdes sample_space sample_as (of_nat i) = 0" if "i < 512" for i
    using sample_tables(2) [OF of_nat_index(2)] sample_dir that by (simp add: pdes_def)
  then have "user_tables sample_space sample_as = []" by (simp add: user_tables_def filter_empty_conv)
  then show ?thesis
    using unprotect_releases [OF sample_user_ok(1) b] sample_user_ok(1) b sample_dir by (simp add: sample_space_def)
qed

end
