(* ===== verification/Am_Cte.thy ===== *)
theory Am_Cte
  imports Am_Vme
begin

text \<open>
  Interrupts and contexts of the \<open>x86-qemu\<close> port, 32-bit build
  (\<open>abstract-machine/am/src/x86/qemu/cte.c\<close>, \<open>trap32.S\<close>, \<open>ucontext\<close> of \<open>vme.c\<close>, the
  descriptors of \<open>x86.h\<close>).

  The machine \<open>mach\<close> has the registers, the memory as 32-bit cells, the fields of the task state
  segment the code uses, the control registers and the number of interrupts acknowledged at the
  local APIC.  A \<open>Context\<close> is its address; its fields are the cells at the offsets of the struct,
  and so is a \<open>trap_frame\<close>.  \<open>enter\<close> is the delivery of an interrupt up to the call of
  \<open>__am_irq_handle\<close>: what the processor pushes, the stub of the vector, and \<open>trap\<close>.  \<open>am_iret\<close>
  is \<open>__am_iret\<close> with its two ways out.  The client's handler is an argument that maps event,
  context and machine to the context to resume and the machine it leaves.  The register \<open>es\<close>, which
  \<open>trap\<close> overwrites and \<open>__am_iret\<close> sets to \<open>ds\<close>, and the arithmetic flags are not modelled.

  The theorems: an interrupt whose handler returns the context it was given is transparent, from
  kernel and from user mode; contexts made by \<open>kcontext\<close> and \<open>ucontext\<close> start as documented,
  although \<open>__am_iret\<close> copies part of a kernel context over itself; the descriptor table lets
  user code raise the two software interrupts only; and the classification of events.
\<close>

unbundle bit_operations_syntax

section \<open>Data\<close>

record x86_regs =
  eax :: u32  ebx :: u32  ecx :: u32  edx :: u32
  esi :: u32  edi :: u32  ebp :: u32  esp :: u32
  eip :: u32  eflags :: u32
  cs :: u32  ds :: u32  ss :: u32

record mach =
  rg :: x86_regs
  mem :: "u32 \<Rightarrow> u32"
  tss_esp0 :: u32
  tss_ss0 :: u32
  ctl2 :: u32
  ctl3 :: u32
  eois :: nat

datatype am_event =
    EVENT_NULL | EVENT_YIELD | EVENT_SYSCALL | EVENT_PAGEFAULT | EVENT_ERROR
  | EVENT_IRQ_TIMER | EVENT_IRQ_IODEV

record Event =
  event :: am_event
  cause :: u32
  ref :: u32
  msg :: string

datatype cte_panic = Null_context | Init_on_other_CPU | No_handler

definition DPL_KERN :: u32 where "DPL_KERN = 0"
definition DPL_USER :: u32 where "DPL_USER = 3"
definition FL_IF :: u32 where "FL_IF = 0x200"

definition KSEL :: "u32 \<Rightarrow> u32" where "KSEL seg = push_bit 3 seg OR DPL_KERN"
definition USEL :: "u32 \<Rightarrow> u32" where "USEL seg = push_bit 3 seg OR DPL_USER"

definition SEG_KCODE :: u32 where "SEG_KCODE = 1"
definition SEG_KDATA :: u32 where "SEG_KDATA = 2"
definition SEG_UCODE :: u32 where "SEG_UCODE = 3"
definition SEG_UDATA :: u32 where "SEG_UDATA = 4"

text \<open>\<open>struct Context\<close>: the offsets of the fields, in bytes.\<close>

datatype ctx_field =
    F_cr3 | F_ds | F_eax | F_ebx | F_ecx | F_edx | F_esp0 | F_esi | F_edi | F_ebp
  | F_eip | F_cs | F_eflags | F_esp | F_ss3

fun ctx_offset :: "ctx_field \<Rightarrow> u32" where
  "ctx_offset F_cr3 = 0" | "ctx_offset F_ds = 4"
| "ctx_offset F_eax = 8" | "ctx_offset F_ebx = 12" | "ctx_offset F_ecx = 16" | "ctx_offset F_edx = 20"
| "ctx_offset F_esp0 = 24" | "ctx_offset F_esi = 28" | "ctx_offset F_edi = 32" | "ctx_offset F_ebp = 36"
| "ctx_offset F_eip = 40" | "ctx_offset F_cs = 44" | "ctx_offset F_eflags = 48" | "ctx_offset F_esp = 52"
| "ctx_offset F_ss3 = 56"

definition sizeof_Context :: u32 where "sizeof_Context = 60"

definition get_field :: "u32 \<Rightarrow> ctx_field \<Rightarrow> mach \<Rightarrow> u32" where
  "get_field c f M = mem M (c + ctx_offset f)"

definition put_field :: "u32 \<Rightarrow> ctx_field \<Rightarrow> u32 \<Rightarrow> mach \<Rightarrow> mach" where
  "put_field c f v M = M\<lparr>mem := (mem M)(c + ctx_offset f := v)\<rparr>"

text \<open>\<open>struct trap_frame\<close>: the saved context, then the number and error code pushed by the stub,
  then what the processor pushed.\<close>

definition tf_irq :: "u32 \<Rightarrow> u32" where "tf_irq tf = tf + sizeof_Context"
definition tf_errcode :: "u32 \<Rightarrow> u32" where "tf_errcode tf = tf + sizeof_Context + 4"
definition tf_eip :: "u32 \<Rightarrow> u32" where "tf_eip tf = tf + sizeof_Context + 8"
definition tf_cs :: "u32 \<Rightarrow> u32" where "tf_cs tf = tf + sizeof_Context + 12"
definition tf_eflags :: "u32 \<Rightarrow> u32" where "tf_eflags tf = tf + sizeof_Context + 16"
definition tf_esp :: "u32 \<Rightarrow> u32" where "tf_esp tf = tf + sizeof_Context + 20"
definition sizeof_trap_frame :: u32 where "sizeof_trap_frame = sizeof_Context + 28"

section \<open>Taking an interrupt\<close>

definition push :: "u32 \<Rightarrow> mach \<Rightarrow> mach" where
  "push v M =
    (let sp = esp (rg M) - 4
     in M\<lparr>rg := (rg M)\<lparr>esp := sp\<rparr>, mem := (mem M)(sp := v)\<rparr>)"

text \<open>
  The processor delivers the interrupt: from user mode on the stack of the task state segment.
  It pushes an error code for some exceptions only; for the others the stub pushes zero.
\<close>

definition deliver :: "u32 \<Rightarrow> u32 \<Rightarrow> mach \<Rightarrow> mach" where
  "deliver irq err M =
    (let R = rg M;
         M = (if cs R AND DPL_USER \<noteq> 0
              then push (esp R) (push (ss R) (M\<lparr>rg := R\<lparr>esp := tss_esp0 M, ss := tss_ss0 M\<rparr>\<rparr>))
              else M);
         M = push (eip R) (push (cs R) (push (eflags R) M))
     in push irq (push err M))"

definition low16 :: "u32 \<Rightarrow> u32" where "low16 x = x AND 0xffff"

text \<open>The stub and \<open>trap\<close>: interrupts off, room for five cells, the registers, \<open>ds\<close> in the low half of \<open>eax\<close>, and a zero;
  then the kernel's data segment.\<close>

definition enter :: "u32 \<Rightarrow> u32 \<Rightarrow> mach \<Rightarrow> mach" where
  "enter irq err M =
    (let M = deliver irq err M;
         M = M\<lparr>rg := (rg M)\<lparr>esp := esp (rg M) - 20, eflags := eflags (rg M) AND NOT FL_IF\<rparr>\<rparr>;
         R = rg M;
         M = push (ecx R) (push (edx R) (push 0 (push (esi R) (push (edi R) (push (ebp R) M)))));
         M = push (eax R) (push (ebx R) M);
         ax = (eax R AND NOT 0xffff) OR low16 (ds R);
         M = push 0 (push ax M)
     in M\<lparr>rg := (rg M)\<lparr>eax := (ax AND NOT 0xffff) OR KSEL SEG_KDATA, ds := KSEL SEG_KDATA, ss := KSEL SEG_KDATA\<rparr>\<rparr>)"

section \<open>The handler\<close>

definition T_IRQ0 :: u32 where "T_IRQ0 = 32"

definition lapic_eoi :: "u32 \<Rightarrow> mach \<Rightarrow> mach" where
  "lapic_eoi irq M = (if T_IRQ0 \<le> irq \<and> irq < T_IRQ0 + 32 then M\<lparr>eois := Suc (eois M)\<rparr> else M)"

definition irq_event :: "u32 \<Rightarrow> u32 \<Rightarrow> u32 \<Rightarrow> Event" where
  "irq_event irq errcode cr2 =
    (let ev = (\<lambda>e m. \<lparr>event = e, cause = 0, ref = 0, msg = m\<rparr>)
     in if irq = T_IRQ0 + 0 then ev EVENT_IRQ_TIMER ''timer interrupt (lapic)''
        else if irq = T_IRQ0 + 1 then ev EVENT_IRQ_IODEV ''I/O device IRQ1 (keyboard)''
        else if irq = T_IRQ0 + 4 then ev EVENT_IRQ_IODEV ''I/O device IRQ4 (COM1)''
        else if irq = 0x80 then ev EVENT_SYSCALL ''int $0x80 system call''
        else if irq = 0x81 then ev EVENT_YIELD ''int $0x81 yield''
        else if irq = 0 then ev EVENT_ERROR ''DE #0 divide by zero''
        else if irq = 6 then ev EVENT_ERROR ''UD #6 invalid opcode''
        else if irq = 7 then ev EVENT_ERROR ''NM #7 coprocessor error''
        else if irq = 8 then ev EVENT_ERROR ''DF #8 double fault''
        else if irq = 10 then ev EVENT_ERROR ''TS #10 invalid TSS''
        else if irq = 11 then ev EVENT_ERROR ''NP #11 segment/gate not present''
        else if irq = 12 then ev EVENT_ERROR ''SS #12 stack fault''
        else if irq = 13 then ev EVENT_ERROR ''GP #13, general protection fault''
        else if irq = 14
        then (let ev = ev EVENT_PAGEFAULT ''PF #14, page fault, @cause: PROT_XXX'';
                  ev = (if errcode AND 1 \<noteq> 0 then ev\<lparr>cause := cause ev OR MMAP_NONE\<rparr> else ev);
                  ev = (if errcode AND 2 \<noteq> 0 then ev\<lparr>cause := cause ev OR MMAP_WRITE\<rparr>
                        else ev\<lparr>cause := cause ev OR MMAP_READ\<rparr>)
              in ev\<lparr>ref := cr2\<rparr>)
        else (ev EVENT_ERROR ''unrecognized interrupt/exception'')\<lparr>cause := errcode\<rparr>)"

definition save_context :: "u32 \<Rightarrow> mach \<Rightarrow> mach" where
  "save_context tf M =
    (let M = put_field tf F_eip (mem M (tf_eip tf)) M;
         M = put_field tf F_cs (mem M (tf_cs tf)) M;
         M = put_field tf F_eflags (mem M (tf_eflags tf)) M;
         M = put_field tf F_esp0 (tss_esp0 M) M;
         M = put_field tf F_ss3 (USEL SEG_UDATA) M;
         M = put_field tf F_esp
               (if mem M (tf_cs tf) AND DPL_USER \<noteq> 0 then mem M (tf_esp tf)
                else tf + sizeof_trap_frame - 8) M
     in put_field tf F_cr3 (ctl3 M) M)"

type_synonym handler = "Event \<Rightarrow> u32 \<Rightarrow> mach \<Rightarrow> u32 \<times> mach"

definition irq_handle :: "handler \<Rightarrow> u32 \<Rightarrow> mach \<Rightarrow> cte_panic + u32 \<times> mach" where
  "irq_handle user_handler tf M =
    (let M = save_context tf M;
         irq = mem M (tf_irq tf);
         M = lapic_eoi irq M;
         ev = irq_event irq (mem M (tf_errcode tf)) (ctl2 M);
         (ret_ctx, M) = user_handler ev tf M
     in if ret_ctx = 0 then Inl Null_context
        else
          let M = (if get_field ret_ctx F_cr3 M \<noteq> 0
                   then M\<lparr>ctl3 := get_field ret_ctx F_cr3 M, tss_ss0 := KSEL SEG_KDATA,
                          tss_esp0 := get_field ret_ctx F_esp0 M\<rparr>
                   else M)
          in Inr (ret_ctx, M))"

section \<open>Returning to a context\<close>

text \<open>
  The way out to the kernel copies the last six cells to below the new stack pointer, from the
  highest to the lowest, and pops them there.
\<close>

definition kernel_copy :: "u32 \<Rightarrow> mach \<Rightarrow> mach" where
  "kernel_copy c M =
    (let ebp = c + 28;
         edi = mem M (ebp + 24);
         mv = (\<lambda>src dst M. M\<lparr>mem := (mem M)(edi - dst := mem M (ebp + src))\<rparr>)
     in mv 0 24 (mv 4 20 (mv 8 16 (mv 12 12 (mv 16 8 (mv 20 4 M))))))"

definition am_iret :: "u32 \<Rightarrow> mach \<Rightarrow> mach" where
  "am_iret c M =
    (let G = (\<lambda>f. get_field c f M);
         R = (rg M)\<lparr>ds := low16 (G F_ds), eax := G F_eax, ebx := G F_ebx, ecx := G F_ecx, edx := G F_edx\<rparr>
     in if low16 (G F_cs) \<noteq> KSEL SEG_KCODE
        then M\<lparr>rg := R\<lparr>esi := G F_esi, edi := G F_edi, ebp := G F_ebp,
                       eip := G F_eip, cs := G F_cs, eflags := G F_eflags,
                       esp := G F_esp, ss := G F_ss3\<rparr>\<rparr>
        else
          let sp = G F_esp - 24;
              M = kernel_copy c M
          in M\<lparr>rg := R\<lparr>esi := mem M sp, edi := mem M (sp + 4), ebp := mem M (sp + 8),
                       eip := mem M (sp + 12), cs := mem M (sp + 16), eflags := mem M (sp + 20),
                       esp := sp + 24\<rparr>\<rparr>)"

text \<open>The whole of an interrupt.\<close>

definition interrupt :: "handler \<Rightarrow> u32 \<Rightarrow> u32 \<Rightarrow> mach \<Rightarrow> cte_panic + mach" where
  "interrupt h irq err M =
    (let M = enter irq err M
     in map_sum id (\<lambda>(c, M). am_iret c M) (irq_handle h (esp (rg M)) M))"

section \<open>Making contexts\<close>

definition all_fields :: "ctx_field list" where
  "all_fields = [F_cr3, F_ds, F_eax, F_ebx, F_ecx, F_edx, F_esp0, F_esi, F_edi, F_ebp,
     F_eip, F_cs, F_eflags, F_esp, F_ss3]"

definition zero_context :: "u32 \<Rightarrow> mach \<Rightarrow> mach" where
  "zero_context c M = fold (\<lambda>f. put_field c f 0) all_fields M"

definition kcontext :: "u32 \<Rightarrow> u32 \<Rightarrow> u32 \<Rightarrow> u32 \<Rightarrow> mach \<Rightarrow> u32 \<times> mach" where
  "kcontext kcontext_start kstack_end entry arg M =
    (let c = kstack_end - sizeof_Context;
         M = zero_context c M;
         M = put_field c F_ds (KSEL SEG_KDATA) M;
         M = put_field c F_cs (KSEL SEG_KCODE) M;
         M = put_field c F_eip kcontext_start M;
         M = put_field c F_eflags FL_IF M;
         M = put_field c F_esp kstack_end M;
         M = put_field c F_eax arg M;
         M = put_field c F_ebx entry M
     in (c, M))"

definition ucontext :: "u32 \<Rightarrow> u32 \<Rightarrow> u32 \<Rightarrow> mach \<Rightarrow> u32 \<times> mach" where
  "ucontext as kstack_end entry M =
    (let c = kstack_end - sizeof_Context;
         M = zero_context c M;
         M = put_field c F_cs (USEL SEG_UCODE) M;
         M = put_field c F_ds (USEL SEG_UDATA) M;
         M = put_field c F_ss3 (USEL SEG_UDATA) M;
         M = put_field c F_eip entry M;
         M = put_field c F_eflags FL_IF M;
         M = put_field c F_esp (area_end uvm_area) M;
         M = put_field c F_esp0 kstack_end M;
         M = put_field c F_cr3 (mem M (as_ptr as)) M
     in (c, M))"

text \<open>Where a kernel context starts: it calls its entry point, whose return address is
  \<open>__am_panic_on_return\<close>.\<close>

definition am_kcontext_start :: "u32 \<Rightarrow> mach \<Rightarrow> mach" where
  "am_kcontext_start panic_on_return M =
    (let M = push (eax (rg M)) M;
         M = push panic_on_return M
     in M\<lparr>rg := (rg M)\<lparr>eip := ebx (rg M)\<rparr>\<rparr>)"

section \<open>The interrupt descriptor table\<close>

record GateDesc32 =
  off_15_0 :: "16 word"
  gate_cs :: "16 word"
  gate_type :: "4 word"
  gate_s :: "1 word"
  gate_dpl :: "2 word"
  gate_p :: "1 word"
  off_31_16 :: "16 word"

definition GATE32 :: "u32 \<Rightarrow> u32 \<Rightarrow> u32 \<Rightarrow> u32 \<Rightarrow> GateDesc32" where
  "GATE32 type sel entry dpl =
    \<lparr>off_15_0 = ucast (entry AND 0xffff), gate_cs = ucast sel, gate_type = ucast type, gate_s = 0,
     gate_dpl = ucast dpl, gate_p = 1, off_31_16 = ucast (drop_bit 16 entry)\<rparr>"

definition STS_TG :: u32 where "STS_TG = 0xf"

definition NR_IRQ :: nat where "NR_IRQ = 256"

definition IRQS :: "(nat \<times> u32) list" where
  "IRQS = map (\<lambda>i. (i, DPL_KERN)) ([0..<17] @ [19, 31] @ [32..<48]) @ [(128, DPL_USER), (129, DPL_USER)]"

definition init_idt :: "u32 \<Rightarrow> (nat \<Rightarrow> u32) \<Rightarrow> GateDesc32 list" where
  "init_idt irqall irq =
    fold (\<lambda>(i, dpl) idt. idt[i := GATE32 STS_TG (KSEL SEG_KCODE) (irq i) dpl]) IRQS
      (replicate NR_IRQ (GATE32 STS_TG (KSEL SEG_KCODE) irqall DPL_KERN))"

definition cte_init :: "u32 \<Rightarrow> handler option \<Rightarrow> u32 \<Rightarrow> (nat \<Rightarrow> u32) \<Rightarrow> cte_panic + handler \<times> GateDesc32 list" where
  "cte_init cpu_current handler irqall irq =
    (if cpu_current \<noteq> 0 then Inl Init_on_other_CPU
     else case handler of
        None \<Rightarrow> Inl No_handler
      | Some h \<Rightarrow> Inr (h, init_idt irqall irq))"

definition yield_irq :: u32 where "yield_irq = 0x81"

definition ienabled :: "mach \<Rightarrow> bool" where
  "ienabled M \<longleftrightarrow> eflags (rg M) AND FL_IF \<noteq> 0"

definition iset :: "bool \<Rightarrow> mach \<Rightarrow> mach" where
  "iset enable M =
    M\<lparr>rg := (rg M)\<lparr>eflags := (if enable then eflags (rg M) OR FL_IF else eflags (rg M) AND NOT FL_IF)\<rparr>\<rparr>"

section \<open>The frame of an interrupt\<close>

lemma offset_eq [simp]: "ctx_offset f = ctx_offset g \<longleftrightarrow> f = g"
  by (cases f; cases g; simp)

lemma get_put_field [simp]:
  "get_field c f (put_field c g v M) = (if f = g then v else get_field c f M)"
  by (simp add: get_field_def put_field_def)

lemma put_field_sel [simp]:
  "tss_esp0 (put_field c f v M) = tss_esp0 M" "tss_ss0 (put_field c f v M) = tss_ss0 M"
  "ctl2 (put_field c f v M) = ctl2 M" "ctl3 (put_field c f v M) = ctl3 M"
  "rg (put_field c f v M) = rg M" "eois (put_field c f v M) = eois M"
  by (simp_all add: put_field_def)

text \<open>The cells above the context are not fields of it.\<close>

lemma mem_put_field:
  "mem (put_field c f v M) (c + k) = mem M (c + k)" if "60 \<le> k"
  using that by (cases f) (auto simp: put_field_def)

lemmas sel_defs = KSEL_def USEL_def SEG_KCODE_def SEG_KDATA_def SEG_UCODE_def SEG_UDATA_def DPL_KERN_def DPL_USER_def

lemma sels [simp]:
  "KSEL SEG_KCODE = 8" "KSEL SEG_KDATA = 16" "USEL SEG_UCODE = 27" "USEL SEG_UDATA = 35"
  by (simp_all add: sel_defs)

definition frame_top :: "mach \<Rightarrow> u32" where
  "frame_top M = (if cs (rg M) AND DPL_USER \<noteq> 0 then tss_esp0 M - 88 else esp (rg M) - 80)"

lemma enter_frame:
  assumes "M' = enter irq err M" "tf = frame_top M"
  shows "esp (rg M') = tf" "tss_esp0 M' = tss_esp0 M" "ctl3 M' = ctl3 M" "ss (rg M') = 16"
    and "get_field tf F_eax M' = eax (rg M)" "get_field tf F_ebx M' = ebx (rg M)"
    and "get_field tf F_ecx M' = ecx (rg M)" "get_field tf F_edx M' = edx (rg M)"
    and "get_field tf F_esi M' = esi (rg M)" "get_field tf F_edi M' = edi (rg M)"
    and "get_field tf F_ebp M' = ebp (rg M)"
    and "get_field tf F_ds M' = (eax (rg M) AND NOT 0xffff) OR low16 (ds (rg M))"
    and "mem M' (tf_eip tf) = eip (rg M)" "mem M' (tf_cs tf) = cs (rg M)"
    and "mem M' (tf_eflags tf) = eflags (rg M)" "mem M' (tf_irq tf) = irq" "mem M' (tf_errcode tf) = err"
    and "cs (rg M) AND DPL_USER \<noteq> 0 \<Longrightarrow> mem M' (tf_esp tf) = esp (rg M)"
  using assms
  by (simp_all add: enter_def deliver_def push_def Let_def frame_top_def get_field_def sizeof_Context_def
      tf_eip_def tf_cs_def tf_eflags_def tf_irq_def tf_errcode_def tf_esp_def)

text \<open>What \<open>__am_irq_handle\<close> hands to the client: the interrupted program, complete.\<close>

lemma handled_frame:
  assumes M': "M' = lapic_eoi irq (save_context tf (enter irq err M))" and tf: "tf = frame_top M"
  shows "get_field tf F_eip M' = eip (rg M)" "get_field tf F_cs M' = cs (rg M)"
    and "get_field tf F_eflags M' = eflags (rg M)" "get_field tf F_ss3 M' = 35"
    and "get_field tf F_esp M' = esp (rg M)"
    and "get_field tf F_esp0 M' = tss_esp0 M" "get_field tf F_cr3 M' = ctl3 M"
    and "get_field tf F_eax M' = eax (rg M)" "get_field tf F_ebx M' = ebx (rg M)"
    and "get_field tf F_ecx M' = ecx (rg M)" "get_field tf F_edx M' = edx (rg M)"
    and "get_field tf F_esi M' = esi (rg M)" "get_field tf F_edi M' = edi (rg M)"
    and "get_field tf F_ebp M' = ebp (rg M)"
    and "get_field tf F_ds M' = (eax (rg M) AND NOT 0xffff) OR low16 (ds (rg M))"
    and "mem M' (tf_irq tf) = irq" "mem M' (tf_errcode tf) = err"
    and "tss_esp0 M' = tss_esp0 M" "ctl3 M' = ctl3 M" "ss (rg M') = 16"
proof -
  note e = enter_frame [OF refl tf, of irq err]
  have eoi: "get_field tf f (lapic_eoi irq X) = get_field tf f X" "mem (lapic_eoi irq X) = mem X"
    "rg (lapic_eoi irq X) = rg X" "tss_esp0 (lapic_eoi irq X) = tss_esp0 X" "ctl3 (lapic_eoi irq X) = ctl3 X" for f X
    by (simp_all add: lapic_eoi_def get_field_def)
  have k: "mem (put_field tf f v X) (tf_irq tf) = mem X (tf_irq tf)"
    "mem (put_field tf f v X) (tf_errcode tf) = mem X (tf_errcode tf)"
    "mem (put_field tf f v X) (tf_eip tf) = mem X (tf_eip tf)"
    "mem (put_field tf f v X) (tf_cs tf) = mem X (tf_cs tf)"
    "mem (put_field tf f v X) (tf_eflags tf) = mem X (tf_eflags tf)"
    "mem (put_field tf f v X) (tf_esp tf) = mem X (tf_esp tf)" for f v X
    using mem_put_field [of _ tf f v X]
    by (simp_all add: tf_irq_def tf_errcode_def tf_eip_def tf_cs_def tf_eflags_def tf_esp_def sizeof_Context_def add.assoc)
  have sp: "(if cs (rg M) AND DPL_USER \<noteq> 0 then mem (enter irq err M) (tf_esp tf) else tf + sizeof_trap_frame - 8) = esp (rg M)"
    using e(18) by (simp add: tf frame_top_def sizeof_trap_frame_def sizeof_Context_def)
  show "get_field tf F_eip M' = eip (rg M)" "get_field tf F_cs M' = cs (rg M)"
    "get_field tf F_eflags M' = eflags (rg M)" "get_field tf F_ss3 M' = 35"
    "get_field tf F_esp0 M' = tss_esp0 M" "get_field tf F_cr3 M' = ctl3 M"
    "get_field tf F_eax M' = eax (rg M)" "get_field tf F_ebx M' = ebx (rg M)"
    "get_field tf F_ecx M' = ecx (rg M)" "get_field tf F_edx M' = edx (rg M)"
    "get_field tf F_esi M' = esi (rg M)" "get_field tf F_edi M' = edi (rg M)"
    "get_field tf F_ebp M' = ebp (rg M)"
    "get_field tf F_ds M' = (eax (rg M) AND NOT 0xffff) OR low16 (ds (rg M))"
    "mem M' (tf_irq tf) = irq" "mem M' (tf_errcode tf) = err"
    "tss_esp0 M' = tss_esp0 M" "ctl3 M' = ctl3 M" "ss (rg M') = 16"
    by (simp_all add: M' eoi save_context_def Let_def k e)
  show "get_field tf F_esp M' = esp (rg M)"
    using sp by (auto simp: M' eoi save_context_def Let_def k e split: if_splits)
qed

text \<open>Leaving to a context: every register comes from its field.\<close>

definition context_regs :: "u32 \<Rightarrow> mach \<Rightarrow> x86_regs" where
  "context_regs c M =
    \<lparr>eax = get_field c F_eax M, ebx = get_field c F_ebx M, ecx = get_field c F_ecx M, edx = get_field c F_edx M,
     esi = get_field c F_esi M, edi = get_field c F_edi M, ebp = get_field c F_ebp M, esp = get_field c F_esp M,
     eip = get_field c F_eip M, eflags = get_field c F_eflags M, cs = get_field c F_cs M,
     ds = low16 (get_field c F_ds M),
     ss = (if low16 (get_field c F_cs M) = KSEL SEG_KCODE then ss (rg M) else get_field c F_ss3 M)\<rparr>"

text \<open>
  The copy of the kernel's way out is correct when the new stack pointer is the end of the context
  or above it: the source may then be overwritten only after it has been read.
\<close>

definition above :: "u32 \<Rightarrow> u32 \<Rightarrow> bool" where
  "above c sp \<longleftrightarrow> (\<exists>k. sp = c + sizeof_Context + 4 * k \<and> k \<le> 0x3ffffff0)"

definition move_cell :: "u32 \<Rightarrow> u32 \<Rightarrow> u32 \<Rightarrow> u32 \<Rightarrow> (u32 \<Rightarrow> u32) \<Rightarrow> u32 \<Rightarrow> u32" where
  "move_cell c d s t m = m(c + t + d := m (c + s))"

lemma moved_cells:
  fixes m :: "u32 \<Rightarrow> u32" and c d :: u32
  assumes "\<And>n. n \<in> {12, 16, 20, 24, 28} \<Longrightarrow> d + n \<noteq> 0"
  defines "m' \<equiv> move_cell c d 28 36 (move_cell c d 32 40 (move_cell c d 36 44
    (move_cell c d 40 48 (move_cell c d 44 52 (move_cell c d 48 56 m)))))"
  shows "m' (c + 36 + d) = m (c + 28)" "m' (c + 40 + d) = m (c + 32)" "m' (c + 44 + d) = m (c + 36)"
    "m' (c + 48 + d) = m (c + 40)" "m' (c + 52 + d) = m (c + 44)" "m' (c + 56 + d) = m (c + 48)"
proof -
  have n: "c + a \<noteq> c + b + d" if "b - a \<in> {12, 16, 20, 24, 28}" for a b
  proof
    assume "c + a = c + b + d"
    then have "d + (b - a) = 0" by (simp add: algebra_simps)
    then show False using assms(1) [OF that] by simp
  qed
  have i: "c + a + d = c + b + d \<longleftrightarrow> a = b" for a b by simp
  show "m' (c + 36 + d) = m (c + 28)" "m' (c + 40 + d) = m (c + 32)" "m' (c + 44 + d) = m (c + 36)"
    "m' (c + 48 + d) = m (c + 40)" "m' (c + 52 + d) = m (c + 44)" "m' (c + 56 + d) = m (c + 48)"
    unfolding m'_def move_cell_def
    using n [of 56 44] n [of 56 40] n [of 52 40] n [of 56 36] n [of 52 36] n [of 48 36]
      n [of 56 32] n [of 52 32] n [of 48 32] n [of 44 32] n [of 56 28] n [of 52 28] n [of 48 28] n [of 44 28] n [of 40 28]
    by (simp_all add: i fun_upd_def)
qed

lemma kernel_copy_ok:
  assumes "above c (get_field c F_esp M)" "sp = get_field c F_esp M - 24"
  shows "mem (kernel_copy c M) sp = get_field c F_esi M"
    "mem (kernel_copy c M) (sp + 4) = get_field c F_edi M"
    "mem (kernel_copy c M) (sp + 8) = get_field c F_ebp M"
    "mem (kernel_copy c M) (sp + 12) = get_field c F_eip M"
    "mem (kernel_copy c M) (sp + 16) = get_field c F_cs M"
    "mem (kernel_copy c M) (sp + 20) = get_field c F_eflags M"
proof -
  obtain k where k: "get_field c F_esp M = c + 60 + 4 * k" "k \<le> 0x3ffffff0"
    using assms(1) by (auto simp: above_def sizeof_Context_def)
  define d where "d = 4 * k"
  have "d + n \<noteq> 0" if "n \<in> {12, 16, 20, 24, 28}" for n :: u32
  proof -
    have "unat d = 4 * unat k" "unat k \<le> 0x3ffffff0"
      using k(2) by (simp_all add: d_def unat_word_ariths word_le_nat_alt)
    then have "unat (d + n) = unat d + unat n" using that by (auto simp: unat_word_ariths)
    then show ?thesis using that by (auto simp: unat_eq_zero [symmetric])
  qed
  note mc = moved_cells [of d c "mem M", OF this]
  have sp: "sp = c + 36 + d" "mem M (c + 52) = c + 60 + d"
    using assms(2) k by (simp_all add: d_def get_field_def)
  have "mem (kernel_copy c M) = move_cell c d 28 36 (move_cell c d 32 40 (move_cell c d 36 44
      (move_cell c d 40 48 (move_cell c d 44 52 (move_cell c d 48 56 (mem M))))))"
    by (simp add: kernel_copy_def Let_def sp(2) move_cell_def ac_simps)
  then show "mem (kernel_copy c M) sp = get_field c F_esi M"
    "mem (kernel_copy c M) (sp + 4) = get_field c F_edi M"
    "mem (kernel_copy c M) (sp + 8) = get_field c F_ebp M"
    "mem (kernel_copy c M) (sp + 12) = get_field c F_eip M"
    "mem (kernel_copy c M) (sp + 16) = get_field c F_cs M"
    "mem (kernel_copy c M) (sp + 20) = get_field c F_eflags M"
    using mc by (simp_all add: sp(1) get_field_def ac_simps)
qed

lemma am_iret_ok:
  assumes "low16 (get_field c F_cs M) \<noteq> KSEL SEG_KCODE \<or> above c (get_field c F_esp M)"
  shows "rg (am_iret c M) = context_regs c M"
    and "ctl3 (am_iret c M) = ctl3 M" "tss_esp0 (am_iret c M) = tss_esp0 M"
proof -
  have k: "ctl3 (kernel_copy c M) = ctl3 M" "tss_esp0 (kernel_copy c M) = tss_esp0 M"
    by (simp_all add: kernel_copy_def Let_def)
  show "ctl3 (am_iret c M) = ctl3 M" "tss_esp0 (am_iret c M) = tss_esp0 M"
    by (simp_all add: am_iret_def Let_def k)
  show "rg (am_iret c M) = context_regs c M"
    using assms kernel_copy_ok [of c M, OF _ refl]
    by (auto simp: am_iret_def context_regs_def Let_def)
qed

text \<open>
  The program with registers \<open>R\<close> is kept in the context \<open>c\<close>, with its directory and kernel stack;
  a kernel context must be followed by its stack.
\<close>

definition stores :: "u32 \<Rightarrow> x86_regs \<Rightarrow> u32 \<Rightarrow> u32 \<Rightarrow> mach \<Rightarrow> bool" where
  "stores c R cr3v esp0v M \<longleftrightarrow>
    get_field c F_eax M = eax R \<and> get_field c F_ebx M = ebx R \<and> get_field c F_ecx M = ecx R \<and>
    get_field c F_edx M = edx R \<and> get_field c F_esi M = esi R \<and> get_field c F_edi M = edi R \<and>
    get_field c F_ebp M = ebp R \<and> get_field c F_esp M = esp R \<and> get_field c F_eip M = eip R \<and>
    get_field c F_eflags M = eflags R \<and> get_field c F_cs M = cs R \<and> low16 (get_field c F_ds M) = ds R \<and>
    (if low16 (cs R) = KSEL SEG_KCODE then ss R = KSEL SEG_KDATA \<and> above c (esp R)
     else get_field c F_ss3 M = ss R) \<and>
    get_field c F_cr3 M = cr3v \<and> get_field c F_esp0 M = esp0v"

definition mode_ok :: "x86_regs \<Rightarrow> bool" where
  "mode_ok R \<longleftrightarrow> low16 (ds R) = ds R \<and>
    (cs R = KSEL SEG_KCODE \<and> ss R = KSEL SEG_KDATA \<or> cs R = USEL SEG_UCODE \<and> ss R = USEL SEG_UDATA)"

text \<open>The machine as the client's handler finds it.\<close>

definition handed :: "u32 \<Rightarrow> u32 \<Rightarrow> mach \<Rightarrow> mach" where
  "handed irq err M = lapic_eoi irq (save_context (frame_top M) (enter irq err M))"

lemma low16_ds: "low16 ((x AND NOT 0xffff) OR low16 y) = low16 y"
proof -
  have "(0xffff :: u32) = mask 16" by (simp add: mask_eq_exp_minus_1)
  then show ?thesis unfolding low16_def by (auto intro!: bit_word_eqI simp: bit_simps)
qed

lemma low16_sels [simp]: "low16 8 = 8" "low16 27 = 27" "low16 16 = 16" "low16 35 = 35"
  by (simp_all add: low16_def)

lemma handed_stores:
  assumes "mode_ok (rg M)"
  shows "stores (frame_top M) (rg M) (ctl3 M) (tss_esp0 M) (handed irq err M)"
proof -
  note h = handled_frame [OF handed_def [of irq err M] refl]
  have "above (frame_top M) (esp (rg M))" if "cs (rg M) = 8"
    unfolding above_def using that
    by (intro exI [of _ 5]) (simp add: frame_top_def DPL_USER_def sizeof_Context_def)
  moreover have "low16 (get_field (frame_top M) F_ds (handed irq err M)) = low16 (ds (rg M))"
    by (simp only: h(15) low16_ds)
  ultimately show ?thesis using assms by (auto simp: stores_def h(1-14) mode_ok_def)
qed

text \<open>An interrupt whose handler returns a context resumes the program kept there.\<close>

lemma interrupt_resumes:
  assumes h: "h (irq_event irq err (ctl2 (handed irq err B))) (frame_top B) (handed irq err B) = (c, M)"
    and c: "c \<noteq> 0" and st: "stores c R k e M" and ss: "ss (rg M) = KSEL SEG_KDATA"
  shows "\<exists>M'. interrupt h irq err B = Inr M' \<and> rg M' = R
    \<and> ctl3 M' = (if k \<noteq> 0 then k else ctl3 M) \<and> tss_esp0 M' = (if k \<noteq> 0 then e else tss_esp0 M)"
proof -
  note f = handled_frame [OF handed_def [of irq err B] refl]
  define M1 where "M1 = (if k \<noteq> 0 then M\<lparr>ctl3 := k, tss_ss0 := KSEL SEG_KDATA, tss_esp0 := e\<rparr> else M)"
  have sp: "esp (rg (enter irq err B)) = frame_top B" by (rule enter_frame [OF refl refl])
  have irq: "mem (save_context (frame_top B) (enter irq err B)) (tf_irq (frame_top B)) = irq"
    using f(16) by (simp add: handed_def lapic_eoi_def split: if_splits)
  have "irq_handle h (frame_top B) (enter irq err B) = Inr (c, M1)"
    using h c st f(17) unfolding irq_handle_def Let_def irq handed_def [symmetric]
    by (simp add: M1_def stores_def)
  then have run: "interrupt h irq err B = Inr (am_iret c M1)" by (simp add: interrupt_def Let_def sp)
  have st1: "stores c R k e M1" "ss (rg M1) = KSEL SEG_KDATA"
  proof -
    have "get_field c f M1 = get_field c f M" for f by (simp add: get_field_def M1_def)
    then show "stores c R k e M1" using st by (simp add: stores_def)
    show "ss (rg M1) = KSEL SEG_KDATA" using ss by (simp add: M1_def)
  qed
  have "low16 (get_field c F_cs M1) \<noteq> KSEL SEG_KCODE \<or> above c (get_field c F_esp M1)"
    using st1(1) by (auto simp: stores_def split: if_splits)
  note i = am_iret_ok [OF this]
  have "context_regs c M1 = R"
    using st1 by (cases R) (auto simp: stores_def context_regs_def split: if_splits)
  then show ?thesis using run i by (auto simp: M1_def)
qed

section \<open>New contexts\<close>

lemma get_zero_context [simp]: "get_field c f (zero_context c M) = 0"
proof -
  have "get_field c f (fold (\<lambda>f. put_field c f 0) fs M) = (if f \<in> set fs then 0 else get_field c f M)" for fs
    by (induction fs arbitrary: M) auto
  moreover have "f \<in> set all_fields" by (cases f) (simp_all add: all_fields_def)
  ultimately show ?thesis by (simp add: zero_context_def)
qed

definition kcontext_regs :: "u32 \<Rightarrow> u32 \<Rightarrow> u32 \<Rightarrow> u32 \<Rightarrow> x86_regs" where
  "kcontext_regs start kstack_end entry arg =
    \<lparr>eax = arg, ebx = entry, ecx = 0, edx = 0, esi = 0, edi = 0, ebp = 0, esp = kstack_end,
     eip = start, eflags = FL_IF, cs = KSEL SEG_KCODE, ds = KSEL SEG_KDATA, ss = KSEL SEG_KDATA\<rparr>"

definition ucontext_regs :: "u32 \<Rightarrow> x86_regs" where
  "ucontext_regs entry =
    \<lparr>eax = 0, ebx = 0, ecx = 0, edx = 0, esi = 0, edi = 0, ebp = 0, esp = 0x80000000,
     eip = entry, eflags = FL_IF, cs = USEL SEG_UCODE, ds = USEL SEG_UDATA, ss = USEL SEG_UDATA\<rparr>"

lemma kcontext_stores:
  "case kcontext start kend entry arg M of (c, M') \<Rightarrow>
    c = kend - 60 \<and> stores c (kcontext_regs start kend entry arg) 0 0 M'"
  by (auto simp: kcontext_def Let_def stores_def kcontext_regs_def sizeof_Context_def above_def
      intro!: exI [of _ 0])

lemma zero_context_outside:
  assumes "a \<notin> (\<lambda>f. c + ctx_offset f) ` UNIV"
  shows "mem (zero_context c M) a = mem M a"
proof -
  have "mem (fold (\<lambda>f. put_field c f 0) fs M) a = mem M a" for fs
    using assms by (induction fs arbitrary: M) (auto simp: put_field_def)
  then show ?thesis by (simp add: zero_context_def)
qed

lemma ucontext_stores:
  assumes "as_ptr as \<notin> (\<lambda>f. kend - 60 + ctx_offset f) ` UNIV"
  shows "case ucontext as kend entry M of (c, M') \<Rightarrow>
    c = kend - 60 \<and> stores c (ucontext_regs entry) (mem M (as_ptr as)) kend M'"
proof -
  have "mem (put_field (kend - 60) f v X) (as_ptr as) = mem X (as_ptr as)" for f v X
    using assms by (auto simp: put_field_def)
  moreover have "mem (zero_context (kend - 60) M) (as_ptr as) = mem M (as_ptr as)"
    using assms by (rule zero_context_outside)
  ultimately show ?thesis
    by (simp add: ucontext_def Let_def stores_def ucontext_regs_def sizeof_Context_def
        uvm_area_def vm_areas_def)
qed

text \<open>The entry point finds its argument on the stack, above the return address.\<close>

lemma kcontext_calls_entry:
  assumes "rg M = kcontext_regs start kstack_end entry arg" "M' = am_kcontext_start panic M"
  shows "eip (rg M') = entry" "esp (rg M') = kstack_end - 8"
    "mem M' (esp (rg M')) = panic" "mem M' (esp (rg M') + 4) = arg"
  by (simp_all add: assms am_kcontext_start_def push_def Let_def kcontext_regs_def)

section \<open>Theorems\<close>

text \<open>
  C26: a context switch is complete.  The program \<open>A\<close> is interrupted, in kernel or user mode; later
  the program \<open>B\<close> (which may be \<open>A\<close> itself) is interrupted and its handler returns the context \<open>A\<close>
  was saved in, with the fields unchanged.  Then the interrupt ends with every register as \<open>A\<close>
  had it and, when \<open>A\<close> ran in an address space, with \<open>A\<close>'s page directory and kernel stack.
\<close>
theorem context_switch_resumes:
  assumes "mode_ok (rg A)" "frame_top A \<noteq> 0"
    and "h (irq_event irqB errB (ctl2 (handed irqB errB B))) (frame_top B) (handed irqB errB B) = (frame_top A, M)"
    and "\<forall>f. get_field (frame_top A) f M = get_field (frame_top A) f (handed irqA errA A)"
    and "ss (rg M) = KSEL SEG_KDATA"
  shows "\<exists>M'. interrupt h irqB errB B = Inr M' \<and> rg M' = rg A
    \<and> (ctl3 A \<noteq> 0 \<longrightarrow> ctl3 M' = ctl3 A \<and> tss_esp0 M' = tss_esp0 A)"
proof -
  have "stores (frame_top A) (rg A) (ctl3 A) (tss_esp0 A) M"
    using handed_stores [OF assms(1), of irqA errA] assms(4) by (simp add: stores_def)
  from interrupt_resumes [where h = h and B = B, OF assms(3,2) this assms(5)] show ?thesis by auto
qed

definition sample_regs :: x86_regs where
  "sample_regs = \<lparr>eax = 1, ebx = 2, ecx = 3, edx = 4, esi = 5, edi = 6, ebp = 7, esp = 0x70000000,
     eip = 0x40000000, eflags = FL_IF, cs = USEL SEG_UCODE, ds = USEL SEG_UDATA, ss = USEL SEG_UDATA\<rparr>"

definition sample_mach :: mach where
  "sample_mach = \<lparr>rg = sample_regs, mem = (\<lambda>_. 0), tss_esp0 = 0x9000, tss_ss0 = KSEL SEG_KDATA,
     ctl2 = 0, ctl3 = 0x5000, eois = 0\<rparr>"

text \<open>An interrupt of a user program whose handler returns at once.\<close>

theorem context_switch_resumes_witness:
  "mode_ok (rg sample_mach) \<and> frame_top sample_mach \<noteq> 0
   \<and> (\<exists>M'. interrupt (\<lambda>ev c M. (c, M)) 32 0 sample_mach = Inr M' \<and> rg M' = sample_regs
        \<and> ctl3 M' = 0x5000 \<and> tss_esp0 M' = 0x9000)"
proof -
  have m: "mode_ok (rg sample_mach)" by (simp add: sample_mach_def sample_regs_def mode_ok_def)
  have f: "frame_top sample_mach \<noteq> 0"
    by (simp add: sample_mach_def sample_regs_def frame_top_def DPL_USER_def)
  have "ss (rg (handed 32 0 sample_mach)) = KSEL SEG_KDATA"
    using handled_frame(20) [OF handed_def [of 32 0 sample_mach] refl] by simp
  then show ?thesis
    using context_switch_resumes [where h = "\<lambda>ev c M. (c, M)" and B = sample_mach and irqB = 32 and errB = 0
        and irqA = 32 and errA = 0, OF m f] m f
    by (auto simp: sample_mach_def)
qed

text \<open>
  C27: new contexts start as documented.  When a handler returns the context \<open>kcontext\<close> has made on a
  kernel stack, the machine goes on at the start stub with the entry and its argument in
  registers, interrupts on, on the top of that stack, in the current address space; when it returns
  the one \<open>ucontext\<close> has made, it goes on at the entry in user mode, on the top of the user area,
  in the given address space, and the next interrupt will use the given kernel stack.
\<close>
theorem new_contexts_start:
  assumes "kend \<noteq> 60" "as_ptr as \<notin> (\<lambda>f. kend - 60 + ctx_offset f) ` UNIV"
  shows "(\<exists>M'. interrupt (\<lambda>ev c M. kcontext start kend entry arg M) irq err B = Inr M'
      \<and> rg M' = kcontext_regs start kend entry arg \<and> ctl3 M' = ctl3 B \<and> tss_esp0 M' = tss_esp0 B)
    \<and> (mem (handed irq err B) (as_ptr as) \<noteq> 0 \<longrightarrow>
      (\<exists>M'. interrupt (\<lambda>ev c M. ucontext as kend entry M) irq err B = Inr M'
        \<and> rg M' = ucontext_regs entry \<and> ctl3 M' = mem (handed irq err B) (as_ptr as) \<and> tss_esp0 M' = kend))"
proof -
  let ?H = "handed irq err B"
  note f = handled_frame [OF handed_def [of irq err B] refl]
  have z: "rg (fold (\<lambda>f. put_field c f 0) fs M) = rg M" "ctl3 (fold (\<lambda>f. put_field c f 0) fs M) = ctl3 M"
    "tss_esp0 (fold (\<lambda>f. put_field c f 0) fs M) = tss_esp0 M" for c fs M
    by (induction fs arbitrary: M) auto
  obtain c K where K: "kcontext start kend entry arg ?H = (c, K)" by fastforce
  then have kf: "rg K = rg ?H" "ctl3 K = ctl3 ?H" "tss_esp0 K = tss_esp0 ?H"
    by (auto simp: kcontext_def Let_def zero_context_def z)
  have ks: "c = kend - 60" "stores c (kcontext_regs start kend entry arg) 0 0 K"
    using kcontext_stores [where start = start and kend = kend and entry = entry and arg = arg and M = ?H] K
    by auto
  obtain d U where U: "ucontext as kend entry ?H = (d, U)" by fastforce
  then have uf: "rg U = rg ?H" by (auto simp: ucontext_def Let_def zero_context_def z)
  have us: "d = kend - 60" "stores d (ucontext_regs entry) (mem ?H (as_ptr as)) kend U"
    using ucontext_stores [OF assms(2), where entry = entry and M = ?H] U by auto
  have nz: "c \<noteq> 0" "d \<noteq> 0" using assms(1) ks(1) us(1) by simp_all
  have ss: "ss (rg K) = KSEL SEG_KDATA" "ss (rg U) = KSEL SEG_KDATA" using kf(1) uf f(20) by simp_all
  show ?thesis
    using interrupt_resumes [where h = "\<lambda>ev c M. kcontext start kend entry arg M" and B = B, OF K nz(1) ks(2) ss(1)]
      interrupt_resumes [where h = "\<lambda>ev c M. ucontext as kend entry M" and B = B, OF U nz(2) us(2) ss(2)] kf f(18,19)
    by auto
qed

theorem new_contexts_start_witness:
  "as_ptr 0xa000 \<notin> (\<lambda>f. 0x8000 - 60 + ctx_offset f) ` UNIV
   \<and> (\<exists>M'. interrupt (\<lambda>ev c M. kcontext 0x100000 0x8000 0x100100 7 M) 32 0 sample_mach = Inr M'
      \<and> rg M' = kcontext_regs 0x100000 0x8000 0x100100 7)"
proof -
  have "as_ptr 0xa000 \<noteq> 0x8000 - 60 + ctx_offset f" for f by (cases f) (simp_all add: as_ptr_def)
  then have a: "as_ptr 0xa000 \<notin> (\<lambda>f. 0x8000 - 60 + ctx_offset f) ` UNIV" by auto
  have k: "(0x8000 :: u32) \<noteq> 60" by simp
  show ?thesis
    using new_contexts_start [where start = "0x100000" and entry = "0x100100" and arg = 7 and irq = 32
        and err = 0 and B = sample_mach, OF k a] a by blast
qed

lemma nth_fold_update:
  assumes "distinct (map fst L)" "\<forall>i \<in> set (map fst L). i < length xs"
  shows "length (fold (\<lambda>(i, d) xs. xs[i := F i d]) L xs) = length xs \<and>
    (\<forall>v < length xs. fold (\<lambda>(i, d) xs. xs[i := F i d]) L xs ! v =
      (case map_of L v of None \<Rightarrow> xs ! v | Some d \<Rightarrow> F v d))"
  using assms
proof (induction L arbitrary: xs)
  case (Cons p L)
  obtain i d where p: "p = (i, d)" by fastforce
  have n: "map_of L i = None" using Cons.prems(1) p by (simp add: map_of_eq_None_iff)
  show ?case
    using Cons.IH [of "xs[i := F i d]"] Cons.prems p n by (auto simp: nth_list_update split: option.splits)
qed simp

definition kernel_vectors :: "nat list" where
  "kernel_vectors = [0..<17] @ [19, 31] @ [32..<48]"

lemma IRQS_vectors: "map fst IRQS = kernel_vectors @ [128, 129]"
  "IRQS = map (\<lambda>i. (i, DPL_KERN)) kernel_vectors @ [(128, DPL_USER), (129, DPL_USER)]"
  by (simp_all add: IRQS_def kernel_vectors_def comp_def)

lemma set_kernel_vectors: "v \<in> set kernel_vectors \<longleftrightarrow> v < 17 \<or> v = 19 \<or> v = 31 \<or> 32 \<le> v \<and> v < 48"
  by (auto simp: kernel_vectors_def)

lemma map_of_IRQS:
  "map_of IRQS v = (if v \<in> set kernel_vectors then Some DPL_KERN else if v = 128 \<or> v = 129 then Some DPL_USER else None)"
proof -
  have "map_of (map (\<lambda>i. (i, x)) vs) v = (if v \<in> set vs then Some x else None)" for x :: u32 and vs
    by (induction vs) auto
  then show ?thesis unfolding IRQS_vectors(2) map_of_append by (auto simp: map_add_def)
qed

lemma gate_target:
  "push_bit 16 (ucast (off_31_16 (GATE32 t sel entry dpl))) OR ucast (off_15_0 (GATE32 t sel entry dpl)) = entry"
proof -
  have b: "bit (0xffff :: u32) n \<longleftrightarrow> n < 16" for n
    using bit_mask_iff [where 'a = u32, of 16 n] by (auto simp: mask_eq_exp_minus_1)
  show ?thesis
  proof (rule bit_word_eqI)
    fix n assume n: "n < LENGTH(32)"
    show "bit (push_bit 16 (ucast (off_31_16 (GATE32 t sel entry dpl))) OR ucast (off_15_0 (GATE32 t sel entry dpl)) :: u32) n
        = bit entry n"
      using n b [of n] by (cases "n < 16") (auto simp: GATE32_def bit_simps)
  qed
qed

text \<open>
  the descriptor table.  All 256 vectors are present trap gates into the kernel's code segment;
  a gate leads to the stub of its vector, or to the common stub when there is none; and user code
  may raise exactly the vectors of system calls and of \<open>yield\<close>.
\<close>
theorem idt_correct:
  "length (init_idt irqall irq) = 256
   \<and> (\<forall>v < 256. case init_idt irqall irq ! v of g \<Rightarrow>
        gate_p g = 1 \<and> gate_type g = 0xf \<and> gate_cs g = 8
        \<and> push_bit 16 (ucast (off_31_16 g)) OR ucast (off_15_0 g)
          = (if v \<in> fst ` set IRQS then irq v else irqall)
        \<and> (gate_dpl g = 3 \<longleftrightarrow> v = 0x80 \<or> v = 0x81))"
proof -
  let ?xs = "replicate NR_IRQ (GATE32 STS_TG (KSEL SEG_KCODE) irqall DPL_KERN)"
  let ?F = "\<lambda>i dpl. GATE32 STS_TG (KSEL SEG_KCODE) (irq i) dpl"
  have d: "distinct (map fst IRQS)" "\<forall>i \<in> set (map fst IRQS). i < length ?xs"
    unfolding IRQS_vectors(1) by (auto simp: kernel_vectors_def NR_IRQ_def)
  have g: "gate_p (GATE32 STS_TG 8 x dpl) = 1" "gate_type (GATE32 STS_TG 8 x dpl) = 0xf"
    "gate_cs (GATE32 STS_TG 8 x dpl) = 8" "gate_dpl (GATE32 STS_TG 8 x DPL_KERN) \<noteq> 3"
    "gate_dpl (GATE32 STS_TG 8 x DPL_USER) = 3" for x dpl
    by (simp_all add: GATE32_def STS_TG_def DPL_KERN_def DPL_USER_def)
  have dom: "v \<in> fst ` set IRQS \<longleftrightarrow> map_of IRQS v \<noteq> None" for v by (simp add: map_of_eq_None_iff)
  have "length (init_idt irqall irq) = 256"
    using nth_fold_update [OF d, of ?F] by (simp add: init_idt_def NR_IRQ_def)
  moreover have "init_idt irqall irq ! v =
      (case map_of IRQS v of None \<Rightarrow> GATE32 STS_TG 8 irqall DPL_KERN | Some dpl \<Rightarrow> GATE32 STS_TG 8 (irq v) dpl)"
    if "v < 256" for v
    using nth_fold_update [OF d, of ?F] that by (auto simp: init_idt_def NR_IRQ_def split: option.split)
  ultimately show ?thesis
    using set_kernel_vectors [of 128] set_kernel_vectors [of 129]
    by (auto simp: g gate_target dom map_of_IRQS)
qed

theorem idt_correct_witness:
  "gate_dpl (init_idt 0x100000 (\<lambda>i. of_nat i) ! 0x80) = 3 \<and> gate_dpl (init_idt 0x100000 (\<lambda>i. of_nat i) ! 14) \<noteq> 3"
proof -
  have v: "(0x80 :: nat) < 256" "(14 :: nat) < 256" by simp_all
  show ?thesis
    using idt_correct [of "0x100000" "\<lambda>i. of_nat i"] v by (auto simp: Let_def)
qed

text \<open>
  a page fault is reported with the faulting address and as a read or a write, never as both
  and never as neither; every other event has the cause of the exception's error code only when it
  is not a known one, and the interrupts of the APIC, and no others, are acknowledged.
\<close>
theorem irq_event_correct:
  "(event (irq_event irq err cr2) = EVENT_PAGEFAULT \<longleftrightarrow> irq = 14)
   \<and> ref (irq_event 14 err cr2) = cr2
   \<and> cause (irq_event 14 err cr2) = (if bit err 1 then MMAP_WRITE else MMAP_READ)
   \<and> (event (irq_event irq err cr2) = EVENT_YIELD \<longleftrightarrow> irq = yield_irq)
   \<and> (event (irq_event irq err cr2) = EVENT_SYSCALL \<longleftrightarrow> irq = 0x80)
   \<and> (event (irq_event irq err cr2) = EVENT_IRQ_TIMER \<longleftrightarrow> irq = 32)
   \<and> (event (irq_event irq err cr2) = EVENT_IRQ_IODEV \<longleftrightarrow> irq = 33 \<or> irq = 36)
   \<and> event (irq_event irq err cr2) \<noteq> EVENT_NULL
   \<and> eois (lapic_eoi irq M) = (if 32 \<le> irq \<and> irq < 64 then Suc (eois M) else eois M)"
proof -
  have ev: "event (irq_event irq err cr2) =
      (if irq = 32 then EVENT_IRQ_TIMER else if irq = 33 \<or> irq = 36 then EVENT_IRQ_IODEV
       else if irq = 0x80 then EVENT_SYSCALL else if irq = 0x81 then EVENT_YIELD
       else if irq = 14 then EVENT_PAGEFAULT else EVENT_ERROR)"
    by (simp add: irq_event_def Let_def T_IRQ0_def)
  have pf: "ref (irq_event 14 err cr2) = cr2"
    "cause (irq_event 14 err cr2) = (if bit err 1 then MMAP_WRITE else MMAP_READ)"
    using and_bits(1) [of err]
    by (simp_all add: irq_event_def Let_def T_IRQ0_def MMAP_NONE_def MMAP_WRITE_def MMAP_READ_def)
  show ?thesis
    by (intro conjI) (simp_all add: ev pf lapic_eoi_def T_IRQ0_def yield_irq_def)
qed

end
