(* ===== verification/Sim_Memory.thy ===== *)
theory Sim_Memory
  imports Prelude
begin

text \<open>
  The simulator's physical memory and the DPI entry points the simulated CPU reaches it through:
  \<open>simulator/src/memory/memory.c\<close>, \<open>simulator/src/utils/timer.c\<close> and
  \<open>simulator/src/npc/dpi.c\<close>.

  The array \<open>pmem\<close> is a list of bytes of length \<open>CONFIG_MSIZE\<close>; a host pointer into it
  is the integer offset \<open>guest_to_host\<close> computes.  The base and the size come from the
  generated \<open>autoconf.h\<close> and are the fields of \<open>mem_cfg\<close>.  A failing \<open>assert\<close> and an
  access outside the array (undefined in C) are error values, so that memory safety is a theorem.
  \<open>gettimeofday\<close> is the stream \<open>clock\<close> of its readings.
\<close>

section \<open>Model\<close>

datatype sim_error = Assert_fail | Out_of_object

type_synonym 'a res = "sim_error + 'a"

record mem_cfg =
  MBASE :: u32
  MSIZE :: u32

definition init_mem :: "mem_cfg \<Rightarrow> bool \<Rightarrow> u8 list \<Rightarrow> u8 list" where
  "init_mem cfg mem_random pmem = (if mem_random then replicate (unat (MSIZE cfg)) 0 else pmem)"

definition guest_to_host :: "mem_cfg \<Rightarrow> u32 \<Rightarrow> int" where
  "guest_to_host cfg paddr = uint paddr - uint (MBASE cfg)"

definition host_ok :: "u8 list \<Rightarrow> int \<Rightarrow> int \<Rightarrow> bool" where
  "host_ok pmem p len \<longleftrightarrow> 0 \<le> p \<and> p + len \<le> int (length pmem)"

definition host_read :: "u8 list \<Rightarrow> int \<Rightarrow> int \<Rightarrow> u32 res" where
  "host_read pmem p len =
    (if len = 1 \<or> len = 2 \<or> len = 4 \<or> len = 8 then
       if host_ok pmem p len then Inr (word_of_nat (le_read nth pmem (nat p) (nat len)))
       else Inl Out_of_object
     else Inl Assert_fail)"

definition host_write :: "u8 list \<Rightarrow> int \<Rightarrow> int \<Rightarrow> u32 \<Rightarrow> u8 list res" where
  "host_write pmem p len data =
    (if len = 1 \<or> len = 2 \<or> len = 4 \<or> len = 8 then
       if host_ok pmem p len then Inr (le_write list_update pmem (nat p) (nat len) (unat data))
       else Inl Out_of_object
     else Inl Assert_fail)"

definition in_pmem :: "mem_cfg \<Rightarrow> u32 \<Rightarrow> bool" where
  "in_pmem cfg addr \<longleftrightarrow> MBASE cfg \<le> addr \<and> addr \<le> MBASE cfg + MSIZE cfg"

definition pmem_read :: "mem_cfg \<Rightarrow> u8 list \<Rightarrow> u32 \<Rightarrow> int \<Rightarrow> u32 res" where
  "pmem_read cfg pmem addr len = host_read pmem (guest_to_host cfg addr) len"

definition pmem_write :: "mem_cfg \<Rightarrow> u8 list \<Rightarrow> u32 \<Rightarrow> int \<Rightarrow> u32 \<Rightarrow> u8 list res" where
  "pmem_write cfg pmem addr len data = host_write pmem (guest_to_host cfg addr) len data"

definition paddr_read :: "mem_cfg \<Rightarrow> (u32 \<Rightarrow> int \<Rightarrow> u32 res) option \<Rightarrow> u8 list \<Rightarrow> u32 \<Rightarrow> int \<Rightarrow> u32 res" where
  "paddr_read cfg mmio_read pmem addr len =
    (if in_pmem cfg addr then pmem_read cfg pmem addr len
     else case mmio_read of Some rd \<Rightarrow> rd addr len | None \<Rightarrow> Inr 0)"

definition paddr_write ::
  "mem_cfg \<Rightarrow> (u32 \<Rightarrow> int \<Rightarrow> u32 \<Rightarrow> 'dev \<Rightarrow> 'dev res) option \<Rightarrow> u8 list \<times> 'dev \<Rightarrow> u32 \<Rightarrow> int \<Rightarrow> u32
    \<Rightarrow> (u8 list \<times> 'dev) res" where
  "paddr_write cfg mmio_write st addr len data =
    (case st of (pmem, dev) \<Rightarrow>
      if in_pmem cfg addr then map_sum id (\<lambda>pmem. (pmem, dev)) (pmem_write cfg pmem addr len data)
      else case mmio_write of
             Some wr \<Rightarrow> map_sum id (\<lambda>dev. (pmem, dev)) (wr addr len data dev)
           | None \<Rightarrow> Inr (pmem, dev))"

text \<open>The state behind the DPI calls: memory, the lazily set boot time, the host clock (its
  readings and how many were taken) and what went to the serial port.\<close>

record dpi_env =
  pmem :: "u8 list"
  boot_time :: u64
  clock :: "nat \<Rightarrow> u64 \<times> u64"
  clock_pos :: nat
  serial :: "u8 list"

definition get_time_internal :: "dpi_env \<Rightarrow> u64 \<times> dpi_env" where
  "get_time_internal e =
    (case clock e (clock_pos e) of (tv_sec, tv_usec) \<Rightarrow>
      (tv_sec * 1000000 + tv_usec, e\<lparr>clock_pos := Suc (clock_pos e)\<rparr>))"

definition get_time :: "dpi_env \<Rightarrow> u64 \<times> dpi_env" where
  "get_time e =
    (let e = (if boot_time e = 0 then (case get_time_internal e of (t, e) \<Rightarrow> e\<lparr>boot_time := t\<rparr>) else e)
     in case get_time_internal e of (now, e) \<Rightarrow> (now - boot_time e, e))"

abbreviation (input) RTC_MMIO :: u32 where "RTC_MMIO \<equiv> 0xa0000048"
abbreviation (input) SERIAL_MMIO :: u32 where "SERIAL_MMIO \<equiv> 0xa00003f8"

definition dpi_instr_mem_read :: "mem_cfg \<Rightarrow> dpi_env \<Rightarrow> u32 \<Rightarrow> u32 res" where
  "dpi_instr_mem_read cfg e addr =
    (if MBASE cfg \<le> addr \<and> addr < MBASE cfg + MSIZE cfg
     then pmem_read cfg (pmem e) (addr AND NOT 3) 4
     else Inr 0)"

definition dpi_mem_read :: "mem_cfg \<Rightarrow> dpi_env \<Rightarrow> u32 \<Rightarrow> int \<Rightarrow> (u32 \<times> dpi_env) res" where
  "dpi_mem_read cfg e addr len =
    (if RTC_MMIO \<le> addr \<and> addr < RTC_MMIO + 4 then
       (case get_time e of (t, e) \<Rightarrow> Inr (ucast t, e))
     else if MBASE cfg \<le> addr \<and> addr < MBASE cfg + MSIZE cfg then
       map_sum id (\<lambda>v. (v, e)) (pmem_read cfg (pmem e) addr len)
     else Inr (0, e))"

definition dpi_mem_write :: "mem_cfg \<Rightarrow> dpi_env \<Rightarrow> u32 \<Rightarrow> u32 \<Rightarrow> int \<Rightarrow> dpi_env res" where
  "dpi_mem_write cfg e addr data len =
    (if addr = SERIAL_MMIO then Inr (e\<lparr>serial := serial e @ [ucast data]\<rparr>)
     else if MBASE cfg \<le> addr \<and> addr < MBASE cfg + MSIZE cfg then
       map_sum id (\<lambda>m. e\<lparr>pmem := m\<rparr>) (pmem_write cfg (pmem e) addr len data)
     else Inr e)"


section \<open>Lemmas\<close>

interpretation pmem_store: byte_store "\<lambda>m a. a < length m" nth "list_update :: u8 list \<Rightarrow> nat \<Rightarrow> u8 \<Rightarrow> u8 list"
  by unfold_locales auto

lemma length_le_write [simp]: "length (le_write list_update m a n v) = length (m :: u8 list)"
  by (induction n arbitrary: m a v) simp_all

text \<open>A configuration whose memory does not wrap around the address space and whose array has the
  configured size.\<close>

definition mem_wf :: "mem_cfg \<Rightarrow> u8 list \<Rightarrow> bool" where
  "mem_wf cfg m \<longleftrightarrow> int (length m) = uint (MSIZE cfg) \<and> uint (MBASE cfg) + uint (MSIZE cfg) < 2 ^ 32"

definition access_len :: "int \<Rightarrow> bool" where
  "access_len len \<longleftrightarrow> len = 1 \<or> len = 2 \<or> len = 4 \<or> len = 8"

definition in_range :: "mem_cfg \<Rightarrow> u32 \<Rightarrow> int \<Rightarrow> bool" where
  "in_range cfg addr len \<longleftrightarrow> uint (MBASE cfg) \<le> uint addr \<and> uint addr + len \<le> uint (MBASE cfg) + uint (MSIZE cfg)"

lemma mem_wf_bound:
  assumes "mem_wf cfg m"
  shows "uint (MBASE cfg + MSIZE cfg) = uint (MBASE cfg) + uint (MSIZE cfg)"
  using assms by (simp add: mem_wf_def uint_word_ariths)

lemma host_ok_iff:
  assumes "mem_wf cfg m"
  shows "host_ok m (guest_to_host cfg addr) len \<longleftrightarrow> in_range cfg addr len"
  using assms by (auto simp: host_ok_def guest_to_host_def in_range_def mem_wf_def)

lemma pmem_read_ok:
  assumes "mem_wf cfg m" "access_len len" "in_range cfg addr len"
  shows "pmem_read cfg m addr len =
    Inr (word_of_nat (le_read nth m (nat (guest_to_host cfg addr)) (nat len)))"
  using assms host_ok_iff [OF assms(1), of addr len]
  by (simp add: pmem_read_def host_read_def access_len_def)

lemma pmem_write_ok:
  assumes "mem_wf cfg m" "access_len len" "in_range cfg addr len"
  shows "pmem_write cfg m addr len data =
    Inr (le_write list_update m (nat (guest_to_host cfg addr)) (nat len) (unat data))"
  using assms host_ok_iff [OF assms(1), of addr len]
  by (simp add: pmem_write_def host_write_def access_len_def)

lemma pmem_write_wf:
  assumes "mem_wf cfg m" "pmem_write cfg m addr len data = Inr m'"
  shows "mem_wf cfg m'"
  using assms by (auto simp: pmem_write_def host_write_def mem_wf_def split: if_splits)

lemma in_range_offset:
  assumes "in_range cfg addr len"
  shows "int (nat (guest_to_host cfg addr)) = uint addr - uint (MBASE cfg)"
  using assms by (simp add: in_range_def guest_to_host_def)

lemma pmem_read_after_write:
  assumes "mem_wf cfg m" "access_len len" "in_range cfg addr len"
    and "pmem_write cfg m addr len data = Inr m'"
  shows "pmem_read cfg m' addr len = Inr (word_of_nat (unat data mod 256 ^ nat len))"
proof -
  let ?p = "nat (guest_to_host cfg addr)"
  have m': "m' = le_write list_update m ?p (nat len) (unat data)"
    using assms(4) pmem_write_ok [OF assms(1-3)] by simp
  have "\<And>i. i < nat len \<Longrightarrow> ?p + i < length m"
    using host_ok_iff [OF assms(1), of addr len] assms(3) by (auto simp: host_ok_def)
  from pmem_store.le_read_write_same [OF this]
  show ?thesis
    using pmem_read_ok [OF pmem_write_wf [OF assms(1,4)] assms(2,3)] by (simp add: m')
qed

lemma pmem_read_other:
  assumes "mem_wf cfg m" "access_len len" "in_range cfg addr len" "access_len k" "in_range cfg b k"
    and "pmem_write cfg m addr len data = Inr m'"
    and "uint b + k \<le> uint addr \<or> uint addr + len \<le> uint b"
  shows "pmem_read cfg m' b k = pmem_read cfg m b k"
proof -
  let ?p = "nat (guest_to_host cfg addr)" and ?q = "nat (guest_to_host cfg b)"
  have m': "m' = le_write list_update m ?p (nat len) (unat data)"
    using assms(6) pmem_write_ok [OF assms(1-3)] by simp
  have "0 \<le> k" "0 \<le> len" using assms(2,4) by (auto simp: access_len_def)
  then have "?q + nat k \<le> ?p \<or> ?p + nat len \<le> ?q"
    using assms(7) in_range_offset [OF assms(3)] in_range_offset [OF assms(5)] by linarith
  from pmem_store.le_read_write_other [OF this]
  show ?thesis
    using pmem_read_ok [OF pmem_write_wf [OF assms(1,6)] assms(4,5)] pmem_read_ok [OF assms(1,4,5)]
    by (simp add: m')
qed

lemma dpi_range_iff:
  assumes "mem_wf cfg m"
  shows "MBASE cfg \<le> addr \<and> addr < MBASE cfg + MSIZE cfg \<longleftrightarrow> in_range cfg addr 1"
  using mem_wf_bound [OF assms]
  by (auto simp: in_range_def word_le_def word_less_def)

text \<open>An address that is a multiple of the access length stays inside a range whose ends are.\<close>

lemma aligned_in_range:
  assumes r: "in_range cfg addr 1" and len: "0 < len" "len dvd uint addr"
    and cfg: "len dvd uint (MBASE cfg)" "len dvd uint (MSIZE cfg)"
  shows "in_range cfg addr len"
proof -
  obtain a b s where a: "uint addr = len * a" and b: "uint (MBASE cfg) = len * b" and s: "uint (MSIZE cfg) = len * s"
    using len(2) cfg by (auto elim!: dvdE)
  have "len * a < len * (b + s)" using r by (simp add: in_range_def a b s algebra_simps)
  then have "a + 1 \<le> b + s" using len(1) by simp
  then have "len * (a + 1) \<le> len * (b + s)" using len(1) by (simp only: mult_le_cancel_left_pos)
  then show ?thesis using r by (simp add: in_range_def a b s algebra_simps)
qed

lemma aligned_down_in_range:
  assumes "in_range cfg addr 1" "4 dvd uint (MBASE cfg)" "4 dvd uint (MSIZE cfg)"
  shows "in_range cfg (addr AND NOT 3) 4"
proof -
  have "unat (addr AND NOT 3) = unat addr - unat addr mod 4"
    using unat_and_not_mask [of addr 2] by (simp add: mask_eq_decr_exp)
  then have u: "uint (addr AND NOT 3) = uint addr - uint addr mod 4"
    by (simp only: uint_nat of_nat_diff [OF mod_less_eq_dividend] of_nat_mod of_nat_numeral)
  then have d: "4 dvd uint (addr AND NOT 3)" by (simp add: minus_mod_eq_mult_div)
  obtain b where b: "uint (MBASE cfg) = 4 * b" using assms(2) by (auto elim: dvdE)
  have "uint (MBASE cfg) \<le> uint addr" using assms(1) by (simp add: in_range_def)
  then have "in_range cfg (addr AND NOT 3) 1"
    using assms(1) unfolding in_range_def u b by (auto simp: algebra_simps) presburger
  from aligned_in_range [OF this _ d assms(2,3)] show ?thesis by simp
qed

lemma dpi_mem_read_pmem:
  assumes "mem_wf cfg (pmem e)" "in_range cfg addr 1" "\<not> (RTC_MMIO \<le> addr \<and> addr < RTC_MMIO + 4)"
  shows "dpi_mem_read cfg e addr len = map_sum id (\<lambda>v. (v, e)) (pmem_read cfg (pmem e) addr len)"
  using assms dpi_range_iff [OF assms(1), of addr] by (simp only: dpi_mem_read_def if_False if_True simp_thms)

lemma dpi_mem_write_pmem:
  assumes "mem_wf cfg (pmem e)" "in_range cfg addr 1" "addr \<noteq> SERIAL_MMIO"
  shows "dpi_mem_write cfg e addr data len = map_sum id (\<lambda>m. e\<lparr>pmem := m\<rparr>) (pmem_write cfg (pmem e) addr len data)"
  using assms dpi_range_iff [OF assms(1), of addr] by (simp only: dpi_mem_write_def if_False if_True simp_thms)

lemma in_range_first: "in_range cfg addr len \<Longrightarrow> 1 \<le> len \<Longrightarrow> in_range cfg addr 1"
  by (simp add: in_range_def)

lemma get_time_internal_pmem: "pmem (snd (get_time_internal e)) = pmem e"
  by (simp add: get_time_internal_def split: prod.split)

lemma get_time_pmem: "pmem (snd (get_time e)) = pmem e"
  by (auto simp: get_time_def get_time_internal_def Let_def split: prod.split)

lemma map_sum_Inr: "x = Inr y \<Longrightarrow> map_sum f g x = Inr (g y)"
  by simp


section \<open>Properties\<close>

text \<open>
  C2: physical memory is a store.  A write of 1, 2, 4 or 8 bytes inside the configured range
  succeeds and keeps the memory well formed, the same bytes read back are the data (its low
  \<open>len\<close> bytes), and a read of any range the write does not touch is unchanged.
\<close>
theorem pmem_write_read:
  assumes "mem_wf cfg m" "access_len len" "in_range cfg addr len"
  shows "\<exists>m'. pmem_write cfg m addr len data = Inr m' \<and> mem_wf cfg m'
    \<and> pmem_read cfg m' addr len = Inr (word_of_nat (unat data mod 256 ^ nat len))
    \<and> (\<forall>b k. access_len k \<and> in_range cfg b k \<and> (uint b + k \<le> uint addr \<or> uint addr + len \<le> uint b)
        \<longrightarrow> pmem_read cfg m' b k = pmem_read cfg m b k)"
proof -
  obtain m' where w: "pmem_write cfg m addr len data = Inr m'"
    using pmem_write_ok [OF assms] by blast
  then show ?thesis
    using pmem_write_wf [OF assms(1) w] pmem_read_after_write [OF assms w]
      pmem_read_other [OF assms _ _ w] by blast
qed

definition small_cfg :: mem_cfg where
  "small_cfg = \<lparr>MBASE = 0x80000000, MSIZE = 16\<rparr>"

lemma small_mem_wf: "mem_wf small_cfg (replicate 16 0)"
  by (simp add: mem_wf_def small_cfg_def)

theorem pmem_write_read_witness:
  "\<exists>m'. pmem_write small_cfg (replicate 16 0) 0x80000004 2 0x12345678 = Inr m' \<and> mem_wf small_cfg m'
    \<and> pmem_read small_cfg m' 0x80000004 2 = Inr (word_of_nat (unat (0x12345678 :: u32) mod 256 ^ nat 2))
    \<and> (\<forall>b k. access_len k \<and> in_range small_cfg b k
          \<and> (uint b + k \<le> uint (0x80000004 :: u32) \<or> uint (0x80000004 :: u32) + 2 \<le> uint b)
        \<longrightarrow> pmem_read small_cfg m' b k = pmem_read small_cfg (replicate 16 0) b k)"
  by (rule pmem_write_read [OF small_mem_wf])
    (simp_all add: access_len_def in_range_def small_cfg_def)

text \<open>
  C3: the DPI entry points are memory safe for the accesses the CPU core makes.  When base and
  size are multiples of the access length (and of 4), a naturally aligned load or store of 1, 2, 4
  or 8 bytes at any address, mapped or not, and a fetch from any address return without leaving
  the memory array, and a store keeps the memory well formed.
\<close>
theorem dpi_memory_safe:
  assumes wf: "mem_wf cfg (pmem e)" and len: "access_len len" "len dvd uint addr"
    and cfg: "len dvd uint (MBASE cfg)" "len dvd uint (MSIZE cfg)"
      "4 dvd uint (MBASE cfg)" "4 dvd uint (MSIZE cfg)"
  shows "(\<exists>v e'. dpi_mem_read cfg e addr len = Inr (v, e') \<and> pmem e' = pmem e)
    \<and> (\<exists>e'. dpi_mem_write cfg e addr data len = Inr e' \<and> mem_wf cfg (pmem e'))
    \<and> (\<exists>v. dpi_instr_mem_read cfg e pc = Inr v)"
proof (intro conjI)
  have l: "0 < len" using len(1) by (auto simp: access_len_def)
  note R = aligned_in_range [OF _ l len(2) cfg(1,2)]
  show "\<exists>v e'. dpi_mem_read cfg e addr len = Inr (v, e') \<and> pmem e' = pmem e"
    unfolding dpi_mem_read_def dpi_range_iff [OF wf]
    using get_time_pmem [of e] pmem_read_ok [OF wf len(1) R] by (auto split: prod.split)
  show "\<exists>e'. dpi_mem_write cfg e addr data len = Inr e' \<and> mem_wf cfg (pmem e')"
    unfolding dpi_mem_write_def dpi_range_iff [OF wf]
    using wf pmem_write_ok [OF wf len(1) R] pmem_write_wf [OF wf pmem_write_ok [OF wf len(1) R]] by auto
  show "\<exists>v. dpi_instr_mem_read cfg e pc = Inr v"
    unfolding dpi_instr_mem_read_def dpi_range_iff [OF wf]
    using pmem_read_ok [OF wf _ aligned_down_in_range [OF _ cfg(3,4)]] by (auto simp: access_len_def)
qed

definition small_env :: dpi_env where
  "small_env = \<lparr>pmem = replicate 16 0, boot_time = 0, clock = (\<lambda>n. (word_of_nat n, 5)), clock_pos = 1, serial = []\<rparr>"

theorem dpi_memory_safe_witness:
  "(\<exists>v e'. dpi_mem_read small_cfg small_env 0x8000000C 4 = Inr (v, e') \<and> pmem e' = pmem small_env)
    \<and> (\<exists>e'. dpi_mem_write small_cfg small_env 0x8000000C 99 4 = Inr e' \<and> mem_wf small_cfg (pmem e'))
    \<and> (\<exists>v. dpi_instr_mem_read small_cfg small_env 0x8000000F = Inr v)"
  by (rule dpi_memory_safe) (simp_all add: small_env_def small_mem_wf access_len_def, simp_all add: small_cfg_def)

text \<open>
  C4: a load or store the DPI range check accepts can still leave the memory array, since the check
  looks at the first byte only: an access of more than one byte at the last address of memory is
  out of bounds.  The check of \<open>in_pmem\<close> is also one too wide: the address just past the end
  passes it, and \<open>paddr_read\<close> reads outside the array there.
\<close>
theorem end_of_memory_overrun:
  assumes wf: "mem_wf cfg (pmem e)" and len: "access_len len" and sz: "0 < uint (MSIZE cfg)"
    and last_eq: "uint end_addr = uint (MBASE cfg) + uint (MSIZE cfg) - 1"
    and mmio: "\<not> (RTC_MMIO \<le> end_addr \<and> end_addr < RTC_MMIO + 4)" "end_addr \<noteq> SERIAL_MMIO"
  shows "(1 < len \<longrightarrow> dpi_mem_read cfg e end_addr len = Inl Out_of_object
      \<and> dpi_mem_write cfg e end_addr data len = Inl Out_of_object)
    \<and> in_pmem cfg (MBASE cfg + MSIZE cfg)
    \<and> paddr_read cfg dev (pmem e) (MBASE cfg + MSIZE cfg) len = Inl Out_of_object"
proof -
  have r: "in_range cfg end_addr 1" using sz last_eq by (simp add: in_range_def)
  have no: "1 < len \<Longrightarrow> \<not> in_range cfg end_addr len" "\<not> in_range cfg (MBASE cfg + MSIZE cfg) len"
    using last_eq len mem_wf_bound [OF wf] by (auto simp: in_range_def access_len_def)
  have out: "\<not> in_range cfg a len \<Longrightarrow> pmem_read cfg (pmem e) a len = Inl Out_of_object
      \<and> pmem_write cfg (pmem e) a len data = Inl Out_of_object" for a
    using len host_ok_iff [OF wf, of a len]
    by (simp add: pmem_read_def host_read_def pmem_write_def host_write_def access_len_def)
  have p: "in_pmem cfg (MBASE cfg + MSIZE cfg)"
    using mem_wf_bound [OF wf] sz by (simp add: in_pmem_def word_le_def)
  have "1 < len \<Longrightarrow> dpi_mem_read cfg e end_addr len = Inl Out_of_object
      \<and> dpi_mem_write cfg e end_addr data len = Inl Out_of_object"
    using dpi_mem_read_pmem [OF wf r mmio(1)] dpi_mem_write_pmem [OF wf r mmio(2)] out [OF no(1)] by simp
  then show ?thesis using p out [OF no(2)] by (simp add: paddr_read_def)
qed

theorem end_of_memory_overrun_witness:
  "dpi_mem_read small_cfg small_env 0x8000000F 4 = Inl Out_of_object
    \<and> dpi_mem_write small_cfg small_env 0x8000000F 7 4 = Inl Out_of_object
    \<and> in_pmem small_cfg (MBASE small_cfg + MSIZE small_cfg)
    \<and> paddr_read small_cfg None (pmem small_env) (MBASE small_cfg + MSIZE small_cfg) 4 = Inl Out_of_object"
proof -
  have "mem_wf small_cfg (pmem small_env)" by (simp add: small_env_def small_mem_wf)
  from end_of_memory_overrun [OF this, of 4 "0x8000000F" 7 None] show ?thesis
    by (simp add: access_len_def, simp add: small_cfg_def)
qed

text \<open>
  what the CPU stores through the DPI it loads back through the DPI, and fetches back as an
  instruction when the word is aligned.
\<close>
theorem dpi_store_load:
  assumes wf: "mem_wf cfg (pmem e)" and len: "access_len len" and r: "in_range cfg addr len"
    and mmio: "\<not> (RTC_MMIO \<le> addr \<and> addr < RTC_MMIO + 4)" "addr \<noteq> SERIAL_MMIO"
  shows "\<exists>e'. dpi_mem_write cfg e addr data len = Inr e'
    \<and> dpi_mem_read cfg e' addr len = Inr (word_of_nat (unat data mod 256 ^ nat len), e')
    \<and> (len = 4 \<and> addr AND NOT 3 = addr \<longrightarrow> dpi_instr_mem_read cfg e' addr = Inr data)"
proof -
  have r1: "in_range cfg addr 1" using r len by (auto intro: in_range_first simp: access_len_def)
  obtain m where w: "pmem_write cfg (pmem e) addr len data = Inr m"
    using pmem_write_ok [OF wf len r] by blast
  define e' where "e' = e\<lparr>pmem := m\<rparr>"
  have wf': "mem_wf cfg (pmem e')" using pmem_write_wf [OF wf w] by (simp add: e'_def)
  have rd: "pmem_read cfg (pmem e') addr len = Inr (word_of_nat (unat data mod 256 ^ nat len))"
    using pmem_read_after_write [OF wf len r w] by (simp add: e'_def)
  have "dpi_mem_write cfg e addr data len = Inr e'"
    using dpi_mem_write_pmem [OF wf r1 mmio(2)] w by (simp add: e'_def)
  moreover have "dpi_mem_read cfg e' addr len = Inr (word_of_nat (unat data mod 256 ^ nat len), e')"
    using dpi_mem_read_pmem [OF wf' r1 mmio(1)] rd by simp
  moreover have "len = 4 \<Longrightarrow> addr AND NOT 3 = addr \<Longrightarrow> dpi_instr_mem_read cfg e' addr = Inr data"
    using rd r1 unat_u32_less [of data] unfolding dpi_instr_mem_read_def dpi_range_iff [OF wf'] by simp
  ultimately show ?thesis by blast
qed

theorem dpi_store_load_witness:
  "\<exists>e'. dpi_mem_write small_cfg small_env 0x80000008 0xDEADBEEF 4 = Inr e'
    \<and> dpi_mem_read small_cfg e' 0x80000008 4 = Inr (word_of_nat (unat (0xDEADBEEF :: u32) mod 256 ^ nat 4), e')
    \<and> ((4 :: int) = 4 \<and> 0x80000008 AND NOT 3 = (0x80000008 :: u32)
        \<longrightarrow> dpi_instr_mem_read small_cfg e' 0x80000008 = Inr 0xDEADBEEF)"
  by (rule dpi_store_load)
    (simp_all add: small_env_def small_mem_wf access_len_def in_range_def, simp_all add: small_cfg_def)

end
