(* ===== verification/Sim_Cpu.thy ===== *)
theory Sim_Cpu
  imports Sim_Memory
begin

text \<open>
  The architectural state the simulator compares and prints, \<open>simulator/src/sim/cpu.c\<close>, the
  instruction fields of \<open>include/riscv/decode.h\<close>, the commit record of
  \<open>include/riscv/commit.h\<close>, and snapshots of the state, \<open>simulator/src/snapshot/snapshot.c\<close>.

  The register and CSR arrays are lists; an index outside them fails the \<open>assert\<close> of
  \<open>check_reg_idx\<close>.  A snapshot file is a list of bytes; whether the host opens it and how many
  bytes it takes are arguments, so that every failure branch of the code is a branch of the model.  Each
  \<open>fwrite\<close> reaches the file at once; the result of \<open>fclose\<close>, which the code ignores, is not represented.
\<close>

section \<open>Model\<close>

record CPU_state =
  gpr :: "u32 list"
  pc :: u32
  csr :: "u32 list"

record commit_t =
  c_pc :: u32
  c_next_pc :: u32
  c_instr :: u32
  c_mem_addr :: u32
  c_mem_rdata :: u32
  c_mem_wdata :: u32

definition GET_OPCODE :: "u32 \<Rightarrow> u32" where "GET_OPCODE i = i AND 0x7f"
definition GET_FUNC3 :: "u32 \<Rightarrow> u32" where "GET_FUNC3 i = drop_bit 12 i AND 0x7"
definition GET_CSR_ID :: "u32 \<Rightarrow> u32" where "GET_CSR_ID i = drop_bit 20 i AND 0xfff"

abbreviation (input) op_load :: u32 where "op_load \<equiv> 0x03"
abbreviation (input) op_store :: u32 where "op_store \<equiv> 0x23"
abbreviation (input) op_system :: u32 where "op_system \<equiv> 0x73"
abbreviation (input) inst_ebreak :: u32 where "inst_ebreak \<equiv> 0x00100073"

abbreviation (input) GPR_NUM :: nat where "GPR_NUM \<equiv> 32"
abbreviation (input) CSR_NUM :: nat where "CSR_NUM \<equiv> 4096"

definition regs :: "string list" where
  "regs = [''$0'', ''ra'', ''sp'', ''gp'', ''tp'', ''t0'', ''t1'', ''t2'',
    ''s0'', ''s1'', ''a0'', ''a1'', ''a2'', ''a3'', ''a4'', ''a5'',
    ''a6'', ''a7'', ''s2'', ''s3'', ''s4'', ''s5'', ''s6'', ''s7'',
    ''s8'', ''s9'', ''s10'', ''s11'', ''t3'', ''t4'', ''t5'', ''t6'']"

definition check_reg_idx :: "int \<Rightarrow> nat res" where
  "check_reg_idx idx = (if 0 \<le> idx \<and> idx < int GPR_NUM then Inr (nat idx) else Inl Assert_fail)"

definition check_csr_idx :: "int \<Rightarrow> nat res" where
  "check_csr_idx idx = (if 0 \<le> idx \<and> idx < int CSR_NUM then Inr (nat idx) else Inl Assert_fail)"

definition reg_name :: "int \<Rightarrow> string res" where
  "reg_name idx = map_sum id (\<lambda>i. regs ! i) (check_reg_idx idx)"

definition csr_map :: "(nat \<times> string) list" where
  "csr_map = [(0xc00, ''cycle''), (0xc01, ''timer''), (0xc02, ''instret''),
    (0x100, ''sstatus''), (0x104, ''sie''), (0x105, ''stvec''), (0x106, ''scounteren''),
    (0x140, ''sscratch''), (0x141, ''sepc''), (0x142, ''scause''), (0x143, ''stval''), (0x144, ''sip''),
    (0x180, ''satp''),
    (0xf11, ''mvendorid''), (0xf12, ''marchid''), (0xf13, ''mimpid''), (0xf14, ''mhartid''), (0xf15, ''mconfigptr''),
    (0x300, ''mstatus''), (0x301, ''misa''), (0x302, ''medeleg''), (0x303, ''mideleg''),
    (0x304, ''mie''), (0x305, ''mtvec''), (0x306, ''mcounteren''),
    (0x340, ''mscratch''), (0x341, ''mepc''), (0x342, ''mcause''), (0x343, ''mtval''), (0x344, ''mip''),
    (0xb00, ''mcycle''), (0xb02, ''minstret''),
    (0x7a0, ''tselect''), (0x7a1, ''tdata1''),
    (0x3a0, ''pmpcfg0''), (0x3a1, ''pmpcfg1''), (0x3a2, ''pmpcfg2''), (0x3a3, ''pmpcfg3''),
    (0x3b0, ''pmpaddr0''), (0x3b1, ''pmpaddr1''), (0x3b2, ''pmpaddr2''), (0x3b3, ''pmpaddr3''),
    (0x3b4, ''pmpaddr4''), (0x3b5, ''pmpaddr5''), (0x3b6, ''pmpaddr6''), (0x3b7, ''pmpaddr7''),
    (0x3b8, ''pmpaddr8''), (0x3b9, ''pmpaddr9''), (0x3ba, ''pmpaddr10''), (0x3bb, ''pmpaddr11''),
    (0x3bc, ''pmpaddr12''), (0x3bd, ''pmpaddr13''), (0x3be, ''pmpaddr14''), (0x3bf, ''pmpaddr15'')]"

definition update_cpu_state :: "u32 \<Rightarrow> u32 list \<Rightarrow> u32 list \<Rightarrow> CPU_state \<Rightarrow> CPU_state" where
  "update_cpu_state cur_pc reg_ptr csr_ptr cpu =
    cpu\<lparr>pc := cur_pc, gpr := take GPR_NUM reg_ptr, csr := take CSR_NUM csr_ptr\<rparr>"

datatype display_line =
    Reg_line string u32
  | Pc_line u32
  | Csr_cell string nat u32 bool
  | Csr_newline

definition isa_reg_display :: "CPU_state \<Rightarrow> display_line list" where
  "isa_reg_display s = map (\<lambda>i. Reg_line (regs ! i) (gpr s ! i)) [0..<GPR_NUM] @ [Pc_line (pc s)]"

fun isa_csr_cells :: "CPU_state \<Rightarrow> nat \<Rightarrow> (nat \<times> string) list \<Rightarrow> display_line list" where
  "isa_csr_cells s i [] = []"
| "isa_csr_cells s i ((cid, name) # cs) =
    Csr_cell name cid (csr s ! cid) ((i + 1) mod 2 = 0) # isa_csr_cells s (i + 1) cs"

definition isa_csr_display :: "CPU_state \<Rightarrow> display_line list" where
  "isa_csr_display s = isa_csr_cells s 0 csr_map @ (if length csr_map mod 2 \<noteq> 0 then [Csr_newline] else [])"

definition cpu_wf :: "CPU_state \<Rightarrow> bool" where
  "cpu_wf s \<longleftrightarrow> length (gpr s) = GPR_NUM \<and> length (csr s) = CSR_NUM"

text \<open>The bytes of the structure \<open>CPU_state\<close>, in the order of its members.\<close>

definition word_bytes :: "u32 \<Rightarrow> u8 list" where
  "word_bytes w = [ucast w, ucast (drop_bit 8 w), ucast (drop_bit 16 w), ucast (drop_bit 24 w)]"

fun bytes_words :: "u8 list \<Rightarrow> u32 list" where
  "bytes_words (a # b # c # d # bs) =
    (ucast a OR push_bit 8 (ucast b) OR push_bit 16 (ucast c) OR push_bit 24 (ucast d)) # bytes_words bs"
| "bytes_words bs = []"

definition cpu_bytes :: "CPU_state \<Rightarrow> u8 list" where
  "cpu_bytes s = concat (map word_bytes (gpr s @ [pc s] @ csr s))"

definition cpu_of_bytes :: "u8 list \<Rightarrow> CPU_state" where
  "cpu_of_bytes bs = (let ws = bytes_words bs in
     \<lparr>gpr = take GPR_NUM ws, pc = ws ! GPR_NUM, csr = drop (GPR_NUM + 1) ws\<rparr>)"

abbreviation (input) sizeof_CPU_state :: nat where "sizeof_CPU_state \<equiv> 4 * (GPR_NUM + 1 + CSR_NUM)"

text \<open>\<open>fopen\<close> succeeds or not (\<open>can_open\<close>), and the device takes \<open>room\<close> bytes in all.\<close>

definition take_arch_snapshot ::
  "bool \<Rightarrow> nat \<Rightarrow> CPU_state \<Rightarrow> u8 list \<Rightarrow> u8 list option \<Rightarrow> bool \<times> u8 list option" where
  "take_arch_snapshot can_open room state mem file =
    (if \<not> can_open then (False, file)
     else let file = take room (cpu_bytes state) in
       if length file \<noteq> sizeof_CPU_state then (False, Some file)
       else let part = take (room - length file) mem in
         if length part \<noteq> length mem then (False, Some (file @ part))
         else (True, Some (file @ part)))"

definition restore_arch_snapshot ::
  "u8 list option \<Rightarrow> CPU_state \<Rightarrow> u8 list \<Rightarrow> bool \<times> CPU_state \<times> u8 list" where
  "restore_arch_snapshot file state mem =
    (case file of
       None \<Rightarrow> (False, state, mem)
     | Some bs \<Rightarrow>
        let hd_part = take sizeof_CPU_state bs in
        if length hd_part \<noteq> sizeof_CPU_state
        then (False, cpu_of_bytes (hd_part @ drop (length hd_part) (cpu_bytes state)), mem)
        else
          let state = cpu_of_bytes hd_part;
              part = take (length mem) (drop sizeof_CPU_state bs);
              mem' = part @ drop (length part) mem
          in (length part = length mem, state, mem'))"


section \<open>Lemmas\<close>

lemma length_regs [simp]: "length regs = GPR_NUM"
  by (simp add: regs_def)

lemma csr_map_ids: "list_all (\<lambda>(cid, name). cid < CSR_NUM) csr_map"
  by (simp add: csr_map_def)

lemma distinct_csr_ids: "distinct (map fst csr_map)"
  by (simp add: csr_map_def)

lemma length_word_bytes [simp]: "length (word_bytes w) = 4"
  by (simp add: word_bytes_def)

lemma length_concat_word_bytes: "length (concat (map word_bytes ws)) = 4 * length ws"
  by (induction ws) simp_all

lemma word_bytes_join:
  "ucast (ucast w :: u8) OR push_bit 8 (ucast (ucast (drop_bit 8 w) :: u8))
    OR push_bit 16 (ucast (ucast (drop_bit 16 w) :: u8)) OR push_bit 24 (ucast (ucast (drop_bit 24 w) :: u8)) = (w :: u32)"
proof (rule bit_word_eqI)
  fix n assume "n < LENGTH(32)"
  then consider "n < 8" | "8 \<le> n" "n < 16" | "16 \<le> n" "n < 24" | "24 \<le> n" "n < 32" by force
  then show "bit (ucast (ucast w :: u8) OR push_bit 8 (ucast (ucast (drop_bit 8 w) :: u8))
    OR push_bit 16 (ucast (ucast (drop_bit 16 w) :: u8)) OR push_bit 24 (ucast (ucast (drop_bit 24 w) :: u8)) :: u32) n = bit w n"
    by cases (auto simp: bit_simps)
qed

lemma bytes_words_bytes [simp]: "bytes_words (concat (map word_bytes ws)) = ws"
  by (induction ws) (simp_all add: word_bytes_def word_bytes_join)

lemma cpu_of_cpu_bytes [simp]: "cpu_wf s \<Longrightarrow> cpu_of_bytes (cpu_bytes s) = s"
  by (simp add: cpu_of_bytes_def cpu_bytes_def cpu_wf_def nth_append Let_def del: map_append concat_append)

lemma length_cpu_bytes: "cpu_wf s \<Longrightarrow> length (cpu_bytes s) = sizeof_CPU_state"
  unfolding cpu_bytes_def length_concat_word_bytes by (simp add: cpu_wf_def)

lemma snapshot_ok:
  assumes "cpu_wf s" and "sizeof_CPU_state + length mem \<le> room"
  shows "take_arch_snapshot True room s mem file = (True, Some (cpu_bytes s @ mem))"
  using assms length_cpu_bytes [OF assms(1)] by (simp add: take_arch_snapshot_def Let_def)

lemma snapshot_success_only_if:
  assumes "cpu_wf s" and "fst (take_arch_snapshot can_open room s mem file)"
  shows "can_open \<and> sizeof_CPU_state + length mem \<le> room"
  using assms length_cpu_bytes [OF assms(1)]
  by (auto simp: take_arch_snapshot_def Let_def split: if_splits)

section \<open>Properties\<close>

text \<open>
  C7: a snapshot is saved exactly when the file opens and has room for the CPU state and the whole
  memory, and restoring a saved snapshot into any state and any memory of the same size brings
  back the saved registers, CSRs, program counter and memory.
\<close>
theorem snapshot_roundtrip:
  assumes "cpu_wf s" and "length mem' = length mem"
  shows "(fst (take_arch_snapshot can_open room s mem old) \<longleftrightarrow> can_open \<and> sizeof_CPU_state + length mem \<le> room)
    \<and> (fst (take_arch_snapshot can_open room s mem old) \<longrightarrow>
      restore_arch_snapshot (snd (take_arch_snapshot can_open room s mem old)) s' mem' = (True, s, mem))"
proof -
  have iff: "fst (take_arch_snapshot can_open room s mem old) \<longleftrightarrow> can_open \<and> sizeof_CPU_state + length mem \<le> room"
    using snapshot_success_only_if [OF assms(1)] snapshot_ok [OF assms(1)] by auto
  have "restore_arch_snapshot (snd (take_arch_snapshot can_open room s mem old)) s' mem' = (True, s, mem)"
    if "fst (take_arch_snapshot can_open room s mem old)"
  proof -
    have "can_open" "sizeof_CPU_state + length mem \<le> room" using iff that by auto
    then show ?thesis
      using snapshot_ok [OF assms(1), of mem room old] length_cpu_bytes [OF assms(1)] assms
      by (simp add: restore_arch_snapshot_def Let_def)
  qed
  with iff show ?thesis by blast
qed

definition zero_cpu :: CPU_state where
  "zero_cpu = \<lparr>gpr = replicate GPR_NUM 0, pc = 0x80000000, csr = replicate CSR_NUM 7\<rparr>"

lemma zero_cpu_wf: "cpu_wf zero_cpu"
  by (simp add: cpu_wf_def zero_cpu_def)

theorem snapshot_roundtrip_witness:
  "fst (take_arch_snapshot True 20000 zero_cpu [1, 2, 3] None)
    \<and> restore_arch_snapshot (snd (take_arch_snapshot True 20000 zero_cpu [1, 2, 3] None)) zero_cpu [0, 0, 0] = (True, zero_cpu, [1, 2, 3])"
  using snapshot_roundtrip [OF zero_cpu_wf, of "[0, 0, 0]" "[1, 2, 3]" True 20000 None zero_cpu] by simp

text \<open>
  a snapshot whose memory part is cut short makes \<open>restore_arch_snapshot\<close> report failure
  after it has already replaced the registers and the first bytes of memory: the failure does not
  leave the machine as it was.
\<close>
theorem truncated_restore_clobbers:
  assumes "cpu_wf s" and "length part < length mem"
  shows "restore_arch_snapshot (Some (cpu_bytes s @ part)) s' mem = (False, s, part @ drop (length part) mem)"
  using assms length_cpu_bytes [OF assms(1)] by (simp add: restore_arch_snapshot_def Let_def)

theorem truncated_restore_clobbers_witness:
  "restore_arch_snapshot (Some (cpu_bytes zero_cpu @ [9])) (zero_cpu\<lparr>pc := 4\<rparr>) [1, 2, 3] = (False, zero_cpu, [9] @ drop (length [9 :: u8]) [1, 2, 3])"
  by (rule truncated_restore_clobbers [OF zero_cpu_wf]) simp

end
