(* ===== verification/Difftest.thy ===== *)
theory Difftest
  imports Sim_Cpu
begin

text \<open>
  Differential testing against a reference model: \<open>simulator/src/difftest/difftest.c\<close>.

  The reference is a shared object loaded at run time; its entry points are the record
  \<open>ref_api\<close> of functions on the reference's own state, an argument of every definition that
  calls it.  A mismatch (the code prints both states and leaves through \<open>sim_exit\<close>) is a value
  of \<open>diff_report\<close>; no report is \<open>None\<close>.
\<close>

section \<open>Model\<close>

record 'r ref_api =
  ref_difftest_memcpy :: "u32 \<Rightarrow> u8 list \<Rightarrow> 'r \<Rightarrow> 'r"
  ref_regcpy_to_ref :: "CPU_state \<Rightarrow> 'r \<Rightarrow> 'r"
  ref_regcpy_to_dut :: "'r \<Rightarrow> CPU_state"
  ref_difftest_exec :: "u64 \<Rightarrow> 'r \<Rightarrow> 'r"
  ref_difftest_init :: "int \<Rightarrow> 'r \<Rightarrow> 'r"

datatype diff_report = Pc_mismatch | Reg_mismatch nat | Csr_mismatch nat

text \<open>\<open>so\<close> is what \<open>dlopen\<close> and \<open>dlsym\<close> find: the library, if it opens, and whether the
  symbols the code asserts are there.\<close>

definition init_difftest ::
  "mem_cfg \<Rightarrow> u32 \<Rightarrow> string option \<Rightarrow> (string \<Rightarrow> (string \<Rightarrow> bool) option) \<Rightarrow> 'r ref_api \<Rightarrow> u8 list \<Rightarrow> int \<Rightarrow> int
    \<Rightarrow> CPU_state \<Rightarrow> 'r \<Rightarrow> 'r res" where
  "init_difftest cfg reset_vector ref_so_file dlopen api mem img_size port cpu r =
    (case ref_so_file of
       None \<Rightarrow> Inl Assert_fail
     | Some f \<Rightarrow>
        (case dlopen f of
           None \<Rightarrow> Inl Assert_fail
         | Some dlsym \<Rightarrow>
            if dlsym ''difftest_memcpy'' \<and> dlsym ''difftest_regcpy'' \<and> dlsym ''difftest_exec''
               \<and> dlsym ''difftest_raise_intr'' \<and> dlsym ''difftest_init'' then
              let r = ref_difftest_init api port r;
                  p = guest_to_host cfg reset_vector
              in if host_ok mem p img_size \<and> 0 \<le> img_size then
                   let r = ref_difftest_memcpy api reset_vector (take (nat img_size) (drop (nat p) mem)) r
                   in Inr (ref_regcpy_to_ref api cpu r)
                 else Inl Out_of_object
            else Inl Assert_fail))"

definition cycle_id :: nat where "cycle_id = 0xc00"
definition timer_id :: nat where "timer_id = 0xc01"
definition instret_id :: nat where "instret_id = 0xc02"

fun checkcsrs_loop :: "(nat \<times> string) list \<Rightarrow> CPU_state \<Rightarrow> CPU_state \<Rightarrow> diff_report option" where
  "checkcsrs_loop [] ref cpu = None"
| "checkcsrs_loop ((cid, name) # cs) ref cpu =
    (if cid = cycle_id \<or> cid = timer_id \<or> instret_id \<noteq> 0 then checkcsrs_loop cs ref cpu
     else if csr ref ! cid \<noteq> csr cpu ! cid then Some (Csr_mismatch cid)
     else checkcsrs_loop cs ref cpu)"

definition checkcsrs :: "CPU_state \<Rightarrow> CPU_state \<Rightarrow> diff_report option" where
  "checkcsrs ref cpu = checkcsrs_loop csr_map ref cpu"

fun checkregs_loop :: "nat list \<Rightarrow> CPU_state \<Rightarrow> CPU_state \<Rightarrow> diff_report option" where
  "checkregs_loop [] ref cpu = None"
| "checkregs_loop (i # is) ref cpu =
    (if gpr ref ! i \<noteq> gpr cpu ! i then Some (Reg_mismatch i) else checkregs_loop is ref cpu)"

definition checkregs :: "CPU_state \<Rightarrow> CPU_state \<Rightarrow> u32 \<Rightarrow> diff_report option" where
  "checkregs ref cpu next_pc =
    (if next_pc \<noteq> pc ref then Some Pc_mismatch else checkregs_loop [0..<32] ref cpu)"

text \<open>What \<open>display_diff_error\<close> marks: the PC pair and the registers that differ.\<close>

definition display_diff_error :: "CPU_state \<Rightarrow> CPU_state \<Rightarrow> u32 \<Rightarrow> bool \<times> (string \<times> bool \<times> u32 \<times> u32) list" where
  "display_diff_error ref cpu next_pc =
    (pc ref \<noteq> next_pc,
     map (\<lambda>i. (regs ! i, gpr ref ! i \<noteq> gpr cpu ! i, gpr ref ! i, gpr cpu ! i)) [0..<32])"

definition is_mmio_address :: "u64 \<Rightarrow> bool" where
  "is_mmio_address addr \<longleftrightarrow> addr < 0x80000000 \<and> 0x10000000 \<le> addr"

definition is_special_instr :: "commit_t \<Rightarrow> bool" where
  "is_special_instr commit =
    (let opcode = GET_OPCODE (c_instr commit);
         func3 = GET_FUNC3 (c_instr commit);
         csr_id = GET_CSR_ID (c_instr commit)
     in if opcode = op_system \<and> func3 \<noteq> 0 then unat csr_id = timer_id
        else let is_load = (opcode = op_load); is_store = (opcode = op_store) in
          if is_load \<or> is_store then is_mmio_address (ucast (c_mem_addr commit)) else False)"

definition difftest_step ::
  "'r ref_api \<Rightarrow> bool \<Rightarrow> commit_t \<Rightarrow> CPU_state \<Rightarrow> 'r \<Rightarrow> diff_report option \<times> CPU_state \<times> 'r" where
  "difftest_step api trigger commit cpu r =
    (let r = ref_difftest_exec api 1 r;
         cpu = (if is_special_instr commit then cpu\<lparr>pc := c_next_pc commit\<rparr> else cpu);
         r = (if is_special_instr commit then ref_regcpy_to_ref api cpu r else r);
         ref_r = ref_regcpy_to_dut api r;
         report = (if trigger then
             (case checkregs ref_r cpu (c_next_pc commit) of
                Some e \<Rightarrow> Some e
              | None \<Rightarrow> checkcsrs ref_r cpu)
           else None)
     in (report, cpu, r))"


section \<open>Lemmas\<close>

lemma checkregs_loop_None: "checkregs_loop is ref cpu = None \<longleftrightarrow> (\<forall>i \<in> set is. gpr ref ! i = gpr cpu ! i)"
  by (induction "is") auto

lemma checkregs_loop_Some:
  "checkregs_loop is ref cpu = Some e \<Longrightarrow>
   \<exists>k < length is. e = Reg_mismatch (is ! k) \<and> gpr ref ! (is ! k) \<noteq> gpr cpu ! (is ! k)
     \<and> (\<forall>j < k. gpr ref ! (is ! j) = gpr cpu ! (is ! j))"
proof (induction "is")
  case (Cons i "is")
  show ?case
  proof (cases "gpr ref ! i = gpr cpu ! i")
    case True
    then obtain k where k: "k < length is" "e = Reg_mismatch (is ! k)" "gpr ref ! (is ! k) \<noteq> gpr cpu ! (is ! k)"
      "\<forall>j < k. gpr ref ! (is ! j) = gpr cpu ! (is ! j)"
      using Cons by auto
    have "gpr ref ! ((i # is) ! j) = gpr cpu ! ((i # is) ! j)" if "j < Suc k" for j
      using that k(4) True by (cases j) auto
    then show ?thesis using k by (intro exI [of _ "Suc k"]) simp
  next
    case False
    then show ?thesis using Cons.prems by (intro exI [of _ 0]) auto
  qed
qed simp

lemma checkregs_same: "n = pc c \<Longrightarrow> checkregs c c n = None"
  by (simp add: checkregs_def checkregs_loop_None)

lemma gpr_eq_iff:
  assumes "cpu_wf a" "cpu_wf b"
  shows "(\<forall>i < 32. gpr a ! i = gpr b ! i) \<longleftrightarrow> gpr a = gpr b"
  using assms by (auto simp: cpu_wf_def list_eq_iff_nth_eq)

lemma checkregs_None:
  assumes "cpu_wf ref" "cpu_wf cpu"
  shows "checkregs ref cpu next_pc = None \<longleftrightarrow> pc ref = next_pc \<and> gpr ref = gpr cpu"
  using gpr_eq_iff [OF assms] by (auto simp: checkregs_def checkregs_loop_None)

lemma checkcsrs_loop_None: "checkcsrs_loop cs ref cpu = None"
  by (induction cs) (auto simp: instret_id_def)

section \<open>Properties\<close>

text \<open>
  C8: a checked instruction passes exactly when the reference, after executing it, agrees with the
  processor on the next program counter and on all 32 registers; otherwise the report names a
  program-counter mismatch first and then the lowest-numbered register that differs.
\<close>
theorem checkregs_correct:
  assumes "cpu_wf ref" "cpu_wf cpu"
  shows "checkregs ref cpu next_pc =
    (if pc ref \<noteq> next_pc then Some Pc_mismatch
     else if gpr ref = gpr cpu then None
     else Some (Reg_mismatch (LEAST i. i < 32 \<and> gpr ref ! i \<noteq> gpr cpu ! i)))"
proof (cases "checkregs ref cpu next_pc")
  case None
  then show ?thesis using checkregs_None [OF assms] by simp
next
  case (Some e)
  show ?thesis
  proof (cases "pc ref = next_pc")
    case True
    then obtain k where k: "k < 32" "e = Reg_mismatch k" "gpr ref ! k \<noteq> gpr cpu ! k"
      "\<forall>j < k. gpr ref ! j = gpr cpu ! j"
      using Some checkregs_loop_Some [of "[0..<32]" ref cpu e] by (auto simp: checkregs_def)
    have "(LEAST i. i < 32 \<and> gpr ref ! i \<noteq> gpr cpu ! i) = k"
      using k by (intro Least_equality) (auto simp: not_less [symmetric])
    then show ?thesis using k Some True by auto
  qed (use Some in \<open>simp add: checkregs_def\<close>)
qed

theorem checkregs_correct_witness:
  "checkregs (zero_cpu\<lparr>gpr := replicate 31 0 @ [1]\<rparr>) zero_cpu 0x80000000 =
    (if pc (zero_cpu\<lparr>gpr := replicate 31 0 @ [1]\<rparr>) \<noteq> 0x80000000 then Some Pc_mismatch
     else if gpr (zero_cpu\<lparr>gpr := replicate 31 0 @ [1]\<rparr>) = gpr zero_cpu then None
     else Some (Reg_mismatch (LEAST i. i < 32 \<and> gpr (zero_cpu\<lparr>gpr := replicate 31 0 @ [1]\<rparr>) ! i \<noteq> gpr zero_cpu ! i)))"
  by (rule checkregs_correct) (simp_all add: cpu_wf_def zero_cpu_def)

text \<open>
  \<open>checkcsrs\<close> never reports anything: its filter tests the constant \<open>instret\<close> instead of
  comparing the CSR number with it, so every CSR is skipped, whatever the two states hold.
\<close>
theorem checkcsrs_vacuous: "checkcsrs ref cpu = None"
  by (simp add: checkcsrs_def checkcsrs_loop_None)

text \<open>
  with a reference whose register copy is faithful (a state copied in is the state copied out),
  an instruction classified as special is never reported: the step overwrites the reference with
  the processor's own state first.
\<close>
theorem special_instr_not_reported:
  assumes regcpy: "\<And>c r. ref_regcpy_to_dut api (ref_regcpy_to_ref api c r) = c"
    and "is_special_instr commit"
  shows "difftest_step api trigger commit cpu r
    = (None, cpu\<lparr>pc := c_next_pc commit\<rparr>, ref_regcpy_to_ref api (cpu\<lparr>pc := c_next_pc commit\<rparr>) (ref_difftest_exec api 1 r))"
  using assms by (simp add: difftest_step_def Let_def checkregs_same checkcsrs_def checkcsrs_loop_None)

definition copy_api :: "CPU_state ref_api" where
  "copy_api = \<lparr>ref_difftest_memcpy = (\<lambda>a bs r. r), ref_regcpy_to_ref = (\<lambda>c r. c), ref_regcpy_to_dut = (\<lambda>r. r),
     ref_difftest_exec = (\<lambda>n r. r\<lparr>pc := pc r + 4\<rparr>), ref_difftest_init = (\<lambda>p r. r)\<rparr>"

definition rdtime_commit :: commit_t where
  "rdtime_commit = \<lparr>c_pc = 0x80000000, c_next_pc = 0x80000004, c_instr = 0xc01022f3, c_mem_addr = 0, c_mem_rdata = 0, c_mem_wdata = 0\<rparr>"

lemma rdtime_special: "is_special_instr rdtime_commit"
  by (simp add: is_special_instr_def rdtime_commit_def GET_OPCODE_def GET_FUNC3_def GET_CSR_ID_def timer_id_def Let_def)

theorem special_instr_not_reported_witness:
  "difftest_step copy_api True rdtime_commit zero_cpu zero_cpu
    = (None, zero_cpu\<lparr>pc := c_next_pc rdtime_commit\<rparr>,
       ref_regcpy_to_ref copy_api (zero_cpu\<lparr>pc := c_next_pc rdtime_commit\<rparr>) (ref_difftest_exec copy_api 1 zero_cpu))"
  by (rule special_instr_not_reported [OF _ rdtime_special]) (simp add: copy_api_def)

text \<open>
  the loads and stores of the simulator's own devices are not treated as device accesses: the
  clock at \<open>0xa0000048\<close> and the serial port at \<open>0xa00003f8\<close> lie outside the range
  \<open>is_mmio_address\<close> accepts, so a load or store there is compared with the reference like any
  other.
\<close>
theorem devices_not_special:
  assumes "GET_OPCODE (c_instr commit) = op_load \<or> GET_OPCODE (c_instr commit) = op_store"
    and "(RTC_MMIO \<le> c_mem_addr commit \<and> c_mem_addr commit < RTC_MMIO + 4) \<or> c_mem_addr commit = SERIAL_MMIO"
  shows "\<not> is_special_instr commit"
proof -
  have "\<not> (ucast (c_mem_addr commit) :: u64) < 0x80000000"
    using assms(2) by (auto simp: word_less_nat_alt word_le_nat_alt)
  then show ?thesis using assms(1) by (auto simp: is_special_instr_def is_mmio_address_def Let_def)
qed

theorem devices_not_special_witness:
  "\<not> is_special_instr (rdtime_commit\<lparr>c_instr := 0x0002a303, c_mem_addr := 0xa0000048\<rparr>)"
  by (rule devices_not_special) (simp_all add: GET_OPCODE_def)

end
