(* ===== verification/Itrace.thy ===== *)
theory Itrace
  imports Prelude
begin

text \<open>
  The instruction trace of the simulator: \<open>simulator/src/trace/instr_trace.c\<close>.

  The ring of the last instructions is the record \<open>itrace_state\<close>; the contract of a bounded
  history (\<open>bounded_history\<close>) is proved once and interpreted on it.  \<open>parse_pattern\<close> and the
  \<open>INSTPAT\<close> table decide which instructions are logged.  The disassembler (LLVM) is the
  parameter \<open>disasm\<close> of the address and the instruction; the length that \<open>instr_trace\<close> passes to it (8, for
  a variable of 4 bytes) is not represented.  What is printed is a list of \<open>trace_line\<close>s.
\<close>

section \<open>Model\<close>

record TraceEntry =
  te_pc :: u32
  te_instr :: u32

record itrace_state =
  itrace_pool :: "TraceEntry list"
  itrace_ptr :: nat
  pool_full :: bool

abbreviation (input) ITRACE_POOL_SIZE :: nat where "ITRACE_POOL_SIZE \<equiv> 30"

definition itrace_init :: itrace_state where
  "itrace_init = \<lparr>itrace_pool = replicate ITRACE_POOL_SIZE \<lparr>te_pc = 0, te_instr = 0\<rparr>, itrace_ptr = 0, pool_full = False\<rparr>"

datatype trace_line =
    Trace_line u64 u32 u32 string
  | Itrace_line char u32 u32 string
  | Itrace_total nat u64
  | Itrace_empty
  | Itrace_end

definition instr_trace :: "(u32 \<Rightarrow> u32 \<Rightarrow> string) \<Rightarrow> u32 \<Rightarrow> u32 \<Rightarrow> u64 \<Rightarrow> trace_line" where
  "instr_trace disasm pc instr instr_count = Trace_line instr_count pc instr (disasm pc instr)"

definition instr_itrace :: "u32 \<Rightarrow> u32 \<Rightarrow> itrace_state \<Rightarrow> itrace_state" where
  "instr_itrace pc instr s =
    (let s = s\<lparr>itrace_pool := (itrace_pool s)[itrace_ptr s := \<lparr>te_pc = pc, te_instr = instr\<rparr>]\<rparr>;
         s = s\<lparr>itrace_ptr := (itrace_ptr s + 1) mod ITRACE_POOL_SIZE\<rparr>
     in if itrace_ptr s = 0 then s\<lparr>pool_full := True\<rparr> else s)"

fun itrace_display_loop :: "(u32 \<Rightarrow> u32 \<Rightarrow> string) \<Rightarrow> itrace_state \<Rightarrow> nat \<Rightarrow> nat \<Rightarrow> trace_line list" where
  "itrace_display_loop disasm s i 0 = []"
| "itrace_display_loop disasm s i (Suc rest) =
    (let e = itrace_pool s ! i;
         last_idx = (itrace_ptr s + ITRACE_POOL_SIZE - 1) mod ITRACE_POOL_SIZE;
         current_flag = (if i = last_idx then CHR ''>'' else CHR '' '')
     in Itrace_line current_flag (te_pc e) (te_instr e) (disasm (te_pc e) (te_instr e))
        # itrace_display_loop disasm s ((i + 1) mod ITRACE_POOL_SIZE) rest)"

definition instr_itrace_display :: "(u32 \<Rightarrow> u32 \<Rightarrow> string) \<Rightarrow> itrace_state \<Rightarrow> u64 \<Rightarrow> trace_line list" where
  "instr_itrace_display disasm s sim_instr_count =
    (let total = (if pool_full s then ITRACE_POOL_SIZE else itrace_ptr s);
         i = (if pool_full s then itrace_ptr s else 0)
     in [Itrace_total total sim_instr_count]
        @ itrace_display_loop disasm s i total
        @ (if total = 0 then [Itrace_empty] else [])
        @ [Itrace_end])"

fun parse_pattern_loop :: "string \<Rightarrow> u32 \<Rightarrow> u32 \<Rightarrow> u32 \<times> u32" where
  "parse_pattern_loop [] key msk = (key, msk)"
| "parse_pattern_loop (c # p) key msk =
    (if c = CHR '' '' \<or> c = CHR ''_'' then parse_pattern_loop p key msk
     else let key = push_bit 1 key; msk = push_bit 1 msk in
       if c = CHR ''1'' then parse_pattern_loop p (key OR 1) (msk OR 1)
       else if c = CHR ''0'' then parse_pattern_loop p key (msk OR 1)
       else parse_pattern_loop p key msk)"

definition parse_pattern :: "string \<Rightarrow> u32 \<times> u32" where
  "parse_pattern p = parse_pattern_loop p 0 0"

definition INSTPAT :: "string \<Rightarrow> u32 \<Rightarrow> bool" where
  "INSTPAT pattern instr = (case parse_pattern pattern of (key, msk) \<Rightarrow> instr AND msk = key)"

definition special_patterns :: "(string \<times> string) list" where
  "special_patterns =
   [(''0001000 00101 00000 000 00000 11100 11'', ''wfi''),
    (''0001001 ????? ????? 000 00000 11100 11'', ''sfence_vma''),
    (''??????? ????? ????? 001 ????? 11100 11'', ''csrrw''),
    (''??????? ????? ????? 010 ????? 11100 11'', ''csrrs''),
    (''000110000000 ????? 001 ????? 1110011'', ''csrrw_satp''),
    (''000110000000 ????? 010 ????? 1110011'', ''csrrs_satp'')]"

fun first_pattern :: "(string \<times> string) list \<Rightarrow> u32 \<Rightarrow> string option" where
  "first_pattern [] instr = None"
| "first_pattern ((pattern, label) # ps) instr =
    (if INSTPAT pattern instr then Some label else first_pattern ps instr)"

definition instr_special_trace :: "(u32 \<Rightarrow> u32 \<Rightarrow> string) \<Rightarrow> u32 \<Rightarrow> u32 \<Rightarrow> u64 \<Rightarrow> trace_line list" where
  "instr_special_trace disasm pc instr instr_count =
    (case first_pattern special_patterns instr of
       Some label \<Rightarrow> [Trace_line instr_count pc instr (disasm pc instr)]
     | None \<Rightarrow> [])"

record trace_cfg =
  TRACE_LOG :: bool
  TRACE_SPECIAL :: bool
  ITRACE :: bool

record trace_state =
  ts_itrace :: itrace_state
  ts_stdout :: "trace_line list"
  ts_log :: "trace_line list"
  ts_log_enable :: bool

definition instr_trace_dispatch :: "trace_cfg \<Rightarrow> (u32 \<Rightarrow> u32 \<Rightarrow> string) \<Rightarrow> u32 \<Rightarrow> u32 \<Rightarrow> u64 \<Rightarrow> trace_state \<Rightarrow> trace_state" where
  "instr_trace_dispatch cfg disasm pc instr instr_count s =
    (let s = (if TRACE_LOG cfg then s\<lparr>ts_stdout := ts_stdout s @ [instr_trace disasm pc instr instr_count]\<rparr> else s);
         s = (if TRACE_SPECIAL cfg \<and> ts_log_enable s
              then s\<lparr>ts_log := ts_log s @ instr_special_trace disasm pc instr instr_count\<rparr> else s)
     in if ITRACE cfg then s\<lparr>ts_itrace := instr_itrace pc instr (ts_itrace s)\<rparr> else s)"


section \<open>The ring is a bounded history\<close>

definition lastn :: "nat \<Rightarrow> 'a list \<Rightarrow> 'a list" where
  "lastn n xs = drop (length xs - n) xs"

lemma length_lastn [simp]: "length (lastn n xs) = min n (length xs)"
  by (simp add: lastn_def)

lemma lastn_append_lastn: "lastn n (lastn n xs @ [x]) = lastn n (xs @ [x])"
  by (cases "length xs \<le> n") (auto simp: lastn_def Suc_diff_le not_le)

locale bounded_history =
  fixes inv :: "'s \<Rightarrow> bool" and new :: 's and push :: "'a \<Rightarrow> 's \<Rightarrow> 's" and view :: "'s \<Rightarrow> 'a list"
    and cap :: nat
  assumes inv_new: "inv new" and view_new: "view new = []"
    and inv_push: "inv s \<Longrightarrow> inv (push x s)"
    and view_push: "inv s \<Longrightarrow> view (push x s) = lastn cap (view s @ [x])"
begin

lemma inv_fold: "inv s \<Longrightarrow> inv (fold push xs s)"
  by (induction xs arbitrary: s) (auto intro: inv_push)

lemma view_history: "view (fold push xs new) = lastn cap xs"
proof (induction xs rule: rev_induct)
  case Nil
  then show ?case by (simp add: view_new lastn_def)
next
  case (snoc x xs)
  have "inv (fold push xs new)" by (rule inv_fold [OF inv_new])
  then show ?case using snoc by (simp add: view_push lastn_append_lastn)
qed

end

definition itrace_inv :: "itrace_state \<Rightarrow> bool" where
  "itrace_inv s \<longleftrightarrow> length (itrace_pool s) = ITRACE_POOL_SIZE \<and> itrace_ptr s < ITRACE_POOL_SIZE"

definition itrace_view :: "itrace_state \<Rightarrow> TraceEntry list" where
  "itrace_view s = (if pool_full s then drop (itrace_ptr s) (itrace_pool s) @ take (itrace_ptr s) (itrace_pool s)
     else take (itrace_ptr s) (itrace_pool s))"

definition itrace_push :: "TraceEntry \<Rightarrow> itrace_state \<Rightarrow> itrace_state" where
  "itrace_push e s = instr_itrace (te_pc e) (te_instr e) s"

lemma itrace_view_push:
  assumes "itrace_inv s"
  shows "itrace_view (itrace_push e s) = lastn ITRACE_POOL_SIZE (itrace_view s @ [e])"
proof -
  obtain p i f where s: "itrace_pool s = p" "itrace_ptr s = i" "pool_full s = f" by blast
  have l: "length p = 30" "i < 30" using assms s by (auto simp: itrace_inv_def)
  have u: "p[i := e] = take i p @ e # drop (Suc i) p" using l by (simp add: upd_conv_take_nth_drop)
  have e: "\<lparr>te_pc = te_pc e, te_instr = te_instr e\<rparr> = e" by simp
  have d: "drop i p = p ! i # drop (Suc i) p" using l by (simp add: Cons_nth_drop_Suc)
  show ?thesis
  proof (cases "i = 29")
    case True
    then show ?thesis
      using l s u d by (auto simp: e itrace_view_def itrace_push_def instr_itrace_def Let_def lastn_def)
  next
    case False
    then have "Suc i < 30" using l by simp
    then show ?thesis
      using l s u d by (auto simp: e itrace_view_def itrace_push_def instr_itrace_def Let_def lastn_def)
  qed
qed

interpretation itrace: bounded_history itrace_inv itrace_init itrace_push itrace_view ITRACE_POOL_SIZE
proof unfold_locales
  show "itrace_inv itrace_init" by (simp add: itrace_inv_def itrace_init_def)
  show "itrace_view itrace_init = []" by (simp add: itrace_view_def itrace_init_def)
  show "itrace_inv (itrace_push e s)" if "itrace_inv s" for e s
    using that by (simp add: itrace_inv_def itrace_push_def instr_itrace_def Let_def)
qed (rule itrace_view_push)

lemma itrace_display_loop_eq:
  assumes "itrace_inv s" "i < 30" "n \<le> 30"
  shows "itrace_display_loop disasm s i n =
    map (\<lambda>k. let j = (i + k) mod 30; e = itrace_pool s ! j
      in Itrace_line (if j = (29 + itrace_ptr s) mod 30 then CHR ''>'' else CHR '' '')
          (te_pc e) (te_instr e) (disasm (te_pc e) (te_instr e))) [0..<n]"
  using assms(2,3)
proof (induction n arbitrary: i)
  case (Suc n)
  have "[0..<Suc n] = 0 # map Suc [0..<n]" by (simp add: upt_conv_Cons map_Suc_upt)
  moreover have "((i + 1) mod 30 + k) mod 30 = (i + Suc k) mod 30" for k
    by (simp add: mod_simps)
  ultimately show ?case
    using Suc.IH [of "(i + 1) mod 30"] Suc.prems by (simp add: Let_def comp_def)
qed simp

lemma itrace_view_nth:
  assumes "itrace_inv s" "k < length (itrace_view s)"
  defines "i \<equiv> if pool_full s then itrace_ptr s else 0"
  shows "itrace_view s ! k = itrace_pool s ! ((i + k) mod 30)"
    and "(i + k) mod 30 = (29 + itrace_ptr s) mod 30 \<longleftrightarrow> Suc k = length (itrace_view s)"
proof -
  have l: "length (itrace_pool s) = 30" "itrace_ptr s < 30" using assms(1) by (auto simp: itrace_inv_def)
  have "pool_full s \<Longrightarrow> k < 30" "\<not> pool_full s \<Longrightarrow> k < itrace_ptr s"
    using assms(2) l by (auto simp: itrace_view_def split: if_splits)
  then have c: "(pool_full s \<and> k < 30 - itrace_ptr s) \<or> (pool_full s \<and> 30 - itrace_ptr s \<le> k \<and> k < 30)
      \<or> (\<not> pool_full s \<and> k < itrace_ptr s)"
    by linarith
  have m: "30 - itrace_ptr s \<le> k \<Longrightarrow> k < 30 \<Longrightarrow> (itrace_ptr s + k) mod 30 = k - (30 - itrace_ptr s)"
    using l by (subst mod_if) auto
  show "itrace_view s ! k = itrace_pool s ! ((i + k) mod 30)"
    using c l m by (auto simp: itrace_view_def i_def nth_append)
  have "(29 + itrace_ptr s) mod 30 = (if itrace_ptr s = 0 then 29 else itrace_ptr s - 1)"
    using l by (subst mod_if) auto
  then show "(i + k) mod 30 = (29 + itrace_ptr s) mod 30 \<longleftrightarrow> Suc k = length (itrace_view s)"
    using c l m by (auto simp: itrace_view_def i_def)
qed

lemma instr_itrace_display_view:
  assumes "itrace_inv s"
  shows "instr_itrace_display disasm s cnt =
    [Itrace_total (length (itrace_view s)) cnt]
    @ map (\<lambda>k. Itrace_line (if Suc k = length (itrace_view s) then CHR ''>'' else CHR '' '')
          (te_pc (itrace_view s ! k)) (te_instr (itrace_view s ! k))
          (disasm (te_pc (itrace_view s ! k)) (te_instr (itrace_view s ! k)))) [0..<length (itrace_view s)]
    @ (if itrace_view s = [] then [Itrace_empty] else []) @ [Itrace_end]"
proof -
  let ?i = "if pool_full s then itrace_ptr s else 0"
  have l: "length (itrace_pool s) = 30" "itrace_ptr s < 30" using assms(1) by (auto simp: itrace_inv_def)
  have len: "(if pool_full s then 30 else itrace_ptr s) = length (itrace_view s)"
    using l by (simp add: itrace_view_def)
  have i: "?i < 30" "length (itrace_view s) \<le> 30" using l by (auto simp: itrace_view_def)
  show ?thesis
    unfolding instr_itrace_display_def Let_def len itrace_display_loop_eq [OF assms i]
    using itrace_view_nth [OF assms] by (auto simp: Let_def)
qed


section \<open>Pattern matching\<close>

definition pat_digits :: "string \<Rightarrow> string" where
  "pat_digits p = filter (\<lambda>c. c \<noteq> CHR '' '' \<and> c \<noteq> CHR ''_'') p"

definition pat_bits :: "string \<Rightarrow> u32 \<Rightarrow> u32 \<Rightarrow> bool" where
  "pat_bits ds key msk \<longleftrightarrow> (\<forall>n < 32.
     (bit msk n \<longleftrightarrow> n < length ds \<and> (rev ds ! n = CHR ''0'' \<or> rev ds ! n = CHR ''1'')) \<and>
     (bit key n \<longleftrightarrow> n < length ds \<and> rev ds ! n = CHR ''1''))"

lemma bit_times_2: "bit (x * 2 :: u32) n \<longleftrightarrow> n < 32 \<and> n \<noteq> 0 \<and> bit x (n - 1)"
  using bit_double_iff [of x n] by (auto simp: mult.commute)

lemma pat_bits_snoc:
  assumes "pat_bits ds key msk"
  shows "pat_bits (ds @ [c]) (push_bit 1 key OR (if c = CHR ''1'' then 1 else 0))
    (push_bit 1 msk OR (if c = CHR ''0'' \<or> c = CHR ''1'' then 1 else 0))"
  unfolding pat_bits_def
proof (intro allI impI)
  fix n :: nat assume n: "n < 32"
  show "(bit (push_bit 1 msk OR (if c = CHR ''0'' \<or> c = CHR ''1'' then 1 else 0)) n \<longleftrightarrow>
      n < length (ds @ [c]) \<and> (rev (ds @ [c]) ! n = CHR ''0'' \<or> rev (ds @ [c]) ! n = CHR ''1'')) \<and>
    (bit (push_bit 1 key OR (if c = CHR ''1'' then 1 else 0)) n \<longleftrightarrow>
      n < length (ds @ [c]) \<and> rev (ds @ [c]) ! n = CHR ''1'')"
    using assms n by (cases n) (auto simp: pat_bits_def bit_simps bit_times_2)
qed

lemma parse_pattern_loop_bits:
  "pat_bits ds key msk \<Longrightarrow>
   (case parse_pattern_loop p key msk of (key, msk) \<Rightarrow> pat_bits (ds @ pat_digits p) key msk)"
proof (induction p arbitrary: ds key msk)
  case Nil
  then show ?case by (simp add: pat_digits_def)
next
  case (Cons c p)
  show ?case
  proof (cases "c = CHR '' '' \<or> c = CHR ''_''")
    case True
    then show ?thesis using Cons.IH [OF Cons.prems] by (auto simp: pat_digits_def)
  next
    case False
    then have d: "ds @ pat_digits (c # p) = (ds @ [c]) @ pat_digits p" by (simp add: pat_digits_def)
    show ?thesis
      unfolding d using False Cons.IH [OF pat_bits_snoc [OF Cons.prems, of c]]
      by (auto simp: Let_def simp del: push_bit_of_1 split: if_splits)
  qed
qed

text \<open>What a pattern means: digit \<open>n\<close> from the right constrains bit \<open>n\<close>.\<close>

definition pat_matches :: "string \<Rightarrow> u32 \<Rightarrow> bool" where
  "pat_matches p x \<longleftrightarrow> (let ds = rev (pat_digits p) in
     list_all (\<lambda>n. (ds ! n = CHR ''1'' \<longrightarrow> bit x n) \<and> (ds ! n = CHR ''0'' \<longrightarrow> \<not> bit x n)) [0..<min 32 (length ds)])"

lemma INSTPAT_iff: "INSTPAT p x \<longleftrightarrow> pat_matches p x"
proof -
  obtain key msk where k: "parse_pattern_loop p 0 0 = (key, msk)" by fastforce
  have "pat_bits [] 0 0" by (simp add: pat_bits_def)
  from parse_pattern_loop_bits [OF this, of p] have b: "pat_bits (pat_digits p) key msk" by (simp add: k)
  have "x AND msk = key \<longleftrightarrow> (\<forall>n < 32. bit x n \<and> bit msk n \<longleftrightarrow> bit key n)"
    by (auto simp: bit_eq_iff bit_simps dest: bit_imp_le_length)
  also have "\<dots> \<longleftrightarrow> pat_matches p x"
    using b unfolding pat_bits_def pat_matches_def by (auto simp: Let_def list_all_iff)
  finally show ?thesis by (simp add: INSTPAT_def parse_pattern_def k)
qed

lemma parse_special:
  "parse_pattern ''0001000 00101 00000 000 00000 11100 11'' = (0x10500073, 0xFFFFFFFF)"
  "parse_pattern ''0001001 ????? ????? 000 00000 11100 11'' = (0x12000073, 0xFE007FFF)"
  "parse_pattern ''??????? ????? ????? 001 ????? 11100 11'' = (0x1073, 0x707F)"
  "parse_pattern ''??????? ????? ????? 010 ????? 11100 11'' = (0x2073, 0x707F)"
  "parse_pattern ''000110000000 ????? 001 ????? 1110011'' = (0x18001073, 0xFFF0707F)"
  "parse_pattern ''000110000000 ????? 010 ????? 1110011'' = (0x18002073, 0xFFF0707F)"
  by (simp_all add: parse_pattern_def Let_def)

lemma and_submask: "(x :: u32) AND m = k \<Longrightarrow> m AND m' = m' \<Longrightarrow> x AND m' = k AND m'"
  by (metis and.assoc)


section \<open>Properties\<close>

text \<open>
  C5: the ring of recorded instructions refines the full history.  After any sequence of recorded
  instructions \<open>instr_itrace_display\<close> prints the last 30 of them (all of them when there were
  fewer), oldest first, each with its disassembly, the marker \<open>>\<close> on the most recent one only,
  and the empty-trace message exactly when nothing was recorded.
\<close>
theorem itrace_display_history:
  "instr_itrace_display disasm (fold itrace_push es itrace_init) cnt =
    (let v = lastn 30 es in
      [Itrace_total (min 30 (length es)) cnt]
      @ map (\<lambda>k. Itrace_line (if Suc k = length v then CHR ''>'' else CHR '' '')
          (te_pc (v ! k)) (te_instr (v ! k)) (disasm (te_pc (v ! k)) (te_instr (v ! k)))) [0..<length v]
      @ (if es = [] then [Itrace_empty] else []) @ [Itrace_end])"
proof -
  have inv: "itrace_inv (fold itrace_push es itrace_init)" by (rule itrace.inv_fold [OF itrace.inv_new])
  have "lastn 30 es = [] \<longleftrightarrow> es = []" by (cases es) (auto simp: lastn_def)
  then show ?thesis
    unfolding instr_itrace_display_view [OF inv] itrace.view_history by (simp add: Let_def)
qed

text \<open>
  C6: an \<open>INSTPAT\<close> pattern matches an instruction exactly when every \<open>0\<close> and \<open>1\<close> of
  it, counted from the right with blanks and underscores skipped, is the instruction's bit at that
  position.
\<close>
theorem INSTPAT_correct:
  "INSTPAT p x \<longleftrightarrow>
    (let ds = rev (filter (\<lambda>c. c \<noteq> CHR '' '' \<and> c \<noteq> CHR ''_'') p) in
     \<forall>n \<in> set [0..<min 32 (length ds)].
       (ds ! n = CHR ''1'' \<longrightarrow> bit x n) \<and> (ds ! n = CHR ''0'' \<longrightarrow> \<not> bit x n))"
  unfolding INSTPAT_iff pat_matches_def pat_digits_def Let_def list_all_iff ..

theorem INSTPAT_correct_witness: "INSTPAT ''1?_0'' 6 \<and> \<not> INSTPAT ''1?_0'' 5"
  unfolding INSTPAT_correct by (simp add: Let_def nth_Cons' bit_iff_odd atLeastLessThanSuc)

text \<open>
  the special trace logs an instruction, once, exactly when it is \<open>wfi\<close>,
  \<open>sfence.vma\<close>, \<open>csrrw\<close> or \<open>csrrs\<close>; the patterns for \<open>satp\<close> accesses never
  decide, because every instruction they match is matched by the general CSR patterns before them.
\<close>
theorem special_trace_exact:
  "first_pattern special_patterns x =
    (if x = 0x10500073 then Some ''wfi''
     else if x AND 0xFE007FFF = 0x12000073 then Some ''sfence_vma''
     else if x AND 0x707F = 0x1073 then Some ''csrrw''
     else if x AND 0x707F = 0x2073 then Some ''csrrs''
     else None)
   \<and> instr_special_trace disasm pc x cnt =
    (if first_pattern special_patterns x = None then [] else [Trace_line cnt pc x (disasm pc x)])"
proof -
  have "x AND 0xFFF0707F = 0x18001073 \<Longrightarrow> x AND 0x707F = 0x1073"
    "x AND 0xFFF0707F = 0x18002073 \<Longrightarrow> x AND 0x707F = 0x2073"
    by (drule and_submask [where m' = "0x707F"], simp, simp)+
  moreover have "x AND 0xFFFFFFFF = x"
  proof -
    have "(0xFFFFFFFF :: u32) = - 1" by simp
    then show ?thesis by (simp only: and.right_neutral)
  qed
  ultimately show ?thesis
    by (auto simp: special_patterns_def INSTPAT_def parse_special instr_special_trace_def split: option.split)
qed

end
