(* ===== verification/Sim_Exec.thy ===== *)
theory Sim_Exec
  imports Difftest Itrace
begin

text \<open>
  The simulation loop: \<open>simulator/src/npc/sim_npc.c\<close>, \<open>simulator/src/sim/exec.c\<close>,
  \<open>simulator/src/sim/sim.c\<close>, \<open>simulator/src/utils/log.c\<close> and \<open>simulator/src/main.c\<close>.

  The processor under test is generated by Verilator from the Verilog sources; it is the record
  \<open>dut_api\<close> of its evaluation step, which calls back into the DPI functions and so acts on
  \<open>dpi_env\<close>, and of the output ports the simulator reads.  The globals of the simulator are the
  record \<open>sim\<close>.  Waiting for a commit may never end, so \<open>wait_commit\<close> is a partial function
  into \<open>option\<close> and the run loop is \<open>None\<close> when it does not return; leaving the program is
  the value \<open>Exited\<close>.
\<close>

section \<open>Model\<close>

record 'd dut_api =
  eval :: "bool \<Rightarrow> bool \<Rightarrow> 'd \<times> dpi_env \<Rightarrow> 'd \<times> dpi_env"
  d_commit :: "'d \<Rightarrow> u32"
  d_cur_pc :: "'d \<Rightarrow> u32"
  d_commit_pc :: "'d \<Rightarrow> u32"
  d_commit_next_pc :: "'d \<Rightarrow> u32"
  d_commit_instr :: "'d \<Rightarrow> u32"
  d_commit_mem_addr :: "'d \<Rightarrow> u32"
  d_commit_mem_rdata :: "'d \<Rightarrow> u32"
  d_commit_mem_wdata :: "'d \<Rightarrow> u32"
  d_regs :: "'d \<Rightarrow> u32 list"
  d_csrs :: "'d \<Rightarrow> u32 list"
  d_cycle_count :: "'d \<Rightarrow> int"
  d_instr_count :: "'d \<Rightarrow> int"
  d_stall_count :: "'d \<Rightarrow> int"

record sim_cfg =
  cfg_mem :: mem_cfg
  cfg_pc_reset_offset :: u32
  cfg_mem_random :: bool
  cfg_npc_open_sim :: bool
  cfg_trace :: bool
  cfg_difftest :: bool
  cfg_instr_trace_start :: u64
  cfg_trace_kinds :: trace_cfg

record perf_report =
  pr_cycles :: int
  pr_instrs :: int
  pr_stalls :: int
  pr_minutes :: u64
  pr_seconds :: u64
  pr_micros :: u64

record ('d, 'r) sim =
  s_dut :: 'd
  s_rst :: bool
  s_env :: dpi_env
  s_cpu :: CPU_state
  sim_clk_count :: u64
  sim_instr_count :: u64
  sim_time :: u64
  timer_start :: u64
  timer_end :: u64
  s_trace :: trace_state
  s_ref :: 'r
  s_dumps :: "u64 list"
  s_report :: "perf_report option"

datatype 's outcome = Running 's | Exited int 's

definition check_inst_trigger :: "sim_cfg \<Rightarrow> ('d, 'r) sim \<Rightarrow> bool" where
  "check_inst_trigger cfg s \<longleftrightarrow> cfg_instr_trace_start cfg \<le> sim_instr_count s"

definition dut_eval :: "'d dut_api \<Rightarrow> bool \<Rightarrow> ('d, 'r) sim \<Rightarrow> ('d, 'r) sim" where
  "dut_eval api clk s = (case eval api clk (s_rst s) (s_dut s, s_env s) of (d, e) \<Rightarrow> s\<lparr>s_dut := d, s_env := e\<rparr>)"

definition wave_dump :: "sim_cfg \<Rightarrow> ('d, 'r) sim \<Rightarrow> ('d, 'r) sim" where
  "wave_dump cfg s =
    (if cfg_npc_open_sim cfg \<and> check_inst_trigger cfg s
     then s\<lparr>s_dumps := s_dumps s @ [sim_time s], sim_time := sim_time s + 1\<rparr> else s)"

definition update_sim_clk_count :: "('d, 'r) sim \<Rightarrow> ('d, 'r) sim" where
  "update_sim_clk_count s = s\<lparr>sim_clk_count := sim_clk_count s + 1\<rparr>"

definition npc_single_cycle :: "sim_cfg \<Rightarrow> 'd dut_api \<Rightarrow> ('d, 'r) sim \<Rightarrow> ('d, 'r) sim" where
  "npc_single_cycle cfg api s =
    (let s = wave_dump cfg (dut_eval api False s);
         s = wave_dump cfg (dut_eval api True s)
     in update_sim_clk_count s)"

definition npc_reset :: "sim_cfg \<Rightarrow> 'd dut_api \<Rightarrow> int \<Rightarrow> ('d, 'r) sim \<Rightarrow> ('d, 'r) sim" where
  "npc_reset cfg api n s =
    (let s = s\<lparr>s_rst := True\<rparr>;
         s = (npc_single_cycle cfg api ^^ nat n) s
     in s\<lparr>s_rst := False\<rparr>)"

definition sim_update_cpu :: "'d dut_api \<Rightarrow> ('d, 'r) sim \<Rightarrow> ('d, 'r) sim" where
  "sim_update_cpu api s =
    s\<lparr>s_cpu := update_cpu_state (d_cur_pc api (s_dut s)) (d_regs api (s_dut s)) (d_csrs api (s_dut s)) (s_cpu s)\<rparr>"

definition npc_init :: "sim_cfg \<Rightarrow> 'd dut_api \<Rightarrow> ('d, 'r) sim \<Rightarrow> ('d, 'r) sim outcome" where
  "npc_init cfg api s =
    (let s = sim_update_cpu api (npc_reset cfg api 1 s)
     in if d_cur_pc api (s_dut s) \<noteq> 0x80000000 then Exited 1 s else Running s)"

definition sim_exit :: "sim_cfg \<Rightarrow> 'd dut_api \<Rightarrow> int \<Rightarrow> ('d, 'r) sim \<Rightarrow> ('d, 'r) sim outcome" where
  "sim_exit cfg api exit_code s =
    (let s = npc_single_cycle cfg api s;
         d = s_dut s
     in case get_time (s_env s) of (t, e) \<Rightarrow>
       let s = s\<lparr>timer_end := t, s_env := e\<rparr>;
           timer_use = timer_end s - timer_start s;
           total_sec = timer_use div 1000000
       in Exited exit_code (s\<lparr>s_report := Some
            \<lparr>pr_cycles = d_cycle_count api d, pr_instrs = d_instr_count api d, pr_stalls = d_stall_count api d,
             pr_minutes = total_sec div 60, pr_seconds = total_sec mod 60, pr_micros = timer_use\<rparr>\<rparr>))"

definition get_commit_info :: "'d dut_api \<Rightarrow> 'd \<Rightarrow> commit_t" where
  "get_commit_info api d =
    \<lparr>c_pc = d_commit_pc api d, c_next_pc = d_commit_next_pc api d, c_instr = d_commit_instr api d,
     c_mem_addr = d_commit_mem_addr api d, c_mem_rdata = d_commit_mem_rdata api d,
     c_mem_wdata = d_commit_mem_wdata api d\<rparr>"

partial_function (option) wait_commit :: "sim_cfg \<Rightarrow> 'd dut_api \<Rightarrow> ('d, 'r) sim \<Rightarrow> ('d, 'r) sim option" where
  "wait_commit cfg api s =
    (if d_commit api (s_dut s) \<noteq> 1 then wait_commit cfg api (npc_single_cycle cfg api s) else Some s)"

text \<open>The body of the loop of \<open>execute\<close> once an instruction is ready to commit.\<close>

definition commit_step ::
  "sim_cfg \<Rightarrow> 'd dut_api \<Rightarrow> 'r ref_api \<Rightarrow> (u32 \<Rightarrow> u32 \<Rightarrow> string) \<Rightarrow> ('d, 'r) sim \<Rightarrow> ('d, 'r) sim outcome" where
  "commit_step cfg api rapi disasm s =
    (let commit = get_commit_info api (s_dut s) in
     if c_instr commit = inst_ebreak then sim_exit cfg api 0 s
     else
       let s = sim_update_cpu api (npc_single_cycle cfg api s);
           s = s\<lparr>sim_instr_count := sim_instr_count s + 1\<rparr>;
           s = (if cfg_trace cfg \<and> check_inst_trigger cfg s
                then s\<lparr>s_trace := instr_trace_dispatch (cfg_trace_kinds cfg) disasm (c_pc commit) (c_instr commit)
                         (sim_instr_count s) (s_trace s)\<rparr>
                else s)
       in if cfg_difftest cfg then
            (case difftest_step rapi (check_inst_trigger cfg s) commit (s_cpu s) (s_ref s) of
               (report, cpu, r) \<Rightarrow>
                 let s = s\<lparr>s_cpu := cpu, s_ref := r\<rparr>
                 in case report of Some e \<Rightarrow> sim_exit cfg api 1 s | None \<Rightarrow> Running s)
          else Running s)"

fun execute_loop ::
  "sim_cfg \<Rightarrow> 'd dut_api \<Rightarrow> 'r ref_api \<Rightarrow> (u32 \<Rightarrow> u32 \<Rightarrow> string) \<Rightarrow> nat \<Rightarrow> ('d, 'r) sim \<Rightarrow> ('d, 'r) sim outcome option" where
  "execute_loop cfg api rapi disasm 0 s = Some (Running s)"
| "execute_loop cfg api rapi disasm (Suc n) s =
    (case wait_commit cfg api s of
       None \<Rightarrow> None
     | Some s \<Rightarrow>
        (case commit_step cfg api rapi disasm s of
           Exited c s \<Rightarrow> Some (Exited c s)
         | Running s \<Rightarrow> execute_loop cfg api rapi disasm n s))"

definition execute ::
  "sim_cfg \<Rightarrow> 'd dut_api \<Rightarrow> 'r ref_api \<Rightarrow> (u32 \<Rightarrow> u32 \<Rightarrow> string) \<Rightarrow> u64 \<Rightarrow> ('d, 'r) sim \<Rightarrow> ('d, 'r) sim outcome option" where
  "execute cfg api rapi disasm n s = execute_loop cfg api rapi disasm (unat n) s"

definition cpu_exec ::
  "sim_cfg \<Rightarrow> 'd dut_api \<Rightarrow> 'r ref_api \<Rightarrow> (u32 \<Rightarrow> u32 \<Rightarrow> string) \<Rightarrow> u64 \<Rightarrow> ('d, 'r) sim \<Rightarrow> ('d, 'r) sim outcome option" where
  "cpu_exec cfg api rapi disasm n s =
    (case get_time (s_env s) of (t, e) \<Rightarrow>
      execute cfg api rapi disasm n (s\<lparr>timer_start := t, s_env := e\<rparr>))"


section \<open>Lemmas\<close>

lemma single_cycle_counts [simp]:
  "sim_clk_count (npc_single_cycle cfg api s) = sim_clk_count s + 1"
  "sim_instr_count (npc_single_cycle cfg api s) = sim_instr_count s"
  "s_cpu (npc_single_cycle cfg api s) = s_cpu s"
  "s_rst (npc_single_cycle cfg api s) = s_rst s"
  "s_ref (npc_single_cycle cfg api s) = s_ref s"
  "s_trace (npc_single_cycle cfg api s) = s_trace s"
  by (simp_all add: npc_single_cycle_def Let_def update_sim_clk_count_def wave_dump_def dut_eval_def
    check_inst_trigger_def split: prod.split)

lemma cycles_counts [simp]:
  "sim_clk_count ((npc_single_cycle cfg api ^^ k) s) = sim_clk_count s + of_nat k"
  "sim_instr_count ((npc_single_cycle cfg api ^^ k) s) = sim_instr_count s"
  "s_trace ((npc_single_cycle cfg api ^^ k) s) = s_trace s"
  "s_cpu ((npc_single_cycle cfg api ^^ k) s) = s_cpu s"
  by (induction k) (simp_all add: algebra_simps)

lemma wait_commit_Some:
  assumes "wait_commit cfg api s = Some s'"
  shows "d_commit api (s_dut s') = 1 \<and> (\<exists>k. s' = (npc_single_cycle cfg api ^^ k) s)"
proof (rule wait_commit.raw_induct [where P = "\<lambda>cfg api s s'.
    d_commit api (s_dut s') = 1 \<and> (\<exists>k. s' = (npc_single_cycle cfg api ^^ k) s)", OF _ assms])
  fix wait :: "sim_cfg \<Rightarrow> 'a dut_api \<Rightarrow> ('a, 'b) sim \<Rightarrow> ('a, 'b) sim option" and cfg api s s'
  assume IH: "\<And>cfg api s s'. wait cfg api s = Some s' \<Longrightarrow>
      d_commit api (s_dut s') = 1 \<and> (\<exists>k. s' = (npc_single_cycle cfg api ^^ k) s)"
    and w: "(if d_commit api (s_dut s) \<noteq> 1 then wait cfg api (npc_single_cycle cfg api s) else Some s) = Some s'"
  show "d_commit api (s_dut s') = 1 \<and> (\<exists>k. s' = (npc_single_cycle cfg api ^^ k) s)"
  proof (cases "d_commit api (s_dut s) \<noteq> 1")
    case True
    then obtain k where "d_commit api (s_dut s') = 1" "s' = (npc_single_cycle cfg api ^^ k) (npc_single_cycle cfg api s)"
      using IH [of cfg api "npc_single_cycle cfg api s" s'] w by auto
    then have "d_commit api (s_dut s') = 1 \<and> s' = (npc_single_cycle cfg api ^^ Suc k) s"
      by (simp add: funpow_swap1)
    then show ?thesis by blast
  next
    case False
    then have "s' = (npc_single_cycle cfg api ^^ 0) s" using w by simp
    then show ?thesis using False w by (metis option.inject)
  qed
qed

lemma wait_commit_cycles:
  "d_commit api (s_dut ((npc_single_cycle cfg api ^^ k) s)) = 1 \<Longrightarrow> \<exists>s'. wait_commit cfg api s = Some s'"
proof (induction k arbitrary: s)
  case 0
  then show ?case by (subst wait_commit.simps) simp
next
  case (Suc k)
  then show ?case
    by (subst wait_commit.simps) (auto simp: funpow_swap1)
qed

lemma sim_exit_Exited: "\<exists>s'. sim_exit cfg api c s = Exited c s'
    \<and> sim_clk_count s' = sim_clk_count s + 1 \<and> sim_instr_count s' = sim_instr_count s
    \<and> (\<exists>r. s_report s' = Some r \<and> unat (pr_micros r) div 1000000 = 60 * unat (pr_minutes r) + unat (pr_seconds r)
         \<and> unat (pr_seconds r) < 60)"
proof -
  obtain t e where g: "get_time (s_env (npc_single_cycle cfg api s)) = (t, e)" by fastforce
  show ?thesis
    by (simp add: sim_exit_def Let_def g unat_div_distrib unat_mod_distrib)
qed

lemmas commit_step_simps = commit_step_def Let_def sim_update_cpu_def

lemma commit_step_Running:
  assumes "commit_step cfg api rapi disasm s = Running s'"
  shows "sim_instr_count s' = sim_instr_count s + 1" "sim_clk_count s' = sim_clk_count s + 1"
    "d_commit_instr api (s_dut s) \<noteq> inst_ebreak"
    "s_dut s' = s_dut (npc_single_cycle cfg api s)"
    "cfg_trace cfg \<Longrightarrow> ITRACE (cfg_trace_kinds cfg) \<Longrightarrow> cfg_instr_trace_start cfg = 0 \<Longrightarrow>
      ts_itrace (s_trace s') = instr_itrace (d_commit_pc api (s_dut s)) (d_commit_instr api (s_dut s)) (ts_itrace (s_trace s))"
  using assms
  by (auto simp: commit_step_simps sim_exit_def get_commit_info_def check_inst_trigger_def instr_trace_dispatch_def
    split: if_splits prod.splits option.splits)

text \<open>A run as a relation: the instructions committed between two states.\<close>

inductive exec_steps ::
  "sim_cfg \<Rightarrow> 'd dut_api \<Rightarrow> 'r ref_api \<Rightarrow> (u32 \<Rightarrow> u32 \<Rightarrow> string) \<Rightarrow> ('d, 'r) sim \<Rightarrow> commit_t list \<Rightarrow> ('d, 'r) sim \<Rightarrow> bool"
  for cfg api rapi disasm where
  steps_nil: "exec_steps cfg api rapi disasm s [] s"
| steps_cons: "wait_commit cfg api s = Some s1 \<Longrightarrow> commit_step cfg api rapi disasm s1 = Running s2 \<Longrightarrow>
    exec_steps cfg api rapi disasm s2 cs s' \<Longrightarrow>
    exec_steps cfg api rapi disasm s (get_commit_info api (s_dut s1) # cs) s'"

text \<open>
  The processor on its own: a clock cycle, and a run of it with the number of cycles it makes the
  simulator wait for each instruction.
\<close>

definition hw_cycle :: "'d dut_api \<Rightarrow> bool \<Rightarrow> 'd \<times> dpi_env \<Rightarrow> 'd \<times> dpi_env" where
  "hw_cycle api rst x = eval api True rst (eval api False rst x)"

inductive hw_run :: "'d dut_api \<Rightarrow> bool \<Rightarrow> 'd \<times> dpi_env \<Rightarrow> (nat \<times> commit_t) list \<Rightarrow> 'd \<times> dpi_env \<Rightarrow> bool"
  for api rst where
  hw_nil: "hw_run api rst x [] x"
| hw_cons: "\<forall>i<j. d_commit api (fst ((hw_cycle api rst ^^ i) x)) \<noteq> 1 \<Longrightarrow> y = (hw_cycle api rst ^^ j) x \<Longrightarrow>
    d_commit api (fst y) = 1 \<Longrightarrow> hw_run api rst (hw_cycle api rst y) run z \<Longrightarrow>
    hw_run api rst x ((j, get_commit_info api (fst y)) # run) z"

text \<open>
  The comparison made for the instruction that is about to commit in \<open>s\<close> reports a mismatch: the
  registers of the processor after the next cycle differ from those of the reference.
\<close>

definition reports_mismatch :: "sim_cfg \<Rightarrow> 'd dut_api \<Rightarrow> 'r ref_api \<Rightarrow> ('d, 'r) sim \<Rightarrow> bool" where
  "reports_mismatch cfg api rapi s \<longleftrightarrow> cfg_difftest cfg \<and>
    fst (difftest_step rapi (cfg_instr_trace_start cfg \<le> sim_instr_count s + 1) (get_commit_info api (s_dut s))
      (s_cpu (sim_update_cpu api (npc_single_cycle cfg api s))) (s_ref s)) \<noteq> None"

inductive_cases steps_nilE: "exec_steps cfg api rapi disasm s [] s'"
inductive_cases steps_consE: "exec_steps cfg api rapi disasm s (c # cs) s'"

lemma execute_loop_Running:
  "execute_loop cfg api rapi disasm n s = Some (Running s') \<longleftrightarrow>
    (\<exists>cs. exec_steps cfg api rapi disasm s cs s' \<and> length cs = n)"
proof (induction n arbitrary: s)
  case 0
  show ?case by (auto elim: steps_nilE intro: steps_nil)
next
  case (Suc n)
  have "(\<exists>cs. exec_steps cfg api rapi disasm s cs s' \<and> length cs = Suc n) \<longleftrightarrow>
      (\<exists>s1 s2 cs. wait_commit cfg api s = Some s1 \<and> commit_step cfg api rapi disasm s1 = Running s2
        \<and> exec_steps cfg api rapi disasm s2 cs s' \<and> length cs = n)"
    by (auto simp: length_Suc_conv elim!: steps_consE) (metis steps_cons length_Cons)
  then show ?case
    by (auto simp: Suc.IH split: option.splits outcome.splits)
qed

lemma execute_loop_Exited:
  "execute_loop cfg api rapi disasm n s = Some (Exited c s') \<Longrightarrow>
    \<exists>cs s0 s1. exec_steps cfg api rapi disasm s cs s0 \<and> length cs < n
      \<and> wait_commit cfg api s0 = Some s1 \<and> commit_step cfg api rapi disasm s1 = Exited c s'"
proof (induction n arbitrary: s)
  case (Suc n)
  obtain s1 where w: "wait_commit cfg api s = Some s1"
    using Suc.prems by (cases "wait_commit cfg api s") auto
  show ?case
  proof (cases "commit_step cfg api rapi disasm s1")
    case (Running s2)
    then obtain cs s0 s1' where "exec_steps cfg api rapi disasm s2 cs s0" "length cs < n"
      "wait_commit cfg api s0 = Some s1'" "commit_step cfg api rapi disasm s1' = Exited c s'"
      using Suc.IH [of s2] Suc.prems w by auto
    then show ?thesis using steps_cons [OF w Running] by (metis length_Cons Suc_less_eq)
  next
    case (Exited c' s2)
    then show ?thesis using Suc.prems w by (metis steps_nil list.size(3) zero_less_Suc execute_loop.simps(2)
      option.case(2) outcome.case(2) option.inject outcome.inject(2))
  qed
qed simp

lemma exec_steps_counts:
  "exec_steps cfg api rapi disasm s cs s' \<Longrightarrow>
   sim_instr_count s' = sim_instr_count s + of_nat (length cs) \<and> (\<forall>c \<in> set cs. c_instr c \<noteq> inst_ebreak)"
proof (induction rule: exec_steps.induct)
  case (steps_cons s s1 s2 cs s')
  obtain j where j: "s1 = (npc_single_cycle cfg api ^^ j) s" using wait_commit_Some [OF steps_cons(1)] by blast
  show ?case
    using steps_cons.IH commit_step_Running(1,3) [OF steps_cons(2)] by (simp add: j get_commit_info_def algebra_simps)
qed simp

lemma exec_steps_itrace:
  assumes "cfg_trace cfg" "ITRACE (cfg_trace_kinds cfg)" "cfg_instr_trace_start cfg = 0"
  shows "exec_steps cfg api rapi disasm s cs s' \<Longrightarrow>
    ts_itrace (s_trace s') =
      fold itrace_push (map (\<lambda>c. \<lparr>te_pc = c_pc c, te_instr = c_instr c\<rparr>) cs) (ts_itrace (s_trace s))"
proof (induction rule: exec_steps.induct)
  case (steps_cons s s1 s2 cs s')
  obtain j where j: "s1 = (npc_single_cycle cfg api ^^ j) s" using wait_commit_Some [OF steps_cons(1)] by blast
  show ?case
    using steps_cons.IH commit_step_Running(5) [OF steps_cons(2) assms]
    by (simp add: j get_commit_info_def itrace_push_def)
qed simp

lemma npc_single_cycle_hw [simp]:
  "(s_dut (npc_single_cycle cfg api s), s_env (npc_single_cycle cfg api s)) = hw_cycle api (s_rst s) (s_dut s, s_env s)"
  by (simp add: npc_single_cycle_def Let_def update_sim_clk_count_def wave_dump_def dut_eval_def hw_cycle_def
    split: prod.split)

lemma cycles_rst [simp]: "s_rst ((npc_single_cycle cfg api ^^ k) s) = s_rst s"
  by (induction k) simp_all

lemma cycles_hw:
  "(s_dut ((npc_single_cycle cfg api ^^ k) s), s_env ((npc_single_cycle cfg api ^^ k) s)) =
    (hw_cycle api (s_rst s) ^^ k) (s_dut s, s_env s)"
  by (induction k) simp_all

lemma cycles_dut: "s_dut ((npc_single_cycle cfg api ^^ k) s) = fst ((hw_cycle api (s_rst s) ^^ k) (s_dut s, s_env s))"
  by (metis cycles_hw fst_conv)

lemma wait_commit_first:
  assumes "d_commit api (s_dut ((npc_single_cycle cfg api ^^ k) s)) = 1"
    "\<forall>i<k. d_commit api (s_dut ((npc_single_cycle cfg api ^^ i) s)) \<noteq> 1"
  shows "wait_commit cfg api s = Some ((npc_single_cycle cfg api ^^ k) s)"
  using assms
proof (induction k arbitrary: s)
  case 0
  then show ?case by (subst wait_commit.simps) simp
next
  case (Suc k)
  have "d_commit api (s_dut s) \<noteq> 1" using Suc.prems(2) by (metis funpow_0 zero_less_Suc)
  moreover have "wait_commit cfg api (npc_single_cycle cfg api s) =
      Some ((npc_single_cycle cfg api ^^ k) (npc_single_cycle cfg api s))"
    by (rule Suc.IH) (use Suc.prems in \<open>auto simp: funpow_swap1 dest: Suc_mono\<close>)
  ultimately show ?case by (subst wait_commit.simps) (simp add: funpow_swap1)
qed

lemma wait_commit_least:
  assumes "wait_commit cfg api s = Some s'"
  shows "\<exists>k. s' = (npc_single_cycle cfg api ^^ k) s \<and> d_commit api (s_dut s') = 1
    \<and> (\<forall>i<k. d_commit api (s_dut ((npc_single_cycle cfg api ^^ i) s)) \<noteq> 1)"
proof -
  let ?c = "\<lambda>k. d_commit api (s_dut ((npc_single_cycle cfg api ^^ k) s)) = 1"
  have "\<exists>k. ?c k" using wait_commit_Some [OF assms] by blast
  then have c: "?c (LEAST k. ?c k)" by (rule LeastI_ex)
  have m: "\<forall>i<(LEAST k. ?c k). \<not> ?c i" using not_less_Least by blast
  have "s' = (npc_single_cycle cfg api ^^ (LEAST k. ?c k)) s"
    using wait_commit_first [OF c m] assms by simp
  with c m show ?thesis by blast
qed

lemma commit_step_Running_hw:
  assumes "commit_step cfg api rapi disasm s = Running s'"
  shows "s_rst s' = s_rst s" "(s_dut s', s_env s') = hw_cycle api (s_rst s) (s_dut s, s_env s)"
  unfolding npc_single_cycle_hw [where cfg = cfg, symmetric]
  using assms
  by (auto simp: commit_step_simps sim_exit_def split: if_splits prod.splits option.splits)

lemma execute_loop_total:
  assumes live: "\<And>x. \<exists>k. d_commit api (fst ((hw_cycle api rst ^^ k) x)) = 1"
  shows "s_rst s = rst \<Longrightarrow> \<exists>res. execute_loop cfg api rapi disasm n s = Some res"
proof (induction n arbitrary: s)
  case (Suc n)
  obtain s1 where w: "wait_commit cfg api s = Some s1"
    using live [of "(s_dut s, s_env s)"] wait_commit_cycles [where cfg = cfg and api = api and s = s] by (auto simp: cycles_dut Suc.prems)
  then have "s_rst s1 = rst" using wait_commit_Some [OF w] Suc.prems by auto
  with w show ?case
    using Suc.IH commit_step_Running_hw(1) [where cfg = cfg and api = api and s = s1]
    by (cases "commit_step cfg api rapi disasm s1") auto
qed simp

lemma exec_steps_hw_run:
  "exec_steps cfg api rapi disasm s cs s' \<Longrightarrow>
    \<exists>run. map snd run = cs \<and> hw_run api (s_rst s) (s_dut s, s_env s) run (s_dut s', s_env s')
      \<and> sim_clk_count s' = sim_clk_count s + of_nat (\<Sum>(j, c) \<leftarrow> run. j + 1)"
proof (induction rule: exec_steps.induct)
  case (steps_nil s)
  then show ?case by (auto intro: hw_nil)
next
  case (steps_cons s s1 s2 cs s')
  obtain k where k: "s1 = (npc_single_cycle cfg api ^^ k) s" "d_commit api (s_dut s1) = 1"
    "\<forall>i<k. d_commit api (s_dut ((npc_single_cycle cfg api ^^ i) s)) \<noteq> 1"
    using wait_commit_least [OF steps_cons(1)] by blast
  note r = commit_step_Running_hw [OF steps_cons(2)]
  have rst: "s_rst s2 = s_rst s" by (simp add: r(1) k(1))
  obtain run where run: "map snd run = cs" "hw_run api (s_rst s) (s_dut s2, s_env s2) run (s_dut s', s_env s')"
    "sim_clk_count s' = sim_clk_count s2 + of_nat (\<Sum>(j, c) \<leftarrow> run. j + 1)"
    using steps_cons.IH unfolding rst by blast
  have s1: "(s_dut s1, s_env s1) = (hw_cycle api (s_rst s) ^^ k) (s_dut s, s_env s)"
    unfolding k(1) by (rule cycles_hw)
  have hw: "hw_run api (s_rst s) (s_dut s, s_env s) ((k, get_commit_info api (fst (s_dut s1, s_env s1))) # run) (s_dut s', s_env s')"
  proof (rule hw_cons [OF _ s1])
    show "\<forall>i<k. d_commit api (fst ((hw_cycle api (s_rst s) ^^ i) (s_dut s, s_env s))) \<noteq> 1"
      using k(3) by (simp add: cycles_dut)
    show "hw_run api (s_rst s) (hw_cycle api (s_rst s) (s_dut s1, s_env s1)) run (s_dut s', s_env s')"
      using run(2) by (simp add: r(2) k(1))
  qed (simp add: k(2))
  have "sim_clk_count s' = sim_clk_count s + of_nat (\<Sum>(j, c) \<leftarrow> (k, get_commit_info api (s_dut s1)) # run. j + 1)"
    using run(3) commit_step_Running(2) [OF steps_cons(2)] by (simp add: k(1) algebra_simps)
  with hw run(1) show ?case by (intro exI [of _ "(k, get_commit_info api (s_dut s1)) # run"]) simp
qed

lemma commit_step_Exited:
  assumes "commit_step cfg api rapi disasm s = Exited c s'"
  shows "(c = 0 \<and> d_commit_instr api (s_dut s) = inst_ebreak \<and> sim_instr_count s' = sim_instr_count s)
    \<or> (c = 1 \<and> d_commit_instr api (s_dut s) \<noteq> inst_ebreak \<and> reports_mismatch cfg api rapi s
       \<and> sim_instr_count s' = sim_instr_count s + 1)"
  using assms
  by (auto simp: commit_step_simps sim_exit_def get_commit_info_def check_inst_trigger_def reports_mismatch_def
    split: if_splits prod.splits option.splits)

lemma commit_step_exits:
  "d_commit_instr api (s_dut s) = inst_ebreak \<Longrightarrow> \<exists>s'. commit_step cfg api rapi disasm s = Exited 0 s'"
  "d_commit_instr api (s_dut s) \<noteq> inst_ebreak \<Longrightarrow> reports_mismatch cfg api rapi s \<Longrightarrow>
    \<exists>s'. commit_step cfg api rapi disasm s = Exited 1 s'"
  by (auto simp: commit_step_simps sim_exit_def get_commit_info_def check_inst_trigger_def reports_mismatch_def
    split: if_splits prod.splits option.splits)

lemma execute_loop_steps:
  "exec_steps cfg api rapi disasm s cs s0 \<Longrightarrow> length cs \<le> n \<Longrightarrow>
    execute_loop cfg api rapi disasm n s = execute_loop cfg api rapi disasm (n - length cs) s0"
proof (induction arbitrary: n rule: exec_steps.induct)
  case (steps_cons s s1 s2 cs s')
  then obtain m where "n = Suc m" by (cases n) auto
  with steps_cons show ?case by simp
qed simp

lemma execute_loop_exits:
  assumes "exec_steps cfg api rapi disasm s cs s0" "length cs < n" "wait_commit cfg api s0 = Some s1"
    "commit_step cfg api rapi disasm s1 = Exited c s'"
  shows "execute_loop cfg api rapi disasm n s = Some (Exited c s')"
proof -
  obtain m where "n - length cs = Suc m" using assms(2) by (cases "n - length cs") auto
  then show ?thesis using execute_loop_steps [OF assms(1), of n] assms(2-4) by simp
qed

section \<open>Properties\<close>

text \<open>
  C9: \<open>execute\<close> returns to its caller exactly along runs of \<open>n\<close> committed instructions,
  none of them \<open>ebreak\<close>.  Such a run is a run of the processor (\<open>hw_run\<close>): for every
  instruction, \<open>j\<close> cycles of the processor in none of which it offers a commit, the instruction
  offered in the state after them, and one more cycle that retires it.  The instruction counter has
  advanced by \<open>n\<close> and the clock counter by exactly the number of these cycles, the sum of all the
  \<open>j + 1\<close> (both modulo \<open>2 ^ 64\<close>).
\<close>
theorem execute_runs_n_instructions:
  "execute cfg api rapi disasm n s = Some (Running s') \<longleftrightarrow>
    (\<exists>run. exec_steps cfg api rapi disasm s (map snd run) s'
      \<and> hw_run api (s_rst s) (s_dut s, s_env s) run (s_dut s', s_env s')
      \<and> length run = unat n
      \<and> list_all (\<lambda>(j, c). c_instr c \<noteq> inst_ebreak) run
      \<and> sim_instr_count s' = sim_instr_count s + n
      \<and> sim_clk_count s' = sim_clk_count s + of_nat (\<Sum>(j, c) \<leftarrow> run. j + 1))"
proof -
  have "\<exists>run. cs = map snd run \<and> hw_run api (s_rst s) (s_dut s, s_env s) run (s_dut s', s_env s')
      \<and> length run = unat n \<and> list_all (\<lambda>(j, c). c_instr c \<noteq> inst_ebreak) run
      \<and> sim_instr_count s' = sim_instr_count s + n
      \<and> sim_clk_count s' = sim_clk_count s + of_nat (\<Sum>(j, c) \<leftarrow> run. j + 1)"
    if x: "exec_steps cfg api rapi disasm s cs s'" "length cs = unat n" for cs
  proof -
    obtain run where run: "map snd run = cs" "hw_run api (s_rst s) (s_dut s, s_env s) run (s_dut s', s_env s')"
      "sim_clk_count s' = sim_clk_count s + of_nat (\<Sum>(j, c) \<leftarrow> run. j + 1)"
      using exec_steps_hw_run [OF x(1)] by blast
    moreover have "list_all (\<lambda>(j, c). c_instr c \<noteq> inst_ebreak) run"
      using exec_steps_counts [OF x(1)] unfolding run(1) [symmetric] by (simp add: list_all_iff split_def)
    moreover have "length run = unat n" using run(1) x(2) by auto
    moreover have "sim_instr_count s' = sim_instr_count s + n" using exec_steps_counts [OF x(1)] x(2) by simp
    ultimately show ?thesis by (intro exI [of _ run]) simp
  qed
  moreover have "\<exists>cs. exec_steps cfg api rapi disasm s cs s' \<and> length cs = unat n"
    if "exec_steps cfg api rapi disasm s (map snd run) s'" "length run = unat n" for run :: "(nat \<times> commit_t) list"
    using that by (intro exI [of _ "map snd run"]) simp
  ultimately show ?thesis unfolding execute_def execute_loop_Running by fast
qed

text \<open>
  C10: when the processor, with the reset line as it is, always offers a commit again after finitely
  many cycles, \<open>execute\<close> returns.  It ends the program with exit code 0 only because the
  instruction about to commit is \<open>ebreak\<close> (which is not counted), and with exit code 1 only
  because differential testing is enabled and the comparison made for the instruction reported a
  mismatch (that instruction is counted); and whenever fewer than \<open>n\<close> instructions have run and
  the next one is \<open>ebreak\<close>, or is another one whose comparison reports a mismatch, the program
  does end there, with that code.
\<close>
theorem execute_terminates:
  assumes live: "\<And>x. \<exists>k. d_commit api (fst ((hw_cycle api (s_rst s) ^^ k) x)) = 1"
  shows "\<exists>res. execute cfg api rapi disasm n s = Some res \<and>
    (\<forall>c s'. res = Exited c s' \<longrightarrow>
      (\<exists>cs s0 s1. exec_steps cfg api rapi disasm s cs s0 \<and> length cs < unat n \<and> wait_commit cfg api s0 = Some s1
        \<and> ((c = 0 \<and> d_commit_instr api (s_dut s1) = inst_ebreak \<and> sim_instr_count s' = sim_instr_count s + of_nat (length cs))
         \<or> (c = 1 \<and> d_commit_instr api (s_dut s1) \<noteq> inst_ebreak \<and> reports_mismatch cfg api rapi s1
            \<and> sim_instr_count s' = sim_instr_count s + of_nat (length cs) + 1))))
    \<and> (\<forall>cs s0 s1. exec_steps cfg api rapi disasm s cs s0 \<and> length cs < unat n \<and> wait_commit cfg api s0 = Some s1 \<longrightarrow>
        (d_commit_instr api (s_dut s1) = inst_ebreak \<longrightarrow> (\<exists>s'. res = Exited 0 s'))
        \<and> (d_commit_instr api (s_dut s1) \<noteq> inst_ebreak \<and> reports_mismatch cfg api rapi s1 \<longrightarrow> (\<exists>s'. res = Exited 1 s')))"
proof -
  obtain res where r: "execute cfg api rapi disasm n s = Some res"
    unfolding execute_def using execute_loop_total [OF live refl] by blast
  have "\<exists>cs s0 s1. exec_steps cfg api rapi disasm s cs s0 \<and> length cs < unat n \<and> wait_commit cfg api s0 = Some s1
        \<and> ((c = 0 \<and> d_commit_instr api (s_dut s1) = inst_ebreak \<and> sim_instr_count s' = sim_instr_count s + of_nat (length cs))
         \<or> (c = 1 \<and> d_commit_instr api (s_dut s1) \<noteq> inst_ebreak \<and> reports_mismatch cfg api rapi s1
            \<and> sim_instr_count s' = sim_instr_count s + of_nat (length cs) + 1))"
    if e: "res = Exited c s'" for c s'
  proof -
    obtain cs s0 s1 where x: "exec_steps cfg api rapi disasm s cs s0" "length cs < unat n"
      "wait_commit cfg api s0 = Some s1" "commit_step cfg api rapi disasm s1 = Exited c s'"
      using execute_loop_Exited r e unfolding execute_def by blast
    obtain j where "s1 = (npc_single_cycle cfg api ^^ j) s0" using wait_commit_Some [OF x(3)] by blast
    then have "sim_instr_count s1 = sim_instr_count s + of_nat (length cs)"
      using exec_steps_counts [OF x(1)] by simp
    then show ?thesis using x commit_step_Exited [OF x(4)] by (metis (no_types, lifting))
  qed
  then have only: "\<forall>c s'. res = Exited c s' \<longrightarrow>
      (\<exists>cs s0 s1. exec_steps cfg api rapi disasm s cs s0 \<and> length cs < unat n \<and> wait_commit cfg api s0 = Some s1
        \<and> ((c = 0 \<and> d_commit_instr api (s_dut s1) = inst_ebreak \<and> sim_instr_count s' = sim_instr_count s + of_nat (length cs))
         \<or> (c = 1 \<and> d_commit_instr api (s_dut s1) \<noteq> inst_ebreak \<and> reports_mismatch cfg api rapi s1
            \<and> sim_instr_count s' = sim_instr_count s + of_nat (length cs) + 1)))"
    by iprover
  have "(d_commit_instr api (s_dut s1) = inst_ebreak \<longrightarrow> (\<exists>s'. res = Exited 0 s'))
        \<and> (d_commit_instr api (s_dut s1) \<noteq> inst_ebreak \<and> reports_mismatch cfg api rapi s1 \<longrightarrow> (\<exists>s'. res = Exited 1 s'))"
    if x: "exec_steps cfg api rapi disasm s cs s0 \<and> length cs < unat n \<and> wait_commit cfg api s0 = Some s1" for cs s0 s1
  proof -
    have "res = Exited c s'" if "commit_step cfg api rapi disasm s1 = Exited c s'" for c s'
      using execute_loop_exits [OF _ _ _ that, of s cs s0 "unat n"] x r by (simp add: execute_def)
    then show ?thesis using commit_step_exits [of api s1] by blast
  qed
  then have exits: "\<forall>cs s0 s1. exec_steps cfg api rapi disasm s cs s0 \<and> length cs < unat n \<and> wait_commit cfg api s0 = Some s1 \<longrightarrow>
        (d_commit_instr api (s_dut s1) = inst_ebreak \<longrightarrow> (\<exists>s'. res = Exited 0 s'))
        \<and> (d_commit_instr api (s_dut s1) \<noteq> inst_ebreak \<and> reports_mismatch cfg api rapi s1 \<longrightarrow> (\<exists>s'. res = Exited 1 s'))"
    by (intro allI impI)
  show ?thesis by (rule exI [of _ res], rule conjI [OF r conjI [OF only exits]])
qed

text \<open>A processor that is always ready to commit the same \<open>nop\<close>, for the witnesses.\<close>

definition nop_dut :: "unit dut_api" where
  "nop_dut = \<lparr>eval = (\<lambda>clk rst x. x), d_commit = (\<lambda>d. 1), d_cur_pc = (\<lambda>d. 0x80000000), d_commit_pc = (\<lambda>d. 0x80000000),
    d_commit_next_pc = (\<lambda>d. 0x80000004), d_commit_instr = (\<lambda>d. 0x13), d_commit_mem_addr = (\<lambda>d. 0),
    d_commit_mem_rdata = (\<lambda>d. 0), d_commit_mem_wdata = (\<lambda>d. 0), d_regs = (\<lambda>d. replicate 32 0), d_csrs = (\<lambda>d. replicate 4096 0),
    d_cycle_count = (\<lambda>d. 1), d_instr_count = (\<lambda>d. 1), d_stall_count = (\<lambda>d. 0)\<rparr>"

definition demo_cfg :: sim_cfg where
  "demo_cfg = \<lparr>cfg_mem = small_cfg, cfg_pc_reset_offset = 0, cfg_mem_random = True, cfg_npc_open_sim = False,
    cfg_trace = True, cfg_difftest = False, cfg_instr_trace_start = 0,
    cfg_trace_kinds = \<lparr>TRACE_LOG = False, TRACE_SPECIAL = False, ITRACE = True\<rparr>\<rparr>"

definition demo_sim :: "(unit, CPU_state) sim" where
  "demo_sim = \<lparr>s_dut = (), s_rst = False, s_env = small_env, s_cpu = zero_cpu, sim_clk_count = 0, sim_instr_count = 0,
    sim_time = 0, timer_start = 0, timer_end = 0,
    s_trace = \<lparr>ts_itrace = itrace_init, ts_stdout = [], ts_log = [], ts_log_enable = True\<rparr>,
    s_ref = zero_cpu, s_dumps = [], s_report = None\<rparr>"

lemma nop_dut_live: "\<exists>k. d_commit nop_dut (fst ((hw_cycle nop_dut rst ^^ k) x)) = 1"
  by (simp add: nop_dut_def)

text \<open>The same processor stopping at an \<open>ebreak\<close>, and a configuration that compares.\<close>

definition ebreak_dut :: "unit dut_api" where
  "ebreak_dut = nop_dut\<lparr>d_commit_instr := (\<lambda>d. inst_ebreak)\<rparr>"

definition diff_cfg :: sim_cfg where
  "diff_cfg = demo_cfg\<lparr>cfg_difftest := True\<rparr>"

definition stuck_api :: "CPU_state ref_api" where
  "stuck_api = copy_api\<lparr>ref_difftest_exec := (\<lambda>n r. r)\<rparr>"

lemma ebreak_dut_live: "\<exists>k. d_commit ebreak_dut (fst ((hw_cycle ebreak_dut rst ^^ k) x)) = 1"
  by (simp add: ebreak_dut_def nop_dut_def)

lemma demo_mismatch: "reports_mismatch diff_cfg nop_dut stuck_api demo_sim"
  by (simp add: reports_mismatch_def diff_cfg_def demo_cfg_def difftest_step_def Let_def is_special_instr_def
    get_commit_info_def nop_dut_def GET_OPCODE_def GET_FUNC3_def checkregs_def stuck_api_def copy_api_def demo_sim_def
    zero_cpu_def)

theorem execute_terminates_witness:
  "(\<exists>s'. execute demo_cfg ebreak_dut copy_api (\<lambda>p i. ''ebreak'') 2 demo_sim = Some (Exited 0 s'))
    \<and> (\<exists>s'. execute diff_cfg nop_dut stuck_api (\<lambda>p i. ''nop'') 2 demo_sim = Some (Exited 1 s'))"
proof
  have w: "wait_commit demo_cfg ebreak_dut demo_sim = Some demo_sim" "wait_commit diff_cfg nop_dut demo_sim = Some demo_sim"
    by (subst wait_commit.simps, simp add: ebreak_dut_def nop_dut_def)+
  have i: "d_commit_instr ebreak_dut (s_dut demo_sim) = inst_ebreak" "d_commit_instr nop_dut (s_dut demo_sim) \<noteq> inst_ebreak"
    by (simp_all add: ebreak_dut_def nop_dut_def)
  have n: "length ([] :: commit_t list) < unat (2 :: u64)" by simp
  obtain res where res: "execute demo_cfg ebreak_dut copy_api (\<lambda>p i. ''ebreak'') 2 demo_sim = Some res"
    "\<forall>cs s0 s1. exec_steps demo_cfg ebreak_dut copy_api (\<lambda>p i. ''ebreak'') demo_sim cs s0 \<and> length cs < unat (2 :: u64)
       \<and> wait_commit demo_cfg ebreak_dut s0 = Some s1 \<longrightarrow>
       (d_commit_instr ebreak_dut (s_dut s1) = inst_ebreak \<longrightarrow> (\<exists>s'. res = Exited 0 s'))
       \<and> (d_commit_instr ebreak_dut (s_dut s1) \<noteq> inst_ebreak \<and> reports_mismatch demo_cfg ebreak_dut copy_api s1 \<longrightarrow>
          (\<exists>s'. res = Exited 1 s'))"
    using execute_terminates [where s = demo_sim, OF ebreak_dut_live, where cfg = demo_cfg and rapi = copy_api
        and disasm = "\<lambda>p i. ''ebreak''" and n = 2] by (elim exE conjE)
  show "\<exists>s'. execute demo_cfg ebreak_dut copy_api (\<lambda>p i. ''ebreak'') 2 demo_sim = Some (Exited 0 s')"
    using res(1) res(2) [rule_format, OF conjI [OF steps_nil conjI [OF n w(1)]]] i(1) by auto
  obtain res' where res': "execute diff_cfg nop_dut stuck_api (\<lambda>p i. ''nop'') 2 demo_sim = Some res'"
    "\<forall>cs s0 s1. exec_steps diff_cfg nop_dut stuck_api (\<lambda>p i. ''nop'') demo_sim cs s0 \<and> length cs < unat (2 :: u64)
       \<and> wait_commit diff_cfg nop_dut s0 = Some s1 \<longrightarrow>
       (d_commit_instr nop_dut (s_dut s1) = inst_ebreak \<longrightarrow> (\<exists>s'. res' = Exited 0 s'))
       \<and> (d_commit_instr nop_dut (s_dut s1) \<noteq> inst_ebreak \<and> reports_mismatch diff_cfg nop_dut stuck_api s1 \<longrightarrow>
          (\<exists>s'. res' = Exited 1 s'))"
    using execute_terminates [where s = demo_sim, OF nop_dut_live, where cfg = diff_cfg and rapi = stuck_api
        and disasm = "\<lambda>p i. ''nop''" and n = 2] by (elim exE conjE)
  show "\<exists>s'. execute diff_cfg nop_dut stuck_api (\<lambda>p i. ''nop'') 2 demo_sim = Some (Exited 1 s')"
    using res'(1) res'(2) [rule_format, OF conjI [OF steps_nil conjI [OF n w(2)]]] i(2) demo_mismatch by auto
qed

text \<open>
  C11: with the instruction ring enabled from the first instruction, what the ring displays after a
  run from a fresh ring is the last 30 instructions the processor committed.
\<close>
theorem execute_itrace:
  assumes "cfg_trace cfg" "ITRACE (cfg_trace_kinds cfg)" "cfg_instr_trace_start cfg = 0"
    and "ts_itrace (s_trace s) = itrace_init"
    and "execute cfg api rapi disasm n s = Some (Running s')"
  shows "\<exists>cs. exec_steps cfg api rapi disasm s cs s' \<and> length cs = unat n
    \<and> itrace_view (ts_itrace (s_trace s')) = lastn 30 (map (\<lambda>c. \<lparr>te_pc = c_pc c, te_instr = c_instr c\<rparr>) cs)"
proof -
  obtain cs where cs: "exec_steps cfg api rapi disasm s cs s'" "length cs = unat n"
    using assms(5) unfolding execute_def execute_loop_Running by blast
  have "itrace_view (ts_itrace (s_trace s')) = lastn 30 (map (\<lambda>c. \<lparr>te_pc = c_pc c, te_instr = c_instr c\<rparr>) cs)"
    unfolding exec_steps_itrace [OF assms(1-3) cs(1)] assms(4) by (rule itrace.view_history)
  with cs show ?thesis by blast
qed

lemma demo_wait: "wait_commit demo_cfg nop_dut s = Some s"
  by (subst wait_commit.simps) (simp add: nop_dut_def)

lemma demo_commit: "\<exists>s'. commit_step demo_cfg nop_dut copy_api disasm s = Running s'"
  by (simp add: commit_step_def Let_def get_commit_info_def demo_cfg_def nop_dut_def)

lemma demo_cfg_facts:
  "cfg_trace demo_cfg" "ITRACE (cfg_trace_kinds demo_cfg)" "cfg_instr_trace_start demo_cfg = 0"
  "ts_itrace (s_trace demo_sim) = itrace_init"
  by (simp_all add: demo_cfg_def demo_sim_def)

lemma demo_runs: "\<exists>s'. execute_loop demo_cfg nop_dut copy_api disasm n s = Some (Running s')"
proof (induction n arbitrary: s)
  case (Suc n)
  obtain s1 where "commit_step demo_cfg nop_dut copy_api disasm s = Running s1" using demo_commit by blast
  then show ?case using Suc.IH [of s1] by (simp add: demo_wait)
qed simp

theorem execute_itrace_witness:
  "\<exists>s' cs. exec_steps demo_cfg nop_dut copy_api (\<lambda>p i. ''nop'') demo_sim cs s' \<and> length cs = unat (40 :: u64)
    \<and> itrace_view (ts_itrace (s_trace s')) = lastn 30 (map (\<lambda>c. \<lparr>te_pc = c_pc c, te_instr = c_instr c\<rparr>) cs)"
proof -
  obtain s' where "execute_loop demo_cfg nop_dut copy_api (\<lambda>p i. ''nop'') (unat (40 :: u64)) demo_sim = Some (Running s')"
    using demo_runs ..
  then have "execute demo_cfg nop_dut copy_api (\<lambda>p i. ''nop'') 40 demo_sim = Some (Running s')"
    by (simp only: execute_def)
  from execute_itrace [OF demo_cfg_facts this] show ?thesis by (rule exI [of _ s'])
qed

end
