(* ===== verification/Sim_Main.thy ===== *)
theory Sim_Main
  imports Sim_Exec
begin

text \<open>
  Start-up of the simulator: \<open>simulator/src/main.c\<close> and \<open>simulator/src/utils/log.c\<close>.

  Command-line parsing works on the sequence of results of \<open>getopt_long\<close>, and \<open>sscanf\<close> is an
  argument.  The host's files are a function from names to contents (\<open>None\<close>: cannot be opened).
  A start-up that fails an \<open>assert\<close> is \<open>Inl\<close>, a program exit is \<open>Exited\<close>.
\<close>

section \<open>Model\<close>

datatype opt = Opt_batch | Opt_port string | Opt_log string | Opt_diff string | Opt_image string | Opt_other

record sim_args =
  img_file :: "string option"
  log_file :: "string option"
  diff_so_file :: "string option"
  difftest_port :: int

definition default_args :: sim_args where
  "default_args = \<lparr>img_file = None, log_file = None, diff_so_file = None, difftest_port = 1234\<rparr>"

text \<open>The result is \<open>None\<close> when the usage is printed and the program exits with code 0.\<close>

fun parse_args :: "(string \<Rightarrow> int option) \<Rightarrow> opt list \<Rightarrow> sim_args \<Rightarrow> sim_args option" where
  "parse_args scan [] a = Some a"
| "parse_args scan (Opt_batch # os) a = parse_args scan os a"
| "parse_args scan (Opt_port s # os) a =
    parse_args scan os (case scan s of Some p \<Rightarrow> a\<lparr>difftest_port := p\<rparr> | None \<Rightarrow> a)"
| "parse_args scan (Opt_log s # os) a = parse_args scan os (a\<lparr>log_file := Some s\<rparr>)"
| "parse_args scan (Opt_diff s # os) a = parse_args scan os (a\<lparr>diff_so_file := Some s\<rparr>)"
| "parse_args scan (Opt_image s # os) a = Some (a\<lparr>img_file := Some s\<rparr>)"
| "parse_args scan (Opt_other # os) a = None"

definition init_log :: "(string \<Rightarrow> bool) \<Rightarrow> string option \<Rightarrow> string option res" where
  "init_log can_write name =
    (case name of
       None \<Rightarrow> Inr None
     | Some f \<Rightarrow> if can_write f then Inr (Some f) else Inl Assert_fail)"

definition RESET_VECTOR :: "sim_cfg \<Rightarrow> u32" where
  "RESET_VECTOR cfg = MBASE (cfg_mem cfg) + cfg_pc_reset_offset cfg"

definition host_copy :: "u8 list \<Rightarrow> int \<Rightarrow> u8 list \<Rightarrow> u8 list res" where
  "host_copy mem p bs =
    (if host_ok mem p (int (length bs)) then Inr (take (nat p) mem @ bs @ drop (nat p + length bs) mem)
     else Inl Out_of_object)"

definition img :: "u32 list" where
  "img = [0xfff00293, 0x30529073, 0x00100073]"

definition load_builded_img :: "sim_cfg \<Rightarrow> u8 list \<Rightarrow> u8 list res" where
  "load_builded_img cfg mem =
    host_copy mem (guest_to_host (cfg_mem cfg) (RESET_VECTOR cfg)) (concat (map word_bytes img))"

definition load_img :: "sim_cfg \<Rightarrow> (string \<Rightarrow> u8 list option) \<Rightarrow> string option \<Rightarrow> u8 list \<Rightarrow> (int \<times> u8 list) res" where
  "load_img cfg files name mem =
    (case name of
       None \<Rightarrow> Inr (4096, mem)
     | Some f \<Rightarrow>
        (case files f of
           None \<Rightarrow> Inl Assert_fail
         | Some bs \<Rightarrow>
            if bs = [] then Inl Assert_fail
            else map_sum id (\<lambda>m. (int (length bs), m))
              (host_copy mem (guest_to_host (cfg_mem cfg) (RESET_VECTOR cfg)) bs)))"

definition init_simulator ::
  "sim_cfg \<Rightarrow> 'd dut_api \<Rightarrow> 'r ref_api \<Rightarrow> (string \<Rightarrow> int option) \<Rightarrow> (string \<Rightarrow> bool) \<Rightarrow> (string \<Rightarrow> u8 list option)
    \<Rightarrow> (string \<Rightarrow> (string \<Rightarrow> bool) option) \<Rightarrow> opt list \<Rightarrow> ('d, 'r) sim \<Rightarrow> ('d, 'r) sim outcome res" where
  "init_simulator cfg api rapi scan can_write files dlopen opts s =
    (case parse_args scan opts default_args of
       None \<Rightarrow> Inr (Exited 0 s)
     | Some a \<Rightarrow>
        let s = (case get_time_internal (s_env s) of (t, e) \<Rightarrow> s\<lparr>s_env := e\<rparr>) in
        (case init_log can_write (log_file a) of
           Inl err \<Rightarrow> Inl err
         | Inr log \<Rightarrow>
            let m = init_mem (cfg_mem cfg) (cfg_mem_random cfg) (pmem (s_env s)) in
            (case load_builded_img cfg m of
               Inl err \<Rightarrow> Inl err
             | Inr m \<Rightarrow>
                (case load_img cfg files (img_file a) m of
                   Inl err \<Rightarrow> Inl err
                 | Inr (img_size, m) \<Rightarrow>
                    (case npc_init cfg api (s\<lparr>s_env := (s_env s)\<lparr>pmem := m\<rparr>\<rparr>) of
                       Exited c s \<Rightarrow> Inr (Exited c s)
                     | Running s \<Rightarrow>
                        if cfg_difftest cfg then
                          map_sum id (\<lambda>r. Running (s\<lparr>s_ref := r\<rparr>))
                            (init_difftest (cfg_mem cfg) (RESET_VECTOR cfg) (diff_so_file a) dlopen rapi
                              (pmem (s_env s)) img_size (difftest_port a) (s_cpu s) (s_ref s))
                        else Inr (Running s))))))"

definition main ::
  "sim_cfg \<Rightarrow> 'd dut_api \<Rightarrow> 'r ref_api \<Rightarrow> (u32 \<Rightarrow> u32 \<Rightarrow> string) \<Rightarrow> (string \<Rightarrow> int option) \<Rightarrow> (string \<Rightarrow> bool)
    \<Rightarrow> (string \<Rightarrow> u8 list option) \<Rightarrow> (string \<Rightarrow> (string \<Rightarrow> bool) option) \<Rightarrow> opt list \<Rightarrow> ('d, 'r) sim
    \<Rightarrow> ('d, 'r) sim outcome option res" where
  "main cfg api rapi disasm scan can_write files dlopen opts s =
    (case init_simulator cfg api rapi scan can_write files dlopen opts s of
       Inl err \<Rightarrow> Inl err
     | Inr (Exited c s) \<Rightarrow> Inr (Some (Exited c s))
     | Inr (Running s) \<Rightarrow>
        Inr (case cpu_exec cfg api rapi disasm (- 1) s of
               None \<Rightarrow> None
             | Some (Exited c s) \<Rightarrow> Some (Exited c s)
             | Some (Running s) \<Rightarrow> Some (Exited 0 s)))"


section \<open>Lemmas\<close>

lemma le_read_4: "le_read g m a 4 = unat (g m a) + 256 * (unat (g m (Suc a))
    + 256 * (unat (g m (Suc (Suc a))) + 256 * unat (g m (Suc (Suc (Suc a))))))"
proof -
  have "(4 :: nat) = Suc (Suc (Suc (Suc 0)))" by simp
  then show ?thesis by (simp only: le_read.simps mult_0_right add_0_right)
qed

lemma bytes_value:
  assumes "x < 4294967296"
  shows "x mod 256 + 256 * (x div 256 mod 256 + 256 * (x div 65536 mod 256 + 256 * (x div 16777216 mod 256))) = (x :: nat)"
proof -
  have d: "x div 65536 = x div 256 div 256" "x div 16777216 = x div 65536 div 256"
    by (simp_all add: div_mult2_eq [symmetric])
  have "x div 16777216 < 256" using assms by (simp add: less_mult_imp_div_less)
  then have "x div 65536 mod 256 + 256 * (x div 16777216 mod 256) = x div 65536"
    by (simp add: d(2))
  then have "x div 256 mod 256 + 256 * (x div 65536 mod 256 + 256 * (x div 16777216 mod 256)) = x div 256"
    by (simp only: d(1) mod_mult_div_eq)
  then show ?thesis by (simp only: mod_mult_div_eq)
qed

lemma le_read_nth_word:
  assumes "a + 4 \<le> length m" "take 4 (drop a m) = word_bytes w"
  shows "word_of_nat (le_read nth m a 4) = w"
proof -
  have nb: "m ! (a + i) = word_bytes w ! i" if "i < 4" for i
    using assms that by (metis add_leD1 nth_drop nth_take)
  have b: "m ! a = ucast w" "m ! Suc a = ucast (drop_bit 8 w)" "m ! Suc (Suc a) = ucast (drop_bit 16 w)"
      "m ! Suc (Suc (Suc a)) = ucast (drop_bit 24 w)"
    using nb [of 0] nb [of 1] nb [of 2] nb [of 3]
    by (simp_all add: word_bytes_def numeral_2_eq_2 numeral_3_eq_3)
  have "le_read nth m a 4 = unat w mod 256 + 256 * (unat w div 256 mod 256
      + 256 * (unat w div 65536 mod 256 + 256 * (unat w div 16777216 mod 256)))"
    by (simp add: le_read_4 b unat_ucast_mod unat_drop_bit c_shift)
  also have "\<dots> = unat w"
    using unat_u32_less [of w] by (intro bytes_value) simp
  finally show ?thesis by simp
qed

lemma host_copy_ok:
  assumes "host_copy mem p bs = Inr m"
  shows "length m = length mem \<and> take (length bs) (drop (nat p) m) = bs \<and> 0 \<le> p \<and> nat p + length bs \<le> length mem"
  using assms by (auto simp: host_copy_def host_ok_def split: if_splits)

lemma take_drop_word_bytes:
  "i < length ws \<Longrightarrow> take 4 (drop (4 * i) (concat (map word_bytes ws))) = word_bytes (ws ! i)"
proof (induction ws arbitrary: i)
  case (Cons w ws)
  then show ?case by (cases i) simp_all
qed simp

lemma host_copy_fetch:
  assumes wf: "mem_wf cfg mem" and c: "host_copy mem (guest_to_host cfg rv) (concat (map word_bytes ws)) = Inr m"
    and i: "i < length ws"
  shows "mem_wf cfg m" and "in_range cfg (rv + of_nat (4 * i)) 4"
    and "pmem_read cfg m (rv + of_nat (4 * i)) 4 = Inr (ws ! i)"
proof -
  let ?p = "guest_to_host cfg rv" and ?a = "rv + of_nat (4 * i)"
  note H = host_copy_ok [OF c, unfolded length_concat_word_bytes]
  show wf': "mem_wf cfg m" using wf H by (simp add: mem_wf_def)
  have b: "uint rv + int (4 * length ws) < 2 ^ 32" "0 \<le> ?p" "?p = uint rv - uint (MBASE cfg)"
    using H wf unfolding guest_to_host_def mem_wf_def by linarith+
  have bb: "uint rv + int (4 * length ws) \<le> uint (MBASE cfg) + uint (MSIZE cfg)"
    using H wf b(2,3) unfolding mem_wf_def by linarith
  have u: "uint ?a = uint rv + int (4 * i)"
  proof -
    have "unat (of_nat (4 * i) :: u32) = 4 * i"
    proof -
      have "uint rv + int (4 * length ws) < 4294967296" using b(1) by simp
      then have "4 * i < 4294967296" using i uint_ge_0 [of rv] by linarith
      then show ?thesis unfolding unat_of_nat by simp
    qed
    then have "uint (of_nat (4 * i) :: u32) = int (4 * i)" by (simp only: uint_nat)
    then show ?thesis using b(1) i by (simp add: uint_word_ariths del: of_nat_mult)
  qed
  show r: "in_range cfg ?a 4"
    using bb b(2,3) i unfolding in_range_def u by linarith
  have p: "nat (guest_to_host cfg ?a) = nat ?p + 4 * i"
    using b(2,3) unfolding guest_to_host_def u by linarith
  have "take 4 (drop (nat ?p + 4 * i) m) = take 4 (drop (4 * i) (take (4 * length ws) (drop (nat ?p) m)))"
    using i by (simp add: take_drop min_def add.commute)
  also have "\<dots> = word_bytes (ws ! i)"
    using H take_drop_word_bytes [OF i] by simp
  finally show "pmem_read cfg m ?a 4 = Inr (ws ! i)"
    using pmem_read_ok [OF wf' _ r, unfolded p] le_read_nth_word [of "nat ?p + 4 * i" m "ws ! i"] H i
    by (simp add: access_len_def)
qed

section \<open>Properties\<close>

text \<open>
  C12: the processor fetches the program the simulator loaded.  After the built-in program is placed
  and the image (if one is given) is loaded over it, an instruction fetch through the DPI at
  word \<open>i\<close> of the reset vector returns word \<open>i\<close> of the image, or of the built-in program when
  there is no image.
\<close>
theorem program_loaded:
  assumes wf: "mem_wf (cfg_mem cfg) mem"
    and al4: "(RESET_VECTOR cfg + of_nat (4 * i)) AND NOT 3 = RESET_VECTOR cfg + of_nat (4 * i)"
    and b: "load_builded_img cfg mem = Inr m1" and l: "load_img cfg files f m1 = Inr (sz, m2)"
    and ws: "case f of None \<Rightarrow> ws = img | Some name \<Rightarrow> files name = Some (concat (map word_bytes ws))"
    and i: "i < length ws"
  shows "dpi_instr_mem_read (cfg_mem cfg) (e\<lparr>pmem := m2\<rparr>) (RESET_VECTOR cfg + of_nat (4 * i)) = Inr (ws ! i)"
proof -
  have ms: "map_sum id g x = Inr y \<longleftrightarrow> (\<exists>z. x = Inr z \<and> y = g z)" for g and x :: "'x res" and y :: 'y
    by (cases x) auto
  have wf1: "mem_wf (cfg_mem cfg) m1"
    using wf b host_copy_ok unfolding load_builded_img_def by (fastforce simp: mem_wf_def)
  obtain m where c: "host_copy m (guest_to_host (cfg_mem cfg) (RESET_VECTOR cfg)) (concat (map word_bytes ws)) = Inr m2"
      "mem_wf (cfg_mem cfg) m"
    using b l ws wf wf1
    by (cases f) (auto simp: ms load_img_def load_builded_img_def split: if_splits)
  note F = host_copy_fetch [OF c(2,1) i]
  have "in_range (cfg_mem cfg) (RESET_VECTOR cfg + of_nat (4 * i)) 1"
    using F(2) by (rule in_range_first) simp
  then have "MBASE (cfg_mem cfg) \<le> RESET_VECTOR cfg + of_nat (4 * i)
      \<and> RESET_VECTOR cfg + of_nat (4 * i) < MBASE (cfg_mem cfg) + MSIZE (cfg_mem cfg)"
    using dpi_range_iff [OF F(1)] by blast
  then show ?thesis using F(3) al4 unfolding dpi_instr_mem_read_def by simp
qed

definition demo_img_mem :: "u8 list" where
  "demo_img_mem = concat (map word_bytes img) @ replicate 4 0"

lemma demo_load: "load_builded_img demo_cfg (replicate 16 0) = Inr demo_img_mem"
  by (simp add: load_builded_img_def host_copy_def host_ok_def RESET_VECTOR_def demo_cfg_def small_cfg_def
    guest_to_host_def img_def word_bytes_def demo_img_mem_def)

theorem program_loaded_witness:
  "dpi_instr_mem_read (cfg_mem demo_cfg) (small_env\<lparr>pmem := demo_img_mem\<rparr>) (RESET_VECTOR demo_cfg + of_nat (4 * 2)) = Inr (img ! 2)"
proof (rule program_loaded [OF _ _ demo_load])
  show "mem_wf (cfg_mem demo_cfg) (replicate 16 0)" using small_mem_wf by (simp add: demo_cfg_def)
  show "(RESET_VECTOR demo_cfg + of_nat (4 * 2)) AND NOT 3 = RESET_VECTOR demo_cfg + of_nat (4 * 2)"
    by (simp add: RESET_VECTOR_def demo_cfg_def small_cfg_def)
  show "load_img demo_cfg (\<lambda>f. None) None demo_img_mem = Inr (4096, demo_img_mem)" by (simp add: load_img_def)
qed (simp_all add: img_def)

end
