(* ===== verification/Coremark_Printf.thy ===== *)
theory Coremark_Printf
  imports Prelude "HOL-Library.Monad_Syntax"
begin

text \<open>
  Formatted output of the benchmark on bare machines:
  \<open>software-test/coremark/barebones/ee_printf.c\<close>, with \<open>HAS_FLOAT\<close> 0 as the port sets it.

  Strings are byte lists without their terminator; what a function writes through \<open>str\<close> is the
  list it returns.  \<open>long\<close>, \<open>int\<close> and pointers have 32 bits.  Field widths and precisions are
  integers; the pads a loop writes come from \<open>pad_loop\<close>, which also gives the counter the
  loop leaves behind, because the loops that follow test it again.  The negation of the least \<open>long\<close> wraps and
  widths near \<open>2 ^ 31\<close> are exact integers, where C would overflow.
\<close>

section \<open>Model\<close>

abbreviation (input) ZEROPAD :: u32 where "ZEROPAD \<equiv> 1"
abbreviation (input) SIGN :: u32 where "SIGN \<equiv> 2"
abbreviation (input) PLUS :: u32 where "PLUS \<equiv> 4"
abbreviation (input) SPACE :: u32 where "SPACE \<equiv> 8"
abbreviation (input) LEFT :: u32 where "LEFT \<equiv> 16"
abbreviation (input) HEX_PREP :: u32 where "HEX_PREP \<equiv> 32"
abbreviation (input) UPPERCASE :: u32 where "UPPERCASE \<equiv> 64"

definition is_digit :: "u8 \<Rightarrow> bool" where
  "is_digit c \<longleftrightarrow> 48 \<le> c \<and> c \<le> 57"

definition bytes_of :: "string \<Rightarrow> u8 list" where
  "bytes_of s = map of_char s"

definition lower_digits :: "u8 list" where
  "lower_digits = bytes_of ''0123456789abcdefghijklmnopqrstuvwxyz''"

definition upper_digits :: "u8 list" where
  "upper_digits = bytes_of ''0123456789ABCDEFGHIJKLMNOPQRSTUVWXYZ''"

fun strnlen :: "u8 list \<Rightarrow> u32 \<Rightarrow> nat" where
  "strnlen [] n = 0"
| "strnlen (c # s) n = (if c \<noteq> 0 \<and> n \<noteq> 0 then Suc (strnlen s (n - 1)) else 0)"

fun skip_atoi :: "u32 \<Rightarrow> u8 list \<Rightarrow> u32 \<times> u8 list" where
  "skip_atoi i [] = (i, [])"
| "skip_atoi i (c # s) = (if is_digit c then skip_atoi (i * 10 + ucast c - 48) s else (i, c # s))"

text \<open>\<open>while (size-- > 0) *str++ = c;\<close> and the counter afterwards.\<close>

function pad_loop :: "u8 \<Rightarrow> int \<Rightarrow> u8 list \<times> int" where
  "pad_loop c n = (if 0 < n then (case pad_loop c (n - 1) of (out, m) \<Rightarrow> (c # out, m)) else ([], n - 1))"
  by pat_completeness auto
termination by (relation "measure (\<lambda>(c, n). nat n)") auto

text \<open>\<open>while (len < size--) *str++ = ' ';\<close>\<close>

definition pad_to :: "nat \<Rightarrow> int \<Rightarrow> u8 list \<times> int" where
  "pad_to len sz = (case pad_loop 32 (sz - int len) of (out, m) \<Rightarrow> (out, m + int len))"

text \<open>The digits, least significant first; \<open>base\<close> has been checked before.\<close>

function number_digits :: "u8 list \<Rightarrow> u32 \<Rightarrow> u32 \<Rightarrow> u8 list" where
  "number_digits dig base num =
    (if num \<noteq> 0 \<and> 2 \<le> base then dig ! unat (num mod base) # number_digits dig base (num div base) else [])"
  by pat_completeness auto
termination
proof (relation "measure (\<lambda>(dig, base, num). unat num)")
  fix base num :: u32 and dig :: "u8 list"
  assume a: "num \<noteq> 0 \<and> 2 \<le> base"
  then have "2 \<le> unat base" by (simp add: word_le_nat_alt)
  moreover have "0 < unat num" using a by (simp add: unat_gt_0)
  ultimately show "((dig, base, num div base), dig, base, num) \<in> measure (\<lambda>(dig, base, num). unat num)"
    by (simp add: unat_div)
qed simp

text \<open>The steps of \<open>number\<close>: the sign, the room a prefix takes, the prefix, and the padded output.\<close>

definition number_sign :: "u32 \<Rightarrow> int \<Rightarrow> u32 \<Rightarrow> u8 \<times> u32 \<times> int" where
  "number_sign num sz ty =
    (if ty AND SIGN \<noteq> 0 then
       if sint num < 0 then (45, - num, sz - 1)
       else if ty AND PLUS \<noteq> 0 then (43, num, sz - 1)
       else if ty AND SPACE \<noteq> 0 then (32, num, sz - 1)
       else (0, num, sz)
     else (0, num, sz))"

definition prefix_room :: "u32 \<Rightarrow> int \<Rightarrow> u32 \<Rightarrow> int" where
  "prefix_room base sz ty =
    (if ty AND HEX_PREP \<noteq> 0 then (if base = 16 then sz - 2 else if base = 8 then sz - 1 else sz) else sz)"

definition number_prefix :: "u32 \<Rightarrow> u32 \<Rightarrow> u8 list" where
  "number_prefix base ty =
    (if ty AND HEX_PREP \<noteq> 0 then
       (if base = 8 then [48] else if base = 16 then [48, lower_digits ! 33] else [])
     else [])"

definition number_out :: "u8 \<Rightarrow> u8 list \<Rightarrow> u8 list \<Rightarrow> int \<Rightarrow> int \<Rightarrow> u32 \<Rightarrow> u8 list" where
  "number_out sign prefix tmp sz precision ty =
    (let c = (if ty AND ZEROPAD \<noteq> 0 then 48 else 32);
         i = length tmp;
         precision = (if precision < int i then int i else precision);
         sz = sz - precision;
         (pad1, sz) = (if ty AND (ZEROPAD OR LEFT) = 0 then pad_loop 32 sz else ([], sz));
         signs = (if sign \<noteq> 0 then [sign] else []);
         (pad2, sz) = (if ty AND LEFT = 0 then pad_loop c sz else ([], sz));
         zeros = fst (pad_loop 48 (precision - int i));
         (pad3, _) = pad_loop 32 sz
     in pad1 @ signs @ prefix @ pad2 @ zeros @ rev tmp @ pad3)"

definition number :: "u32 \<Rightarrow> u32 \<Rightarrow> int \<Rightarrow> int \<Rightarrow> u32 \<Rightarrow> u8 list option" where
  "number num base sz precision ty =
    (let dig = (if ty AND UPPERCASE \<noteq> 0 then upper_digits else lower_digits);
         ty = (if ty AND LEFT \<noteq> 0 then ty AND NOT ZEROPAD else ty)
     in if base < 2 \<or> 36 < base then None
     else
       let (sign, num, sz) = number_sign num sz ty;
           sz = prefix_room base sz ty;
           tmp = (if num = 0 then [48] else number_digits dig base num)
       in Some (number_out sign (number_prefix base ty) tmp sz precision ty))"

text \<open>Field layout of \<open>eaddr\<close>, \<open>iaddr\<close> and \<open>%s\<close>: pad, text, pad.\<close>

definition field :: "u8 list \<Rightarrow> int \<Rightarrow> u32 \<Rightarrow> u8 list" where
  "field tmp sz ty =
    (let len = length tmp;
         (pad1, sz) = (if ty AND LEFT = 0 then pad_to len sz else ([], sz));
         (pad2, _) = pad_to len sz
     in pad1 @ tmp @ pad2)"

definition eaddr :: "u8 list \<Rightarrow> int \<Rightarrow> u32 \<Rightarrow> u8 list option" where
  "eaddr addr sz ty =
    (let dig = (if ty AND UPPERCASE \<noteq> 0 then upper_digits else lower_digits)
     in if length addr < 6 then None
     else Some (field (concat (map (\<lambda>i. (if i \<noteq> 0 then [58] else []) @
            [dig ! unat (drop_bit 4 (addr ! i)), dig ! unat (addr ! i AND 0x0F)]) [0..<6])) sz ty))"

definition iaddr_part :: "nat \<Rightarrow> u8 list" where
  "iaddr_part n =
    (if n = 0 then [lower_digits ! 0]
     else if 100 \<le> n then
       let n' = n mod 100 in [lower_digits ! (n div 100), lower_digits ! (n' div 10), lower_digits ! (n' mod 10)]
     else if 10 \<le> n then [lower_digits ! (n div 10), lower_digits ! (n mod 10)]
     else [lower_digits ! n])"

definition iaddr :: "u8 list \<Rightarrow> int \<Rightarrow> u32 \<Rightarrow> u8 list option" where
  "iaddr addr sz ty =
    (if length addr < 4 then None
     else Some (field (concat (map (\<lambda>i. (if i \<noteq> 0 then [46] else []) @ iaddr_part (unat (addr ! i))) [0..<4])) sz ty))"

text \<open>
  The variable arguments: an integer or address word, a string (\<open>None\<close> is the null pointer) or a
  byte array.  Fetching an argument that is missing or of another kind is \<open>None\<close>.
\<close>

datatype ee_arg = AWord u32 | AStr "u8 list option" | ABytes "u8 list"

fun arg_word :: "ee_arg list \<Rightarrow> (u32 \<times> ee_arg list) option" where
  "arg_word (AWord w # args) = Some (w, args)"
| "arg_word _ = None"

fun arg_str :: "ee_arg list \<Rightarrow> (u8 list option \<times> ee_arg list) option" where
  "arg_str (AStr s # args) = Some (s, args)"
| "arg_str _ = None"

fun arg_bytes :: "ee_arg list \<Rightarrow> (u8 list \<times> ee_arg list) option" where
  "arg_bytes (ABytes s # args) = Some (s, args)"
| "arg_bytes _ = None"

fun parse_flags :: "u32 \<Rightarrow> u8 list \<Rightarrow> u32 \<times> u8 list" where
  "parse_flags fl [] = (fl, [])"
| "parse_flags fl (c # s) =
    (if c = 45 then parse_flags (fl OR LEFT) s
     else if c = 43 then parse_flags (fl OR PLUS) s
     else if c = 32 then parse_flags (fl OR SPACE) s
     else if c = 35 then parse_flags (fl OR HEX_PREP) s
     else if c = 48 then parse_flags (fl OR ZEROPAD) s
     else (fl, c # s))"

text \<open>\<open>*fmt\<close>: the next byte of the format, 0 at its end.\<close>

definition cur :: "u8 list \<Rightarrow> u8" where
  "cur s = (case s of [] \<Rightarrow> 0 | c # _ \<Rightarrow> c)"

definition parse_width :: "u32 \<Rightarrow> u8 list \<Rightarrow> ee_arg list \<Rightarrow> (int \<times> u32 \<times> u8 list \<times> ee_arg list) option" where
  "parse_width fl s args =
    (if is_digit (cur s) then (case skip_atoi 0 s of (w, s) \<Rightarrow> Some (sint w, fl, s, args))
     else if cur s = 42 then do {
       (w, args) \<leftarrow> arg_word args;
       Some (if sint w < 0 then (sint (- w), fl OR LEFT, tl s, args) else (sint w, fl, tl s, args))
     }
     else Some (- 1, fl, s, args))"

definition parse_precision :: "u8 list \<Rightarrow> ee_arg list \<Rightarrow> (int \<times> u8 list \<times> ee_arg list) option" where
  "parse_precision s args =
    (if cur s = 46 then do {
       let s = tl s;
       (p, s, args) \<leftarrow>
         (if is_digit (cur s) then (case skip_atoi 0 s of (w, s) \<Rightarrow> Some (sint w, s, args))
          else if cur s = 42 then do { (w, args) \<leftarrow> arg_word args; Some (sint w, tl s, args) }
          else Some (- 1, s, args));
       Some (if p < 0 then 0 else p, s, args)
     }
     else Some (- 1, s, args))"

definition put_c :: "u8 \<Rightarrow> int \<Rightarrow> u32 \<Rightarrow> u8 list" where
  "put_c ch w fl =
    (let (pad1, w) = (if fl AND LEFT = 0 then (case pad_loop 32 (w - 1) of (o1, m) \<Rightarrow> (o1, m + 1)) else ([], w));
         (pad2, _) = pad_loop 32 (w - 1)
     in pad1 @ [ch] @ pad2)"

definition put_s :: "u8 list option \<Rightarrow> int \<Rightarrow> int \<Rightarrow> u32 \<Rightarrow> u8 list" where
  "put_s s w precision fl =
    (let s = (case s of None \<Rightarrow> bytes_of ''<NULL>'' | Some s \<Rightarrow> s)
     in field (take (strnlen s (of_int precision)) s) w fl)"

text \<open>The conversion a directive ends in: what it writes and the arguments left.\<close>

definition put_integer :: "u32 \<Rightarrow> int \<Rightarrow> int \<Rightarrow> u32 \<Rightarrow> ee_arg list \<Rightarrow> (u8 list \<times> ee_arg list) option" where
  "put_integer base w precision fl args =
    do {
      (num, args) \<leftarrow> arg_word args;
      out \<leftarrow> number num base w precision fl;
      Some (out, args)
    }"

definition put_address :: "bool \<Rightarrow> int \<Rightarrow> u32 \<Rightarrow> ee_arg list \<Rightarrow> (u8 list \<times> ee_arg list) option" where
  "put_address long w fl args =
    do {
      (a, args) \<leftarrow> arg_bytes args;
      out \<leftarrow> (if long then eaddr a w fl else iaddr a w fl);
      Some (out, args)
    }"

definition convert :: "u8 \<Rightarrow> bool \<Rightarrow> int \<Rightarrow> int \<Rightarrow> u32 \<Rightarrow> ee_arg list \<Rightarrow> (u8 list \<times> ee_arg list) option" where
  "convert c long w precision fl args =
    (if c = 99 then map_option (\<lambda>(v, args). (put_c (ucast v) w fl, args)) (arg_word args)
     else if c = 115 then map_option (\<lambda>(v, args). (put_s v w precision fl, args)) (arg_str args)
     else if c = 112 then
       (if w = - 1 then put_integer 16 8 precision (fl OR ZEROPAD) args else put_integer 16 w precision fl args)
     else if c = 65 then put_address long w (fl OR UPPERCASE) args
     else if c = 97 then put_address long w fl args
     else if c = 111 then put_integer 8 w precision fl args
     else if c = 88 then put_integer 16 w precision (fl OR UPPERCASE) args
     else if c = 120 then put_integer 16 w precision fl args
     else if c = 100 \<or> c = 105 then put_integer 10 w precision (fl OR SIGN) args
     else if c = 117 then put_integer 10 w precision fl args
     else Some ((if c \<noteq> 37 then [37] else []) @ (if c \<noteq> 0 then [c] else []), args))"

text \<open>
  One directive, from the byte after its percent sign: what it writes, where the format goes on and
  the arguments left.
\<close>

definition directive :: "u8 list \<Rightarrow> ee_arg list \<Rightarrow> (u8 list \<times> u8 list \<times> ee_arg list) option" where
  "directive s args =
    do {
      let (fl, s) = parse_flags 0 s;
      (w, fl, s, args) \<leftarrow> parse_width fl s args;
      (precision, s, args) \<leftarrow> parse_precision s args;
      let long = (cur s = 108);
      let s = (if cur s = 108 \<or> cur s = 76 then tl s else s);
      (out, args) \<leftarrow> convert (cur s) long w precision fl args;
      Some (out, tl s, args)
    }"

lemma skip_atoi_length: "length (snd (skip_atoi i s)) \<le> length s"
  by (induction i s rule: skip_atoi.induct) auto

lemma parse_flags_length: "length (snd (parse_flags i s)) \<le> length s"
  by (induction i s rule: parse_flags.induct) auto

lemma parse_width_length: "parse_width fl s args = Some (w, fl', s', args') \<Longrightarrow> length s' \<le> length s"
  using skip_atoi_length [of 0 s]
  by (auto simp: parse_width_def split: if_splits prod.splits option.splits bind_splits)

lemma parse_precision_length: "parse_precision s args = Some (p, s', args') \<Longrightarrow> length s' \<le> length s"
  using skip_atoi_length [of 0 "tl s"]
  by (auto simp: parse_precision_def Let_def split: if_splits prod.splits option.splits bind_splits)

lemma directive_length: "directive s args = Some (out, s', args') \<Longrightarrow> length s' \<le> length s"
  using parse_flags_length [of 0 s]
  by (auto simp: directive_def Let_def split: if_splits prod.splits bind_splits
      dest!: parse_width_length parse_precision_length)

function ee_vsprintf :: "u8 list \<Rightarrow> ee_arg list \<Rightarrow> u8 list option" where
  "ee_vsprintf [] args = Some []"
| "ee_vsprintf (c # s) args =
    (if c \<noteq> 37 then map_option ((#) c) (ee_vsprintf s args)
     else (case directive s args of
             None \<Rightarrow> None
           | Some (out, s', args') \<Rightarrow> map_option ((@) out) (ee_vsprintf s' args')))"
  by pat_completeness auto
termination
  by (relation "measure (\<lambda>(s, args). length s)") (auto dest: directive_length)

text \<open>\<open>ee_printf\<close>: the bytes sent to \<open>putch\<close> and their number; text that overruns \<open>buf\<close> is \<open>None\<close>.\<close>

definition ee_printf :: "u8 list \<Rightarrow> ee_arg list \<Rightarrow> (u8 list \<times> nat) option" where
  "ee_printf fmt args =
    do {
      out \<leftarrow> ee_vsprintf fmt args;
      if length out < 1024 then let sent = takeWhile (\<lambda>c. c \<noteq> 0) out in Some (sent, length sent) else None
    }"

section \<open>Specification\<close>

text \<open>The digits of a number in a base, most significant first.\<close>

function digits_of :: "nat \<Rightarrow> nat \<Rightarrow> nat list" where
  "digits_of base n = (if n < base \<or> base < 2 then [n] else digits_of base (n div base) @ [n mod base])"
  by pat_completeness auto
termination by (relation "measure snd") auto

declare digits_of.simps [simp del] number_digits.simps [simp del] pad_loop.simps [simp del]

definition has :: "u32 \<Rightarrow> u32 \<Rightarrow> bool" where
  "has ty f \<longleftrightarrow> ty AND f \<noteq> 0"

definition magnitude :: "u32 \<Rightarrow> u32 \<Rightarrow> nat" where
  "magnitude num ty = (if has ty SIGN then nat \<bar>sint num\<bar> else unat num)"

definition sign_text :: "u32 \<Rightarrow> u32 \<Rightarrow> u8 list" where
  "sign_text num ty =
    (if \<not> has ty SIGN then []
     else if sint num < 0 then bytes_of ''-''
     else if has ty PLUS then bytes_of ''+''
     else if has ty SPACE then bytes_of '' ''
     else [])"

definition base_text :: "nat \<Rightarrow> u32 \<Rightarrow> u8 list" where
  "base_text base ty =
    (if \<not> has ty HEX_PREP then [] else if base = 8 then bytes_of ''0'' else if base = 16 then bytes_of ''0x'' else [])"

definition number_text :: "u32 \<Rightarrow> nat \<Rightarrow> int \<Rightarrow> int \<Rightarrow> u32 \<Rightarrow> u8 list" where
  "number_text num base sz precision ty =
    (let ds = digits_of base (magnitude num ty);
         body = replicate (nat precision - length ds) 48 @
           map ((!) (if has ty UPPERCASE then upper_digits else lower_digits)) ds;
         pre = sign_text num ty @ base_text base ty;
         fill = nat (sz - int (length pre + length body))
     in if has ty LEFT then pre @ body @ replicate fill 32
        else if has ty ZEROPAD then pre @ replicate fill 48 @ body
        else replicate fill 32 @ pre @ body)"

lemma pad_loop_eq: "pad_loop c n = (replicate (nat n) c, if 0 < n then - 1 else n - 1)"
proof (induction "nat n" arbitrary: n)
  case 0
  then show ?case by (subst pad_loop.simps) simp
next
  case (Suc k)
  then have "pad_loop c (n - 1) = (replicate k c, if 0 < n - 1 then - 1 else n - 1 - 1)" by simp
  moreover have "0 < n" using Suc(2) by simp
  ultimately show ?case using Suc(2) [symmetric] by (subst pad_loop.simps) auto
qed

lemma digits_of_value: "foldl (\<lambda>v d. v * base + d) 0 (digits_of base n) = n"
proof (induction base n rule: digits_of.induct)
  case (1 base n)
  then show ?case by (subst digits_of.simps) simp
qed

lemma digits_of_bound: "2 \<le> base \<Longrightarrow> d \<in> set (digits_of base n) \<Longrightarrow> d < base"
proof (induction base n rule: digits_of.induct)
  case (1 base n)
  then show ?case by (subst (asm) (2) digits_of.simps) (auto split: if_splits)
qed

lemma number_digits_eq:
  assumes "2 \<le> base" "num \<noteq> 0"
  shows "number_digits dig base num = rev (map ((!) dig) (digits_of (unat base) (unat num)))"
  using assms
proof (induction dig base num rule: number_digits.induct)
  case (1 dig base num)
  have b: "2 \<le> unat base" using 1(2) by (simp add: word_le_nat_alt)
  show ?case
  proof (cases "num div base = 0")
    case True
    then have "unat num < unat base"
      using b by (metis div_eq_0_iff not_less_eq_eq not_numeral_le_zero unat_0 unat_div)
    moreover have "number_digits dig base (num div base) = []" using True by (subst number_digits.simps) simp
    ultimately show ?thesis
      using 1(2,3) by (subst number_digits.simps, subst digits_of.simps) (simp add: unat_mod)
  next
    case False
    then have "\<not> unat num < unat base" by (metis div_less unat_0 unat_div unat_eq_zero)
    then show ?thesis
      using 1(1) [OF _ 1(2) False] 1(2,3) b
      by (subst number_digits.simps, subst digits_of.simps) (simp add: unat_mod unat_div)
  qed
qed

lemma unat_abs: "unat (if sint (w :: u32) < 0 then - w else w) = nat \<bar>sint w\<bar>"
proof -
  have r: "- (2 ^ 31) \<le> sint w" "sint w < 2 ^ 31" using sint_ge [of w] sint_lt [of w] by simp_all
  have "(if sint w < 0 then - w else w) = word_of_int \<bar>sint w\<bar>" by simp
  moreover have "\<bar>sint w\<bar> mod 2 ^ 32 = \<bar>sint w\<bar>" using r by simp
  ultimately have "uint (if sint w < 0 then - w else w) = \<bar>sint w\<bar>" by (simp add: uint_word_of_int)
  then show ?thesis by (simp only: unat_eq_nat_uint)
qed

lemma unat_uminus_neg: "sint (w :: u32) < 0 \<Longrightarrow> unat (- w) = nat (- sint w)"
  using unat_abs [of w] by simp

lemma unat_sint_pos: "\<not> sint (w :: u32) < 0 \<Longrightarrow> unat w = nat (sint w)"
  using unat_abs [of w] by simp

lemma and_not_1:
  assumes "f AND 1 = 0"
  shows "(ty AND NOT 1) AND f = (ty :: u32) AND f"
proof (rule bit_word_eqI)
  fix n
  have "\<not> bit f 0" using arg_cong [OF assms, of "\<lambda>w. bit w 0"] by (simp add: bit_simps)
  then show "bit ((ty AND NOT 1) AND f) n = bit (ty AND f) n" if "n < LENGTH(32)"
    using that by (cases n) (auto simp: bit_simps)
qed

lemma and_17: "(ty :: u32) AND (1 OR 16) = 0 \<longleftrightarrow> ty AND 1 = 0 \<and> ty AND 16 = 0"
  by (simp only: bit.conj_disj_distrib or_eq_0_iff)

lemma digit_chars: "lower_digits ! 0 = 48" "upper_digits ! 0 = 48" "lower_digits ! 33 = 120"
  by (simp_all add: lower_digits_def upper_digits_def bytes_of_def)

lemma number_tmp:
  assumes "2 \<le> base" "unat n = magnitude num ty"
  shows "(if n = 0 then [48] else number_digits (if has ty UPPERCASE then upper_digits else lower_digits) base n)
    = rev (map ((!) (if has ty UPPERCASE then upper_digits else lower_digits)) (digits_of (unat base) (magnitude num ty)))"
proof (cases "n = 0")
  case True
  then have "magnitude num ty = 0" using assms(2) by simp
  moreover have "0 < unat base" using assms(1) by (simp add: word_le_nat_alt)
  ultimately show ?thesis using True by (subst digits_of.simps) (simp add: digit_chars)
next
  case False
  then show ?thesis using number_digits_eq [OF assms(1) False] assms(2) by simp
qed

lemma number_sign_eq:
  "number_sign num sz ty = (case sign_text num ty of [] \<Rightarrow> 0 | c # _ \<Rightarrow> c,
     if has ty SIGN \<and> sint num < 0 then - num else num, sz - int (length (sign_text num ty)))"
  by (simp add: number_sign_def sign_text_def has_def bytes_of_def)

lemma prefix_eq:
  "number_prefix base ty = base_text (unat base) ty"
  "prefix_room base sz ty = sz - int (length (base_text (unat base) ty))"
  using word_unat_eq_iff [of base 8] word_unat_eq_iff [of base 16]
  by (simp_all add: number_prefix_def prefix_room_def base_text_def has_def bytes_of_def digit_chars)

lemma sign_text_cases: "sign_text num ty = [] \<or> (\<exists>c. c \<noteq> 0 \<and> sign_text num ty = [c])"
  by (simp add: sign_text_def bytes_of_def)

lemma number_out_eq:
  assumes "has ty LEFT \<Longrightarrow> \<not> has ty ZEROPAD" "sg = [] \<and> sign = 0 \<or> sg = [sign] \<and> sign \<noteq> 0"
  shows "number_out sign prefix tmp sz precision ty =
    (let body = replicate (nat precision - length tmp) 48 @ rev tmp;
         fill = nat (sz - int (length body))
     in if has ty LEFT then sg @ prefix @ body @ replicate fill 32
        else if has ty ZEROPAD then sg @ prefix @ replicate fill 48 @ body
        else replicate fill 32 @ sg @ prefix @ body)"
proof -
  have p: "(if precision < int (length tmp) then int (length tmp) else precision)
    = int (length tmp + (nat precision - length tmp))"
    by auto
  have z: "nat (int (length tmp + (nat precision - length tmp)) - int (length tmp)) = nat precision - length tmp" by simp
  show ?thesis
    using assms unfolding number_out_def and_17 p
    by (auto simp: Let_def has_def pad_loop_eq z)
qed

lemma number_eq:
  assumes "2 \<le> base" "base \<le> 36"
  shows "number num base sz precision ty = Some (number_text num (unat base) sz precision ty)"
proof -
  define ty' where "ty' = (if ty AND LEFT \<noteq> 0 then ty AND NOT ZEROPAD else ty)"
  have h: "has ty' f = has ty f" if "f AND 1 = 0" for f
    using and_not_1 [OF that, of ty] by (simp add: ty'_def has_def)
  have hs: "has ty' 2 = has ty 2" "has ty' 4 = has ty 4" "has ty' 8 = has ty 8" "has ty' 16 = has ty 16" "has ty' 32 = has ty 32"
    by (intro h; simp)+
  have z: "has ty' 1 \<longleftrightarrow> has ty 1 \<and> \<not> has ty 16"
    by (auto simp: ty'_def has_def and.assoc)
  have t: "sign_text num ty' = sign_text num ty" "base_text b ty' = base_text b ty" for b
    by (simp_all add: sign_text_def base_text_def hs)
  define n where "n = (if has ty SIGN \<and> sint num < 0 then - num else num)"
  have n: "unat n = magnitude num ty"
    by (simp add: n_def magnitude_def unat_uminus_neg unat_sint_pos)
  define dig where "dig = (if has ty UPPERCASE then upper_digits else lower_digits)"
  have d: "(if ty AND UPPERCASE \<noteq> 0 then upper_digits else lower_digits) = dig" by (simp add: dig_def has_def)
  define ds where "ds = digits_of (unat base) (magnitude num ty)"
  have tmp: "(if n = 0 then [48] else number_digits dig base n) = rev (map ((!) dig) ds)"
    unfolding dig_def ds_def by (rule number_tmp [OF assms(1) n])
  have "number num base sz precision ty =
    Some (number_out (case sign_text num ty of [] \<Rightarrow> 0 | c # _ \<Rightarrow> c) (base_text (unat base) ty) (rev (map ((!) dig) ds))
      (sz - int (length (sign_text num ty)) - int (length (base_text (unat base) ty))) precision ty')"
    using assms unfolding number_def Let_def ty'_def [symmetric] d number_sign_eq prefix_eq t hs n_def [symmetric] prod.case tmp
    by (simp add: not_less)
  also have "\<dots> = Some (number_text num (unat base) sz precision ty)"
    using sign_text_cases [of num ty]
    by (subst number_out_eq [where sg = "sign_text num ty"])
      (auto simp: z hs number_text_def Let_def dig_def ds_def algebra_simps)
  finally show ?thesis .
qed

section \<open>Formats\<close>

text \<open>
  A format as its author writes it: literal bytes, percent signs, integer directives (flags, width,
  precision, the qualifier \<open>l\<close>, conversion, argument) and string directives.
\<close>

datatype piece =
    Lit u8
  | Percent
  | Num "u8 list" "u8 list" "u8 list option" bool u8 u32
  | Str "u8 list" "u8 list" "u8 list option" "u8 list"

definition decimal :: "u8 list \<Rightarrow> nat" where
  "decimal ds = foldl (\<lambda>v c. v * 10 + (unat c - 48)) 0 ds"

definition spec_text :: "u8 list \<Rightarrow> u8 list \<Rightarrow> u8 list option \<Rightarrow> u8 list" where
  "spec_text fls ws ps = fls @ ws @ (case ps of None \<Rightarrow> [] | Some p \<Rightarrow> 46 # p)"

fun piece_fmt :: "piece \<Rightarrow> u8 list" where
  "piece_fmt (Lit c) = [c]"
| "piece_fmt Percent = [37, 37]"
| "piece_fmt (Num fls ws ps long c v) = 37 # spec_text fls ws ps @ (if long then [108] else []) @ [c]"
| "piece_fmt (Str fls ws ps s) = 37 # spec_text fls ws ps @ [115]"

fun piece_args :: "piece \<Rightarrow> ee_arg list" where
  "piece_args (Num fls ws ps long c v) = [AWord v]"
| "piece_args (Str fls ws ps s) = [AStr (Some s)]"
| "piece_args _ = []"

definition flag_bits :: "(u8 \<times> u32) list" where
  "flag_bits = [(45, LEFT), (43, PLUS), (32, SPACE), (35, HEX_PREP), (48, ZEROPAD)]"

definition flags_of :: "u32 \<Rightarrow> u8 list \<Rightarrow> u32" where
  "flags_of fl fls = foldl (\<lambda>m c. m OR the (map_of flag_bits c)) fl fls"

definition width_of :: "u8 list \<Rightarrow> int" where
  "width_of ws = (if ws = [] then - 1 else int (decimal ws))"

definition precision_of :: "u8 list option \<Rightarrow> int" where
  "precision_of ps = (case ps of None \<Rightarrow> - 1 | Some p \<Rightarrow> int (decimal p))"

definition conversions :: "(u8 \<times> nat \<times> u32) list" where
  "conversions = [(100, 10, SIGN), (105, 10, SIGN), (117, 10, 0), (111, 8, 0), (120, 16, 0), (88, 16, UPPERCASE)]"

definition wf_spec :: "u8 list \<Rightarrow> u8 list \<Rightarrow> u8 list option \<Rightarrow> bool" where
  "wf_spec fls ws ps \<longleftrightarrow> set fls \<subseteq> fst ` set flag_bits
    \<and> (\<forall>c\<in>set ws. is_digit c) \<and> decimal ws < 2 ^ 31 \<and> (ws \<noteq> [] \<longrightarrow> hd ws \<noteq> 48)
    \<and> (\<forall>p. ps = Some p \<longrightarrow> (\<forall>c\<in>set p. is_digit c) \<and> decimal p < 2 ^ 31)"

fun wf_piece :: "piece \<Rightarrow> bool" where
  "wf_piece (Lit c) \<longleftrightarrow> c \<noteq> 37"
| "wf_piece Percent \<longleftrightarrow> True"
| "wf_piece (Num fls ws ps long c v) \<longleftrightarrow> wf_spec fls ws ps \<and> c \<in> fst ` set conversions"
| "wf_piece (Str fls ws ps s) \<longleftrightarrow> wf_spec fls ws ps \<and> 0 \<notin> set s \<and> length s < 2 ^ 32"

definition fit :: "u8 list \<Rightarrow> int \<Rightarrow> bool \<Rightarrow> u8 list" where
  "fit s w left =
    (let fill = replicate (nat (w - int (length s))) 32 in if left then s @ fill else fill @ s)"

fun piece_out :: "piece \<Rightarrow> u8 list" where
  "piece_out (Lit c) = [c]"
| "piece_out Percent = [37]"
| "piece_out (Num fls ws ps long c v) =
    (case the (map_of conversions c) of (base, extra) \<Rightarrow>
      number_text v base (width_of ws) (precision_of ps) (flags_of 0 fls OR extra))"
| "piece_out (Str fls ws ps s) =
    fit (case ps of None \<Rightarrow> s | Some p \<Rightarrow> take (decimal p) s) (width_of ws) (has (flags_of 0 fls) LEFT)"

lemma parse_flags_append:
  "set fls \<subseteq> fst ` set flag_bits \<Longrightarrow> (\<And>c. cur rest = c \<Longrightarrow> c \<notin> fst ` set flag_bits) \<Longrightarrow>
   parse_flags fl (fls @ rest) = (flags_of fl fls, rest)"
proof (induction fls arbitrary: fl)
  case Nil
  then show ?case by (cases rest) (auto simp: flags_of_def flag_bits_def cur_def)
next
  case (Cons c fls)
  have "parse_flags fl (c # fls @ rest) = parse_flags (fl OR the (map_of flag_bits c)) (fls @ rest)"
    using Cons.prems(1) by (auto simp: flag_bits_def)
  then show ?case using Cons by (simp add: flags_of_def)
qed

lemma skip_atoi_append:
  "(\<forall>c\<in>set ws. is_digit c) \<Longrightarrow> \<not> is_digit (cur rest) \<Longrightarrow>
   skip_atoi i (ws @ rest) = (foldl (\<lambda>v c. v * 10 + ucast c - 48) i ws, rest)"
proof (induction ws arbitrary: i)
  case Nil
  then show ?case by (cases rest) (auto simp: cur_def)
qed simp

lemma foldl_decimal:
  "\<forall>c\<in>set ws. is_digit c \<Longrightarrow> foldl (\<lambda>v c. v * 10 + ucast c - 48) (of_nat n) ws =
    (of_nat (foldl (\<lambda>v c. v * 10 + (unat c - 48)) n ws) :: u32)"
proof (induction ws arbitrary: n)
  case (Cons c ws)
  have "48 \<le> unat c" using Cons.prems by (simp add: is_digit_def word_le_nat_alt)
  then have "(of_nat n * 10 + ucast c - 48 :: u32) = of_nat (n * 10 + (unat c - 48))"
    by (simp add: of_nat_diff unsigned_ucast_eq)
  then show ?case using Cons.IH [of "n * 10 + (unat c - 48)"] Cons.prems by (simp only: foldl_Cons list.set_intros) simp
qed simp

lemma sint_of_nat_small: "n < 2 ^ 31 \<Longrightarrow> sint (of_nat n :: u32) = int n"
  using int_word_sint [of "int n", where 'a = 32] by simp

lemma skip_atoi_decimal:
  assumes "\<forall>c\<in>set ws. is_digit c" "\<not> is_digit (cur rest)" "decimal ws < 2 ^ 31"
  shows "\<exists>w. skip_atoi 0 (ws @ rest) = (w, rest) \<and> sint w = int (decimal ws)"
  using skip_atoi_append [OF assms(1,2), of 0] foldl_decimal [OF assms(1), of 0] sint_of_nat_small [OF assms(3)]
  by (simp add: decimal_def)

lemma cur_simps [simp]: "cur [] = 0" "cur (c # s) = c"
  by (simp_all add: cur_def)

lemma parse_width_append:
  assumes "\<forall>c\<in>set ws. is_digit c" "\<not> is_digit (cur rest)" "cur rest \<noteq> 42" "decimal ws < 2 ^ 31"
  shows "parse_width fl (ws @ rest) args = Some (width_of ws, fl, rest, args)"
proof (cases ws)
  case Nil
  then show ?thesis using assms(2,3) by (simp add: parse_width_def width_of_def)
next
  case (Cons c cs)
  then have "is_digit (cur (ws @ rest))" using assms(1) by (simp add: cur_def)
  then show ?thesis
    using skip_atoi_decimal [OF assms(1,2,4)] Cons by (auto simp: parse_width_def width_of_def)
qed

lemma parse_precision_append:
  assumes "\<And>p. ps = Some p \<Longrightarrow> (\<forall>c\<in>set p. is_digit c) \<and> decimal p < 2 ^ 31"
    "\<not> is_digit (cur rest)" "cur rest \<noteq> 42" "cur rest \<noteq> 46"
  shows "parse_precision ((case ps of None \<Rightarrow> [] | Some p \<Rightarrow> 46 # p) @ rest) args = Some (precision_of ps, rest, args)"
proof (cases ps)
  case None
  then show ?thesis using assms(4) by (simp add: parse_precision_def precision_of_def)
next
  case (Some p)
  show ?thesis
  proof (cases p)
    case Nil
    then show ?thesis
      using Some assms(2,3) by (simp add: parse_precision_def precision_of_def cur_def decimal_def)
  next
    case (Cons c cs)
    then have "is_digit (cur (p @ rest))" using Some assms(1) by (simp add: cur_def)
    then show ?thesis
      using skip_atoi_decimal [OF _ assms(2), of p] Some assms(1) [of p]
      by (auto simp: parse_precision_def precision_of_def cur_def [of "46 # _"])
  qed
qed

lemma is_digit_consts [simp]: "\<not> is_digit 46" "\<not> is_digit 108" "\<not> is_digit 115" "\<not> is_digit 0"
  by (simp_all add: is_digit_def)

lemma bind_Some_pair: "Option.bind x (\<lambda>(a, b). Some (f a b)) = map_option (\<lambda>(a, b). f a b) x"
  by (cases x) auto

text \<open>The parsers read a specification back, whatever follows it that is not part of it.\<close>

lemma directive_spec:
  assumes "wf_spec fls ws ps" "\<not> is_digit (cur rest)" "cur rest \<notin> {42, 46}" "cur rest \<notin> fst ` set flag_bits"
  shows "directive (spec_text fls ws ps @ rest) args =
    (let s = (if cur rest = 108 \<or> cur rest = 76 then tl rest else rest)
     in map_option (\<lambda>(out, args). (out, tl s, args))
          (convert (cur s) (cur rest = 108) (width_of ws) (precision_of ps) (flags_of 0 fls) args))"
proof -
  let ?tail = "(case ps of None \<Rightarrow> [] | Some p \<Rightarrow> 46 # p) @ rest"
  have t: "\<not> is_digit (cur ?tail)" "cur ?tail \<noteq> 42" "cur ?tail \<notin> fst ` set flag_bits"
    using assms by (auto split: option.split simp: flag_bits_def)
  have d: "is_digit c \<Longrightarrow> c \<noteq> 48 \<Longrightarrow> c \<notin> fst ` set flag_bits" for c
    by (auto simp: is_digit_def flag_bits_def)
  have "cur (ws @ ?tail) \<notin> fst ` set flag_bits"
    using t(3) assms(1) d by (cases ws) (auto simp: wf_spec_def)
  then have f: "parse_flags 0 (fls @ ws @ ?tail) = (flags_of 0 fls, ws @ ?tail)"
    using assms(1) by (intro parse_flags_append) (auto simp: wf_spec_def)
  have w: "parse_width (flags_of 0 fls) (ws @ ?tail) args = Some (width_of ws, flags_of 0 fls, ?tail, args)"
    using assms(1) t by (intro parse_width_append) (auto simp: wf_spec_def)
  have p: "parse_precision ?tail args = Some (precision_of ps, rest, args)"
    using assms by (intro parse_precision_append) (auto simp: wf_spec_def)
  show ?thesis
    using f w p by (simp add: directive_def spec_text_def Let_def bind_Some_pair)
qed

lemma convert_integer:
  assumes "c \<in> fst ` set conversions"
  shows "convert c long w precision fl (AWord v # args) =
    (case the (map_of conversions c) of (base, extra) \<Rightarrow> Some (number_text v base w precision (fl OR extra), args))"
  using assms by (auto simp: conversions_def convert_def put_integer_def number_eq)

lemma field_eq: "field tmp w fl = fit tmp w (has fl LEFT)"
  by (auto simp: field_def fit_def pad_to_def pad_loop_eq has_def Let_def)

lemma strnlen_eq: "0 \<notin> set s \<Longrightarrow> strnlen s n = min (length s) (unat n)"
proof (induction s arbitrary: n)
  case (Cons c s)
  show ?case
  proof (cases "n = 0")
    case False
    then have "unat n = Suc (unat (n - 1))" using unat_minus_one [OF False] unat_gt_0 [of n] by simp
    then show ?thesis using Cons False by simp
  qed simp
qed simp

lemma convert_string:
  assumes "0 \<notin> set s" "length s < 2 ^ 32" "\<And>p. ps = Some p \<Longrightarrow> decimal p < 2 ^ 31"
  shows "convert 115 long w (precision_of ps) fl (AStr (Some s) # args) =
    Some (fit (case ps of None \<Rightarrow> s | Some p \<Rightarrow> take (decimal p) s) w (has fl LEFT), args)"
proof -
  have "take (strnlen s (of_int (precision_of ps))) s = (case ps of None \<Rightarrow> s | Some p \<Rightarrow> take (decimal p) s)"
  proof (cases ps)
    case None
    have "unat (- 1 :: u32) = 2 ^ 32 - 1" by (simp add: unsigned_minus_1_eq_mask mask_eq_exp_minus_1)
    then show ?thesis using None assms(1,2) by (simp add: precision_of_def strnlen_eq)
  next
    case (Some p)
    then have "unat (of_nat (decimal p) :: u32) = decimal p"
      using assms(3) [of p] by (simp add: unsigned_of_nat take_bit_nat_eq_self)
    then show ?thesis using Some assms(1) by (simp add: precision_of_def strnlen_eq min_def)
  qed
  then show ?thesis by (simp add: convert_def put_s_def field_eq)
qed

lemma ee_vsprintf_directive:
  "directive s args = Some (out, s', args') \<Longrightarrow> ee_vsprintf (37 # s) args = map_option ((@) out) (ee_vsprintf s' args')"
  by simp

lemma conversion_char: "c \<in> fst ` set conversions \<Longrightarrow> \<not> is_digit c \<and> c \<notin> {42, 46} \<and> c \<notin> fst ` set flag_bits \<and> c \<noteq> 108 \<and> c \<noteq> 76"
  by (auto simp: conversions_def is_digit_def flag_bits_def)

lemma ee_vsprintf_piece:
  assumes "wf_piece p"
  shows "ee_vsprintf (piece_fmt p @ rest) (piece_args p @ args) = map_option ((@) (piece_out p)) (ee_vsprintf rest args)"
proof (cases p)
  case (Lit c)
  moreover have "(@) [c] = (#) c" by (rule ext) simp
  ultimately show ?thesis using assms by simp
next
  case Percent
  then show ?thesis
    by (simp add: directive_def parse_width_def parse_precision_def convert_def is_digit_def Let_def)
next
  case (Num fls ws ps long c v)
  let ?rest = "(if long then [108] else []) @ c # rest"
  have "wf_spec fls ws ps" "c \<in> fst ` set conversions" using assms Num by simp_all
  then have "directive (spec_text fls ws ps @ ?rest) (AWord v # args) = Some (piece_out p, rest, args)"
    using conversion_char [of c] Num
    by (subst directive_spec) (auto simp: Let_def convert_integer flag_bits_def split: prod.splits)
  then show ?thesis using ee_vsprintf_directive Num by simp
next
  case (Str fls ws ps s)
  have "wf_spec fls ws ps" "0 \<notin> set s" "length s < 2 ^ 32" using assms Str by simp_all
  then have "directive (spec_text fls ws ps @ 115 # rest) (AStr (Some s) # args) = Some (piece_out p, rest, args)"
    using Str by (subst directive_spec) (auto simp: Let_def convert_string flag_bits_def wf_spec_def)
  then show ?thesis using ee_vsprintf_directive Str by simp
qed

section \<open>Properties\<close>

text \<open>
  an integer in a base from 2 to 36 is printed as sign, base prefix, the zeros the precision asks
  for and its digits, padded to the field width on the side the flags select; the digits denote the
  number (its absolute value for a signed conversion, the most negative one included) and all are
  below the base.
\<close>
theorem number_correct:
  assumes "2 \<le> base" "base \<le> 36"
  shows "number num base sz precision ty = Some (number_text num (unat base) sz precision ty)
    \<and> foldl (\<lambda>v d. v * unat base + d) 0 (digits_of (unat base) (magnitude num ty)) = magnitude num ty
    \<and> list_all (\<lambda>d. d < unat base) (digits_of (unat base) (magnitude num ty))"
proof -
  have "2 \<le> unat base" using assms(1) by (simp add: word_le_nat_alt)
  then show ?thesis
    using number_eq [OF assms] digits_of_value digits_of_bound [of "unat base"] by (simp add: list_all_iff)
qed

theorem number_correct_witness:
  "number 0xffffff85 10 8 5 (SIGN OR LEFT) = Some (number_text 0xffffff85 (unat (10 :: u32)) 8 5 (SIGN OR LEFT))
    \<and> foldl (\<lambda>v d. v * unat (10 :: u32) + d) 0 (digits_of (unat (10 :: u32)) (magnitude 0xffffff85 (SIGN OR LEFT))) = magnitude 0xffffff85 (SIGN OR LEFT)
    \<and> list_all (\<lambda>d. d < unat (10 :: u32)) (digits_of (unat (10 :: u32)) (magnitude 0xffffff85 (SIGN OR LEFT)))"
  by (rule number_correct) simp_all

text \<open>
  C18: the formatter renders every well-formed format: literal bytes are copied, a doubled percent
  sign is one, and every integer and string directive with its flags, width, precision and
  qualifier produces the text it stands for, consuming its argument.
\<close>
theorem ee_vsprintf_correct:
  assumes "list_all wf_piece ps"
  shows "ee_vsprintf (concat (map piece_fmt ps)) (concat (map piece_args ps)) = Some (concat (map piece_out ps))"
  using assms by (induction ps) (simp_all add: ee_vsprintf_piece)

theorem ee_vsprintf_correct_witness:
  "ee_vsprintf (concat (map piece_fmt [Lit 120, Num [45, 43] [56] (Some [51]) True 100 7, Percent, Str [] [53] None [97, 98]]))
     (concat (map piece_args [Lit 120, Num [45, 43] [56] (Some [51]) True 100 7, Percent, Str [] [53] None [97, 98]]))
   = Some (concat (map piece_out [Lit 120, Num [45, 43] [56] (Some [51]) True 100 7, Percent, Str [] [53] None [97, 98]]))"
  by (rule ee_vsprintf_correct)
    (simp add: wf_spec_def flag_bits_def conversions_def is_digit_def decimal_def)

end
