(* ===== verification/Coremark_Util.thy ===== *)
theory Coremark_Util
  imports Prelude
begin

text \<open>
  CRC and parsing helpers of the benchmark: \<open>software-test/coremark/core_util.c\<close>.

  \<open>ee_u8\<close>, \<open>ee_u16\<close>, \<open>ee_u32\<close> and their signed variants are words of that width, read
  with \<open>unat\<close> or \<open>sint\<close>.  The bitwise CRC is proved equal to the reflected CRC-16 with
  polynomial \<open>0xA001\<close> and to be linear.
\<close>

section \<open>Model\<close>

definition crcu8_round :: "u8 \<times> u16 \<Rightarrow> u8 \<times> u16" where
  "crcu8_round s =
    (case s of (data, crc) \<Rightarrow>
      let x16 = (data AND 1) XOR (ucast crc AND 1);
          data = drop_bit 1 data;
          carry = (x16 = 1);
          crc = (if x16 = 1 then crc XOR 0x4002 else crc);
          crc = drop_bit 1 crc
      in (data, if carry then crc OR 0x8000 else crc AND 0x7fff))"

definition crcu8 :: "u8 \<Rightarrow> u16 \<Rightarrow> u16" where
  "crcu8 data crc = snd ((crcu8_round ^^ 8) (data, crc))"

definition crcu16 :: "u16 \<Rightarrow> u16 \<Rightarrow> u16" where
  "crcu16 newval crc =
    (let crc = crcu8 (ucast newval) crc
     in crcu8 (ucast (drop_bit 8 newval)) crc)"

definition crc16 :: "u16 \<Rightarrow> u16 \<Rightarrow> u16" where
  "crc16 newval crc = crcu16 newval crc"

definition crcu32 :: "u32 \<Rightarrow> u16 \<Rightarrow> u16" where
  "crcu32 newval crc =
    (let crc = crc16 (ucast newval) crc
     in crc16 (ucast (drop_bit 16 newval)) crc)"

definition get_seed_32 :: "u32 list \<Rightarrow> int \<Rightarrow> u32" where
  "get_seed_32 volatiles i = (if 1 \<le> i \<and> i \<le> 5 then volatiles ! nat (i - 1) else 0)"

fun parse_hex :: "u8 list \<Rightarrow> u32 \<Rightarrow> u32 \<times> u8 list" where
  "parse_hex [] r = (r, [])"
| "parse_hex (c # s) r =
    (if (48 \<le> c \<and> c \<le> 57) \<or> (97 \<le> c \<and> c \<le> 102) then
       let digit = (ucast c :: u32) - 48;
           digit = (if 9 < digit then 10 + ucast c - 97 else digit)
       in parse_hex s (r * 16 + digit)
     else (r, c # s))"

fun parse_dec :: "u8 list \<Rightarrow> u32 \<Rightarrow> u32 \<times> u8 list" where
  "parse_dec [] r = (r, [])"
| "parse_dec (c # s) r =
    (if 48 \<le> c \<and> c \<le> 57 then parse_dec s (r * 10 + (ucast c - 48)) else (r, c # s))"

definition parseval :: "u8 list \<Rightarrow> u32" where
  "parseval valstring =
    (let (neg, s) = (case valstring of c # s \<Rightarrow> if c = 45 then (- 1, s) else (1, valstring) | [] \<Rightarrow> (1, valstring));
         (r, s) = (case s of a # b # s' \<Rightarrow> if a = 48 \<and> b = 120 then parse_hex s' 0 else parse_dec s 0 | _ \<Rightarrow> parse_dec s 0);
         r = (if s \<noteq> [] \<and> hd s = 75 then r * 1024 else r);
         r = (if s \<noteq> [] \<and> hd s = 77 then r * (1024 * 1024) else r)
     in r * neg)"

definition get_seed_args :: "int \<Rightarrow> u8 list list \<Rightarrow> u32" where
  "get_seed_args i argv = (if i < int (length argv) then parseval (argv ! nat i) else 0)"

definition check_data_types :: "nat \<Rightarrow> nat \<Rightarrow> nat \<Rightarrow> nat \<Rightarrow> nat \<Rightarrow> nat \<Rightarrow> nat \<Rightarrow> u8" where
  "check_data_types sz_u8 sz_u16 sz_s16 sz_s32 sz_u32 sz_ptr_int sz_ptr =
    (let retval = 0;
         retval = (if sz_u8 \<noteq> 1 then retval + 1 else retval);
         retval = (if sz_u16 \<noteq> 2 then retval + 1 else retval);
         retval = (if sz_s16 \<noteq> 2 then retval + 1 else retval);
         retval = (if sz_s32 \<noteq> 4 then retval + 1 else retval);
         retval = (if sz_u32 \<noteq> 4 then retval + 1 else retval)
     in if sz_ptr_int \<noteq> sz_ptr then retval + 1 else retval)"


section \<open>The reflected CRC\<close>

text \<open>One round of the textbook CRC-16 (reflected, polynomial \<open>0xA001\<close>).\<close>

definition crc_ref_round :: "u16 \<Rightarrow> u16" where
  "crc_ref_round r = drop_bit 1 r XOR (if odd r then 0xA001 else 0)"

lemma x16_iff: "(data AND 1) XOR (ucast (crc :: u16) AND 1) = (1 :: u8) \<longleftrightarrow> odd data \<noteq> odd crc"
proof -
  have "odd (ucast crc :: u8) \<longleftrightarrow> odd crc" by (simp add: bit_simps flip: bit_0)
  then show ?thesis unfolding and_one_eq mod_2_eq_odd by auto
qed

lemma crc_feedback: "drop_bit 1 ((crc :: u16) XOR 0x4002) OR 0x8000 = drop_bit 1 crc XOR 0xA001"
proof -
  have "drop_bit 1 (crc XOR 0x4002) = drop_bit 1 crc XOR 0x2001" by (simp add: drop_bit_xor)
  moreover have "(drop_bit 1 crc XOR 0x2001) OR 0x8000 = (drop_bit 1 crc XOR 0x2001) XOR 0x8000"
  proof (rule bit_word_eqI)
    fix n :: nat assume "n < LENGTH(16)"
    have "\<not> (bit (drop_bit 1 crc) 15)" using bit_imp_le_length [of crc 16] by (auto simp: bit_simps)
    moreover have "(0x8000 :: u16) = push_bit 15 1" "(0x2001 :: u16) = push_bit 13 1 OR 1" by simp_all
    ultimately show "bit ((drop_bit 1 crc XOR 0x2001) OR 0x8000) n = bit ((drop_bit 1 crc XOR 0x2001) XOR 0x8000) n"
      by (simp only: bit_or_iff bit_xor_iff bit_push_bit_iff) (auto simp: bit_simps dest: bit_imp_le_length)
  qed
  moreover have "(drop_bit 1 crc XOR 0x2001) XOR 0x8000 = drop_bit 1 crc XOR 0xA001"
    by (simp add: xor.assoc)
  ultimately show ?thesis by simp
qed

lemma crc_no_feedback: "drop_bit 1 (crc :: u16) AND 0x7fff = drop_bit 1 crc"
proof -
  have m: "(0x7fff :: u16) = mask 15" by (simp add: mask_eq_decr_exp)
  show ?thesis
    unfolding m by (rule bit_word_eqI) (auto simp: bit_simps dest: bit_imp_le_length)
qed

lemma crcu8_round_eq:
  "crcu8_round (data, crc) = (drop_bit 1 data, drop_bit 1 crc XOR (if odd data \<noteq> odd crc then 0xA001 else 0))"
proof (cases "odd data \<noteq> odd crc")
  case True
  then show ?thesis
    unfolding crcu8_round_def prod.case Let_def x16_iff by (simp only: if_True simp_thms crc_feedback)
next
  case False
  then show ?thesis
    unfolding crcu8_round_def prod.case Let_def x16_iff
    by (simp only: if_False simp_thms crc_no_feedback xor.right_neutral)
qed

lemma crcu8_round_ref:
  "(case crcu8_round (data, crc) of (d, c) \<Rightarrow> c XOR ucast d) = crc_ref_round (crc XOR ucast data)"
proof -
  have "odd (crc XOR ucast data) \<longleftrightarrow> odd crc \<noteq> odd data" by (simp add: bit_simps flip: bit_0)
  moreover have "drop_bit 1 (crc XOR ucast data) = drop_bit 1 crc XOR ucast (drop_bit 1 data)"
    by (rule bit_word_eqI) (auto simp: bit_simps dest: bit_imp_le_length)
  ultimately show ?thesis
    unfolding crcu8_round_eq crc_ref_round_def prod.case by (auto simp: ac_simps)
qed

lemma crcu8_rounds:
  "(case (crcu8_round ^^ k) (data, crc) of (d, c) \<Rightarrow> c XOR ucast d) = (crc_ref_round ^^ k) (crc XOR ucast data)
    \<and> fst ((crcu8_round ^^ k) (data, crc)) = drop_bit k data"
proof (induction k)
  case (Suc k)
  obtain d c where s: "(crcu8_round ^^ k) (data, crc) = (d, c)" by fastforce
  have "fst (crcu8_round (d, c)) = drop_bit 1 d" by (simp add: crcu8_round_eq)
  then show ?case using Suc s crcu8_round_ref [of d c] by (auto split: prod.splits)
qed simp

lemma crcu8_eq: "crcu8 data crc = (crc_ref_round ^^ 8) (crc XOR ucast data)"
proof -
  obtain d c where s: "(crcu8_round ^^ 8) (data, crc) = (d, c)" by fastforce
  have "drop_bit 8 data = 0" by (rule bit_word_eqI) (simp add: bit_simps)
  then show ?thesis using crcu8_rounds [of 8 data crc] s by (auto simp: crcu8_def)
qed

text \<open>The rounds are linear over exclusive or.\<close>

lemma crc_ref_round_xor: "crc_ref_round (x XOR y) = crc_ref_round x XOR crc_ref_round y"
proof -
  have "odd (x XOR y) \<longleftrightarrow> odd x \<noteq> odd y" by (simp add: bit_simps flip: bit_0)
  then show ?thesis by (auto simp: crc_ref_round_def drop_bit_xor ac_simps)
qed

lemma crc_ref_rounds_xor: "(crc_ref_round ^^ k) (x XOR y) = (crc_ref_round ^^ k) x XOR (crc_ref_round ^^ k) y"
  by (induction k) (simp_all add: crc_ref_round_xor)

lemma crcu8_xor: "crcu8 (a XOR b) (c XOR d) = crcu8 a c XOR crcu8 b d"
proof -
  have "(c XOR d) XOR ucast (a XOR b) = (c XOR ucast a) XOR (d XOR ucast b)"
    by (rule bit_word_eqI) (auto simp: bit_simps)
  then show ?thesis by (simp add: crcu8_eq crc_ref_rounds_xor)
qed

lemma crcu16_xor: "crcu16 (a XOR b) (c XOR d) = crcu16 a c XOR crcu16 b d"
proof -
  have "ucast (a XOR b) = (ucast a XOR ucast b :: u8)"
    "ucast (drop_bit 8 (a XOR b)) = (ucast (drop_bit 8 a) XOR ucast (drop_bit 8 b) :: u8)"
    by (rule bit_word_eqI, auto simp: bit_simps)+
  then show ?thesis by (simp add: crcu16_def Let_def crcu8_xor)
qed

section \<open>Properties\<close>

text \<open>
  C15: the byte CRC is the standard reflected CRC-16 with polynomial \<open>0xA001\<close>: eight rounds of
  shift and conditional exclusive or on the CRC combined with the byte; and the word and double
  word CRCs are linear, so that the CRC of a difference is the difference of the CRCs.
\<close>
theorem crc_correct:
  "crcu8 data crc = ((\<lambda>r. drop_bit 1 r XOR (if odd r then 0xA001 else 0)) ^^ 8) (crc XOR ucast data)
   \<and> crcu16 (a XOR b) (c XOR d) = crcu16 a c XOR crcu16 b d
   \<and> crcu32 (x XOR y) (c XOR d) = crcu32 x c XOR crcu32 y d"
proof -
  have r: "crc_ref_round = (\<lambda>r. drop_bit 1 r XOR (if odd r then 0xA001 else 0))"
    by (rule ext) (rule crc_ref_round_def)
  have "ucast (x XOR y) = (ucast x XOR ucast y :: u16)"
    "ucast (drop_bit 16 (x XOR y)) = (ucast (drop_bit 16 x) XOR ucast (drop_bit 16 y) :: u16)"
    by (rule bit_word_eqI, auto simp: bit_simps)+
  then have "crcu32 (x XOR y) (c XOR d) = crcu32 x c XOR crcu32 y d"
    by (simp add: crcu32_def crc16_def Let_def crcu16_xor)
  then show ?thesis using crcu8_eq [of data crc] crcu16_xor [of a b c d] by (simp only: r)
qed

end
