(* ===== verification/Coremark_State.thy ===== *)
theory Coremark_State
  imports Coremark_Util
begin

text \<open>
  The state machine kernel of the benchmark: \<open>software-test/coremark/core_state.c\<close>.

  The scanner reads a block of bytes: the input pointer is the list of the bytes from it to the end
  of the block, and reading past the end is \<open>None\<close>.  The counters are lists indexed by state.
  The classification the scanner makes is proved against the grammar of the numbers it recognises.
\<close>

section \<open>Model\<close>

datatype core_state = CORE_START | CORE_INVALID | CORE_S1 | CORE_S2 | CORE_INT | CORE_FLOAT
  | CORE_EXPONENT | CORE_SCIENTIFIC

fun state_index :: "core_state \<Rightarrow> nat" where
  "state_index CORE_START = 0"
| "state_index CORE_INVALID = 1"
| "state_index CORE_S1 = 2"
| "state_index CORE_S2 = 3"
| "state_index CORE_INT = 4"
| "state_index CORE_FLOAT = 5"
| "state_index CORE_EXPONENT = 6"
| "state_index CORE_SCIENTIFIC = 7"

abbreviation (input) NUM_CORE_STATES :: nat where "NUM_CORE_STATES \<equiv> 8"

definition count :: "core_state \<Rightarrow> u32 list \<Rightarrow> u32 list" where
  "count st cn = cn[state_index st := cn ! state_index st + 1]"

definition ee_isdigit :: "u8 \<Rightarrow> bool" where
  "ee_isdigit c \<longleftrightarrow> 48 \<le> c \<and> c \<le> 57"

fun state_step :: "core_state \<Rightarrow> u8 \<Rightarrow> u32 list \<Rightarrow> core_state \<times> u32 list" where
  "state_step CORE_START c cn =
    (if ee_isdigit c then (CORE_INT, count CORE_START cn)
     else if c = 43 \<or> c = 45 then (CORE_S1, count CORE_START cn)
     else if c = 46 then (CORE_FLOAT, count CORE_START cn)
     else (CORE_INVALID, count CORE_START (count CORE_INVALID cn)))"
| "state_step CORE_S1 c cn =
    (if ee_isdigit c then (CORE_INT, count CORE_S1 cn)
     else if c = 46 then (CORE_FLOAT, count CORE_S1 cn)
     else (CORE_INVALID, count CORE_S1 cn))"
| "state_step CORE_INT c cn =
    (if c = 46 then (CORE_FLOAT, count CORE_INT cn)
     else if \<not> ee_isdigit c then (CORE_INVALID, count CORE_INT cn)
     else (CORE_INT, cn))"
| "state_step CORE_FLOAT c cn =
    (if c = 69 \<or> c = 101 then (CORE_S2, count CORE_FLOAT cn)
     else if \<not> ee_isdigit c then (CORE_INVALID, count CORE_FLOAT cn)
     else (CORE_FLOAT, cn))"
| "state_step CORE_S2 c cn =
    (if c = 43 \<or> c = 45 then (CORE_EXPONENT, count CORE_S2 cn)
     else (CORE_INVALID, count CORE_S2 cn))"
| "state_step CORE_EXPONENT c cn =
    (if ee_isdigit c then (CORE_SCIENTIFIC, count CORE_EXPONENT cn)
     else (CORE_INVALID, count CORE_EXPONENT cn))"
| "state_step CORE_SCIENTIFIC c cn =
    (if \<not> ee_isdigit c then (CORE_INVALID, count CORE_INVALID cn)
     else (CORE_SCIENTIFIC, cn))"
| "state_step CORE_INVALID c cn = (CORE_INVALID, cn)"

fun transition_loop :: "u8 list \<Rightarrow> core_state \<Rightarrow> u32 list \<Rightarrow> (core_state \<times> u8 list \<times> u32 list) option" where
  "transition_loop [] state cn = None"
| "transition_loop (c # str) state cn =
    (if c \<noteq> 0 \<and> state \<noteq> CORE_INVALID then
       if c = 44 then Some (state, str, cn)
       else (case state_step state c cn of (state, cn) \<Rightarrow> transition_loop str state cn)
     else Some (state, c # str, cn))"

definition core_state_transition :: "u8 list \<Rightarrow> u32 list \<Rightarrow> (core_state \<times> u8 list \<times> u32 list) option" where
  "core_state_transition instr cn = transition_loop instr CORE_START cn"

lemma transition_loop_shorter:
  "transition_loop str state cn = Some (st, rest, cn') \<Longrightarrow> length rest \<le> length str"
proof (induction str arbitrary: state cn)
  case (Cons c str)
  then show ?case by (fastforce split: if_splits prod.splits)
qed simp

lemma core_state_transition_consumes:
  assumes "core_state_transition (c # str) cn = Some (st, rest, cn')" "c \<noteq> 0"
  shows "length rest < length (c # str)"
  using assms transition_loop_shorter [of str _ _ st rest cn']
  by (auto simp: core_state_transition_def less_Suc_eq_le split: if_splits prod.splits)

text \<open>One pass of the benchmark over the input, counting final states and transitions.\<close>

function scan_loop :: "u8 list \<Rightarrow> u32 list \<Rightarrow> u32 list \<Rightarrow> (u32 list \<times> u32 list) option" where
  "scan_loop [] final track = None"
| "scan_loop (c # p) final track =
    (if c = 0 then Some (final, track)
     else case core_state_transition (c # p) track of
            None \<Rightarrow> None
          | Some (fstate, p', track) \<Rightarrow> scan_loop p' (count fstate final) track)"
  by pat_completeness auto
termination
  by (relation "measure (\<lambda>(p, final, track). length p)") (auto dest: core_state_transition_consumes)

partial_function (option) corrupt_loop :: "u8 \<Rightarrow> nat \<Rightarrow> nat \<Rightarrow> nat \<Rightarrow> u8 list \<Rightarrow> u8 list option" where
  "corrupt_loop seed step blksize p mem =
    (if p < blksize then
       (if p < length mem then
          corrupt_loop seed step blksize (p + step) (if mem ! p \<noteq> 44 then mem[p := mem ! p XOR seed] else mem)
        else None)
     else Some mem)"

definition core_bench_state :: "nat \<Rightarrow> u8 list \<Rightarrow> u16 \<Rightarrow> u16 \<Rightarrow> nat \<Rightarrow> u16 \<Rightarrow> (u16 \<times> u8 list) option" where
  "core_bench_state blksize memblock seed1 seed2 step crc =
    (let final = replicate NUM_CORE_STATES 0; track = replicate NUM_CORE_STATES 0 in
     case scan_loop memblock final track of
       None \<Rightarrow> None
     | Some (final, track) \<Rightarrow>
        (case corrupt_loop (ucast seed1) step blksize 0 memblock of
           None \<Rightarrow> None
         | Some memblock \<Rightarrow>
            (case scan_loop memblock final track of
               None \<Rightarrow> None
             | Some (final, track) \<Rightarrow>
                (case corrupt_loop (ucast seed2) step blksize 0 memblock of
                   None \<Rightarrow> None
                 | Some memblock \<Rightarrow>
                    Some (fold (\<lambda>i crc. crcu32 (track ! i) (crcu32 (final ! i) crc)) [0..<NUM_CORE_STATES] crc, memblock)))))"

definition intpat :: "u8 list list" where
  "intpat = [[53, 48, 49, 50], [49, 50, 51, 52], [45, 56, 55, 52], [43, 49, 50, 50]]"

definition floatpat :: "u8 list list" where
  "floatpat = [[51, 53, 46, 53, 52, 52, 48, 48], [46, 49, 50, 51, 52, 53, 48, 48],
    [45, 49, 49, 48, 46, 55, 48, 48], [43, 48, 46, 54, 52, 52, 48, 48]]"

definition scipat :: "u8 list list" where
  "scipat = [[53, 46, 53, 48, 48, 101, 43, 51], [45, 46, 49, 50, 51, 101, 45, 50],
    [45, 56, 55, 101, 43, 56, 51, 50], [43, 48, 46, 54, 101, 45, 49, 50]]"

definition errpat :: "u8 list list" where
  "errpat = [[84, 48, 46, 51, 101, 45, 49, 70], [45, 84, 46, 84, 43, 43, 84, 113],
    [49, 84, 51, 46, 52, 101, 52, 122], [51, 52, 46, 48, 101, 45, 84, 94]]"

definition pick_pattern :: "u16 \<Rightarrow> u8 list" where
  "pick_pattern seed =
    (let k = seed AND 7; q = unat (signed_drop_bit 3 seed AND 3) in
     if k = 0 \<or> k = 1 \<or> k = 2 then intpat ! q
     else if k = 3 \<or> k = 4 then floatpat ! q
     else if k = 5 \<or> k = 6 then scipat ! q
     else errpat ! q)"

text \<open>The loop of \<open>core_init_state\<close>; \<open>buf\<close> is the pending pattern, of length \<open>next\<close>.\<close>

definition put_at :: "nat \<Rightarrow> u8 list \<Rightarrow> u8 list \<Rightarrow> u8 list" where
  "put_at i bs p = take i p @ bs @ drop (i + length bs) p"

lemma pick_pattern_nonempty [simp]: "pick_pattern seed \<noteq> []"
proof -
  have "unat (signed_drop_bit 3 seed AND 3) < 4"
    using unat_and_mask [of "signed_drop_bit 3 seed" 2] by (simp add: mask_eq_decr_exp)
  then have "unat (signed_drop_bit 3 seed AND 3) \<in> {0, 1, 2, 3}" by auto
  then show ?thesis by (auto simp: pick_pattern_def intpat_def floatpat_def scipat_def errpat_def Let_def)
qed

lemma pick_pattern_length [simp]: "0 < length (pick_pattern seed)"
  using pick_pattern_nonempty by simp

function init_state_loop :: "nat \<Rightarrow> nat \<Rightarrow> u8 list \<Rightarrow> u16 \<Rightarrow> u8 list \<Rightarrow> nat \<times> u8 list" where
  "init_state_loop sz tot buf seed p =
    (if tot + length buf + 1 < sz then
       let (tot, p) = (if 0 < length buf then (tot + length buf + 1, put_at tot (buf @ [44]) p) else (tot, p));
           seed = seed + 1
       in init_state_loop sz tot (pick_pattern seed) seed p
     else (tot, p))"
  by pat_completeness auto
termination
  by (relation "measure (\<lambda>(sz, tot, buf, seed, p). sz - (tot + length buf))")
    (auto simp: Let_def split: if_splits intro!: diff_less_mono2)

definition core_init_state :: "nat \<Rightarrow> u16 \<Rightarrow> u8 list \<Rightarrow> u8 list" where
  "core_init_state sz seed p =
    (case init_state_loop (sz - 1) 0 [] seed p of
       (tot, p) \<Rightarrow> put_at tot (replicate (sz - tot) 0) p)"


section \<open>What the scanner recognises\<close>

definition delta :: "core_state \<Rightarrow> u8 \<Rightarrow> core_state" where
  "delta st c = fst (state_step st c [])"

lemma fst_state_step: "fst (state_step st c cn) = delta st c"
  by (cases st) (simp_all add: delta_def)

lemma delta_INVALID [simp]: "delta CORE_INVALID c = CORE_INVALID"
  by (simp add: delta_def)

lemma foldl_INVALID [simp]: "foldl delta CORE_INVALID w = CORE_INVALID"
  by (induction w) simp_all

definition is_sign :: "u8 list \<Rightarrow> bool" where
  "is_sign s \<longleftrightarrow> s = [] \<or> s = [43] \<or> s = [45]"

text \<open>The inputs that lead to each state, as a grammar.\<close>

definition lang_S1 :: "u8 list \<Rightarrow> bool" where
  "lang_S1 w \<longleftrightarrow> w = [43] \<or> w = [45]"

definition lang_INT :: "u8 list \<Rightarrow> bool" where
  "lang_INT w \<longleftrightarrow> (\<exists>s d. w = s @ d \<and> is_sign s \<and> d \<noteq> [] \<and> list_all ee_isdigit d)"

definition lang_FLOAT :: "u8 list \<Rightarrow> bool" where
  "lang_FLOAT w \<longleftrightarrow> (\<exists>s d f. w = s @ d @ 46 # f \<and> is_sign s \<and> list_all ee_isdigit d \<and> list_all ee_isdigit f)"

definition lang_S2 :: "u8 list \<Rightarrow> bool" where
  "lang_S2 w \<longleftrightarrow> (\<exists>v e. w = v @ [e] \<and> lang_FLOAT v \<and> (e = 69 \<or> e = 101))"

definition lang_EXPONENT :: "u8 list \<Rightarrow> bool" where
  "lang_EXPONENT w \<longleftrightarrow> (\<exists>v s. w = v @ [s] \<and> lang_S2 v \<and> (s = 43 \<or> s = 45))"

definition lang_SCIENTIFIC :: "u8 list \<Rightarrow> bool" where
  "lang_SCIENTIFIC w \<longleftrightarrow> (\<exists>v d. w = v @ d \<and> lang_EXPONENT v \<and> d \<noteq> [] \<and> list_all ee_isdigit d)"

fun lang :: "core_state \<Rightarrow> u8 list \<Rightarrow> bool" where
  "lang CORE_START w \<longleftrightarrow> w = []"
| "lang CORE_S1 w \<longleftrightarrow> lang_S1 w"
| "lang CORE_INT w \<longleftrightarrow> lang_INT w"
| "lang CORE_FLOAT w \<longleftrightarrow> lang_FLOAT w"
| "lang CORE_S2 w \<longleftrightarrow> lang_S2 w"
| "lang CORE_EXPONENT w \<longleftrightarrow> lang_EXPONENT w"
| "lang CORE_SCIENTIFIC w \<longleftrightarrow> lang_SCIENTIFIC w"
| "lang CORE_INVALID w \<longleftrightarrow> False"

lemma lang_INT_snoc:
  "lang_INT (w @ [c]) \<longleftrightarrow> ee_isdigit c \<and> (w = [] \<or> lang_S1 w \<or> lang_INT w)"
proof
  assume "lang_INT (w @ [c])"
  then obtain s d where d: "w @ [c] = s @ d" "is_sign s" "d \<noteq> []" "list_all ee_isdigit d" by (auto simp: lang_INT_def)
  obtain d' x where x: "d = d' @ [x]" using d(3) by (cases d rule: rev_cases) auto
  then have "w = s @ d'" "x = c" using d(1) by auto
  then show "ee_isdigit c \<and> (w = [] \<or> lang_S1 w \<or> lang_INT w)"
    using d x by (cases "d' = []") (auto simp: is_sign_def lang_S1_def lang_INT_def)
next
  assume a: "ee_isdigit c \<and> (w = [] \<or> lang_S1 w \<or> lang_INT w)"
  then consider "is_sign w" | "lang_INT w" by (auto simp: is_sign_def lang_S1_def)
  then show "lang_INT (w @ [c])"
  proof cases
    case 1
    then show ?thesis using a unfolding lang_INT_def by (intro exI [of _ w] exI [of _ "[c]"]) simp
  next
    case 2
    then obtain s d where "w = s @ d" "is_sign s" "d \<noteq> []" "list_all ee_isdigit d" by (auto simp: lang_INT_def)
    then show ?thesis using a unfolding lang_INT_def by (intro exI [of _ s] exI [of _ "d @ [c]"]) simp
  qed
qed

lemma lang_FLOAT_snoc:
  "lang_FLOAT (w @ [c]) \<longleftrightarrow> (c = 46 \<and> (w = [] \<or> lang_S1 w \<or> lang_INT w)) \<or> (ee_isdigit c \<and> lang_FLOAT w)"
proof
  assume "lang_FLOAT (w @ [c])"
  then obtain s d f where d: "w @ [c] = s @ d @ 46 # f" "is_sign s" "list_all ee_isdigit d" "list_all ee_isdigit f"
    by (auto simp: lang_FLOAT_def)
  show "(c = 46 \<and> (w = [] \<or> lang_S1 w \<or> lang_INT w)) \<or> (ee_isdigit c \<and> lang_FLOAT w)"
  proof (cases f rule: rev_cases)
    case Nil
    then have "w = s @ d" "c = 46" using d(1) by (metis append_assoc append1_eq_conv)+
    then show ?thesis using d by (cases "d = []") (auto simp: is_sign_def lang_S1_def lang_INT_def)
  next
    case (snoc f' x)
    then have "w @ [c] = (s @ d @ 46 # f') @ [x]" using d(1) by simp
    then have "w = s @ d @ 46 # f'" "x = c" by (simp_all only: append1_eq_conv)
    then show ?thesis using d snoc by (auto simp: lang_FLOAT_def)
  qed
next
  assume "(c = 46 \<and> (w = [] \<or> lang_S1 w \<or> lang_INT w)) \<or> (ee_isdigit c \<and> lang_FLOAT w)"
  then consider "c = 46" "is_sign w" | "c = 46" "lang_INT w" | "ee_isdigit c" "lang_FLOAT w"
    by (auto simp: is_sign_def lang_S1_def)
  then show "lang_FLOAT (w @ [c])"
  proof cases
    case 1
    then show ?thesis unfolding lang_FLOAT_def by (intro exI [of _ w] exI [of _ "[]"]) simp
  next
    case 2
    then obtain s d where "w = s @ d" "is_sign s" "list_all ee_isdigit d" by (auto simp: lang_INT_def)
    then show ?thesis using 2 unfolding lang_FLOAT_def by (intro exI [of _ s] exI [of _ d] exI [of _ "[]"]) simp
  next
    case 3
    then obtain s d f where "w = s @ d @ 46 # f" "is_sign s" "list_all ee_isdigit d" "list_all ee_isdigit f"
      by (auto simp: lang_FLOAT_def)
    then show ?thesis using 3 unfolding lang_FLOAT_def
      by (intro exI [of _ s] exI [of _ d] exI [of _ "f @ [c]"]) simp
  qed
qed

lemma lang_SCIENTIFIC_snoc:
  "lang_SCIENTIFIC (w @ [c]) \<longleftrightarrow> ee_isdigit c \<and> (lang_EXPONENT w \<or> lang_SCIENTIFIC w)"
proof
  assume "lang_SCIENTIFIC (w @ [c])"
  then obtain v d where d: "w @ [c] = v @ d" "lang_EXPONENT v" "d \<noteq> []" "list_all ee_isdigit d"
    by (auto simp: lang_SCIENTIFIC_def)
  obtain d' x where x: "d = d' @ [x]" using d(3) by (cases d rule: rev_cases) auto
  then have "w = v @ d'" "x = c" using d(1) by auto
  then show "ee_isdigit c \<and> (lang_EXPONENT w \<or> lang_SCIENTIFIC w)"
    using d x by (cases "d' = []") (auto simp: lang_SCIENTIFIC_def)
next
  assume a: "ee_isdigit c \<and> (lang_EXPONENT w \<or> lang_SCIENTIFIC w)"
  then show "lang_SCIENTIFIC (w @ [c])"
  proof (cases "lang_EXPONENT w")
    case True
    then show ?thesis using a unfolding lang_SCIENTIFIC_def by (intro exI [of _ w] exI [of _ "[c]"]) simp
  next
    case False
    then obtain v d where "w = v @ d" "lang_EXPONENT v" "d \<noteq> []" "list_all ee_isdigit d"
      using a by (auto simp: lang_SCIENTIFIC_def)
    then show ?thesis using a unfolding lang_SCIENTIFIC_def by (intro exI [of _ v] exI [of _ "d @ [c]"]) simp
  qed
qed

lemma lang_S1_snoc: "lang_S1 (w @ [c]) \<longleftrightarrow> w = [] \<and> (c = 43 \<or> c = 45)"
  by (auto simp: lang_S1_def)

lemma lang_S2_snoc: "lang_S2 (w @ [c]) \<longleftrightarrow> lang_FLOAT w \<and> (c = 69 \<or> c = 101)"
  by (auto simp: lang_S2_def)

lemma lang_EXPONENT_snoc: "lang_EXPONENT (w @ [c]) \<longleftrightarrow> lang_S2 w \<and> (c = 43 \<or> c = 45)"
  by (auto simp: lang_EXPONENT_def)

lemmas lang_snoc = lang_S1_snoc lang_INT_snoc lang_FLOAT_snoc lang_S2_snoc lang_EXPONENT_snoc lang_SCIENTIFIC_snoc

lemma lang_empty: "\<not> lang_S1 []" "\<not> lang_INT []" "\<not> lang_FLOAT []" "\<not> lang_S2 []" "\<not> lang_EXPONENT []" "\<not> lang_SCIENTIFIC []"
  by (auto simp: lang_S1_def lang_INT_def lang_FLOAT_def lang_S2_def lang_EXPONENT_def lang_SCIENTIFIC_def)

lemma digit_not_punct: "ee_isdigit c \<Longrightarrow> c \<noteq> 43 \<and> c \<noteq> 45 \<and> c \<noteq> 46 \<and> c \<noteq> 69 \<and> c \<noteq> 101 \<and> c \<noteq> 44 \<and> c \<noteq> 0"
  by (auto simp: ee_isdigit_def)

lemma foldl_lang: "st \<noteq> CORE_INVALID \<Longrightarrow> foldl delta CORE_START w = st \<longleftrightarrow> lang st w"
proof (induction w arbitrary: st rule: rev_induct)
  case Nil
  then show ?case by (cases st) (auto simp: lang_empty)
next
  case (snoc c w)
  have f: "foldl delta CORE_START (w @ [c]) = delta (foldl delta CORE_START w) c" by simp
  have IH: "foldl delta CORE_START w = CORE_START \<longleftrightarrow> w = []" "foldl delta CORE_START w = CORE_S1 \<longleftrightarrow> lang_S1 w"
    "foldl delta CORE_START w = CORE_INT \<longleftrightarrow> lang_INT w" "foldl delta CORE_START w = CORE_FLOAT \<longleftrightarrow> lang_FLOAT w"
    "foldl delta CORE_START w = CORE_S2 \<longleftrightarrow> lang_S2 w" "foldl delta CORE_START w = CORE_EXPONENT \<longleftrightarrow> lang_EXPONENT w"
    "foldl delta CORE_START w = CORE_SCIENTIFIC \<longleftrightarrow> lang_SCIENTIFIC w"
    using snoc.IH [of CORE_START] snoc.IH [of CORE_S1] snoc.IH [of CORE_INT] snoc.IH [of CORE_FLOAT]
      snoc.IH [of CORE_S2] snoc.IH [of CORE_EXPONENT] snoc.IH [of CORE_SCIENTIFIC] by simp_all
  show ?case
    unfolding f using snoc.prems
    by (cases "foldl delta CORE_START w"; cases st)
      (simp_all add: lang_snoc IH [symmetric] delta_def digit_not_punct, (auto dest: digit_not_punct)?)
qed

lemma transition_loop_step:
  assumes "c \<noteq> 0" "c \<noteq> 44" "st \<noteq> CORE_INVALID"
  shows "transition_loop (c # str) st cn = transition_loop str (delta st c) (snd (state_step st c cn))"
  using assms fst_state_step [of st c cn] by (cases "state_step st c cn") simp

lemma transition_loop_invalid: "transition_loop (c # str) CORE_INVALID cn = Some (CORE_INVALID, c # str, cn)"
  by simp

lemma transition_loop_valid_token:
  "0 \<notin> set w \<Longrightarrow> 44 \<notin> set w \<Longrightarrow> foldl delta st w \<noteq> CORE_INVALID \<Longrightarrow>
   \<exists>cn'. transition_loop (w @ 44 # rest) st cn = Some (foldl delta st w, rest, cn')"
proof (induction w arbitrary: st cn)
  case (Cons x w)
  then have "st \<noteq> CORE_INVALID" "x \<noteq> 0" "x \<noteq> 44" by auto
  then show ?case using Cons transition_loop_step [of x st "w @ 44 # rest" cn] by simp
qed simp

lemma transition_loop_invalid_token:
  "0 \<notin> set w \<Longrightarrow> 44 \<notin> set w \<Longrightarrow> st \<noteq> CORE_INVALID \<Longrightarrow> foldl delta st w = CORE_INVALID \<Longrightarrow>
   \<exists>u c v cn'. w = u @ c # v \<and> foldl delta st u \<noteq> CORE_INVALID
      \<and> foldl delta st (u @ [c]) = CORE_INVALID \<and> transition_loop (w @ 44 # rest) st cn = Some (CORE_INVALID, v @ 44 # rest, cn')"
proof (induction w arbitrary: st cn)
  case (Cons x w)
  have t: "transition_loop ((x # w) @ 44 # rest) st cn = transition_loop (w @ 44 # rest) (delta st x) (snd (state_step st x cn))"
    using Cons.prems transition_loop_step [of x st "w @ 44 # rest" cn] by simp
  show ?case
  proof (cases "delta st x = CORE_INVALID")
    case True
    have "transition_loop (w @ 44 # rest) CORE_INVALID cn' = Some (CORE_INVALID, w @ 44 # rest, cn')" for cn'
      by (cases w) simp_all
    then show ?thesis using Cons.prems True unfolding t by (intro exI [of _ "[] :: u8 list"] exI [of _ x] exI [of _ w]) simp
  next
    case False
    then obtain u c v cn' where "w = u @ c # v" "foldl delta (delta st x) u \<noteq> CORE_INVALID"
      "foldl delta (delta st x) (u @ [c]) = CORE_INVALID"
      "transition_loop (w @ 44 # rest) (delta st x) (snd (state_step st x cn)) = Some (CORE_INVALID, v @ 44 # rest, cn')"
      using Cons.IH [of "delta st x" "snd (state_step st x cn)"] Cons.prems by auto
    then show ?thesis unfolding t by (intro exI [of _ "x # u"] exI [of _ c] exI [of _ v]) simp
  qed
qed simp

section \<open>Corruption and its undoing\<close>

definition corrupt :: "u8 \<Rightarrow> u8 \<Rightarrow> u8" where
  "corrupt seed b = (if b \<noteq> 44 then b XOR seed else b)"

lemma corrupt_loop_eq:
  assumes "0 < step" "blksize \<le> length mem" "p < blksize + step"
  shows "corrupt_loop seed step blksize p mem =
    Some (map (\<lambda>i. if p \<le> i \<and> i < blksize \<and> step dvd (i - p) then corrupt seed (mem ! i) else mem ! i) [0..<length mem])"
  using assms(2,3)
proof (induction "blksize + step - p" arbitrary: p mem rule: less_induct)
  case less
  show ?case
  proof (cases "p < blksize")
    case False
    then have "map (\<lambda>i. if p \<le> i \<and> i < blksize \<and> step dvd (i - p) then corrupt seed (mem ! i) else mem ! i) [0..<length mem] = mem"
      by (intro nth_equalityI) auto
    then show ?thesis using False by (subst corrupt_loop.simps) simp
  next
    case True
    let ?mem = "mem[p := corrupt seed (mem ! p)]"
    have "corrupt_loop seed step blksize p mem = corrupt_loop seed step blksize (p + step) ?mem"
      using True less.prems(1) list_update_id [of mem p]
      by (subst corrupt_loop.simps) (auto simp: corrupt_def simp del: list_update_id)
    also have "\<dots> = Some (map (\<lambda>i. if p + step \<le> i \<and> i < blksize \<and> step dvd (i - (p + step))
        then corrupt seed (?mem ! i) else ?mem ! i) [0..<length ?mem])"
      by (rule less.hyps) (use True less.prems assms(1) in simp_all)
    also have "\<dots> = Some (map (\<lambda>i. if p \<le> i \<and> i < blksize \<and> step dvd (i - p) then corrupt seed (mem ! i) else mem ! i) [0..<length mem])"
    proof -
      have "(if p + step \<le> i \<and> i < blksize \<and> step dvd (i - (p + step)) then corrupt seed (?mem ! i) else ?mem ! i)
          = (if p \<le> i \<and> i < blksize \<and> step dvd (i - p) then corrupt seed (mem ! i) else mem ! i)" if "i < length mem" for i
      proof -
        consider "i < p" | "i = p" | "p < i" "i < p + step" | "p + step \<le> i" by linarith
        then show ?thesis
        proof cases
          case 3
          then have "\<not> step dvd (i - p)" by (auto dest: dvd_imp_le)
          then show ?thesis using 3 by simp
        next
          case 4
          then have "i - p = (i - (p + step)) + step" by simp
          then have "step dvd (i - (p + step)) \<longleftrightarrow> step dvd (i - p)" by simp
          then show ?thesis using 4 assms(1) by (simp add: nth_list_update)
        qed (use True less.prems(1) assms(1) in simp_all)
      qed
      then show ?thesis by simp
    qed
    finally show ?thesis .
  qed
qed

lemma corrupt_twice:
  assumes "b \<noteq> 44 \<Longrightarrow> b XOR seed \<noteq> 44"
  shows "corrupt seed (corrupt seed b) = b"
  using assms by (auto simp: corrupt_def xor.assoc)

section \<open>Properties\<close>

text \<open>
  C16: the scanner classifies numbers by their grammar.  For a token (no comma and no null) followed
  by a comma, \<open>core_state_transition\<close> ends in a state other than \<open>CORE_INVALID\<close> exactly when
  the token belongs to that state's language (integers, floats, floats with an exponent, and their
  unfinished forms), and then has consumed the token and its comma; otherwise it stops right after
  the first character that made the input invalid.
\<close>
theorem scanner_classifies:
  assumes "0 \<notin> set w" "44 \<notin> set w"
  shows "\<exists>st rest' cn'. core_state_transition (w @ 44 # rest) cn = Some (st, rest', cn')
    \<and> (st \<noteq> CORE_INVALID \<longrightarrow> lang st w \<and> rest' = rest)
    \<and> (st = CORE_INVALID \<longrightarrow> (\<forall>s. \<not> lang s w) \<and> (\<exists>u c v. w = u @ c # v \<and> (\<exists>s. lang s u)
        \<and> (\<forall>s. \<not> lang s (u @ [c])) \<and> rest' = v @ 44 # rest))"
proof -
  have L: "(foldl delta CORE_START x = CORE_INVALID) \<longleftrightarrow> (\<forall>s. \<not> lang s x)" for x
    using foldl_lang [of _ x] by (metis lang.simps(8))
  show ?thesis
  proof (cases "foldl delta CORE_START w = CORE_INVALID")
    case False
    then obtain cn' where "core_state_transition (w @ 44 # rest) cn = Some (foldl delta CORE_START w, rest, cn')"
      using transition_loop_valid_token [OF assms, of CORE_START rest cn] by (auto simp: core_state_transition_def)
    then show ?thesis using False foldl_lang [OF False] by blast
  next
    case True
    then obtain u c v cn' where u: "w = u @ c # v" "foldl delta CORE_START u \<noteq> CORE_INVALID"
      "foldl delta CORE_START (u @ [c]) = CORE_INVALID"
      "core_state_transition (w @ 44 # rest) cn = Some (CORE_INVALID, v @ 44 # rest, cn')"
      using transition_loop_invalid_token [OF assms, of CORE_START rest cn] by (auto simp: core_state_transition_def)
    then show ?thesis using True L [of w] L [of u] L [of "u @ [c]"] by blast
  qed
qed

theorem scanner_classifies_witness:
  "\<exists>st rest' cn'. core_state_transition ([49, 46, 53, 101, 43, 51] @ 44 # [0]) (replicate 8 0) = Some (st, rest', cn')
    \<and> (st \<noteq> CORE_INVALID \<longrightarrow> lang st [49, 46, 53, 101, 43, 51] \<and> rest' = [0])
    \<and> (st = CORE_INVALID \<longrightarrow> (\<forall>s. \<not> lang s [49, 46, 53, 101, 43, 51]) \<and> (\<exists>u c v. [49, 46, 53, 101, 43, 51] = u @ c # v \<and> (\<exists>s. lang s u)
        \<and> (\<forall>s. \<not> lang s (u @ [c])) \<and> rest' = v @ 44 # [0]))"
  by (rule scanner_classifies) simp_all

text \<open>
  the benchmark puts its input back: corrupting the block and then corrupting it again with the
  same seed restores every byte, provided no byte visited turns into a comma (commas are skipped,
  so such a byte would stay a comma).
\<close>
theorem corruption_undone:
  assumes "0 < step" "blksize \<le> length mem"
    and "\<And>i. i < blksize \<Longrightarrow> step dvd i \<Longrightarrow> mem ! i \<noteq> 44 \<Longrightarrow> mem ! i XOR seed \<noteq> 44"
  shows "\<exists>mem'. corrupt_loop seed step blksize 0 mem = Some mem' \<and> corrupt_loop seed step blksize 0 mem' = Some mem"
proof -
  define c where "c m = map (\<lambda>i. if 0 \<le> i \<and> i < blksize \<and> step dvd (i - 0) then corrupt seed (m ! i) else m ! i) [0..<length m]"
    for m
  have r: "corrupt_loop seed step blksize 0 m = Some (c m)" if "blksize \<le> length m" for m
    unfolding c_def using assms(1) that by (intro corrupt_loop_eq) simp_all
  have "c (c mem) = mem"
    using assms(3) by (intro nth_equalityI) (auto simp: c_def intro!: corrupt_twice)
  moreover have "length (c mem) = length mem" by (simp add: c_def)
  ultimately show ?thesis using r [OF assms(2)] r [of "c mem"] assms(2) by simp
qed

theorem corruption_undone_witness:
  "\<exists>mem'. corrupt_loop 0x15 2 5 0 [49, 44, 50, 51, 0] = Some mem' \<and> corrupt_loop 0x15 2 5 0 mem' = Some [49, 44, 50, 51, 0]"
proof (rule corruption_undone)
  fix i :: nat assume "i < 5"
  then consider "i = 0" | "i = 1" | "i = 2" | "i = 3" | "i = 4" by linarith
  then show "[49, 44, 50, 51, 0] ! i XOR 0x15 \<noteq> (44 :: u8)" by cases simp_all
qed simp_all

end
