(* ===== verification/Coremark_Matrix.thy ===== *)
theory Coremark_Matrix
  imports Coremark_Util "HOL-Library.Signed_Division"
begin

text \<open>
  The matrix kernels of the benchmark: \<open>software-test/coremark/core_matrix.c\<close>.

  \<open>MATDAT\<close> is a 16-bit and \<open>MATRES\<close> a 32-bit signed integer, both words here (\<open>scast\<close>
  widens, comparisons go through \<open>sint\<close>); an N by N matrix is a list of \<open>N * N\<close> elements, row
  by row, and the loops over rows and columns are folds over the index ranges in the order of
  the code.
\<close>

section \<open>Model\<close>

definition matrix_clip :: "u16 \<Rightarrow> bool \<Rightarrow> u16" where
  "matrix_clip x y = (if y then x AND 0x00ff else x AND 0xffff)"

definition matrix_big :: "u16 \<Rightarrow> u16" where
  "matrix_big x = 0xf000 OR x"

definition bit_extract :: "u32 \<Rightarrow> nat \<Rightarrow> nat \<Rightarrow> u32" where
  "bit_extract x from to = signed_drop_bit from x AND NOT (push_bit to 0xffffffff)"

definition align_mem :: "u32 \<Rightarrow> u32" where
  "align_mem x = 4 + ((x - 1) AND NOT 3)"

definition matrix_add_const :: "nat \<Rightarrow> u16 list \<Rightarrow> u16 \<Rightarrow> u16 list" where
  "matrix_add_const N A val =
    fold (\<lambda>i. fold (\<lambda>j A. A[i * N + j := A ! (i * N + j) + val]) [0..<N]) [0..<N] A"

definition matrix_mul_const :: "nat \<Rightarrow> u32 list \<Rightarrow> u16 list \<Rightarrow> u16 \<Rightarrow> u32 list" where
  "matrix_mul_const N C A val =
    fold (\<lambda>i. fold (\<lambda>j C. C[i * N + j := scast (A ! (i * N + j)) * scast val]) [0..<N]) [0..<N] C"

definition matrix_mul_vect :: "nat \<Rightarrow> u32 list \<Rightarrow> u16 list \<Rightarrow> u16 list \<Rightarrow> u32 list" where
  "matrix_mul_vect N C A B =
    fold (\<lambda>i C. fold (\<lambda>j C. C[i := C ! i + scast (A ! (i * N + j)) * scast (B ! j)]) [0..<N] (C[i := 0])) [0..<N] C"

definition matrix_mul_matrix :: "nat \<Rightarrow> u32 list \<Rightarrow> u16 list \<Rightarrow> u16 list \<Rightarrow> u32 list" where
  "matrix_mul_matrix N C A B =
    fold (\<lambda>i. fold (\<lambda>j C.
        fold (\<lambda>k C. C[i * N + j := C ! (i * N + j) + scast (A ! (i * N + k)) * scast (B ! (k * N + j))]) [0..<N]
          (C[i * N + j := 0])) [0..<N]) [0..<N] C"

definition matrix_mul_matrix_bitextract :: "nat \<Rightarrow> u32 list \<Rightarrow> u16 list \<Rightarrow> u16 list \<Rightarrow> u32 list" where
  "matrix_mul_matrix_bitextract N C A B =
    fold (\<lambda>i. fold (\<lambda>j C.
        fold (\<lambda>k C.
            let tmp = scast (A ! (i * N + k)) * scast (B ! (k * N + j))
            in C[i * N + j := C ! (i * N + j) + bit_extract tmp 2 4 * bit_extract tmp 5 7]) [0..<N]
          (C[i * N + j := 0])) [0..<N]) [0..<N] C"

definition matrix_sum_step :: "u16 \<Rightarrow> u32 \<Rightarrow> u32 \<times> u32 \<times> u16 \<Rightarrow> u32 \<times> u32 \<times> u16" where
  "matrix_sum_step clipval cur st =
    (case st of (tmp, prev, ret) \<Rightarrow>
      let tmp = tmp + cur in
      if sint clipval < sint tmp then (0, cur, ret + 10)
      else (tmp, cur, ret + (if sint prev < sint cur then 1 else 0)))"

definition matrix_sum :: "nat \<Rightarrow> u32 list \<Rightarrow> u16 \<Rightarrow> u16" where
  "matrix_sum N C clipval =
    snd (snd (fold (\<lambda>i. fold (\<lambda>j. matrix_sum_step clipval (C ! (i * N + j))) [0..<N]) [0..<N] (0, 0, 0)))"

text \<open>The result of the test and the matrices it leaves behind.\<close>

definition matrix_test :: "nat \<Rightarrow> u32 list \<Rightarrow> u16 list \<Rightarrow> u16 list \<Rightarrow> u16 \<Rightarrow> u16 \<times> u32 list \<times> u16 list" where
  "matrix_test N C A B val =
    (let crc = 0;
         clipval = matrix_big val;
         A = matrix_add_const N A val;
         C = matrix_mul_const N C A val;
         crc = crc16 (matrix_sum N C clipval) crc;
         C = matrix_mul_vect N C A B;
         crc = crc16 (matrix_sum N C clipval) crc;
         C = matrix_mul_matrix N C A B;
         crc = crc16 (matrix_sum N C clipval) crc;
         C = matrix_mul_matrix_bitextract N C A B;
         crc = crc16 (matrix_sum N C clipval) crc;
         A = matrix_add_const N A (- val)
     in (crc, C, A))"

record mat_params =
  mp_N :: nat
  mp_A :: "u16 list"
  mp_B :: "u16 list"
  mp_C :: "u32 list"

definition core_bench_matrix :: "mat_params \<Rightarrow> u16 \<Rightarrow> u16 \<Rightarrow> u16 \<times> mat_params" where
  "core_bench_matrix p seed crc =
    (case matrix_test (mp_N p) (mp_C p) (mp_A p) (mp_B p) seed of
       (r, C, A) \<Rightarrow> (crc16 r crc, p\<lparr>mp_C := C, mp_A := A\<rparr>))"

partial_function (option) matrix_dim_loop :: "u32 \<Rightarrow> u32 \<Rightarrow> u32 \<Rightarrow> u32 option" where
  "matrix_dim_loop blksize i j =
    (if j < blksize then let i = i + 1; j = i * i * 2 * 4 in matrix_dim_loop blksize i j else Some i)"

definition matrix_fill_step :: "nat \<Rightarrow> u32 \<times> u32 \<times> u16 list \<times> u16 list \<Rightarrow> u32 \<times> u32 \<times> u16 list \<times> u16 list" where
  "matrix_fill_step x st =
    (case st of (seed, order, A, B) \<Rightarrow>
      let seed = word_of_int (sint (order * seed) smod 65536);
          val = matrix_clip (ucast (seed + order)) False;
          B = B[x := val];
          val = matrix_clip (val + ucast order) True;
          A = A[x := val]
      in (seed, order + 1, A, B))"

definition core_init_matrix :: "u32 \<Rightarrow> u32 \<Rightarrow> u32 list \<Rightarrow> mat_params option" where
  "core_init_matrix blksize seed C =
    (let seed = (if seed = 0 then 1 else seed) in
     map_option (\<lambda>i.
       let N = unat (i - 1) in
       case fold (\<lambda>i. fold (\<lambda>j. matrix_fill_step (i * N + j)) [0..<N]) [0..<N]
              (seed, 1, replicate (N * N) 0, replicate (N * N) 0) of
         (_, _, A, B) \<Rightarrow> \<lparr>mp_N = N, mp_A = A, mp_B = B, mp_C = C\<rparr>)
       (matrix_dim_loop blksize 0 0))"

text \<open>Where the three matrices lie in the block of memory at \<open>memblk\<close>.\<close>

definition matrix_layout :: "u32 \<Rightarrow> u32 \<Rightarrow> u32 \<times> u32 \<times> u32" where
  "matrix_layout memblk N =
    (let A = align_mem memblk; B = A + 2 * (N * N) in (A, B, align_mem (B + 2 * (N * N))))"


section \<open>Lemmas\<close>

lemma upt_mult_Suc: "[0..<Suc M * N] = [0..<M * N] @ map (\<lambda>j. M * N + j) [0..<N]"
proof -
  have "[0..<M * N + N] = [0..<M * N] @ [M * N..<M * N + N]" by (rule upt_add_eq_append) simp
  also have "[M * N..<M * N + N] = map (\<lambda>j. M * N + j) [0..<N]"
    using map_add_upt [of "M * N" N] by (simp add: add.commute)
  finally show ?thesis by (simp add: add.commute)
qed

text \<open>Two nested loops over rows and columns visit the cells in order.\<close>

lemma nested_fold: "fold (\<lambda>i. fold (\<lambda>j. g (i * N + j)) [0..<N]) [0..<M] = fold g [0..<M * N]"
proof (induction M)
  case (Suc M)
  show ?case
    unfolding upt_mult_Suc by (simp add: Suc.IH fold_map comp_def)
qed simp

lemma fold_update:
  assumes "n \<le> length xs"
  shows "fold (\<lambda>k xs. xs[k := f k (xs ! k)]) [0..<n] xs = map (\<lambda>k. f k (xs ! k)) [0..<n] @ drop n xs"
  using assms
proof (induction n)
  case (Suc n)
  have "drop n xs = xs ! n # drop (Suc n) xs" using Suc.prems by (simp add: Cons_nth_drop_Suc)
  then show ?case using Suc by (simp add: list_update_append nth_append)
qed simp

lemma fold_accumulate: "x < length C \<Longrightarrow>
    fold (\<lambda>k C. C[x := C ! x + a k]) ks (C[x := s]) = C[x := s + (\<Sum>k\<leftarrow>ks. (a k :: u32))]"
  by (induction ks arbitrary: s) (simp_all add: add.assoc)

lemma fold_put:
  assumes "n \<le> length xs"
  shows "fold (\<lambda>k xs. xs[k := f k]) [0..<n] xs = map f [0..<n] @ drop n xs"
  using fold_update [OF assms, of "\<lambda>k x. f k"] by simp

lemma fold_put_cong:
  assumes "\<And>k C. k < n \<Longrightarrow> length C = L \<Longrightarrow> g k C = C[k := f k]" "length C = L" "n \<le> L"
  shows "fold g [0..<n] C = map f [0..<n] @ drop n (C :: u32 list)"
proof -
  have "m \<le> n \<Longrightarrow> fold g [0..<m] C = fold (\<lambda>k C. C[k := f k]) [0..<m] C" for m
  proof (induction m)
    case (Suc m)
    have "length (fold (\<lambda>k C. C[k := f k]) [0..<m] C) = L"
      using fold_put [of m C f] Suc.prems assms(2,3) by simp
    then show ?case using Suc assms(1) [of m] by simp
  qed simp
  then show ?thesis using fold_put [of n C f] assms(2,3) by simp
qed

lemma nested_fold_cells:
  assumes "\<And>i j. i < M \<Longrightarrow> j < N \<Longrightarrow> h i j = g (i * N + j)"
  shows "fold (\<lambda>i. fold (h i) [0..<N]) [0..<M] s = fold g [0..<M * N] s"
proof -
  have "fold (h i) [0..<N] = fold (\<lambda>j. g (i * N + j)) [0..<N]" if "i < M" for i
    using assms that by (intro ext fold_cong) auto
  then have "fold (\<lambda>i. fold (h i) [0..<N]) [0..<M] s = fold (\<lambda>i. fold (\<lambda>j. g (i * N + j)) [0..<N]) [0..<M] s"
    by (intro fold_cong) auto
  then show ?thesis by (simp add: nested_fold)
qed

lemma matrix_add_const_eq:
  assumes "N * N \<le> length A"
  shows "matrix_add_const N A val = map (\<lambda>x. A ! x + val) [0..<N * N] @ drop (N * N) A"
  unfolding matrix_add_const_def
  by (subst nested_fold_cells [where g = "\<lambda>x A. A[x := A ! x + val]"])
    (simp_all add: fold_update [OF assms, of "\<lambda>k x. x + val"])

lemma matrix_add_const_undo:
  assumes "N * N \<le> length A"
  shows "matrix_add_const N (matrix_add_const N A val) (- val) = A"
  using assms by (intro nth_equalityI) (auto simp: matrix_add_const_eq nth_append)

lemma mult_cell_less: "i < N \<Longrightarrow> j < N \<Longrightarrow> i * N + j < N * (N :: nat)"
proof -
  assume "i < N" "j < N"
  then have "i * N + j < (i + 1) * N" by simp
  also have "\<dots> \<le> N * N" using \<open>i < N\<close> by (intro mult_le_mono1) simp
  finally show ?thesis .
qed

definition cell_sum :: "nat \<Rightarrow> (u16 list \<Rightarrow> u16 list \<Rightarrow> nat \<Rightarrow> nat \<Rightarrow> nat \<Rightarrow> u32) \<Rightarrow> u16 list \<Rightarrow> u16 list \<Rightarrow> nat \<Rightarrow> u32" where
  "cell_sum N term A B x = (\<Sum>k\<leftarrow>[0..<N]. term A B (x div N) k (x mod N))"

text \<open>The shape the two matrix products share.\<close>

lemma matrix_product_eq:
  assumes "length C = N * N"
  shows "fold (\<lambda>i. fold (\<lambda>j C. fold (\<lambda>k C. C[i * N + j := C ! (i * N + j) + term A B i k j]) [0..<N]
      (C[i * N + j := 0])) [0..<N]) [0..<N] C = map (cell_sum N term A B) [0..<N * N]"
proof -
  let ?g = "\<lambda>x C. fold (\<lambda>k C. C[x := C ! x + term A B (x div N) k (x mod N)]) [0..<N] (C[x := 0])"
  have "fold (\<lambda>i. fold (\<lambda>j C. fold (\<lambda>k C. C[i * N + j := C ! (i * N + j) + term A B i k j]) [0..<N]
      (C[i * N + j := 0])) [0..<N]) [0..<N] C = fold ?g [0..<N * N] C"
    by (rule nested_fold_cells) simp
  also have "\<dots> = map (cell_sum N term A B) [0..<N * N] @ drop (N * N) C"
    by (rule fold_put_cong [where L = "N * N"]) (use assms in \<open>simp_all add: fold_accumulate cell_sum_def\<close>)
  finally show ?thesis using assms by simp
qed

lemma matrix_mul_matrix_eq:
  assumes "length C = N * N"
  shows "matrix_mul_matrix N C A B
    = map (cell_sum N (\<lambda>A B i k j. scast (A ! (i * N + k)) * scast (B ! (k * N + j))) A B) [0..<N * N]"
  unfolding matrix_mul_matrix_def by (rule matrix_product_eq [OF assms])

lemma matrix_mul_matrix_bitextract_eq:
  assumes "length C = N * N"
  shows "matrix_mul_matrix_bitextract N C A B
    = map (cell_sum N (\<lambda>A B i k j. bit_extract (scast (A ! (i * N + k)) * scast (B ! (k * N + j))) 2 4
        * bit_extract (scast (A ! (i * N + k)) * scast (B ! (k * N + j))) 5 7) A B) [0..<N * N]"
  unfolding matrix_mul_matrix_bitextract_def Let_def by (rule matrix_product_eq [OF assms])

lemma length_matrix_mul_const:
  "length C = N * N \<Longrightarrow> length (matrix_mul_const N C A val) = N * N"
  unfolding matrix_mul_const_def
  by (subst nested_fold_cells [where g = "\<lambda>x C. C[x := scast (A ! x) * scast val]"]) (simp_all add: fold_put)

lemma length_fold_keep: "(\<And>k C. length (g k C) = length C) \<Longrightarrow> length (fold g ks C) = length C"
  by (induction ks arbitrary: C) simp_all

lemma length_matrix_mul_vect: "length (matrix_mul_vect N C A B) = length C"
  unfolding matrix_mul_vect_def by (intro length_fold_keep) (simp add: length_fold_keep)

lemma matrix_dim_loop_ok:
  assumes b: "unat blksize \<le> 2 ^ 31" and k: "k \<le> 16384" "0 < k \<Longrightarrow> 8 * (k - 1) * (k - 1) < unat blksize"
  shows "\<exists>n. matrix_dim_loop blksize (of_nat k) (of_nat (8 * k * k)) = Some (of_nat n) \<and> n \<le> 16384
    \<and> unat blksize \<le> 8 * n * n \<and> (0 < n \<longrightarrow> 8 * (n - 1) * (n - 1) < unat blksize)"
  using k
proof (induction "16384 - k" arbitrary: k rule: less_induct)
  case less
  have "k * k \<le> 16384 * 16384" using less.prems(1) by (rule mult_le_mono) (rule less.prems(1))
  then have u: "unat (of_nat (8 * k * k) :: u32) = 8 * k * k"
    unfolding unat_of_nat by (intro mod_less) simp
  show ?case
  proof (cases "8 * k * k < unat blksize")
    case True
    then have "k < 16384"
      using b mult_le_mono [of 16384 k 16384 k] by (cases "k < 16384") auto
    then have h: "16384 - Suc k < 16384 - k" by simp
    have n: "\<exists>n. matrix_dim_loop blksize (of_nat (Suc k)) (of_nat (8 * Suc k * Suc k)) = Some (of_nat n) \<and> n \<le> 16384
      \<and> unat blksize \<le> 8 * n * n \<and> (0 < n \<longrightarrow> 8 * (n - 1) * (n - 1) < unat blksize)"
      by (rule less.hyps [OF h]) (use True \<open>k < 16384\<close> in simp_all)
    have "(of_nat (Suc k) * of_nat (Suc k) * 2 * 4 :: u32) = of_nat (8 * Suc k * Suc k)"
      by (simp add: algebra_simps)
    then have "matrix_dim_loop blksize (of_nat k) (of_nat (8 * k * k)) = matrix_dim_loop blksize (of_nat (Suc k)) (of_nat (8 * Suc k * Suc k))"
      using True u by (subst matrix_dim_loop.simps) (simp add: word_less_nat_alt Let_def add.commute)
    with n show ?thesis by (simp only:)
  next
    case False
    then have "matrix_dim_loop blksize (of_nat k) (of_nat (8 * k * k)) = Some (of_nat k)"
      using u by (subst matrix_dim_loop.simps) (simp add: word_less_nat_alt)
    then show ?thesis using less.prems False by (intro exI [of _ k]) auto
  qed
qed

lemma matrix_fill_lengths:
  "length A = L \<Longrightarrow> length B = L \<Longrightarrow>
   (case fold matrix_fill_step xs (seed, order, A, B) of (_, _, A, B) \<Rightarrow> length A = L \<and> length B = L)"
  by (induction xs arbitrary: seed order A B) (simp_all add: matrix_fill_step_def Let_def)

section \<open>Properties\<close>

text \<open>
  the matrix test gives back matrix A unchanged (as its comment promises) and leaves in C the
  matrix of bit-extracted products, whatever C held before.
\<close>
theorem matrix_test_restores:
  assumes "length A = N * N" "length C = N * N"
  shows "\<exists>crc C'. matrix_test N C A B val = (crc, C', A)
    \<and> C' = matrix_mul_matrix_bitextract N (replicate (N * N) 0) (matrix_add_const N A val) B"
proof -
  have l: "length (matrix_mul_vect N (matrix_mul_const N C A' val) A' B) = N * N" for A'
    using assms by (simp add: length_matrix_mul_vect length_matrix_mul_const)
  have "matrix_mul_matrix_bitextract N (matrix_mul_matrix N (matrix_mul_vect N (matrix_mul_const N C A' val) A' B) A' B) A' B
      = matrix_mul_matrix_bitextract N (replicate (N * N) 0) A' B" for A'
    by (simp add: matrix_mul_matrix_bitextract_eq matrix_mul_matrix_eq [OF l])
  then show ?thesis
    using matrix_add_const_undo [of N A val] assms by (simp add: matrix_test_def Let_def)
qed

theorem matrix_test_restores_witness:
  "\<exists>crc C'. matrix_test 2 [9, 9, 9, 9] [1, 2, 3, 4] [5, 6, 7, 8] 3 = (crc, C', [1, 2, 3, 4])
    \<and> C' = matrix_mul_matrix_bitextract 2 (replicate (2 * 2) 0) (matrix_add_const 2 [1, 2, 3, 4] 3) [5, 6, 7, 8]"
  by (rule matrix_test_restores) simp_all

text \<open>
  \<open>matrix_mul_matrix\<close> computes the matrix product: cell \<open>(i, j)\<close> of the result is the sum
  over \<open>k\<close> of \<open>A[i][k] * B[k][j]\<close>, in 32-bit arithmetic on the sign-extended elements.
\<close>
theorem matrix_mul_matrix_correct:
  assumes "length C = N * N" "i < N" "j < N"
  shows "matrix_mul_matrix N C A B ! (i * N + j)
    = (\<Sum>k\<leftarrow>[0..<N]. scast (A ! (i * N + k)) * scast (B ! (k * N + j)))"
  using assms mult_cell_less [OF assms(2,3)] by (simp add: matrix_mul_matrix_eq cell_sum_def)

theorem matrix_mul_matrix_correct_witness:
  "matrix_mul_matrix 2 [0, 0, 0, 0] [1, 2, 3, - 4] [5, 6, 7, 8] ! (1 * 2 + 0)
    = (\<Sum>k\<leftarrow>[0..<2]. scast ([1, 2, 3, - 4 :: u16] ! (1 * 2 + k)) * scast ([5, 6, 7, 8 :: u16] ! (k * 2 + 0)))"
  by (rule matrix_mul_matrix_correct) simp_all

text \<open>
  sizing the matrices terminates for every block of up to \<open>2 ^ 31\<close> bytes and chooses the
  largest dimension \<open>N\<close> for which the two 16-bit and one 32-bit matrices are smaller than the
  block.
\<close>
theorem matrix_dimension_fits:
  assumes "0 < blksize" "unat blksize \<le> 2 ^ 31"
  shows "\<exists>p. core_init_matrix blksize seed C = Some p
    \<and> 8 * mp_N p * mp_N p < unat blksize \<and> unat blksize \<le> 8 * (mp_N p + 1) * (mp_N p + 1)
    \<and> length (mp_A p) = mp_N p * mp_N p \<and> length (mp_B p) = mp_N p * mp_N p"
proof -
  obtain n where n: "matrix_dim_loop blksize 0 0 = Some (of_nat n)" "n \<le> 16384"
    "unat blksize \<le> 8 * n * n" "0 < n \<longrightarrow> 8 * (n - 1) * (n - 1) < unat blksize"
    using matrix_dim_loop_ok [OF assms(2), of 0] by auto
  have "0 < unat blksize" using assms(1) by (simp add: word_less_nat_alt)
  then have "0 < n" using n(3) by (cases n) auto
  then obtain m where m: "n = Suc m" by (cases n) auto
  have "unat (of_nat (Suc m) - 1 :: u32) = m"
    using n(2) unfolding m by (simp add: unat_of_nat)
  moreover obtain sd od A B where f: "fold matrix_fill_step [0..<m * m]
      (if seed = 0 then 1 else seed, 1, replicate (m * m) 0, replicate (m * m) 0) = (sd, od, A, B)"
    by (metis prod_cases4)
  moreover have "length A = m * m \<and> length B = m * m"
    using matrix_fill_lengths [of "replicate (m * m) 0" "m * m" "replicate (m * m) 0"
      "[0..<m * m]" "if seed = 0 then 1 else seed" 1] f by simp
  ultimately show ?thesis
    using n(3,4) unfolding core_init_matrix_def Let_def n(1) m option.map nested_fold by simp
qed

theorem matrix_dimension_fits_witness:
  "\<exists>p. core_init_matrix 666 0 [] = Some p
    \<and> 8 * mp_N p * mp_N p < unat (666 :: u32) \<and> unat (666 :: u32) \<le> 8 * (mp_N p + 1) * (mp_N p + 1)
    \<and> length (mp_A p) = mp_N p * mp_N p \<and> length (mp_B p) = mp_N p * mp_N p"
  by (rule matrix_dimension_fits) simp_all

end
