(* ===== verification/Coremark_List.thy ===== *)
theory Coremark_List
  imports Coremark_State Coremark_Matrix "HOL-Library.Monad_Syntax" "HOL-Library.Multiset"
begin

text \<open>
  The linked-list kernel of the benchmark: \<open>software-test/coremark/core_list_join.c\<close>.

  List cells and data items live in an explicit store, \<open>lheap\<close>: the successor and the data
  pointer of every cell and the contents of every data item; a null pointer is \<open>None\<close> and using
  one makes the computation \<open>None\<close>, as does a loop that does not end.  Comparison functions change
  the store and the results record, as in the code.  The contract \<open>stable_cmp\<close> says what sorting
  needs of a comparison; it is interpreted on \<open>cmp_idx\<close>.
\<close>

section \<open>Model\<close>

record list_data =
  data16 :: u16
  idx :: u16

record lheap =
  nxt :: "nat \<Rightarrow> nat option"
  inf :: "nat \<Rightarrow> nat"
  dat :: "nat \<Rightarrow> list_data"

record core_results =
  seed1 :: u16
  seed2 :: u16
  seed3 :: u16
  memblock3 :: "u8 list"
  res_size :: nat
  iterations :: u32
  execs :: u32
  res_list :: nat
  mat :: mat_params
  crc :: u16
  crclist :: u16
  crcmatrix :: u16
  crcstate :: u16
  err :: u16

type_synonym cmp_state = "lheap \<times> core_results"
type_synonym list_cmp = "nat \<Rightarrow> nat \<Rightarrow> cmp_state \<Rightarrow> (int \<times> cmp_state) option"

definition set_dat :: "nat \<Rightarrow> list_data \<Rightarrow> lheap \<Rightarrow> lheap" where
  "set_dat d v h = h\<lparr>dat := (dat h)(d := v)\<rparr>"

definition set_nxt :: "nat \<Rightarrow> nat option \<Rightarrow> lheap \<Rightarrow> lheap" where
  "set_nxt p q h = h\<lparr>nxt := (nxt h)(p := q)\<rparr>"

definition set_inf :: "nat \<Rightarrow> nat \<Rightarrow> lheap \<Rightarrow> lheap" where
  "set_inf p d h = h\<lparr>inf := (inf h)(p := d)\<rparr>"

text \<open>The returned value, the new data word and the new results.\<close>

definition calc_func :: "u16 \<Rightarrow> core_results \<Rightarrow> (u16 \<times> u16 \<times> core_results) option" where
  "calc_func data res =
    (let optype = signed_drop_bit 7 data AND 1 in
     if optype \<noteq> 0 then Some (data AND 0x007f, data, res)
     else
       let flag = data AND 7;
           dtype = signed_drop_bit 3 data AND 0xf;
           dtype = dtype OR push_bit 4 dtype
       in do {
         (retval, res) \<leftarrow>
           (if flag = 0 then
              let dtype = (if sint dtype < 0x22 then 0x22 else dtype) in
              do {
                (r, mem) \<leftarrow> core_bench_state (res_size res) (memblock3 res) (seed1 res) (seed2 res) (unat dtype) (crc res);
                let res = res\<lparr>memblock3 := mem\<rparr>;
                Some (r, if crcstate res = 0 then res\<lparr>crcstate := r\<rparr> else res)
              }
            else if flag = 1 then
              (case core_bench_matrix (mat res) dtype (crc res) of
                 (r, m) \<Rightarrow>
                   let res = res\<lparr>mat := m\<rparr>
                   in Some (r, if crcmatrix res = 0 then res\<lparr>crcmatrix := r\<rparr> else res))
            else Some (data, res));
         let res = res\<lparr>crc := crcu16 retval (crc res)\<rparr>;
         let retval = retval AND 0x007f;
         Some (retval, (data AND 0xff00) OR 0x0080 OR retval, res)
       })"

definition cmp_complex :: list_cmp where
  "cmp_complex a b s =
    (case s of (h, res) \<Rightarrow> do {
       (val1, d1, res) \<leftarrow> calc_func (data16 (dat h a)) res;
       let h = set_dat a ((dat h a)\<lparr>data16 := d1\<rparr>) h;
       (val2, d2, res) \<leftarrow> calc_func (data16 (dat h b)) res;
       let h = set_dat b ((dat h b)\<lparr>data16 := d2\<rparr>) h;
       Some (sint val1 - sint val2, h, res)
     })"

definition regen :: "u16 \<Rightarrow> u16" where
  "regen d = (d AND 0xff00) OR (0x00ff AND signed_drop_bit 8 d)"

text \<open>\<open>cmp_idx\<close> as the code calls it when \<open>res\<close> is \<open>NULL\<close> (\<open>null_res\<close>) and otherwise.\<close>

definition cmp_idx :: "bool \<Rightarrow> list_cmp" where
  "cmp_idx null_res a b s =
    (case s of (h, res) \<Rightarrow>
      let h = (if null_res then
            let h = set_dat a ((dat h a)\<lparr>data16 := regen (data16 (dat h a))\<rparr>) h
            in set_dat b ((dat h b)\<lparr>data16 := regen (data16 (dat h b))\<rparr>) h
          else h)
      in Some (sint (idx (dat h a)) - sint (idx (dat h b)), h, res))"

definition copy_info :: "nat \<Rightarrow> list_data \<Rightarrow> lheap \<Rightarrow> lheap" where
  "copy_info to from h = set_dat to ((dat h to)\<lparr>data16 := data16 from, idx := idx from\<rparr>) h"

text \<open>The allocation pointers are \<open>mb\<close> and \<open>db\<close>; both blocks end at index \<open>lim\<close>.\<close>

definition core_list_insert_new ::
  "nat \<Rightarrow> list_data \<Rightarrow> nat \<Rightarrow> nat \<Rightarrow> nat \<Rightarrow> lheap \<Rightarrow> nat option \<times> nat \<times> nat \<times> lheap" where
  "core_list_insert_new insert_point info mb db lim h =
    (if lim \<le> mb + 1 then (None, mb, db, h)
     else if lim \<le> db + 1 then (None, mb, db, h)
     else
       let newitem = mb;
           h = set_nxt newitem (nxt h insert_point) h;
           h = set_nxt insert_point (Some newitem) h;
           h = set_inf newitem db h;
           h = copy_info db info h
       in (Some newitem, mb + 1, db + 1, h))"

definition core_list_remove :: "nat \<Rightarrow> lheap \<Rightarrow> (nat \<times> lheap) option" where
  "core_list_remove item h =
    do {
      ret \<leftarrow> nxt h item;
      let tmp = inf h item;
      let h = set_inf item (inf h ret) h;
      let h = set_inf ret tmp h;
      let h = set_nxt item (nxt h ret) h;
      let h = set_nxt ret None h;
      Some (ret, h)
    }"

definition core_list_undo_remove :: "nat \<Rightarrow> nat \<Rightarrow> lheap \<Rightarrow> nat \<times> lheap" where
  "core_list_undo_remove item_removed item_modified h =
    (let tmp = inf h item_removed;
         h = set_inf item_removed (inf h item_modified) h;
         h = set_inf item_modified tmp h;
         h = set_nxt item_removed (nxt h item_modified) h;
         h = set_nxt item_modified (Some item_removed) h
     in (item_removed, h))"

partial_function (option) find_loop :: "(list_data \<Rightarrow> bool) \<Rightarrow> lheap \<Rightarrow> nat option \<Rightarrow> nat option option" where
  "find_loop stop h l =
    (case l of
       None \<Rightarrow> Some None
     | Some p \<Rightarrow> if \<not> stop (dat h (inf h p)) then find_loop stop h (nxt h p) else Some (Some p))"

definition core_list_find :: "nat option \<Rightarrow> list_data \<Rightarrow> lheap \<Rightarrow> nat option option" where
  "core_list_find l info h =
    (if 0 \<le> sint (idx info) then find_loop (\<lambda>d. idx d = idx info) h l
     else find_loop (\<lambda>d. data16 d AND 0xff = data16 info) h l)"

partial_function (option) reverse_loop :: "nat option \<Rightarrow> nat option \<Rightarrow> lheap \<Rightarrow> (nat option \<times> lheap) option" where
  "reverse_loop l nx h =
    (case l of
       None \<Rightarrow> Some (nx, h)
     | Some p \<Rightarrow>
        let tmp = nxt h p;
            h = set_nxt p nx h
        in reverse_loop tmp (Some p) h)"

definition core_list_reverse :: "nat option \<Rightarrow> lheap \<Rightarrow> (nat option \<times> lheap) option" where
  "core_list_reverse l h = reverse_loop l None h"

text \<open>Step \<open>insize\<close> places along from \<open>q\<close>, counting them.\<close>

fun advance :: "nat \<Rightarrow> nat option \<Rightarrow> nat \<Rightarrow> lheap \<Rightarrow> (nat option \<times> nat) option" where
  "advance 0 q psize h = Some (q, psize)"
| "advance (Suc k) q psize h =
    (case q of
       None \<Rightarrow> None
     | Some x \<Rightarrow>
        (case nxt h x of
           None \<Rightarrow> Some (None, psize + 1)
         | Some y \<Rightarrow> advance k (Some y) (psize + 1) h))"

record merge_state =
  ms_list :: "nat option"
  ms_tail :: "nat option"
  ms_cs :: cmp_state

definition append_merged :: "nat \<Rightarrow> merge_state \<Rightarrow> merge_state" where
  "append_merged e m =
    (case ms_tail m of
       Some t \<Rightarrow> m\<lparr>ms_cs := (set_nxt t (Some e) (fst (ms_cs m)), snd (ms_cs m)), ms_tail := Some e\<rparr>
     | None \<Rightarrow> m\<lparr>ms_list := Some e, ms_tail := Some e\<rparr>)"

text \<open>The merge of two runs; the second component of the result is where the next pair starts.\<close>

function merge_loop ::
  "list_cmp \<Rightarrow> nat option \<Rightarrow> nat \<Rightarrow> nat option \<Rightarrow> nat \<Rightarrow> merge_state \<Rightarrow> (merge_state \<times> nat option) option" where
  "merge_loop cmp p psize q qsize m =
    (if 0 < psize \<or> (0 < qsize \<and> q \<noteq> None) then
       let h = fst (ms_cs m) in
       if psize = 0 then
         (case q of None \<Rightarrow> None
          | Some e \<Rightarrow> merge_loop cmp p psize (nxt h e) (qsize - 1) (append_merged e m))
       else if qsize = 0 \<or> q = None then
         (case p of None \<Rightarrow> None
          | Some e \<Rightarrow> merge_loop cmp (nxt h e) (psize - 1) q qsize (append_merged e m))
       else
         (case (p, q) of
            (Some e, Some f) \<Rightarrow>
              (case cmp (inf h e) (inf h f) (ms_cs m) of
                 None \<Rightarrow> None
               | Some (r, cs) \<Rightarrow>
                  let m = m\<lparr>ms_cs := cs\<rparr>; h = fst cs in
                  if r \<le> 0 then merge_loop cmp (nxt h e) (psize - 1) q qsize (append_merged e m)
                  else merge_loop cmp p psize (nxt h f) (qsize - 1) (append_merged f m))
          | _ \<Rightarrow> None)
     else Some (m, q))"
  by pat_completeness auto
termination
  by (relation "measure (\<lambda>(cmp, p, psize, q, qsize, m). psize + qsize)") auto

partial_function (option) pass_loop ::
  "list_cmp \<Rightarrow> nat \<Rightarrow> nat option \<Rightarrow> nat \<Rightarrow> merge_state \<Rightarrow> (merge_state \<times> nat) option" where
  "pass_loop cmp insize p nmerges m =
    (case p of
       None \<Rightarrow> Some (m, nmerges)
     | Some x \<Rightarrow>
        Option.bind (advance insize p 0 (fst (ms_cs m))) (\<lambda>(q, psize).
        Option.bind (merge_loop cmp p psize q insize m) (\<lambda>(m, p). pass_loop cmp insize p (nmerges + 1) m)))"

partial_function (option) sort_loop :: "list_cmp \<Rightarrow> nat \<Rightarrow> nat option \<Rightarrow> cmp_state \<Rightarrow> (nat option \<times> cmp_state) option" where
  "sort_loop cmp insize l cs =
    Option.bind (pass_loop cmp insize l 0 \<lparr>ms_list = None, ms_tail = None, ms_cs = cs\<rparr>) (\<lambda>(m, nmerges).
    Option.bind (ms_tail m) (\<lambda>t.
      let cs = (set_nxt t None (fst (ms_cs m)), snd (ms_cs m)) in
      if nmerges \<le> 1 then Some (ms_list m, cs)
      else sort_loop cmp (insize * 2) (ms_list m) cs))"

definition core_list_mergesort :: "list_cmp \<Rightarrow> nat option \<Rightarrow> cmp_state \<Rightarrow> (nat option \<times> cmp_state) option" where
  "core_list_mergesort cmp l cs = sort_loop cmp 1 l cs"

record find_state =
  fs_list :: "nat option"
  fs_info :: list_data
  fs_retval :: u16
  fs_found :: u16
  fs_missed :: u16
  fs_heap :: lheap

definition find_round :: "u16 \<Rightarrow> find_state \<Rightarrow> find_state option" where
  "find_round i s =
    do {
      let info = (fs_info s)\<lparr>data16 := i AND 0xff\<rparr>;
      this_find \<leftarrow> core_list_find (fs_list s) info (fs_heap s);
      (l, h) \<leftarrow> core_list_reverse (fs_list s) (fs_heap s);
      s \<leftarrow>
        (case this_find of
           None \<Rightarrow> do {
             lp \<leftarrow> l;
             n \<leftarrow> nxt h lp;
             Some (s\<lparr>fs_missed := fs_missed s + 1,
               fs_retval := fs_retval s + (signed_drop_bit 8 (data16 (dat h (inf h n))) AND 1), fs_heap := h\<rparr>)
           }
         | Some f \<Rightarrow> do {
             let d = data16 (dat h (inf h f));
             let s = s\<lparr>fs_found := fs_found s + 1,
               fs_retval := fs_retval s + (if d AND 1 \<noteq> 0 then signed_drop_bit 9 d AND 1 else 0)\<rparr>;
             (case nxt h f of
                None \<Rightarrow> Some (s\<lparr>fs_heap := h\<rparr>)
              | Some finder \<Rightarrow> do {
                  lp \<leftarrow> l;
                  let h = set_nxt f (nxt h finder) h;
                  let h = set_nxt finder (nxt h lp) h;
                  let h = set_nxt lp (Some finder) h;
                  Some (s\<lparr>fs_heap := h\<rparr>)
                })
           });
      Some (s\<lparr>fs_list := l, fs_info := (if 0 \<le> sint (idx info) then info\<lparr>idx := idx info + 1\<rparr> else info)\<rparr>)
    }"

fun find_rounds :: "nat \<Rightarrow> u16 \<Rightarrow> find_state \<Rightarrow> find_state option" where
  "find_rounds 0 i s = Some s"
| "find_rounds (Suc k) i s = Option.bind (find_round i s) (find_rounds k (i + 1))"

text \<open>The CRC loops run once per cell from \<open>finder\<close> on, always over the data of the list head.\<close>

partial_function (option) crc_loop :: "lheap \<Rightarrow> nat \<Rightarrow> nat option \<Rightarrow> u16 \<Rightarrow> u16 option" where
  "crc_loop h l finder retval =
    (case finder of
       None \<Rightarrow> Some retval
     | Some p \<Rightarrow> crc_loop h l (nxt h p) (crc16 (data16 (dat h (inf h l))) retval))"

definition core_bench_list :: "core_results \<Rightarrow> u16 \<Rightarrow> lheap \<Rightarrow> (u16 \<times> cmp_state) option" where
  "core_bench_list res finder_idx h =
    do {
      s \<leftarrow> find_rounds (nat (sint (seed3 res))) 0
        \<lparr>fs_list = Some (res_list res), fs_info = \<lparr>data16 = 0, idx = finder_idx\<rparr>, fs_retval = 0, fs_found = 0,
         fs_missed = 0, fs_heap = h\<rparr>;
      let retval = fs_retval s + (fs_found s * 4 - fs_missed s);
      (l, h, res) \<leftarrow>
        (if 0 < sint finder_idx then core_list_mergesort cmp_complex (fs_list s) (fs_heap s, res)
         else Some (fs_list s, fs_heap s, res));
      lp \<leftarrow> l;
      first \<leftarrow> nxt h lp;
      (remover, h) \<leftarrow> core_list_remove first h;
      found \<leftarrow> core_list_find l (fs_info s) h;
      let finder = (case found of None \<Rightarrow> nxt h lp | Some f \<Rightarrow> Some f);
      retval \<leftarrow> crc_loop h lp finder retval;
      modified \<leftarrow> nxt h lp;
      let h = snd (core_list_undo_remove remover modified h);
      (l, h, res) \<leftarrow> core_list_mergesort (cmp_idx True) l (h, res);
      lp \<leftarrow> l;
      retval \<leftarrow> crc_loop h lp (nxt h lp) retval;
      Some (retval, h, res)
    }"

fun init_items :: "nat \<Rightarrow> u32 \<Rightarrow> u16 \<Rightarrow> nat \<Rightarrow> list_data \<Rightarrow> nat \<Rightarrow> nat \<Rightarrow> nat \<Rightarrow> lheap \<Rightarrow> lheap" where
  "init_items 0 i seed l info mb db lim h = h"
| "init_items (Suc k) i seed l info mb db lim h =
    (let datpat = (seed XOR ucast i) AND 0xf;
         d = push_bit 3 datpat OR (ucast i AND 7);
         info = info\<lparr>data16 := push_bit 8 d OR d\<rparr>
     in case core_list_insert_new l info mb db lim h of
          (_, mb, db, h) \<Rightarrow> init_items k (i + 1) seed l info mb db lim h)"

partial_function (option) index_loop :: "nat \<Rightarrow> u16 \<Rightarrow> nat \<Rightarrow> nat \<Rightarrow> lheap \<Rightarrow> lheap option" where
  "index_loop sz seed finder i h =
    (case nxt h finder of
       None \<Rightarrow> Some h
     | Some n \<Rightarrow>
        let v = (if i < sz div 5 then of_nat i
                 else let pat = of_nat i XOR seed
                   in 0x3fff AND (push_bit 8 (of_nat (i + 1) AND 7) OR pat));
            d = inf h finder
        in index_loop sz seed n (i + 1) (set_dat d ((dat h d)\<lparr>idx := v\<rparr>) h))"

text \<open>Cell 0 and data item 0 are the head of the list; \<open>size\<close> items fit in the block.\<close>

definition core_list_init :: "nat \<Rightarrow> u16 \<Rightarrow> lheap \<Rightarrow> core_results \<Rightarrow> (nat option \<times> cmp_state) option" where
  "core_list_init blksize seed h res =
    (let per_item = 16 + 4;
         sz = blksize div per_item - 2;
         l = 0;
         h = set_nxt l None h;
         h = set_inf l 0 h;
         h = set_dat 0 \<lparr>data16 = 0x8080, idx = 0\<rparr> h
     in case core_list_insert_new l \<lparr>data16 = 0xffff, idx = 0x7fff\<rparr> 1 1 sz h of
          (_, mb, db, h) \<Rightarrow>
            let h = init_items sz 0 seed l \<lparr>data16 = 0xffff, idx = 0x7fff\<rparr> mb db sz h in
            do {
              finder \<leftarrow> nxt h l;
              h \<leftarrow> index_loop sz seed finder 1 h;
              core_list_mergesort (cmp_idx True) (Some l) (h, res)
            })"


section \<open>Lists in the store\<close>

primrec path :: "(nat \<Rightarrow> nat option) \<Rightarrow> nat option \<Rightarrow> nat list \<Rightarrow> nat option \<Rightarrow> bool" where
  "path n p [] q \<longleftrightarrow> p = q"
| "path n p (x # xs) q \<longleftrightarrow> p = Some x \<and> path n (n x) xs q"

lemma path_append: "path n p (xs @ ys) q \<longleftrightarrow> (\<exists>r. path n p xs r \<and> path n r ys q)"
  by (induction xs arbitrary: p) simp_all

lemma path_upd [simp]: "x \<notin> set xs \<Longrightarrow> path (n(x := y)) p xs q \<longleftrightarrow> path n p xs q"
  by (induction xs arbitrary: p) auto

lemma set_nxt_simps [simp]:
  "nxt (set_nxt p q h) = (nxt h)(p := q)" "inf (set_nxt p q h) = inf h" "dat (set_nxt p q h) = dat h"
  by (simp_all add: set_nxt_def)

lemma set_inf_simps [simp]:
  "nxt (set_inf p d h) = nxt h" "inf (set_inf p d h) = (inf h)(p := d)" "dat (set_inf p d h) = dat h"
  by (simp_all add: set_inf_def)

lemma set_dat_simps [simp]:
  "nxt (set_dat d v h) = nxt h" "inf (set_dat d v h) = inf h" "dat (set_dat d v h) = (dat h)(d := v)"
  by (simp_all add: set_dat_def)

subsection \<open>Search and reversal\<close>

lemma find_loop_path:
  "path (nxt h) l xs None \<Longrightarrow>
   find_loop stop h l = Some (List.find (\<lambda>p. stop (dat h (inf h p))) xs)"
proof (induction xs arbitrary: l)
  case Nil
  then show ?case by (subst find_loop.simps) simp
next
  case (Cons x xs)
  then show ?case by (subst find_loop.simps) simp
qed

lemma reverse_loop_path:
  "path (nxt h) l xs None \<Longrightarrow> path (nxt h) nx ys None \<Longrightarrow> distinct (xs @ ys) \<Longrightarrow>
   \<exists>l' h'. reverse_loop l nx h = Some (l', h') \<and> path (nxt h') l' (rev xs @ ys) None \<and> inf h' = inf h \<and> dat h' = dat h
     \<and> (\<forall>p. p \<notin> set xs \<longrightarrow> nxt h' p = nxt h p)"
proof (induction xs arbitrary: l nx ys h)
  case Nil
  then show ?case by (subst reverse_loop.simps) simp
next
  case (Cons x xs)
  have "path (nxt (set_nxt x nx h)) (nxt h x) xs None" "path (nxt (set_nxt x nx h)) (Some x) (x # ys) None"
    "distinct (xs @ x # ys)"
    using Cons.prems by auto
  from Cons.IH [OF this] obtain l' h' where r: "reverse_loop (nxt h x) (Some x) (set_nxt x nx h) = Some (l', h')"
    "path (nxt h') l' (rev xs @ x # ys) None" "inf h' = inf h" "dat h' = dat h"
    "\<forall>p. p \<notin> set xs \<longrightarrow> nxt h' p = (nxt (set_nxt x nx h)) p"
    by auto
  have "reverse_loop l nx h = Some (l', h')"
    using Cons.prems(1) r(1) by (subst reverse_loop.simps) simp
  then show ?case using r by auto
qed

subsection \<open>Removal and its undoing\<close>

lemma remove_undo:
  assumes "nxt h item = Some ret" "ret \<noteq> item" "core_list_remove item h = Some (r, h')"
  shows "r = ret \<and> core_list_undo_remove r item h' = (ret, h)"
  using assms by (auto simp: core_list_remove_def core_list_undo_remove_def Let_def set_nxt_def set_inf_def fun_upd_idem)

subsection \<open>Merging lists of cells\<close>

fun mrg :: "(nat \<Rightarrow> int) \<Rightarrow> nat list \<Rightarrow> nat list \<Rightarrow> nat list" where
  "mrg K [] ys = ys"
| "mrg K xs [] = xs"
| "mrg K (x # xs) (y # ys) = (if K x \<le> K y then x # mrg K xs (y # ys) else y # mrg K (x # xs) ys)"

lemma mrg_Nil2 [simp]: "mrg K xs [] = xs"
  by (cases xs) simp_all

lemma mset_mrg [simp]: "mset (mrg K xs ys) = mset xs + mset ys"
  by (induction K xs ys rule: mrg.induct) simp_all

lemma set_mrg [simp]: "set (mrg K xs ys) = set xs \<union> set ys"
  by (metis mset_mrg set_mset_mset set_mset_union)

lemma length_mrg [simp]: "length (mrg K xs ys) = length xs + length ys"
  by (metis mset_mrg size_mset size_union)

lemma sorted_mrg: "sorted (map K xs) \<Longrightarrow> sorted (map K ys) \<Longrightarrow> sorted (map K (mrg K xs ys))"
  by (induction K xs ys rule: mrg.induct) auto

text \<open>One pass over runs of length \<open>k\<close>, the number of its merges, and lists made of sorted runs.\<close>

function pass :: "(nat \<Rightarrow> int) \<Rightarrow> nat \<Rightarrow> nat list \<Rightarrow> nat list" where
  "pass K k xs = (if xs = [] \<or> k = 0 then xs else mrg K (take k xs) (take k (drop k xs)) @ pass K k (drop (2 * k) xs))"
  by pat_completeness auto
termination by (relation "measure (\<lambda>(K, k, xs). length xs)") auto

function pairs :: "nat \<Rightarrow> nat list \<Rightarrow> nat" where
  "pairs k xs = (if xs = [] \<or> k = 0 then 0 else Suc (pairs k (drop (2 * k) xs)))"
  by pat_completeness auto
termination by (relation "measure (\<lambda>(k, xs). length xs)") auto

function runs_sorted :: "(nat \<Rightarrow> int) \<Rightarrow> nat \<Rightarrow> nat list \<Rightarrow> bool" where
  "runs_sorted K k xs = (if xs = [] \<or> k = 0 then True else sorted (map K (take k xs)) \<and> runs_sorted K k (drop k xs))"
  by pat_completeness auto
termination by (relation "measure (\<lambda>(K, k, xs). length xs)") auto

declare pass.simps [simp del] pairs.simps [simp del] runs_sorted.simps [simp del]

lemma take_drop_split: "mset (take k xs) + mset (take k (drop k xs)) + mset (drop (2 * k) xs) = mset xs"
proof -
  have "xs = take k xs @ take k (drop k xs) @ drop (2 * k) xs"
    by (metis append_take_drop_id drop_drop mult_2)
  then show ?thesis by (metis mset_append union_assoc)
qed

lemma mset_pass [simp]: "mset (pass K k xs) = mset xs"
proof (induction K k xs rule: pass.induct)
  case (1 K k xs)
  show ?case
  proof (cases "xs = [] \<or> k = 0")
    case True
    then show ?thesis by (simp add: pass.simps)
  next
    case False
    then have "pass K k xs = mrg K (take k xs) (take k (drop k xs)) @ pass K k (drop (2 * k) xs)"
      by (subst pass.simps) auto
    then show ?thesis using 1 False take_drop_split [of k xs] by simp
  qed
qed

lemma runs_sorted_pass: "0 < k \<Longrightarrow> runs_sorted K k xs \<Longrightarrow> runs_sorted K (2 * k) (pass K k xs)"
proof (induction K k xs rule: pass.induct)
  case (1 K k xs)
  show ?case
  proof (cases "xs = []")
    case True
    then show ?thesis by (simp add: pass.simps runs_sorted.simps)
  next
    case False
    let ?m = "mrg K (take k xs) (take k (drop k xs))"
    have p: "pass K k xs = ?m @ pass K k (drop (2 * k) xs)"
      using False 1(2) by (subst pass.simps) auto
    have r: "sorted (map K (take k xs))" "runs_sorted K k (drop k xs)"
      using 1(3) False 1(2) by (subst (asm) runs_sorted.simps, simp)+
    have r2: "sorted (map K (take k (drop k xs)))" "runs_sorted K k (drop (2 * k) xs)"
      using r(2) 1(2) runs_sorted.simps [of K k "drop k xs"] by (cases "drop k xs = []"; simp add: mult_2 runs_sorted.simps)+
    have IH: "runs_sorted K (2 * k) (pass K k (drop (2 * k) xs))"
      using 1(1) [OF _ 1(2) r2(2)] False 1(2) by simp
    have sm: "sorted (map K ?m)" using r(1) r2(1) by (rule sorted_mrg)
    show ?thesis
    proof (cases "2 * k \<le> length xs")
      case True
      then have "length ?m = 2 * k" by simp
      then show ?thesis
        using sm IH 1(2) unfolding p by (subst runs_sorted.simps) simp
    next
      case False
      then have "pass K k (drop (2 * k) xs) = []" by (simp add: pass.simps)
      moreover have "length ?m \<le> 2 * k" by simp
      ultimately show ?thesis
        using sm 1(2) unfolding p by (subst runs_sorted.simps) (simp add: runs_sorted.simps)
    qed
  qed
qed

lemma pairs_le_1: "0 < k \<Longrightarrow> pairs k xs \<le> 1 \<longleftrightarrow> length xs \<le> 2 * k"
  by (subst pairs.simps, subst pairs.simps) auto

lemma runs_sorted_1: "runs_sorted K 1 xs"
proof (induction xs)
  case (Cons x xs)
  then show ?case by (subst runs_sorted.simps) simp
qed (simp add: runs_sorted.simps)

lemma runs_sorted_all: "length xs \<le> k \<Longrightarrow> 0 < k \<Longrightarrow> runs_sorted K k xs \<Longrightarrow> sorted (map K xs)"
  by (cases "xs = []") (simp_all add: runs_sorted.simps)

subsection \<open>Merging in the store\<close>

definition ptr :: "nat list \<Rightarrow> nat option" where
  "ptr xs = (case xs of [] \<Rightarrow> None | x # _ \<Rightarrow> Some x)"

lemma ptr_simps [simp]: "ptr [] = None" "ptr (x # xs) = Some x"
  by (simp_all add: ptr_def)

lemma path_ptr: "path n p xs None \<Longrightarrow> p = ptr xs"
  by (cases xs) simp_all

abbreviation (input) N :: "merge_state \<Rightarrow> nat \<Rightarrow> nat option" where
  "N m \<equiv> nxt (fst (ms_cs m))"

text \<open>The merged part: a list whose last cell still has a stale successor.\<close>

definition out_seg :: "merge_state \<Rightarrow> nat list \<Rightarrow> bool" where
  "out_seg m out \<longleftrightarrow> (if out = [] then ms_list m = None \<and> ms_tail m = None
     else ms_tail m = Some (last out) \<and> path (N m) (ms_list m) (butlast out) (Some (last out)))"

text \<open>What a merge leaves alone: data pointers, and successors of cells outside a set.\<close>

definition frame :: "nat set \<Rightarrow> lheap \<Rightarrow> lheap \<Rightarrow> bool" where
  "frame S h h' \<longleftrightarrow> inf h' = inf h \<and> (\<forall>x. x \<notin> S \<longrightarrow> nxt h' x = nxt h x)"

lemma frame_refl [simp]: "frame S h h"
  by (simp add: frame_def)

lemma frame_trans: "frame S h h' \<Longrightarrow> frame T h' h'' \<Longrightarrow> S \<subseteq> U \<Longrightarrow> T \<subseteq> U \<Longrightarrow> frame U h h''"
  by (simp add: frame_def) (metis subsetD)

lemma frame_path: "frame S h h' \<Longrightarrow> set xs \<inter> S = {} \<Longrightarrow> path (nxt h') p xs q \<longleftrightarrow> path (nxt h) p xs q"
  by (induction xs arbitrary: p) (auto simp: frame_def)

lemma append_merged_ok:
  assumes "out_seg m out" "e \<notin> set out" "distinct out"
  shows "out_seg (append_merged e m) (out @ [e])"
    and "frame (set out) (fst (ms_cs m)) (fst (ms_cs (append_merged e m)))"
    and "dat (fst (ms_cs (append_merged e m))) = dat (fst (ms_cs m))"
proof -
  have b: "out \<noteq> [] \<Longrightarrow> last out \<notin> set (butlast out)"
    using assms(3) by (metis append_butlast_last_id distinct_butlast distinct_append disjoint_insert(1) list.set(2) not_distinct_conv_prefix)
  show "out_seg (append_merged e m) (out @ [e])"
    using assms(1) b
    by (cases out rule: rev_cases) (auto simp: out_seg_def append_merged_def path_append butlast_append split: if_splits)
  show "frame (set out) (fst (ms_cs m)) (fst (ms_cs (append_merged e m)))"
    "dat (fst (ms_cs (append_merged e m))) = dat (fst (ms_cs m))"
    using assms(1) by (cases out rule: rev_cases; auto simp: out_seg_def append_merged_def frame_def)+
qed

lemma advance_path:
  "path (nxt h) (Some x) xs None \<Longrightarrow> advance k (Some x) c h = Some (ptr (drop k xs), c + min k (length xs))"
proof (induction k arbitrary: x xs c)
  case 0
  then show ?case using path_ptr [OF 0] by simp
next
  case (Suc k)
  then obtain ys where xs: "xs = x # ys" "path (nxt h) (nxt h x) ys None" by (cases xs) auto
  show ?case
  proof (cases "nxt h x")
    case None
    then have "ys = []" using xs(2) by (cases ys) auto
    then show ?thesis using None xs by simp
  next
    case (Some y)
    then have "path (nxt h) (Some y) ys None" using xs(2) by simp
    from Suc.IH [OF this, of "c + 1"] show ?thesis using Some xs by simp
  qed
qed

text \<open>
  What sorting needs of a comparison: it always returns, leaves the links and the keys of all data
  items alone, and tells whether the first key is at most the second.
\<close>

locale stable_cmp =
  fixes cmp :: list_cmp and key :: "list_data \<Rightarrow> int"
  assumes cmp_ok: "\<exists>r h' w'. cmp a b (h, w) = Some (r, h', w') \<and> nxt h' = nxt h \<and> inf h' = inf h
    \<and> (\<forall>d. key (dat h' d) = key (dat h d)) \<and> (r \<le> 0 \<longleftrightarrow> key (dat h a) \<le> key (dat h b))"
begin

definition keys :: "lheap \<Rightarrow> nat \<Rightarrow> int" where
  "keys h x = key (dat h (inf h x))"

lemma append_keys:
  assumes "out_seg m out" "e \<notin> set out" "distinct out"
  shows "keys (fst (ms_cs (append_merged e m))) = keys (fst (ms_cs m))"
  using append_merged_ok(2,3) [OF assms] by (auto simp: keys_def frame_def)

lemma merge_loop_ok:
  assumes "path (N m) p ps pe" "path (N m) q (qs @ rest) None" "length qs \<le> qsize"
    and "length qs < qsize \<longrightarrow> rest = []" "out_seg m out" "distinct (out @ ps @ qs @ rest)"
  shows "\<exists>m'. merge_loop cmp p (length ps) q qsize m = Some (m', ptr rest)
    \<and> out_seg m' (out @ mrg (keys (fst (ms_cs m))) ps qs)
    \<and> frame (set out \<union> set ps \<union> set qs) (fst (ms_cs m)) (fst (ms_cs m'))
    \<and> keys (fst (ms_cs m')) = keys (fst (ms_cs m))"
  using assms
proof (induction "length ps + length qs" arbitrary: p ps q qs qsize m out rule: less_induct)
  case less
  let ?K = "keys (fst (ms_cs m))"
  have take_e: "\<exists>m'. merge_loop cmp p' (length ps') q' qsize' (append_merged e m1) = Some (m', ptr rest)
      \<and> out_seg m' ((out @ [e]) @ mrg ?K ps' qs')
      \<and> frame (set out \<union> {e} \<union> set ps' \<union> set qs') (fst (ms_cs m)) (fst (ms_cs m'))
      \<and> keys (fst (ms_cs m')) = ?K"
    if hyp: "length ps' + length qs' < length ps + length qs" "path (N m) p' ps' pe" "path (N m) q' (qs' @ rest) None"
      "length qs' \<le> qsize'" "length qs' < qsize' \<longrightarrow> rest = []" "distinct ((out @ [e]) @ ps' @ qs' @ rest)"
      "nxt (fst (ms_cs m1)) = N m" "inf (fst (ms_cs m1)) = inf (fst (ms_cs m))" "keys (fst (ms_cs m1)) = ?K"
      "ms_list m1 = ms_list m" "ms_tail m1 = ms_tail m"
    for ps' qs' p' q' qsize' e m1
  proof -
    have o: "out_seg m1 out" "e \<notin> set out" "distinct out"
      using less.prems(5) hyp by (auto simp: out_seg_def)
    note A = append_merged_ok [OF o] and K = append_keys [OF o]
    have "frame (set out) (fst (ms_cs m)) (fst (ms_cs (append_merged e m1)))"
      using A(2) hyp(7,8) by (simp add: frame_def)
    note F = frame_path [OF this]
    have "\<exists>m'. merge_loop cmp p' (length ps') q' qsize' (append_merged e m1) = Some (m', ptr rest)
      \<and> out_seg m' ((out @ [e]) @ mrg (keys (fst (ms_cs (append_merged e m1)))) ps' qs')
      \<and> frame (set (out @ [e]) \<union> set ps' \<union> set qs') (fst (ms_cs (append_merged e m1))) (fst (ms_cs m'))
      \<and> keys (fst (ms_cs m')) = keys (fst (ms_cs (append_merged e m1)))"
      using hyp A(1) F [of ps' p' pe] F [of "qs' @ rest" q' None] by (intro less.hyps) auto
    then obtain m' where m': "merge_loop cmp p' (length ps') q' qsize' (append_merged e m1) = Some (m', ptr rest)"
      "out_seg m' ((out @ [e]) @ mrg ?K ps' qs')" "keys (fst (ms_cs m')) = ?K"
      "frame (set (out @ [e]) \<union> set ps' \<union> set qs') (fst (ms_cs (append_merged e m1))) (fst (ms_cs m'))"
      using K hyp(9) by auto
    moreover have "frame (set out \<union> {e} \<union> set ps' \<union> set qs') (fst (ms_cs m)) (fst (ms_cs m'))"
      using \<open>frame (set out) (fst (ms_cs m)) (fst (ms_cs (append_merged e m1)))\<close> m'(4)
      by (rule frame_trans) auto
    ultimately show ?thesis by blast
  qed
  show ?case
  proof (cases ps)
    case Nil
    show ?thesis
    proof (cases qs)
      case Nil2: Nil
      have "\<not> (0 < qsize \<and> q \<noteq> None)" using less.prems(2,4) Nil2 by auto
      moreover have "q = ptr rest" using less.prems(2) Nil2 by (auto dest: path_ptr)
      ultimately show ?thesis
        using less.prems(5) Nil Nil2 by (subst merge_loop.simps) auto
    next
      case (Cons y qs')
      have "\<exists>m'. merge_loop cmp p (length ([] :: nat list)) (N m y) (qsize - 1) (append_merged y m) = Some (m', ptr rest)
      \<and> out_seg m' ((out @ [y]) @ mrg ?K [] qs')
      \<and> frame (set out \<union> {y} \<union> set ([] :: nat list) \<union> set qs') (fst (ms_cs m)) (fst (ms_cs m'))
      \<and> keys (fst (ms_cs m')) = ?K"
        using less.prems Nil Cons by (intro take_e) auto
      then show ?thesis
        using less.prems(2,3) Nil Cons by (subst merge_loop.simps) (auto simp: Let_def)
    qed
  next
    case (Cons x ps')
    then have p: "p = Some x" "path (N m) (N m x) ps' pe" using less.prems(1) by auto
    show ?thesis
    proof (cases qs)
      case Nil
      then have q: "qsize = 0 \<or> q = None" using less.prems(2,4) by auto
      have "\<exists>m'. merge_loop cmp (N m x) (length ps') q qsize (append_merged x m) = Some (m', ptr rest)
        \<and> out_seg m' ((out @ [x]) @ mrg ?K ps' [])
        \<and> frame (set out \<union> {x} \<union> set ps' \<union> set ([] :: nat list)) (fst (ms_cs m)) (fst (ms_cs m'))
        \<and> keys (fst (ms_cs m')) = ?K"
        using less.prems Nil Cons p by (intro take_e) auto
      then show ?thesis
        using p q Nil Cons by (subst merge_loop.simps) (auto simp: Let_def)
    next
      case Cons2: (Cons y qs')
      then have q: "q = Some y" "path (N m) (N m y) (qs' @ rest) None" "0 < qsize" using less.prems(2,3) by auto
      obtain h w where cs: "ms_cs m = (h, w)" by fastforce
      obtain r h' w' where c: "cmp (inf h x) (inf h y) (h, w) = Some (r, h', w')" "nxt h' = nxt h" "inf h' = inf h"
        "\<forall>d. key (dat h' d) = key (dat h d)" "r \<le> 0 \<longleftrightarrow> key (dat h (inf h x)) \<le> key (dat h (inf h y))"
        using cmp_ok [of "inf h x" "inf h y" h w] by blast
      have r: "r \<le> 0 \<longleftrightarrow> ?K x \<le> ?K y" using c(5) cs by (simp add: keys_def)
      define m1 where "m1 = m\<lparr>ms_cs := (h', w')\<rparr>"
      have m1: "nxt (fst (ms_cs m1)) = N m" "inf (fst (ms_cs m1)) = inf (fst (ms_cs m))" "keys (fst (ms_cs m1)) = ?K"
        "ms_list m1 = ms_list m" "ms_tail m1 = ms_tail m"
        using c cs by (simp_all add: m1_def keys_def fun_eq_iff)
      have step: "merge_loop cmp p (length ps) q qsize m =
          (if ?K x \<le> ?K y then merge_loop cmp (N m x) (length ps') q qsize (append_merged x m1)
           else merge_loop cmp p (length ps) (N m y) (qsize - 1) (append_merged y m1))"
        using Cons p q c cs r m1(1) by (subst merge_loop.simps) (simp add: Let_def m1_def [symmetric])
      show ?thesis
      proof (cases "?K x \<le> ?K y")
        case True
        have "\<exists>m'. merge_loop cmp (N m x) (length ps') q qsize (append_merged x m1) = Some (m', ptr rest)
          \<and> out_seg m' ((out @ [x]) @ mrg ?K ps' qs)
          \<and> frame (set out \<union> {x} \<union> set ps' \<union> set qs) (fst (ms_cs m)) (fst (ms_cs m'))
          \<and> keys (fst (ms_cs m')) = ?K"
          using less.prems Cons p m1 by (intro take_e) auto
        then show ?thesis using step True Cons Cons2 by auto
      next
        case False
        have "\<exists>m'. merge_loop cmp p (length ps) (N m y) (qsize - 1) (append_merged y m1) = Some (m', ptr rest)
          \<and> out_seg m' ((out @ [y]) @ mrg ?K ps qs')
          \<and> frame (set out \<union> {y} \<union> set ps \<union> set qs') (fst (ms_cs m)) (fst (ms_cs m'))
          \<and> keys (fst (ms_cs m')) = ?K"
          using less.prems Cons2 q m1 by (intro take_e) auto
        moreover have "set out \<union> {y} \<union> set ps \<union> set qs' = set out \<union> set ps \<union> set qs" using Cons2 by auto
        ultimately show ?thesis using step False Cons Cons2 by auto
      qed
    qed
  qed
qed

lemma pass_loop_ok:
  assumes "0 < k" "path (N m) p xs None" "out_seg m out" "distinct (out @ xs)"
  shows "\<exists>m'. pass_loop cmp k p c m = Some (m', c + pairs k xs)
    \<and> out_seg m' (out @ pass (keys (fst (ms_cs m))) k xs)
    \<and> frame (set out \<union> set xs) (fst (ms_cs m)) (fst (ms_cs m'))
    \<and> keys (fst (ms_cs m')) = keys (fst (ms_cs m))"
  using assms(2-4)
proof (induction "length xs" arbitrary: p xs c m out rule: less_induct)
  case less
  let ?K = "keys (fst (ms_cs m))"
  show ?case
  proof (cases xs)
    case Nil
    then show ?thesis
      using less.prems by (subst pass_loop.simps) (simp add: pairs.simps pass.simps)
  next
    case (Cons x ys)
    let ?ps = "take k xs" and ?qs = "take k (drop k xs)" and ?rest = "drop (2 * k) xs"
    have p: "p = Some x" using less.prems(1) Cons by simp
    have xs: "xs = ?ps @ ?qs @ ?rest" by (metis append_take_drop_id drop_drop mult_2)
    then obtain r where r: "path (N m) p ?ps r" "path (N m) r (?qs @ ?rest) None"
      using less.prems(1) path_append [of "N m" p ?ps "?qs @ ?rest" None] by metis
    have "r = ptr (drop k xs)" using path_ptr [OF r(2)] by (metis append_take_drop_id drop_drop mult_2)
    moreover have "advance k (Some x) 0 (fst (ms_cs m)) = Some (ptr (drop k xs), 0 + min k (length xs))"
      using less.prems(1) p by (intro advance_path) simp
    ultimately have adv: "advance k p 0 (fst (ms_cs m)) = Some (r, length ?ps)"
      using p by (simp add: min.commute)
    have d: "distinct (out @ ?ps @ ?qs @ ?rest)" using less.prems(3) xs by metis
    have "length ?qs < k \<longrightarrow> ?rest = []" by (auto simp: mult_2)
    then obtain m1 where m1: "merge_loop cmp p (length ?ps) r k m = Some (m1, ptr ?rest)"
      "out_seg m1 (out @ mrg ?K ?ps ?qs)" "keys (fst (ms_cs m1)) = ?K"
      "frame (set out \<union> set ?ps \<union> set ?qs) (fst (ms_cs m)) (fst (ms_cs m1))"
      using merge_loop_ok [OF r, of k out] less.prems(2) d by auto
    have "path (N m) (ptr ?rest) ?rest None"
      using r(2) path_append [of "N m" r ?qs ?rest None] path_ptr by metis
    then have pr: "path (N m1) (ptr ?rest) ?rest None"
      using frame_path [OF m1(4), of ?rest "ptr ?rest" None] d by auto
    have "distinct ((out @ mrg ?K ?ps ?qs) @ ?rest)"
    proof -
      have "mset ((out @ mrg ?K ?ps ?qs) @ ?rest) = mset (out @ ?ps @ ?qs @ ?rest)" by simp
      then show ?thesis using d by (metis mset_eq_imp_distinct_iff)
    qed
    moreover have "length ?rest < length xs" using Cons assms(1) by simp
    ultimately obtain m2 where m2: "pass_loop cmp k (ptr ?rest) (c + 1) m1 = Some (m2, c + 1 + pairs k ?rest)"
      "out_seg m2 ((out @ mrg ?K ?ps ?qs) @ pass ?K k ?rest)" "keys (fst (ms_cs m2)) = ?K"
      "frame (set (out @ mrg ?K ?ps ?qs) \<union> set ?rest) (fst (ms_cs m1)) (fst (ms_cs m2))"
      using less.hyps [of ?rest m1 "ptr ?rest" "out @ mrg ?K ?ps ?qs" "c + 1"] pr m1(2,3) by auto
    have sub: "set out \<union> set ?ps \<union> set ?qs \<subseteq> set out \<union> set xs" "set (out @ mrg ?K ?ps ?qs) \<union> set ?rest \<subseteq> set out \<union> set xs"
      by (auto dest: in_set_takeD in_set_dropD)
    have "pass_loop cmp k p c m = Some (m2, c + pairs k xs)"
      using p adv m1(1) m2(1) Cons assms(1) pairs.simps [of k xs] by (subst pass_loop.simps) simp
    moreover have "out_seg m2 (out @ pass ?K k xs)"
      using m2(2) Cons assms(1) pass.simps [of ?K k xs] by simp
    ultimately show ?thesis
      using m2(3) frame_trans [OF m1(4) m2(4) sub] by blast
  qed
qed

lemma sort_loop_ok:
  assumes "0 < k" "path (nxt h) l xs None" "distinct xs" "xs \<noteq> []" "runs_sorted (keys h) k xs"
  shows "\<exists>l' h' w' ys. sort_loop cmp k l (h, w) = Some (l', h', w') \<and> path (nxt h') l' ys None
    \<and> mset ys = mset xs \<and> sorted (map (keys h) ys) \<and> keys h' = keys h \<and> frame (set xs) h h'"
  using assms
proof (induction "length xs - k" arbitrary: k h l xs w rule: less_induct)
  case less
  let ?m = "\<lparr>ms_list = None, ms_tail = None, ms_cs = (h, w)\<rparr>"
  let ?ys = "pass (keys h) k xs"
  have "out_seg ?m []" by (simp add: out_seg_def)
  then obtain m' where m': "pass_loop cmp k l 0 ?m = Some (m', pairs k xs)" "out_seg m' ?ys"
    "frame (set xs) h (fst (ms_cs m'))" "keys (fst (ms_cs m')) = keys h"
    using pass_loop_ok [OF less.prems(1), of ?m l xs "[]" 0] less.prems(2,3) by auto
  have ms: "mset ?ys = mset xs" by simp
  have ne: "?ys \<noteq> []" and set_ys: "set ?ys = set xs"
    using less.prems(4) ms by (metis mset_zero_iff, metis set_mset_mset)
  have dys: "distinct ?ys" using less.prems(3) ms by (metis mset_eq_imp_distinct_iff)
  define h1 where "h1 = set_nxt (last ?ys) None (fst (ms_cs m'))"
  have t: "ms_tail m' = Some (last ?ys)" "path (N m') (ms_list m') (butlast ?ys) (Some (last ?ys))"
    using m'(2) ne by (simp_all add: out_seg_def)
  have "last ?ys \<notin> set (butlast ?ys)"
    using dys ne by (metis append_butlast_last_id distinct_append list.set_intros(1) disjoint_iff)
  then have "path (nxt h1) (ms_list m') (butlast ?ys @ [last ?ys]) None"
    using t(2) by (simp add: h1_def path_append)
  then have p1: "path (nxt h1) (ms_list m') ?ys None" using ne by simp
  have k1: "keys h1 = keys h" using m'(4) by (simp add: h1_def keys_def fun_eq_iff)
  have f1: "frame (set xs) h h1"
    using m'(3) set_ys ne last_in_set [OF ne] by (auto simp: frame_def h1_def)
  have rs: "runs_sorted (keys h) (2 * k) ?ys" using runs_sorted_pass less.prems(1,5) by blast
  have step: "sort_loop cmp k l (h, w) = (if pairs k xs \<le> 1 then Some (ms_list m', h1, snd (ms_cs m'))
      else sort_loop cmp (k * 2) (ms_list m') (h1, snd (ms_cs m')))"
    using m'(1) t(1) by (subst sort_loop.simps) (simp add: h1_def Let_def)
  show ?case
  proof (cases "pairs k xs \<le> 1")
    case True
    then have "length ?ys \<le> 2 * k"
      using pairs_le_1 [OF less.prems(1)] ms by (metis size_mset)
    then have "sorted (map (keys h) ?ys)" using rs less.prems(1) by (intro runs_sorted_all) simp_all
    then show ?thesis using step True p1 ms k1 f1 by (simp only: if_True) blast
  next
    case False
    then have "2 * k < length xs" using pairs_le_1 [OF less.prems(1), of xs] by simp
    then have "length ?ys - 2 * k < length xs - k"
      using ms less.prems(1) by (metis diff_less_mono2 mult_2 less_add_same_cancel1 size_mset less_trans)
    then have "\<exists>l' h' w' zs. sort_loop cmp (2 * k) (ms_list m') (h1, snd (ms_cs m')) = Some (l', h', w') \<and> path (nxt h') l' zs None
        \<and> mset zs = mset ?ys \<and> sorted (map (keys h1) zs) \<and> keys h' = keys h1 \<and> frame (set ?ys) h1 h'"
      using less.prems(1) p1 dys ne rs k1 by (intro less.hyps) simp_all
    then obtain l' h' w' zs where z: "sort_loop cmp (2 * k) (ms_list m') (h1, snd (ms_cs m')) = Some (l', h', w')"
      "path (nxt h') l' zs None" "mset zs = mset ?ys" "sorted (map (keys h1) zs)" "keys h' = keys h1" "frame (set ?ys) h1 h'"
      by blast
    have "frame (set xs) h h'" using f1 z(6) set_ys by (intro frame_trans [OF f1 z(6)]) auto
    then show ?thesis
      using step False z k1 by (simp add: mult.commute) blast
  qed
qed

lemma mergesort_ok:
  assumes "path (nxt h) l xs None" "distinct xs" "xs \<noteq> []"
  shows "\<exists>l' h' w' ys. core_list_mergesort cmp l (h, w) = Some (l', h', w') \<and> path (nxt h') l' ys None
    \<and> mset ys = mset xs \<and> sorted (map (\<lambda>x. key (dat h (inf h x))) ys)
    \<and> (\<forall>x. key (dat h' (inf h' x)) = key (dat h (inf h x)))"
proof -
  have k: "keys h = (\<lambda>x. key (dat h (inf h x)))" for h by (rule ext) (simp add: keys_def)
  obtain l' h' w' ys where s: "sort_loop cmp 1 l (h, w) = Some (l', h', w')" "path (nxt h') l' ys None"
    "mset ys = mset xs" "sorted (map (keys h) ys)" "keys h' = keys h"
    using sort_loop_ok [OF zero_less_one assms runs_sorted_1, of w] by blast
  have "\<forall>x. key (dat h' (inf h' x)) = key (dat h (inf h x))"
    using fun_cong [OF s(5)] by (simp add: k)
  moreover have "sorted (map (\<lambda>x. key (dat h (inf h x))) ys)" using s(4) unfolding k .
  ultimately show ?thesis using s(1-3) by (simp only: core_list_mergesort_def) blast
qed

end

interpretation idx_cmp: stable_cmp "cmp_idx True" "\<lambda>d. sint (idx d)"
  by unfold_locales (auto simp: cmp_idx_def Let_def)

section \<open>Properties\<close>

text \<open>
  C17: sorting by index terminates on every non-empty null-terminated list and returns a list of the
  same cells in increasing order of their (signed) indices; no cell is attached to another index.
\<close>
theorem mergesort_sorts:
  assumes "path (nxt h) l xs None" "distinct xs" "xs \<noteq> []"
  shows "\<exists>l' h' w' ys. core_list_mergesort (cmp_idx True) l (h, w) = Some (l', h', w') \<and> path (nxt h') l' ys None
    \<and> mset ys = mset xs \<and> sorted (map (\<lambda>x. sint (idx (dat h (inf h x)))) ys)
    \<and> (\<forall>x. sint (idx (dat h' (inf h' x))) = sint (idx (dat h (inf h x))))"
  by (rule idx_cmp.mergesort_ok [OF assms])

definition sample_heap :: lheap where
  "sample_heap = \<lparr>nxt = (\<lambda>x. if x < 3 then Some (Suc x) else None), inf = (\<lambda>x. x),
    dat = (\<lambda>x. \<lparr>data16 = 0x1234, idx = of_nat (3 - x)\<rparr>)\<rparr>"

theorem mergesort_sorts_witness:
  "\<forall>w. \<exists>l' h' w' ys. core_list_mergesort (cmp_idx True) (Some 0) (sample_heap, w) = Some (l', h', w') \<and> path (nxt h') l' ys None
    \<and> mset ys = mset [0, 1, 2, 3] \<and> sorted (map (\<lambda>x. sint (idx (dat sample_heap (inf sample_heap x)))) ys)
    \<and> (\<forall>x. sint (idx (dat h' (inf h' x))) = sint (idx (dat sample_heap (inf sample_heap x))))"
  by (intro allI mergesort_sorts) (simp_all add: sample_heap_def)

text \<open>
  sorting the empty list dereferences the null pointer, although a comment in the code says
  that case is allowed for.
\<close>
theorem mergesort_empty_fails: "core_list_mergesort cmp None cs = None"
  unfolding core_list_mergesort_def by (subst sort_loop.simps, subst pass_loop.simps) simp

text \<open>
  reversal terminates on every null-terminated list, returns the same cells in reverse order,
  changes no data and no cell outside the list, and a search through the reversed list finds the
  last cell of the original list that has the index asked for.
\<close>
theorem reverse_correct:
  assumes "path (nxt h) l xs None" "distinct xs" "0 \<le> sint (idx info)"
  shows "\<exists>l' h'. core_list_reverse l h = Some (l', h') \<and> path (nxt h') l' (rev xs) None \<and> inf h' = inf h \<and> dat h' = dat h
    \<and> (\<forall>p. p \<notin> set xs \<longrightarrow> nxt h' p = nxt h p)
    \<and> core_list_find l' info h' = Some (List.find (\<lambda>p. idx (dat h (inf h p)) = idx info) (rev xs))"
  using reverse_loop_path [OF assms(1), of None "[]"] assms(2,3) find_loop_path
  by (fastforce simp: core_list_reverse_def core_list_find_def)

theorem reverse_correct_witness:
  "\<exists>l' h'. core_list_reverse (Some 0) sample_heap = Some (l', h') \<and> path (nxt h') l' (rev [0, 1, 2, 3]) None
    \<and> inf h' = inf sample_heap \<and> dat h' = dat sample_heap
    \<and> (\<forall>p. p \<notin> set [0, 1, 2, 3] \<longrightarrow> nxt h' p = nxt sample_heap p)
    \<and> core_list_find l' \<lparr>data16 = 0, idx = 2\<rparr> h' =
      Some (List.find (\<lambda>p. idx (dat sample_heap (inf sample_heap p)) = idx \<lparr>data16 = 0, idx = 2\<rparr>) (rev [0, 1, 2, 3]))"
  by (rule reverse_correct) (simp_all add: sample_heap_def)

text \<open>
  removing the cell after an item and undoing the removal gives back the store as it was; while
  it is removed, the list is the old one without that cell, and the data items the remaining cells
  point to are the old ones without the item's own.
\<close>
theorem remove_undone:
  assumes "path (nxt h) (Some item) (item # ret # xs) None" "distinct (item # ret # xs)"
  shows "\<exists>h'. core_list_remove item h = Some (ret, h') \<and> path (nxt h') (Some item) (item # xs) None
    \<and> map (inf h') (item # xs) = map (inf h) (ret # xs) \<and> core_list_undo_remove ret item h' = (ret, h)"
proof -
  have n: "nxt h item = Some ret" using assms(1) by simp
  then obtain h' where h': "core_list_remove item h = Some (ret, h')" by (simp add: core_list_remove_def Let_def)
  moreover have "path (nxt h') (Some item) (item # xs) None \<and> map (inf h') (item # xs) = map (inf h) (ret # xs)"
    using h' n assms by (auto simp: core_list_remove_def Let_def)
  ultimately show ?thesis using remove_undo [OF n _ h'] assms(2) by auto
qed

theorem remove_undone_witness:
  "\<exists>h'. core_list_remove 0 sample_heap = Some (1, h') \<and> path (nxt h') (Some 0) (0 # [2, 3]) None
    \<and> map (inf h') (0 # [2, 3]) = map (inf sample_heap) (1 # [2, 3]) \<and> core_list_undo_remove 1 0 h' = (1, sample_heap)"
  by (rule remove_undone) (simp_all add: sample_heap_def)

end
