(* ===== verification/Coremark_Main.thy ===== *)
theory Coremark_Main
  imports Coremark_List
begin

text \<open>
  The benchmark driver \<open>software-test/coremark/core_main.c\<close> and its port
  \<open>barebones/core_portme.c\<close>, in the configuration \<open>barebones/core_portme.h\<close> sets up: seeds
  from volatile variables, memory on the stack, one context, no floating point.

  A printed line is a constructor of \<open>main_line\<close>.  \<open>None\<close> stands for a run that does not
  return: it divides by zero, follows a null pointer or loops forever.
\<close>

section \<open>The port\<close>

record portme =
  clock_counter :: u32
  start_time_val :: u32
  stop_time_val :: u32
  portable_id :: u8

definition barebones_clock :: "portme \<Rightarrow> u32 \<times> portme" where
  "barebones_clock p = (clock_counter p, p\<lparr>clock_counter := clock_counter p + 1\<rparr>)"

definition start_time :: "portme \<Rightarrow> portme" where
  "start_time p = (case barebones_clock p of (t, p) \<Rightarrow> p\<lparr>start_time_val := t\<rparr>)"

definition stop_time :: "portme \<Rightarrow> portme" where
  "stop_time p = (case barebones_clock p of (t, p) \<Rightarrow> p\<lparr>stop_time_val := t\<rparr>)"

definition get_time :: "portme \<Rightarrow> u32" where
  "get_time p = stop_time_val p - start_time_val p"

definition CLOCKS_PER_SEC :: u32 where
  "CLOCKS_PER_SEC = 1000000"

definition time_in_secs :: "u32 \<Rightarrow> u32" where
  "time_in_secs ticks = ticks div (CLOCKS_PER_SEC div 1)"

datatype main_line =
    Bad_ptr_int | Bad_u32 | List_head_too_big
  | Run_parameters nat
  | Err_list u16 u16 | Err_matrix u16 u16 | Err_state u16 u16
  | Size_line nat | Ticks_line u32 | Secs_line u32 | Rate_line u32 | Err_too_short | Iterations_line u32
  | Compiler_version | Compiler_flags | Memory_location
  | Seedcrc u16 | Crclist u16 | Crcmatrix u16 | Crcstate u16 | Crcfinal u16
  | Validated | Errors_detected | Cannot_validate

definition portable_init :: "nat \<Rightarrow> nat \<Rightarrow> nat \<Rightarrow> portme \<Rightarrow> main_line list \<times> portme" where
  "portable_init sz_ptr_int sz_ptr sz_u32 p =
    ((if sz_ptr_int \<noteq> sz_ptr then [Bad_ptr_int] else []) @ (if sz_u32 \<noteq> 4 then [Bad_u32] else []),
     p\<lparr>clock_counter := 0, portable_id := 1\<rparr>)"

definition portable_fini :: "portme \<Rightarrow> portme" where
  "portable_fini p = p\<lparr>portable_id := 0\<rparr>"

section \<open>The driver\<close>

abbreviation (input) ID_LIST :: u32 where "ID_LIST \<equiv> 1"
abbreviation (input) ID_MATRIX :: u32 where "ID_MATRIX \<equiv> 2"
abbreviation (input) ID_STATE :: u32 where "ID_STATE \<equiv> 4"
abbreviation (input) ALL_ALGORITHMS_MASK :: u32 where "ALL_ALGORITHMS_MASK \<equiv> 7"

definition list_known_crc :: "u16 list" where
  "list_known_crc = [0xd4b0, 0x3340, 0x6a79, 0xe714, 0xe3c1]"

definition matrix_known_crc :: "u16 list" where
  "matrix_known_crc = [0xbe52, 0x1199, 0x5608, 0x1fd7, 0x0747]"

definition state_known_crc :: "u16 list" where
  "state_known_crc = [0x5e47, 0x39bf, 0xe5a4, 0x8e3a, 0x8d84]"

fun iterate_loop :: "nat \<Rightarrow> bool \<Rightarrow> cmp_state \<Rightarrow> cmp_state option" where
  "iterate_loop 0 first cs = Some cs"
| "iterate_loop (Suc k) first (h, res) =
    do {
      (c, h, res) \<leftarrow> core_bench_list res 1 h;
      let res = res\<lparr>crc := crcu16 c (crc res)\<rparr>;
      (c, h, res) \<leftarrow> core_bench_list res (- 1) h;
      let res = res\<lparr>crc := crcu16 c (crc res)\<rparr>;
      iterate_loop k False (h, if first then res\<lparr>crclist := crc res\<rparr> else res)
    }"

definition iterate :: "cmp_state \<Rightarrow> cmp_state option" where
  "iterate cs =
    (case cs of (h, res) \<Rightarrow>
      iterate_loop (unat (iterations res)) True (h, res\<lparr>crc := 0, crclist := 0, crcmatrix := 0, crcstate := 0\<rparr>))"

text \<open>The seeds and the defaults that stand for a whole set of them.\<close>

definition init_seeds :: "u32 list \<Rightarrow> core_results \<Rightarrow> core_results" where
  "init_seeds seeds res =
    (let res = res\<lparr>seed1 := ucast (get_seed_32 seeds 1), seed2 := ucast (get_seed_32 seeds 2),
           seed3 := ucast (get_seed_32 seeds 3), iterations := get_seed_32 seeds 4, execs := get_seed_32 seeds 5\<rparr>;
         res = (if execs res = 0 then res\<lparr>execs := ALL_ALGORITHMS_MASK\<rparr> else res);
         res = (if seed1 res = 0 \<and> seed2 res = 0 \<and> seed3 res = 0
                then res\<lparr>seed1 := 0, seed2 := 0, seed3 := 0x66\<rparr> else res)
     in if seed1 res = 1 \<and> seed2 res = 0 \<and> seed3 res = 0
        then res\<lparr>seed1 := 0x3415, seed2 := 0x3415, seed3 := 0x66\<rparr> else res)"

definition num_algorithms :: "u32 \<Rightarrow> nat" where
  "num_algorithms ex = length (filter (\<lambda>i. push_bit i 1 AND ex \<noteq> 0) [0..<3])"

text \<open>
  The offset in the data block of the part each of the three algorithms works on (\<open>memblock[1]\<close> to
  \<open>memblock[3]\<close>), in the order of their numbers; an algorithm that is not run gets none.
\<close>

definition block_step :: "u32 \<Rightarrow> nat \<Rightarrow> nat \<Rightarrow> nat option list \<times> nat \<Rightarrow> nat option list \<times> nat" where
  "block_step ex sz i st =
    (case st of (offs, j) \<Rightarrow>
      if push_bit i 1 AND ex \<noteq> 0 then (offs @ [Some (sz * j)], j + 1) else (offs @ [None], j))"

definition assign_blocks :: "u32 \<Rightarrow> nat \<Rightarrow> nat option list" where
  "assign_blocks ex sz = fst (fold (block_step ex sz) [0..<3] ([], 0))"

definition call_inits :: "nat option list \<Rightarrow> u8 list \<Rightarrow> u32 list \<Rightarrow> cmp_state \<Rightarrow> cmp_state option" where
  "call_inits offs mem C cs =
    (case cs of (h, res) \<Rightarrow> do {
       (h, res) \<leftarrow>
         (if execs res AND ID_LIST \<noteq> 0 then do {
            (l, h, res) \<leftarrow> core_list_init (res_size res) (seed1 res) h res;
            lp \<leftarrow> l;
            Some (h, res\<lparr>res_list := lp\<rparr>)
          }
          else Some (h, res));
       res \<leftarrow>
         (if execs res AND ID_MATRIX \<noteq> 0 then do {
            m \<leftarrow> core_init_matrix (of_nat (res_size res)) (scast (seed1 res) OR push_bit 16 (scast (seed2 res))) C;
            Some (res\<lparr>mat := m\<rparr>)
          }
          else Some res);
       res \<leftarrow>
         (if execs res AND ID_STATE \<noteq> 0 then do {
            off \<leftarrow> offs ! 2;
            Some (res\<lparr>memblock3 := core_init_state (res_size res) (seed1 res) (take (res_size res) (drop off mem))\<rparr>)
          }
          else Some res);
       Some (h, res)
     })"

partial_function (option) calibrate_loop ::
  "u32 \<Rightarrow> portme \<Rightarrow> cmp_state \<Rightarrow> (u32 \<times> portme \<times> cmp_state) option" where
  "calibrate_loop secs_passed p cs =
    (if secs_passed < 1 then
       Option.bind (iterate (fst cs, (snd cs)\<lparr>iterations := iterations (snd cs) * 10\<rparr>)) (\<lambda>cs.
         let p = stop_time (start_time p) in calibrate_loop (time_in_secs (get_time p)) p cs)
     else Some (secs_passed, p, cs))"

definition calibrate :: "portme \<Rightarrow> cmp_state \<Rightarrow> (portme \<times> cmp_state) option" where
  "calibrate p cs =
    (if iterations (snd cs) = 0 then do {
       (secs, p, h, res) \<leftarrow> calibrate_loop 0 p (fst cs, (snd cs)\<lparr>iterations := 1\<rparr>);
       let divisor = (if secs = 0 then 1 else secs);
       Some (p, h, res\<lparr>iterations := iterations res * (1 + 10 div divisor)\<rparr>)
     }
     else Some (p, cs))"

definition seedcrc :: "core_results \<Rightarrow> u16" where
  "seedcrc res =
    crc16 (of_nat (res_size res)) (crc16 (seed3 res) (crc16 (seed2 res) (crc16 (seed1 res) 0)))"

definition known_id :: "u16 \<Rightarrow> nat option" where
  "known_id c =
    (if c = 0x8a02 then Some 0 else if c = 0x7b05 then Some 1 else if c = 0x4eaf then Some 2
     else if c = 0xe9f5 then Some 3 else if c = 0x18f2 then Some 4 else None)"

text \<open>The checksums of a known run: the lines printed and the results with their error count.\<close>

definition check_crcs :: "nat \<Rightarrow> core_results \<Rightarrow> main_line list \<times> core_results" where
  "check_crcs k res =
    (let res = res\<lparr>err := 0\<rparr>;
         bad_l = (execs res AND ID_LIST \<noteq> 0 \<and> crclist res \<noteq> list_known_crc ! k);
         res = (if bad_l then res\<lparr>err := err res + 1\<rparr> else res);
         bad_m = (execs res AND ID_MATRIX \<noteq> 0 \<and> crcmatrix res \<noteq> matrix_known_crc ! k);
         res = (if bad_m then res\<lparr>err := err res + 1\<rparr> else res);
         bad_s = (execs res AND ID_STATE \<noteq> 0 \<and> crcstate res \<noteq> state_known_crc ! k);
         res = (if bad_s then res\<lparr>err := err res + 1\<rparr> else res)
     in ((if bad_l then [Err_list (crclist res) (list_known_crc ! k)] else []) @
         (if bad_m then [Err_matrix (crcmatrix res) (matrix_known_crc ! k)] else []) @
         (if bad_s then [Err_state (crcstate res) (state_known_crc ! k)] else []), res))"

text \<open>The switch on \<open>seedcrc\<close> and the checks of a known run; \<open>total_errors\<close> is an \<open>ee_s16\<close>.\<close>

definition validate :: "core_results \<Rightarrow> main_line list \<times> u16 \<times> core_results" where
  "validate res =
    (case known_id (seedcrc res) of
       None \<Rightarrow> ([], - 1, res)
     | Some k \<Rightarrow> (case check_crcs k res of (ls, res) \<Rightarrow> (Run_parameters k # ls, 0 + err res, res)))"

definition verdict :: "u16 \<Rightarrow> main_line list" where
  "verdict total_errors =
    (if total_errors = 0 then [Validated] else []) @
    (if 0 < sint total_errors then [Errors_detected] else []) @
    (if sint total_errors < 0 then [Cannot_validate] else [])"

text \<open>\<open>types\<close> is the result of \<open>check_data_types\<close>.\<close>

definition report :: "u8 \<Rightarrow> u32 \<Rightarrow> core_results \<Rightarrow> main_line list" where
  "report types total_time res =
    (case validate res of (lines, total_errors, res) \<Rightarrow>
      let total_errors = total_errors + ucast types;
          secs = time_in_secs total_time;
          timing = [Size_line (res_size res), Ticks_line total_time, Secs_line secs] @
            (if 0 < secs then [Rate_line (1 * iterations res div secs)] else []);
          total_errors = (if secs < 10 then total_errors + 1 else total_errors);
          crcs = [Iterations_line (1 * iterations res), Compiler_version, Compiler_flags, Memory_location, Seedcrc (seedcrc res)] @
            (if execs res AND ID_LIST \<noteq> 0 then [Crclist (crclist res)] else []) @
            (if execs res AND ID_MATRIX \<noteq> 0 then [Crcmatrix (crcmatrix res)] else []) @
            (if execs res AND ID_STATE \<noteq> 0 then [Crcstate (crcstate res)] else []) @
            [Crcfinal (crc res)]
      in lines @ timing @ (if secs < 10 then [Err_too_short] else []) @ crcs @ verdict total_errors)"

text \<open>
  The environment of a run: the volatile seeds, \<open>TOTAL_DATA_SIZE\<close>, the sizes of the types, and
  the contents of uninitialised memory.
\<close>

record main_env =
  e_seeds :: "u32 list"
  e_total :: nat
  e_list_head :: nat
  e_sizes :: "nat \<times> nat \<times> nat \<times> nat \<times> nat \<times> nat \<times> nat"
  e_mem :: "u8 list"
  e_C :: "u32 list"
  e_heap :: lheap
  e_res :: core_results
  e_port :: portme

text \<open>From the start to the end of the timed run.\<close>

definition benchmark :: "main_env \<Rightarrow> portme \<Rightarrow> (portme \<times> cmp_state) option" where
  "benchmark e p =
    (let res = init_seeds (e_seeds e) (e_res e);
         res = res\<lparr>res_size := e_total e, err := 0\<rparr>;
         n = num_algorithms (execs res)
     in if n = 0 then None
     else
       let res = res\<lparr>res_size := res_size res div n\<rparr>
       in do {
         cs \<leftarrow> call_inits (assign_blocks (execs res) (res_size res)) (e_mem e) (e_C e) (e_heap e, res);
         (p, cs) \<leftarrow> calibrate p cs;
         cs \<leftarrow> iterate cs;
         Some (stop_time (start_time p), cs)
       })"

definition coremark_main :: "main_env \<Rightarrow> (main_line list \<times> int \<times> portme) option" where
  "coremark_main e =
    (case e_sizes e of (su8, su16, ss16, ss32, su32, spint, sptr) \<Rightarrow>
      case portable_init spint sptr su32 (e_port e) of (lines, p) \<Rightarrow>
        if 128 < e_list_head e then Some (lines @ [List_head_too_big], 0, p)
        else do {
          (p, h, res) \<leftarrow> benchmark e p;
          let rep = report (check_data_types su8 su16 ss16 ss32 su32 spint sptr) (get_time p) res;
          Some (lines @ rep, 0, portable_fini p)
        })"

section \<open>Lemmas\<close>

subsection \<open>The clock\<close>

lemma elapsed [simp]: "get_time (stop_time (start_time p)) = 1"
  by (simp add: get_time_def stop_time_def start_time_def barebones_clock_def)

lemma elapsed_secs [simp]: "time_in_secs 1 = 0"
  by (simp add: time_in_secs_def CLOCKS_PER_SEC_def word_div_def)

lemma calibrate_loop_secs: "calibrate_loop secs p cs = Some r \<Longrightarrow> \<not> secs < 1"
proof (rule calibrate_loop.raw_induct [where P = "\<lambda>secs p cs r. \<not> secs < 1"])
  fix f secs p cs r
  assume IH: "\<And>secs p cs r. f secs p cs = Some r \<Longrightarrow> \<not> secs < (1 :: u32)"
    and eq: "(if secs < 1 then
       Option.bind (iterate (fst cs, (snd cs)\<lparr>iterations := iterations (snd cs) * 10\<rparr>)) (\<lambda>cs.
         let p = stop_time (start_time p) in f (time_in_secs (get_time p)) p cs)
     else Some (secs, p, cs)) = Some r"
  show "\<not> secs < 1"
  proof
    assume "secs < 1"
    then obtain cs' where "f (time_in_secs 1) (stop_time (start_time p)) cs' = Some r"
      using eq by (auto simp: Let_def split: bind_splits)
    then show False using IH [of "time_in_secs 1"] by simp
  qed
qed

lemma calibrate_diverges: "iterations (snd cs) = 0 \<Longrightarrow> calibrate p cs = None"
  using calibrate_loop_secs [of 0 p] by (fastforce simp: calibrate_def split: bind_splits)

subsection \<open>Sorting leaves the results alone\<close>

lemma append_merged_res [simp]: "snd (ms_cs (append_merged e m)) = snd (ms_cs m)"
  by (simp add: append_merged_def split: option.split)

lemma merge_loop_res:
  assumes "\<And>a b cs r cs'. cmp a b cs = Some (r, cs') \<Longrightarrow> snd cs' = snd cs"
  shows "merge_loop cmp p ps q qs m = Some (m', nx) \<Longrightarrow> snd (ms_cs m') = snd (ms_cs m)"
proof (induction "ps + qs" arbitrary: p ps q qs m rule: less_induct)
  case less
  have IH: "merge_loop cmp p' ps' q' qs' m1 = Some (m', nx) \<Longrightarrow> ps' + qs' < ps + qs \<Longrightarrow> snd (ms_cs m') = snd (ms_cs m1)"
    for p' ps' q' qs' m1
    using less.hyps by blast
  note eq = less.prems [unfolded merge_loop.simps [of cmp p ps q qs m] Let_def]
  consider (stop) "ps = 0" "qs = 0 \<or> q = None" | (right) "ps = 0" "0 < qs" "q \<noteq> None"
    | (left) "0 < ps" "qs = 0 \<or> q = None" | (both) "0 < ps" "0 < qs" "q \<noteq> None"
    by auto
  then show ?case
  proof cases
    case stop
    then show ?thesis using eq by auto
  next
    case right
    then obtain e where "merge_loop cmp p 0 (nxt (fst (ms_cs m)) e) (qs - 1) (append_merged e m) = Some (m', nx)"
      using eq by auto
    from IH [OF this] right show ?thesis by simp
  next
    case left
    then have "(case p of None \<Rightarrow> None
        | Some e \<Rightarrow> merge_loop cmp (nxt (fst (ms_cs m)) e) (ps - 1) q qs (append_merged e m)) = Some (m', nx)"
      using eq by simp
    then obtain e where "merge_loop cmp (nxt (fst (ms_cs m)) e) (ps - 1) q qs (append_merged e m) = Some (m', nx)"
      by (cases p) simp_all
    from IH [OF this] left show ?thesis by simp
  next
    case both
    then obtain e f r cs where c: "cmp (inf (fst (ms_cs m)) e) (inf (fst (ms_cs m)) f) (ms_cs m) = Some (r, cs)"
      and k: "(if r \<le> 0 then merge_loop cmp (nxt (fst cs) e) (ps - 1) q qs (append_merged e (m\<lparr>ms_cs := cs\<rparr>))
        else merge_loop cmp p ps (nxt (fst cs) f) (qs - 1) (append_merged f (m\<lparr>ms_cs := cs\<rparr>))) = Some (m', nx)"
      using eq by (auto split: option.splits prod.splits)
    have "snd (ms_cs m') = snd cs"
    proof (cases "r \<le> 0")
      case True
      with k have "merge_loop cmp (nxt (fst cs) e) (ps - 1) q qs (append_merged e (m\<lparr>ms_cs := cs\<rparr>)) = Some (m', nx)" by simp
      from IH [OF this] both show ?thesis by simp
    next
      case False
      with k have "merge_loop cmp p ps (nxt (fst cs) f) (qs - 1) (append_merged f (m\<lparr>ms_cs := cs\<rparr>)) = Some (m', nx)" by simp
      from IH [OF this] both show ?thesis by simp
    qed
    then show ?thesis using assms [OF c] by simp
  qed
qed

definition keeps_res :: "list_cmp \<Rightarrow> bool" where
  "keeps_res cmp \<longleftrightarrow> (\<forall>a b cs r cs'. cmp a b cs = Some (r, cs') \<longrightarrow> snd cs' = snd cs)"

lemma pass_loop_res: "pass_loop cmp k p c m = Some y \<Longrightarrow> keeps_res cmp \<longrightarrow> snd (ms_cs (fst y)) = snd (ms_cs m)"
proof (rule pass_loop.raw_induct
    [where P = "\<lambda>cmp k p c m y. keeps_res cmp \<longrightarrow> snd (ms_cs (fst y)) = snd (ms_cs m)"])
  fix f and cmp :: list_cmp and k p c m and y :: "merge_state \<times> nat"
  assume IH: "\<And>cmp k p c m y. f cmp k p c m = Some y \<Longrightarrow> keeps_res cmp \<longrightarrow> snd (ms_cs (fst y)) = snd (ms_cs m)"
    and eq: "(case p of None \<Rightarrow> Some (m, c)
      | Some x \<Rightarrow> Option.bind (advance k p 0 (fst (ms_cs m))) (\<lambda>(q, psize).
          Option.bind (merge_loop cmp p psize q k m) (\<lambda>(m, p). f cmp k p (c + 1) m))) = Some y"
  show "keeps_res cmp \<longrightarrow> snd (ms_cs (fst y)) = snd (ms_cs m)"
  proof (cases p)
    case None
    then show ?thesis using eq by auto
  next
    case (Some x)
    then obtain q ps m1 p1 where "merge_loop cmp p ps q k m = Some (m1, p1)" "f cmp k p1 (c + 1) m1 = Some y"
      using eq by (auto split: bind_splits)
    then show ?thesis using IH merge_loop_res [of cmp p ps q k m m1 p1] unfolding keeps_res_def by metis
  qed
qed

lemma sort_loop_res: "sort_loop cmp k l cs = Some y \<Longrightarrow> keeps_res cmp \<longrightarrow> snd (snd y) = snd cs"
proof (rule sort_loop.raw_induct [where P = "\<lambda>cmp k l cs y. keeps_res cmp \<longrightarrow> snd (snd y) = snd cs"])
  fix f and cmp :: list_cmp and k l cs and y :: "nat option \<times> cmp_state"
  assume IH: "\<And>cmp k l cs y. f cmp k l cs = Some y \<Longrightarrow> keeps_res cmp \<longrightarrow> snd (snd y) = snd cs"
    and eq: "Option.bind (pass_loop cmp k l 0 \<lparr>ms_list = None, ms_tail = None, ms_cs = cs\<rparr>) (\<lambda>(m, nmerges).
      Option.bind (ms_tail m) (\<lambda>t. let cs = (set_nxt t None (fst (ms_cs m)), snd (ms_cs m)) in
        if nmerges \<le> 1 then Some (ms_list m, cs) else f cmp (k * 2) (ms_list m) cs)) = Some y"
  then obtain m n t where p: "pass_loop cmp k l 0 \<lparr>ms_list = None, ms_tail = None, ms_cs = cs\<rparr> = Some (m, n)"
    and r: "(let cs = (set_nxt t None (fst (ms_cs m)), snd (ms_cs m)) in
        if n \<le> 1 then Some (ms_list m, cs) else f cmp (k * 2) (ms_list m) cs) = Some y"
    by (auto split: bind_splits)
  show "keeps_res cmp \<longrightarrow> snd (snd y) = snd cs"
  proof (cases "n \<le> 1")
    case True
    then show ?thesis using r pass_loop_res [OF p] by auto
  next
    case False
    then have "f cmp (k * 2) (ms_list m) (set_nxt t None (fst (ms_cs m)), snd (ms_cs m)) = Some y" using r by simp
    from IH [OF this] pass_loop_res [OF p] show ?thesis by simp
  qed
qed

lemma cmp_idx_keeps: "keeps_res (cmp_idx b)"
  by (auto simp: keeps_res_def cmp_idx_def Let_def)

lemma core_list_init_res: "core_list_init n seed h res = Some (l, h', res') \<Longrightarrow> res' = res"
  using sort_loop_res [of "cmp_idx True"] cmp_idx_keeps
  by (fastforce simp: core_list_init_def core_list_mergesort_def Let_def split: prod.splits bind_splits)

lemma call_inits_iterations: "call_inits offs mem C cs = Some cs' \<Longrightarrow> iterations (snd cs') = iterations (snd cs)"
  by (auto simp: call_inits_def split: prod.splits if_splits bind_splits dest!: core_list_init_res)

lemma init_seeds_iterations: "iterations (init_seeds seeds res) = get_seed_32 seeds 4"
  by (simp add: init_seeds_def Let_def)

subsection \<open>The report\<close>

lemma check_data_types_bound: "unat (check_data_types a b c d e f g) \<le> 6"
  by (simp add: check_data_types_def Let_def)

lemma check_crcs_err: "unat (err (snd (check_crcs k res))) \<le> 3"
  by (simp add: check_crcs_def Let_def)

lemma small_u16:
  assumes "n \<le> (10 :: nat)"
  shows "(of_nat n :: u16) = 0 \<longleftrightarrow> n = 0" "0 < sint (of_nat n :: u16) \<longleftrightarrow> 0 < n" "\<not> sint (of_nat n :: u16) < 0"
proof -
  have s: "sint (of_nat n :: u16) = int n" using int_word_sint [of "int n", where 'a = 16] assms by simp
  then have "of_nat n = (0 :: u16) \<Longrightarrow> n = 0" by force
  then show "(of_nat n :: u16) = 0 \<longleftrightarrow> n = 0" by auto
  show "0 < sint (of_nat n :: u16) \<longleftrightarrow> 0 < n" "\<not> sint (of_nat n :: u16) < 0" using s by simp_all
qed

text \<open>The error count of a run that lasted one tick.\<close>

definition final_errors :: "u8 \<Rightarrow> core_results \<Rightarrow> nat" where
  "final_errors types res =
    (case known_id (seedcrc res) of None \<Rightarrow> unat types | Some k \<Rightarrow> unat (err (snd (check_crcs k res))) + unat types + 1)"

lemma validate_eq:
  assumes "unat types \<le> 6"
  shows "fst (snd (validate res)) + ucast types + 1 = of_nat (final_errors types res)" "final_errors types res \<le> 10"
proof -
  have t: "(ucast types :: u16) = of_nat (unat types)" by (simp add: unsigned_ucast_eq)
  show "fst (snd (validate res)) + ucast types + 1 = of_nat (final_errors types res)"
    unfolding t by (simp add: validate_def final_errors_def split: option.split prod.split)
  have "unat (err (snd (check_crcs k res))) + unat types + 1 \<le> 10" for k
    using check_crcs_err [of k res] assms by linarith
  then show "final_errors types res \<le> 10" using assms by (simp add: final_errors_def split: option.split)
qed

lemma report_one_tick:
  "report types 1 res = fst (validate res) @
    (let r = snd (snd (validate res)) in [Size_line (res_size r), Ticks_line 1, Secs_line 0, Err_too_short,
      Iterations_line (iterations r), Compiler_version, Compiler_flags, Memory_location, Seedcrc (seedcrc r)] @
      (if execs r AND ID_LIST \<noteq> 0 then [Crclist (crclist r)] else []) @
      (if execs r AND ID_MATRIX \<noteq> 0 then [Crcmatrix (crcmatrix r)] else []) @
      (if execs r AND ID_STATE \<noteq> 0 then [Crcstate (crcstate r)] else []) @ [Crcfinal (crc r)]) @
    verdict (fst (snd (validate res)) + ucast types + 1)"
  by (simp add: report_def Let_def split: prod.split)

lemma validate_lines: "set (fst (validate res)) \<inter> {Validated, Errors_detected, Cannot_validate} = {}"
  by (auto simp: validate_def check_crcs_def Let_def split: option.splits)

lemma report_verdict:
  assumes "unat types \<le> 6"
  shows "Err_too_short \<in> set (report types 1 res)"
    "Validated \<in> set (report types 1 res) \<longleftrightarrow> final_errors types res = 0"
    "Errors_detected \<in> set (report types 1 res) \<longleftrightarrow> 0 < final_errors types res"
    "Cannot_validate \<notin> set (report types 1 res)"
  using validate_lines [of res] small_u16 [OF validate_eq(2) [OF assms], of res]
  unfolding report_one_tick validate_eq(1) [OF assms] by (auto simp: Let_def verdict_def)

section \<open>Properties\<close>

text \<open>
  C19: on the bare-machine port, whose clock counts its own readings, every run is reported as too
  short, and the verdict is the wrong way round: when the types have the right sizes, a run is
  declared valid exactly when its seeds are unknown, and a run with known seeds is reported as
  erroneous however its checksums come out.
\<close>
theorem verdict_inverted:
  "Err_too_short \<in> set (report (check_data_types a b c d e f g) (get_time (stop_time (start_time p))) res)
    \<and> (Validated \<in> set (report (check_data_types a b c d e f g) (get_time (stop_time (start_time p))) res)
        \<longleftrightarrow> known_id (seedcrc res) = None \<and> check_data_types a b c d e f g = 0)
    \<and> (Errors_detected \<in> set (report (check_data_types a b c d e f g) (get_time (stop_time (start_time p))) res)
        \<longleftrightarrow> \<not> (known_id (seedcrc res) = None \<and> check_data_types a b c d e f g = 0))"
  using report_verdict [OF check_data_types_bound [of a b c d e f g], of res]
  by (auto simp: final_errors_def unat_eq_zero split: option.splits)

text \<open>
  with the default of zero iterations (the driver is to find a suitable number itself) the
  benchmark never returns on that port: the clock never shows a full second.
\<close>
theorem automatic_iterations_never_return:
  assumes "get_seed_32 (e_seeds e) 4 = 0" "e_list_head e \<le> 128"
  shows "coremark_main e = None"
proof -
  have "benchmark e p = None" for p
    using calibrate_diverges assms(1)
    by (auto simp: benchmark_def Let_def init_seeds_iterations split: bind_splits dest!: call_inits_iterations)
  then show ?thesis using assms(2) by (simp add: coremark_main_def split: prod.split)
qed

definition sample_env :: main_env where
  "sample_env = \<lparr>e_seeds = [0, 0, 0x66, 0, 0], e_total = 2000, e_list_head = 8, e_sizes = (1, 2, 2, 4, 4, 4, 4),
    e_mem = replicate 2000 0, e_C = [], e_heap = \<lparr>nxt = (\<lambda>_. None), inf = (\<lambda>_. 0), dat = (\<lambda>_. \<lparr>data16 = 0, idx = 0\<rparr>)\<rparr>,
    e_res = \<lparr>seed1 = 0, seed2 = 0, seed3 = 0, memblock3 = [], res_size = 0, iterations = 0, execs = 0, res_list = 0,
      mat = \<lparr>mp_N = 0, mp_A = [], mp_B = [], mp_C = []\<rparr>, crc = 0, crclist = 0, crcmatrix = 0, crcstate = 0, err = 0\<rparr>,
    e_port = \<lparr>clock_counter = 0, start_time_val = 0, stop_time_val = 0, portable_id = 0\<rparr>\<rparr>"

theorem automatic_iterations_never_return_witness: "coremark_main sample_env = None"
  by (rule automatic_iterations_never_return) (simp_all add: sample_env_def get_seed_32_def)

text \<open>
  whatever non-empty set of algorithms is run, the parts of the data block they get lie inside
  the block, and no two of them overlap.
\<close>
theorem blocks_disjoint:
  assumes "i < 3" "assign_blocks ex (tot div num_algorithms ex) ! i = Some x"
    and "j < 3" "assign_blocks ex (tot div num_algorithms ex) ! j = Some y" "i < j"
  shows "x + tot div num_algorithms ex \<le> y \<and> y + tot div num_algorithms ex \<le> tot"
proof -
  define sz where "sz = tot div num_algorithms ex"
  have le: "k \<le> num_algorithms ex \<Longrightarrow> sz * k \<le> tot" for k
    using mult_le_mono2 [of k "num_algorithms ex" sz] div_times_less_eq_dividend [of tot "num_algorithms ex"]
    unfolding sz_def by (rule le_trans)
  have u: "[0..<3] = [0, 1, 2 :: nat]" by (simp add: upt_rec)
  have "i = 0 \<and> j = 1 \<or> i = 0 \<and> j = 2 \<or> i = 1 \<and> j = 2" using assms(3,5) by linarith
  then show ?thesis
    using assms(2,4) le [of 2] le [of 3] unfolding sz_def [symmetric]
    by (auto simp: assign_blocks_def num_algorithms_def block_step_def u split: if_splits)
qed

theorem blocks_disjoint_witness:
  "0 + 2000 div num_algorithms 7 \<le> (1332 :: nat) \<and> 1332 + 2000 div num_algorithms 7 \<le> (2000 :: nat)"
  by (rule blocks_disjoint [where i = 0 and j = 2])
    (simp_all add: assign_blocks_def num_algorithms_def block_step_def upt_rec)

end
