(* ===== verification/Kconfig_Expr.thy ===== *)
theory Kconfig_Expr
  imports Prelude
begin

text \<open>
  Dependency expressions of the configuration tool: \<open>simulator/tools/kconfig/expr.c\<close>.

  Expression trees are values, so copying a tree is the identity and releasing one does nothing;
  a function that rewrites a tree through a pointer returns the new tree.  \<open>NULL\<close> is \<open>None\<close> and
  means yes.  The trees the rewriting functions work on are built from the five kinds of
  node below; the kinds \<open>E_LIST\<close> and \<open>E_RANGE\<close> only occur as whole expressions of a choice or of a
  range property and are values of the type \<open>top_expr\<close> that \<open>expr_print\<close> takes.

  Symbols are references: the three constants and all others.  What \<open>sym_calc_value\<close> has
  calculated for them is the record \<open>symtab\<close>.
\<close>

section \<open>Tristate values\<close>

datatype tristate = tri_no | tri_mod | tri_yes

fun tri_num :: "tristate \<Rightarrow> nat" where
  "tri_num tri_no = 0"
| "tri_num tri_mod = 1"
| "tri_num tri_yes = 2"

instantiation tristate :: linorder
begin

definition less_eq_tristate :: "tristate \<Rightarrow> tristate \<Rightarrow> bool" where
  "less_eq_tristate a b \<longleftrightarrow> tri_num a \<le> tri_num b"

definition less_tristate :: "tristate \<Rightarrow> tristate \<Rightarrow> bool" where
  "less_tristate a b \<longleftrightarrow> tri_num a < tri_num b"

instance
proof
  fix x y :: tristate
  show "x \<le> y \<Longrightarrow> y \<le> x \<Longrightarrow> x = y" by (cases x; cases y) (simp_all add: less_eq_tristate_def)
qed (auto simp: less_eq_tristate_def less_tristate_def)

end

definition EXPR_OR :: "tristate \<Rightarrow> tristate \<Rightarrow> tristate" where
  "EXPR_OR dep1 dep2 = (if dep1 > dep2 then dep1 else dep2)"

definition EXPR_AND :: "tristate \<Rightarrow> tristate \<Rightarrow> tristate" where
  "EXPR_AND dep1 dep2 = (if dep1 < dep2 then dep1 else dep2)"

fun EXPR_NOT :: "tristate \<Rightarrow> tristate" where
  "EXPR_NOT tri_no = tri_yes"
| "EXPR_NOT tri_mod = tri_mod"
| "EXPR_NOT tri_yes = tri_no"

section \<open>Symbols and expressions\<close>

datatype symbol_type = S_UNKNOWN | S_BOOLEAN | S_TRISTATE | S_INT | S_HEX | S_STRING

datatype sym = symbol_yes | symbol_mod | symbol_no | Sym nat

datatype cmp_op = E_EQUAL | E_UNEQUAL | E_LTH | E_LEQ | E_GTH | E_GEQ

datatype expr =
    E_OR expr expr
  | E_AND expr expr
  | E_NOT expr
  | E_CMP cmp_op sym sym
  | E_SYMBOL sym

datatype junction = J_OR | J_AND

text \<open>The fields of the symbols the tool defines itself, and those of all others.\<close>

record symtab =
  tab_type :: "nat \<Rightarrow> symbol_type"
  tab_const :: "nat \<Rightarrow> bool"
  tab_tri :: "nat \<Rightarrow> tristate"
  tab_val :: "nat \<Rightarrow> string"
  tab_name :: "nat \<Rightarrow> string option"
  modules_tri :: tristate

fun sym_type :: "symtab \<Rightarrow> sym \<Rightarrow> symbol_type" where
  "sym_type t (Sym n) = tab_type t n"
| "sym_type t _ = S_UNKNOWN"

fun sym_const :: "symtab \<Rightarrow> sym \<Rightarrow> bool" where
  "sym_const t (Sym n) = tab_const t n"
| "sym_const t _ = True"

fun sym_tri :: "symtab \<Rightarrow> sym \<Rightarrow> tristate" where
  "sym_tri t (Sym n) = tab_tri t n"
| "sym_tri t symbol_yes = tri_yes"
| "sym_tri t symbol_mod = tri_mod"
| "sym_tri t symbol_no = tri_no"

fun sym_val :: "symtab \<Rightarrow> sym \<Rightarrow> string" where
  "sym_val t (Sym n) = tab_val t n"
| "sym_val t symbol_yes = ''y''"
| "sym_val t symbol_mod = ''m''"
| "sym_val t symbol_no = ''n''"

fun sym_name :: "symtab \<Rightarrow> sym \<Rightarrow> string option" where
  "sym_name t (Sym n) = tab_name t n"
| "sym_name t symbol_yes = Some ''y''"
| "sym_name t symbol_mod = Some ''m''"
| "sym_name t symbol_no = Some ''n''"

definition sym_get_string_value :: "symtab \<Rightarrow> sym \<Rightarrow> string" where
  "sym_get_string_value t s =
    (if sym_type t s = S_BOOLEAN \<or> sym_type t s = S_TRISTATE then
       (case sym_tri t s of
          tri_no \<Rightarrow> ''n''
        | tri_mod \<Rightarrow> if modules_tri t = tri_no then ''n'' else ''m''
        | tri_yes \<Rightarrow> ''y'')
     else sym_val t s)"

section \<open>Building expressions\<close>

definition expr_alloc_two :: "junction \<Rightarrow> expr \<Rightarrow> expr \<Rightarrow> expr" where
  "expr_alloc_two ty e1 e2 = (case ty of J_OR \<Rightarrow> E_OR e1 e2 | J_AND \<Rightarrow> E_AND e1 e2)"

definition expr_alloc_and :: "expr option \<Rightarrow> expr option \<Rightarrow> expr option" where
  "expr_alloc_and e1 e2 =
    (case e1 of None \<Rightarrow> e2 | Some a \<Rightarrow> (case e2 of None \<Rightarrow> e1 | Some b \<Rightarrow> Some (expr_alloc_two J_AND a b)))"

definition expr_alloc_or :: "expr option \<Rightarrow> expr option \<Rightarrow> expr option" where
  "expr_alloc_or e1 e2 =
    (case e1 of None \<Rightarrow> e2 | Some a \<Rightarrow> (case e2 of None \<Rightarrow> e1 | Some b \<Rightarrow> Some (expr_alloc_two J_OR a b)))"

definition expr_is_yes :: "expr option \<Rightarrow> bool" where
  "expr_is_yes e \<longleftrightarrow> e = None \<or> e = Some (E_SYMBOL symbol_yes)"

definition expr_is_no :: "expr option \<Rightarrow> bool" where
  "expr_is_no e \<longleftrightarrow> e = Some (E_SYMBOL symbol_no)"

section \<open>Values\<close>

text \<open>\<open>strtoll\<close> and \<open>strtoull\<close>: sign, magnitude and rest of the string; the rest is the whole string when
  there is no number.\<close>

definition is_space :: "char \<Rightarrow> bool" where
  "is_space c \<longleftrightarrow> c \<in> set [CHR '' '', CHR 0x09, CHR 0x0A, CHR 0x0B, CHR 0x0C, CHR 0x0D]"

definition digit_of :: "char \<Rightarrow> nat option" where
  "digit_of c =
    (let n = of_char c :: nat in
     if 48 \<le> n \<and> n \<le> 57 then Some (n - 48)
     else if 97 \<le> n \<and> n \<le> 122 then Some (n - 87)
     else if 65 \<le> n \<and> n \<le> 90 then Some (n - 55)
     else None)"

definition in_base :: "nat \<Rightarrow> char \<Rightarrow> bool" where
  "in_base base c \<longleftrightarrow> (case digit_of c of None \<Rightarrow> False | Some d \<Rightarrow> d < base)"

definition isxdigit :: "char \<Rightarrow> bool" where
  "isxdigit c \<longleftrightarrow> in_base 16 c"

definition base_prefix :: "nat \<Rightarrow> string \<Rightarrow> nat \<times> string" where
  "base_prefix base s =
    (case s of
       CHR ''0'' # x # c # s' \<Rightarrow>
         if (base = 0 \<or> base = 16) \<and> (x = CHR ''x'' \<or> x = CHR ''X'') \<and> in_base 16 c then (16, c # s')
         else (if base = 0 then 8 else base, s)
     | CHR ''0'' # _ \<Rightarrow> (if base = 0 then 8 else base, s)
     | _ \<Rightarrow> (if base = 0 then 10 else base, s))"

definition strto :: "nat \<Rightarrow> string \<Rightarrow> bool \<times> nat \<times> string" where
  "strto base str =
    (let s = dropWhile is_space str;
         (neg, s) = (case s of CHR ''-'' # s' \<Rightarrow> (True, s') | CHR ''+'' # s' \<Rightarrow> (False, s') | _ \<Rightarrow> (False, s));
         (b, s) = base_prefix base s;
         ds = takeWhile (in_base b) s
     in if ds = [] then (False, 0, str)
        else (neg, foldl (\<lambda>v c. v * b + the (digit_of c)) 0 ds, dropWhile (in_base b) s))"

datatype string_value_kind = k_string | k_signed | k_unsigned

text \<open>The value is the union's 64 bits; \<open>strtoll\<close> saturates and sets \<open>errno\<close> when out of range.\<close>

definition tail_ok :: "string \<Rightarrow> string \<Rightarrow> bool" where
  "tail_ok str tail \<longleftrightarrow> tail = [] \<and> str \<noteq> [] \<and> isxdigit (last str)"

definition expr_parse_string :: "string \<Rightarrow> symbol_type \<Rightarrow> string_value_kind \<times> u64" where
  "expr_parse_string str ty =
    (if ty = S_BOOLEAN \<or> ty = S_TRISTATE then
       (k_signed, if str = ''n'' then 0 else if str = ''m'' then 1 else if str = ''y'' then 2 else - 1)
     else if ty = S_HEX then
       (case strto 16 str of (neg, n, tail) \<Rightarrow>
         if n < 2 ^ 64 \<and> tail_ok str tail then (k_unsigned, if neg then - of_nat n else of_nat n) else (k_string, 0))
     else
       (case strto (if ty = S_INT then 10 else 0) str of (neg, n, tail) \<Rightarrow>
         if n < 2 ^ 63 + (if neg then 1 else 0) \<and> tail_ok str tail
         then (k_signed, if neg then - of_nat n else of_nat n) else (k_string, 0)))"

fun str_compare :: "string \<Rightarrow> string \<Rightarrow> int" where
  "str_compare [] [] = 0"
| "str_compare [] (b # bs) = - 1"
| "str_compare (a # as) [] = 1"
| "str_compare (a # as) (b # bs) =
    (if a = b then str_compare as bs else if (of_char a :: nat) < of_char b then - 1 else 1)"

text \<open>The sign of the comparison of two symbols: \<open>res\<close> in \<open>expr_calc_value\<close>.\<close>

definition sym_compare :: "symtab \<Rightarrow> sym \<Rightarrow> sym \<Rightarrow> int" where
  "sym_compare t a b =
    (let str1 = sym_get_string_value t a; str2 = sym_get_string_value t b;
         ((k1, lval), (k2, rval)) =
           (if sym_type t a \<noteq> S_STRING \<or> sym_type t b \<noteq> S_STRING
            then (expr_parse_string str1 (sym_type t a), expr_parse_string str2 (sym_type t b))
            else ((k_string, 0), (k_string, 0)))
     in if k1 = k_string \<or> k2 = k_string then str_compare str1 str2
        else if k1 = k_unsigned \<or> k2 = k_unsigned then (if lval > rval then 1 else if lval < rval then - 1 else 0)
        else (if sint lval > sint rval then 1 else if sint lval < sint rval then - 1 else 0))"

fun cmp_holds :: "cmp_op \<Rightarrow> int \<Rightarrow> bool" where
  "cmp_holds E_EQUAL res \<longleftrightarrow> res = 0"
| "cmp_holds E_GEQ res \<longleftrightarrow> res \<ge> 0"
| "cmp_holds E_GTH res \<longleftrightarrow> res > 0"
| "cmp_holds E_LEQ res \<longleftrightarrow> res \<le> 0"
| "cmp_holds E_LTH res \<longleftrightarrow> res < 0"
| "cmp_holds E_UNEQUAL res \<longleftrightarrow> res \<noteq> 0"

fun calc :: "symtab \<Rightarrow> expr \<Rightarrow> tristate" where
  "calc t (E_SYMBOL s) = sym_tri t s"
| "calc t (E_AND a b) = EXPR_AND (calc t a) (calc t b)"
| "calc t (E_OR a b) = EXPR_OR (calc t a) (calc t b)"
| "calc t (E_NOT a) = EXPR_NOT (calc t a)"
| "calc t (E_CMP op a b) = (if cmp_holds op (sym_compare t a b) then tri_yes else tri_no)"

definition expr_calc_value :: "symtab \<Rightarrow> expr option \<Rightarrow> tristate" where
  "expr_calc_value t e = (case e of None \<Rightarrow> tri_yes | Some e \<Rightarrow> calc t e)"

section \<open>Simplification\<close>

text \<open>\<open>expr_eliminate_yn\<close>: the two operands have been simplified before.\<close>

fun yn_and :: "expr \<Rightarrow> expr \<Rightarrow> expr" where
  "yn_and l r =
    (if l = E_SYMBOL symbol_no then E_SYMBOL symbol_no
     else if l = E_SYMBOL symbol_yes then r
     else if r = E_SYMBOL symbol_no then E_SYMBOL symbol_no
     else if r = E_SYMBOL symbol_yes then l
     else E_AND l r)"

fun yn_or :: "expr \<Rightarrow> expr \<Rightarrow> expr" where
  "yn_or l r =
    (if l = E_SYMBOL symbol_no then r
     else if l = E_SYMBOL symbol_yes then E_SYMBOL symbol_yes
     else if r = E_SYMBOL symbol_no then l
     else if r = E_SYMBOL symbol_yes then E_SYMBOL symbol_yes
     else E_OR l r)"

fun expr_eliminate_yn :: "expr \<Rightarrow> expr" where
  "expr_eliminate_yn (E_AND a b) = yn_and (expr_eliminate_yn a) (expr_eliminate_yn b)"
| "expr_eliminate_yn (E_OR a b) = yn_or (expr_eliminate_yn a) (expr_eliminate_yn b)"
| "expr_eliminate_yn e = e"

fun expr_trans_bool :: "symtab \<Rightarrow> expr \<Rightarrow> expr" where
  "expr_trans_bool t (E_AND a b) = E_AND (expr_trans_bool t a) (expr_trans_bool t b)"
| "expr_trans_bool t (E_OR a b) = E_OR (expr_trans_bool t a) (expr_trans_bool t b)"
| "expr_trans_bool t (E_NOT a) = E_NOT (expr_trans_bool t a)"
| "expr_trans_bool t (E_CMP op a b) =
    (if op = E_UNEQUAL \<and> sym_type t a = S_TRISTATE \<and> b = symbol_no then E_SYMBOL a else E_CMP op a b)"
| "expr_trans_bool t (E_SYMBOL s) = E_SYMBOL s"

section \<open>Comparing expressions\<close>

definition neutral :: "junction \<Rightarrow> expr" where
  "neutral ty = (case ty of J_OR \<Rightarrow> E_SYMBOL symbol_no | J_AND \<Rightarrow> E_SYMBOL symbol_yes)"

text \<open>
  \<open>__expr_eliminate_eq\<close>: every leaf of the first tree against every leaf of the second, with the
  comparison \<open>eq\<close>; the number of eliminations is what the code adds to \<open>trans_count\<close>.
\<close>

definition elim_leaf :: "(expr \<Rightarrow> expr \<Rightarrow> bool) \<Rightarrow> junction \<Rightarrow> expr \<Rightarrow> expr \<Rightarrow> expr \<times> expr \<times> nat" where
  "elim_leaf eq ty e1 e2 =
    (if e1 = e2 \<and> (e1 = E_SYMBOL symbol_yes \<or> e1 = E_SYMBOL symbol_no) then (e1, e2, 0)
     else if \<not> eq e1 e2 then (e1, e2, 0)
     else (neutral ty, neutral ty, 1))"

fun elim_right :: "(expr \<Rightarrow> expr \<Rightarrow> bool) \<Rightarrow> junction \<Rightarrow> expr \<Rightarrow> expr \<Rightarrow> expr \<times> expr \<times> nat" where
  "elim_right eq ty e1 (E_OR c d) =
    (if ty = J_OR then
       (case elim_right eq ty e1 c of (e1, c, n) \<Rightarrow> case elim_right eq ty e1 d of (e1, d, m) \<Rightarrow> (e1, E_OR c d, n + m))
     else elim_leaf eq ty e1 (E_OR c d))"
| "elim_right eq ty e1 (E_AND c d) =
    (if ty = J_AND then
       (case elim_right eq ty e1 c of (e1, c, n) \<Rightarrow> case elim_right eq ty e1 d of (e1, d, m) \<Rightarrow> (e1, E_AND c d, n + m))
     else elim_leaf eq ty e1 (E_AND c d))"
| "elim_right eq ty e1 e2 = elim_leaf eq ty e1 e2"

fun elim_eq :: "(expr \<Rightarrow> expr \<Rightarrow> bool) \<Rightarrow> junction \<Rightarrow> expr \<Rightarrow> expr \<Rightarrow> expr \<times> expr \<times> nat" where
  "elim_eq eq ty (E_OR a b) e2 =
    (if ty = J_OR then
       (case elim_eq eq ty a e2 of (a, e2, n) \<Rightarrow> case elim_eq eq ty b e2 of (b, e2, m) \<Rightarrow> (E_OR a b, e2, n + m))
     else elim_right eq ty (E_OR a b) e2)"
| "elim_eq eq ty (E_AND a b) e2 =
    (if ty = J_AND then
       (case elim_eq eq ty a e2 of (a, e2, n) \<Rightarrow> case elim_eq eq ty b e2 of (b, e2, m) \<Rightarrow> (E_AND a b, e2, n + m))
     else elim_right eq ty (E_AND a b) e2)"
| "elim_eq eq ty e1 e2 = elim_right eq ty e1 e2"

text \<open>The largest leaf, which bounds the trees the comparison is called on.\<close>

fun leafmax :: "junction \<Rightarrow> expr \<Rightarrow> nat" where
  "leafmax ty (E_OR a b) = (if ty = J_OR then max (leafmax ty a) (leafmax ty b) else size (E_OR a b))"
| "leafmax ty (E_AND a b) = (if ty = J_AND then max (leafmax ty a) (leafmax ty b) else size (E_AND a b))"
| "leafmax ty e = size e"

lemma elim_leaf_size:
  "size (fst (elim_leaf eq ty e1 e2)) \<le> size e1" "size (fst (snd (elim_leaf eq ty e1 e2))) \<le> size e2"
  by (auto simp: elim_leaf_def neutral_def split: junction.split)

lemma elim_right_cong:
  "(\<And>x y. size x \<le> k \<Longrightarrow> size y \<le> leafmax ty e2 \<Longrightarrow> eq x y = eq' x y) \<Longrightarrow> size e1 \<le> k \<Longrightarrow>
   elim_right eq ty e1 e2 = elim_right eq' ty e1 e2 \<and> size (fst (elim_right eq ty e1 e2)) \<le> k"
proof (induction e2 arbitrary: e1)
  case (E_OR c d)
  then show ?case
    using elim_leaf_size(1) [of eq ty e1 "E_OR c d"]
    by (fastforce simp: elim_leaf_def neutral_def split: prod.splits if_splits)
next
  case (E_AND c d)
  then show ?case
    using elim_leaf_size(1) [of eq ty e1 "E_AND c d"]
    by (fastforce simp: elim_leaf_def neutral_def split: prod.splits if_splits)
qed (auto simp: elim_leaf_def neutral_def split: junction.split)

lemma leafmax_neutral [simp]: "leafmax ty (neutral ty') = 0"
  by (simp add: neutral_def split: junction.split)

lemma elim_right_leafmax: "leafmax ty (fst (snd (elim_right eq ty e1 e2))) \<le> leafmax ty e2"
proof (induction e2 arbitrary: e1)
  case (E_OR c d)
  show ?case
    using E_OR.IH(1) [of e1] E_OR.IH(2) [of "fst (elim_right eq ty e1 c)"]
    by (auto simp: elim_leaf_def le_max_iff_disj split: prod.splits)
next
  case (E_AND c d)
  show ?case
    using E_AND.IH(1) [of e1] E_AND.IH(2) [of "fst (elim_right eq ty e1 c)"]
    by (auto simp: elim_leaf_def le_max_iff_disj split: prod.splits)
qed (auto simp: elim_leaf_def)

lemma elim_eq_leafmax: "leafmax ty (fst (snd (elim_eq eq ty e1 e2))) \<le> leafmax ty e2"
proof (induction e1 arbitrary: e2)
  case (E_OR a b)
  show ?case
    using E_OR.IH(1) [of e2] E_OR.IH(2) [of "fst (snd (elim_eq eq ty a e2))"] elim_right_leafmax [of ty eq "E_OR a b" e2]
    by (auto split: prod.splits)
next
  case (E_AND a b)
  show ?case
    using E_AND.IH(1) [of e2] E_AND.IH(2) [of "fst (snd (elim_eq eq ty a e2))"] elim_right_leafmax [of ty eq "E_AND a b" e2]
    by (auto split: prod.splits)
qed (simp_all add: elim_right_leafmax)

lemma elim_right_cong1:
  "(\<And>x y. size x \<le> size e1 \<Longrightarrow> size y \<le> leafmax ty e2 \<Longrightarrow> eq x y = eq' x y) \<Longrightarrow>
   elim_right eq ty e1 e2 = elim_right eq' ty e1 e2"
  using elim_right_cong [of "size e1" ty e2 eq eq' e1] by blast

lemma elim_eq_cong_aux:
  "(\<And>x y. size x \<le> leafmax ty e1 \<Longrightarrow> size y \<le> leafmax ty e2 \<Longrightarrow> eq x y = eq' x y) \<Longrightarrow>
   elim_eq eq ty e1 e2 = elim_eq eq' ty e1 e2"
proof (induction e1 arbitrary: e2)
  case (E_OR a b)
  show ?case
  proof (cases "ty = J_OR")
    case True
    have 1: "elim_eq eq ty a e2 = elim_eq eq' ty a e2" using E_OR.prems True by (intro E_OR.IH(1)) auto
    let ?e = "fst (snd (elim_eq eq' ty a e2))"
    have 2: "elim_eq eq ty b ?e = elim_eq eq' ty b ?e"
      using E_OR.prems True elim_eq_leafmax [of ty eq' a e2] by (intro E_OR.IH(2)) auto
    show ?thesis using True 1 2 by (cases "elim_eq eq' ty a e2") simp
  next
    case False
    then have "elim_right eq ty (E_OR a b) e2 = elim_right eq' ty (E_OR a b) e2"
      using E_OR.prems by (intro elim_right_cong1) simp
    then show ?thesis using False by simp
  qed
next
  case (E_AND a b)
  show ?case
  proof (cases "ty = J_AND")
    case True
    have 1: "elim_eq eq ty a e2 = elim_eq eq' ty a e2" using E_AND.prems True by (intro E_AND.IH(1)) auto
    let ?e = "fst (snd (elim_eq eq' ty a e2))"
    have 2: "elim_eq eq ty b ?e = elim_eq eq' ty b ?e"
      using E_AND.prems True elim_eq_leafmax [of ty eq' a e2] by (intro E_AND.IH(2)) auto
    show ?thesis using True 1 2 by (cases "elim_eq eq' ty a e2") simp
  next
    case False
    then have "elim_right eq ty (E_AND a b) e2 = elim_right eq' ty (E_AND a b) e2"
      using E_AND.prems by (intro elim_right_cong1) simp
    then show ?thesis using False by simp
  qed
next
  case (E_NOT a)
  then show ?case using elim_right_cong1 [of "E_NOT a" ty e2 eq eq'] by simp
next
  case (E_CMP op a b)
  then show ?case using elim_right_cong1 [of "E_CMP op a b" ty e2 eq eq'] by simp
next
  case (E_SYMBOL a)
  then show ?case using elim_right_cong1 [of "E_SYMBOL a" ty e2 eq eq'] by simp
qed

lemma elim_eq_cong [fundef_cong]:
  "ty = ty' \<Longrightarrow> e1 = e1' \<Longrightarrow> e2 = e2' \<Longrightarrow>
   (\<And>x y. size x \<le> leafmax ty' e1' \<Longrightarrow> size y \<le> leafmax ty' e2' \<Longrightarrow> eq x y = eq' x y) \<Longrightarrow>
   elim_eq eq ty e1 e2 = elim_eq eq' ty' e1' e2'"
  by (hypsubst, rule elim_eq_cong_aux)

lemma leafmax_le: "leafmax ty e \<le> size e"
  by (induction e) auto

lemma leafmax_less: "leafmax J_OR (E_OR a b) < size (E_OR a b)" "leafmax J_AND (E_AND a b) < size (E_AND a b)"
  using leafmax_le [of J_OR a] leafmax_le [of J_OR b] leafmax_le [of J_AND a] leafmax_le [of J_AND b] by auto

fun same_symbol :: "expr \<Rightarrow> expr \<Rightarrow> bool" where
  "same_symbol (E_SYMBOL a) (E_SYMBOL b) \<longleftrightarrow> a = b"
| "same_symbol _ _ \<longleftrightarrow> False"

text \<open>
  \<open>expr_eq\<close> on two trees.  For two junctions of the same type it calls \<open>expr_eliminate_eq\<close>, of
  which only the first of the two passes applies then.
\<close>

function eq_tree :: "expr \<Rightarrow> expr \<Rightarrow> bool" where
  "eq_tree e1 e2 =
    (case (e1, e2) of
       (E_CMP op a b, E_CMP op' a' b') \<Rightarrow> op = op' \<and> a = a' \<and> b = b'
     | (E_SYMBOL a, E_SYMBOL b) \<Rightarrow> a = b
     | (E_NOT a, E_NOT b) \<Rightarrow> eq_tree a b
     | (E_AND a b, E_AND c d) \<Rightarrow>
         (case elim_eq (\<lambda>x y. eq_tree x y) J_AND (E_AND a b) (E_AND c d) of
            (x, y, _) \<Rightarrow> same_symbol (expr_eliminate_yn x) (expr_eliminate_yn y))
     | (E_OR a b, E_OR c d) \<Rightarrow>
         (case elim_eq (\<lambda>x y. eq_tree x y) J_OR (E_OR a b) (E_OR c d) of
            (x, y, _) \<Rightarrow> same_symbol (expr_eliminate_yn x) (expr_eliminate_yn y))
     | _ \<Rightarrow> False)"
  by pat_completeness auto
termination
proof (relation "measure (\<lambda>(e1, e2). size e1 + size e2)", goal_cases)
  case (3 e1 e2 p q a b c d x y)
  then have "size x + size y < size (E_AND a b) + size (E_AND c d)"
    by (intro add_less_mono le_less_trans [OF _ leafmax_less(2)])
  then show ?case using 3(1-3) by auto
next
  case (2 e1 e2 p q a b c d x y)
  then have "size x + size y < size (E_OR a b) + size (E_OR c d)"
    by (intro add_less_mono le_less_trans [OF _ leafmax_less(1)])
  then show ?case using 2(1-3) by auto
qed auto

declare eq_tree.simps [simp del]

definition expr_eq :: "expr option \<Rightarrow> expr option \<Rightarrow> bool" where
  "expr_eq e1 e2 =
    (case (e1, e2) of (Some a, Some b) \<Rightarrow> eq_tree a b | _ \<Rightarrow> expr_is_yes e1 \<and> expr_is_yes e2)"

fun junction_of :: "expr \<Rightarrow> junction option" where
  "junction_of (E_OR a b) = Some J_OR"
| "junction_of (E_AND a b) = Some J_AND"
| "junction_of _ = None"

definition eliminate_eq_trees :: "expr \<Rightarrow> expr \<Rightarrow> expr \<times> expr \<times> nat" where
  "eliminate_eq_trees e1 e2 =
    (let (e1, e2, n) = (case junction_of e1 of None \<Rightarrow> (e1, e2, 0) | Some ty \<Rightarrow> elim_eq eq_tree ty e1 e2);
         (e1, e2, m) =
           (case junction_of e2 of
              None \<Rightarrow> (e1, e2, 0)
            | Some ty \<Rightarrow> if junction_of e1 \<noteq> Some ty then elim_eq eq_tree ty e1 e2 else (e1, e2, 0))
     in (expr_eliminate_yn e1, expr_eliminate_yn e2, n + m))"

definition expr_eliminate_eq :: "expr option \<Rightarrow> expr option \<Rightarrow> expr option \<times> expr option" where
  "expr_eliminate_eq e1 e2 =
    (case (e1, e2) of
       (Some a, Some b) \<Rightarrow> (case eliminate_eq_trees a b of (a, b, _) \<Rightarrow> (Some a, Some b))
     | _ \<Rightarrow> (e1, e2))"

section \<open>Joining operands\<close>

text \<open>The symbol an operand of a join speaks about; \<open>inner\<close> says which operands of a negation count.\<close>

fun join_sym :: "bool \<Rightarrow> expr \<Rightarrow> sym option" where
  "join_sym inner (E_NOT (E_SYMBOL s)) = Some s"
| "join_sym inner (E_NOT (E_CMP op s _)) = (if inner \<and> (op = E_EQUAL \<or> op = E_UNEQUAL) then Some s else None)"
| "join_sym inner (E_SYMBOL s) = Some s"
| "join_sym inner (E_CMP op s _) = (if op = E_EQUAL \<or> op = E_UNEQUAL then Some s else None)"
| "join_sym inner _ = None"

definition eq_to :: "sym \<Rightarrow> expr \<Rightarrow> bool" where
  "eq_to v e \<longleftrightarrow> (case e of E_CMP E_EQUAL _ b \<Rightarrow> b = v | _ \<Rightarrow> False)"

definition neq_to :: "sym \<Rightarrow> expr \<Rightarrow> bool" where
  "neq_to v e \<longleftrightarrow> (case e of E_CMP E_UNEQUAL _ b \<Rightarrow> b = v | _ \<Rightarrow> False)"

fun is_symbol :: "expr \<Rightarrow> bool" where
  "is_symbol (E_SYMBOL _) \<longleftrightarrow> True"
| "is_symbol _ \<longleftrightarrow> False"

fun is_not_symbol :: "expr \<Rightarrow> bool" where
  "is_not_symbol (E_NOT (E_SYMBOL _)) \<longleftrightarrow> True"
| "is_not_symbol _ \<longleftrightarrow> False"

text \<open>One operand as the first predicate says, the other as the second.\<close>

definition either_way :: "(expr \<Rightarrow> bool) \<Rightarrow> (expr \<Rightarrow> bool) \<Rightarrow> expr \<Rightarrow> expr \<Rightarrow> bool" where
  "either_way P Q e1 e2 \<longleftrightarrow> P e1 \<and> Q e2 \<or> Q e1 \<and> P e2"

definition expr_join_or :: "symtab \<Rightarrow> expr \<Rightarrow> expr \<Rightarrow> expr option" where
  "expr_join_or t e1 e2 =
    (if eq_tree e1 e2 then Some e1
     else case (join_sym True e1, join_sym False e2) of
       (Some sym1, Some sym2) \<Rightarrow>
         if sym1 \<noteq> sym2 \<or> sym_type t sym1 \<noteq> S_BOOLEAN \<and> sym_type t sym1 \<noteq> S_TRISTATE then None
         else if sym_type t sym1 = S_TRISTATE \<and> either_way (eq_to symbol_yes) (eq_to symbol_mod) e1 e2
           then Some (E_CMP E_UNEQUAL sym1 symbol_no)
         else if sym_type t sym1 = S_TRISTATE \<and> either_way (eq_to symbol_yes) (eq_to symbol_no) e1 e2
           then Some (E_CMP E_UNEQUAL sym1 symbol_mod)
         else if sym_type t sym1 = S_TRISTATE \<and> either_way (eq_to symbol_mod) (eq_to symbol_no) e1 e2
           then Some (E_CMP E_UNEQUAL sym1 symbol_yes)
         else if sym_type t sym1 = S_BOOLEAN \<and> either_way is_not_symbol is_symbol e1 e2
           then Some (E_SYMBOL symbol_yes)
         else None
     | _ \<Rightarrow> None)"

text \<open>\<open>(a='b') && (a!='c')\<close>, where both \<open>b\<close> and \<open>c\<close> are constants.\<close>

fun eq_and_neq :: "symtab \<Rightarrow> sym \<Rightarrow> expr \<Rightarrow> expr \<Rightarrow> expr option" where
  "eq_and_neq t sym1 (E_CMP E_EQUAL _ b) (E_CMP E_UNEQUAL _ c) =
    (if sym_const t c \<and> sym_const t b then Some (if b \<noteq> c then E_CMP E_EQUAL sym1 b else E_SYMBOL symbol_no) else None)"
| "eq_and_neq t sym1 _ _ = None"

definition expr_join_and :: "symtab \<Rightarrow> expr \<Rightarrow> expr \<Rightarrow> expr option" where
  "expr_join_and t e1 e2 =
    (if eq_tree e1 e2 then Some e1
     else case (join_sym True e1, join_sym False e2) of
       (Some sym1, Some sym2) \<Rightarrow>
         if sym1 \<noteq> sym2 \<or> sym_type t sym1 \<noteq> S_BOOLEAN \<and> sym_type t sym1 \<noteq> S_TRISTATE then None
         else if either_way is_symbol (eq_to symbol_yes) e1 e2 then Some (E_CMP E_EQUAL sym1 symbol_yes)
         else if either_way is_symbol (neq_to symbol_no) e1 e2 then Some (E_SYMBOL sym1)
         else if either_way is_symbol (neq_to symbol_mod) e1 e2 then Some (E_CMP E_EQUAL sym1 symbol_yes)
         else if sym_type t sym1 = S_TRISTATE then
           if eq_and_neq t sym1 e1 e2 \<noteq> None then eq_and_neq t sym1 e1 e2
           else if eq_and_neq t sym1 e2 e1 \<noteq> None then eq_and_neq t sym1 e2 e1
           else if either_way (neq_to symbol_yes) (neq_to symbol_no) e1 e2 then Some (E_CMP E_EQUAL sym1 symbol_mod)
           else if either_way (neq_to symbol_yes) (neq_to symbol_mod) e1 e2 then Some (E_CMP E_EQUAL sym1 symbol_no)
           else if either_way (neq_to symbol_mod) (neq_to symbol_no) e1 e2 then Some (E_CMP E_EQUAL sym1 symbol_yes)
           else None
         else None
     | _ \<Rightarrow> None)"

section \<open>Normalisation\<close>

fun weight :: "expr \<Rightarrow> nat" where
  "weight (E_OR a b) = weight a + weight b + 1"
| "weight (E_AND a b) = weight a + weight b + 1"
| "weight (E_NOT a) = 2 * weight a"
| "weight (E_CMP op a b) = 2"
| "weight (E_SYMBOL s) = 1"

lemma weight_pos [simp]: "0 < weight e"
  by (induction e) simp_all

fun negate_op :: "cmp_op \<Rightarrow> cmp_op" where
  "negate_op E_EQUAL = E_UNEQUAL"
| "negate_op E_UNEQUAL = E_EQUAL"
| "negate_op E_LEQ = E_GTH"
| "negate_op E_GEQ = E_LTH"
| "negate_op E_LTH = E_GEQ"
| "negate_op E_GTH = E_LEQ"

function expr_transform :: "symtab \<Rightarrow> expr \<Rightarrow> expr" where
  "expr_transform t (E_OR a b) = E_OR (expr_transform t a) (expr_transform t b)"
| "expr_transform t (E_AND a b) = E_AND (expr_transform t a) (expr_transform t b)"
| "expr_transform t (E_SYMBOL s) = E_SYMBOL s"
| "expr_transform t (E_CMP op a b) =
    (if sym_type t a \<noteq> S_BOOLEAN then E_CMP op a b
     else case op of
       E_EQUAL \<Rightarrow>
         if b = symbol_no then E_NOT (E_SYMBOL a)
         else if b = symbol_mod then E_SYMBOL symbol_no
         else if b = symbol_yes then E_SYMBOL a
         else E_CMP op a b
     | E_UNEQUAL \<Rightarrow>
         if b = symbol_no then E_SYMBOL a
         else if b = symbol_mod then E_SYMBOL symbol_yes
         else if b = symbol_yes then E_NOT (E_SYMBOL a)
         else E_CMP op a b
     | _ \<Rightarrow> E_CMP op a b)"
| "expr_transform t (E_NOT a) =
    (case expr_transform t a of
       E_NOT b \<Rightarrow> expr_transform t b
     | E_CMP op l r \<Rightarrow> E_CMP (negate_op op) l r
     | E_OR b c \<Rightarrow> expr_transform t (E_AND (E_NOT b) (E_NOT c))
     | E_AND b c \<Rightarrow> expr_transform t (E_OR (E_NOT b) (E_NOT c))
     | E_SYMBOL s \<Rightarrow>
         if s = symbol_yes then E_SYMBOL symbol_no
         else if s = symbol_mod then E_SYMBOL symbol_mod
         else if s = symbol_no then E_SYMBOL symbol_yes
         else E_NOT (E_SYMBOL s))"
  by pat_completeness auto

lemma expr_transform_weight: "expr_transform_dom (t, e) \<Longrightarrow> weight (expr_transform t e) \<le> weight e"
proof (induction t e rule: expr_transform.pinduct)
  case (5 t a)
  show ?case
  proof (cases "expr_transform t a")
    case (E_OR b c)
    then show ?thesis using 5(1,2) 5(3) [OF E_OR] by (simp add: expr_transform.psimps)
  next
    case (E_AND b c)
    then show ?thesis using 5(1,2) 5(4) [OF E_AND] by (simp add: expr_transform.psimps)
  next
    case (E_NOT b)
    then show ?thesis using 5(1,2) 5(5) [OF E_NOT] by (simp add: expr_transform.psimps)
  qed (use 5(1,2) in \<open>simp_all add: expr_transform.psimps\<close>)
qed (simp_all add: expr_transform.psimps split: cmp_op.split)

termination expr_transform
proof (relation "measure (\<lambda>(t, e). weight e)", goal_cases)
  case (7 t a b c)
  then show ?case using expr_transform_weight [of t a] by simp
next
  case (8 t a b c)
  then show ?case using expr_transform_weight [of t a] by simp
next
  case (9 t a b)
  then have "2 * weight b \<le> weight a" using expr_transform_weight [of t a] by simp
  moreover have "0 < weight a" by (rule weight_pos)
  ultimately have "weight b < 2 * weight a" by linarith
  then show ?case by simp
qed auto

fun expr_contains_symbol :: "expr \<Rightarrow> sym \<Rightarrow> bool" where
  "expr_contains_symbol (E_AND a b) s \<longleftrightarrow> expr_contains_symbol a s \<or> expr_contains_symbol b s"
| "expr_contains_symbol (E_OR a b) s \<longleftrightarrow> expr_contains_symbol a s \<or> expr_contains_symbol b s"
| "expr_contains_symbol (E_SYMBOL a) s \<longleftrightarrow> a = s"
| "expr_contains_symbol (E_CMP op a b) s \<longleftrightarrow> a = s \<or> b = s"
| "expr_contains_symbol (E_NOT a) s \<longleftrightarrow> expr_contains_symbol a s"

fun expr_depends_symbol :: "expr \<Rightarrow> sym \<Rightarrow> bool" where
  "expr_depends_symbol (E_AND a b) s \<longleftrightarrow> expr_depends_symbol a s \<or> expr_depends_symbol b s"
| "expr_depends_symbol (E_SYMBOL a) s \<longleftrightarrow> a = s"
| "expr_depends_symbol (E_CMP E_EQUAL a b) s \<longleftrightarrow> a = s \<and> (b = symbol_yes \<or> b = symbol_mod)"
| "expr_depends_symbol (E_CMP E_UNEQUAL a b) s \<longleftrightarrow> a = s \<and> b = symbol_no"
| "expr_depends_symbol _ s \<longleftrightarrow> False"

text \<open>\<open>eq\<close> is \<open>type == E_EQUAL\<close>; the other type is \<open>E_UNEQUAL\<close>.\<close>

definition both :: "(expr \<Rightarrow> expr \<Rightarrow> expr) \<Rightarrow> expr option \<Rightarrow> expr option \<Rightarrow> expr option" where
  "both f e1 e2 = (case (e1, e2) of (Some a, Some b) \<Rightarrow> Some (f a b) | _ \<Rightarrow> None)"

fun expr_trans_compare :: "expr \<Rightarrow> bool \<Rightarrow> sym \<Rightarrow> expr option" where
  "expr_trans_compare (E_AND a b) eq v =
    map_option (\<lambda>e. if eq then e else E_NOT e)
      (if v = symbol_yes then both E_AND (expr_trans_compare a True v) (expr_trans_compare b True v)
       else if v = symbol_no then both E_OR (expr_trans_compare a True v) (expr_trans_compare b True v)
       else Some (E_AND a b))"
| "expr_trans_compare (E_OR a b) eq v =
    map_option (\<lambda>e. if eq then e else E_NOT e)
      (if v = symbol_yes then both E_OR (expr_trans_compare a True v) (expr_trans_compare b True v)
       else if v = symbol_no then both E_AND (expr_trans_compare a True v) (expr_trans_compare b True v)
       else Some (E_OR a b))"
| "expr_trans_compare (E_NOT a) eq v = expr_trans_compare a (\<not> eq) v"
| "expr_trans_compare (E_CMP op a b) eq v =
    (let e = E_CMP op a b in
     if eq then
       (if v = symbol_yes then Some e else if v = symbol_mod then Some (E_SYMBOL symbol_no)
        else if v = symbol_no then Some (E_NOT e) else None)
     else
       (if v = symbol_yes then Some (E_NOT e) else if v = symbol_mod then Some (E_SYMBOL symbol_yes)
        else if v = symbol_no then Some e else None))"
| "expr_trans_compare (E_SYMBOL a) eq v = Some (E_CMP (if eq then E_EQUAL else E_UNEQUAL) a v)"

definition expr_trans_compare_top :: "expr option \<Rightarrow> bool \<Rightarrow> sym \<Rightarrow> expr option" where
  "expr_trans_compare_top e eq v =
    (case e of
       None \<Rightarrow> Some (if eq then E_SYMBOL v else E_NOT (E_SYMBOL v))
     | Some e \<Rightarrow> expr_trans_compare e eq v)"

section \<open>Printing\<close>

datatype expr_type = T_NONE | T_OR | T_AND | T_NOT | T_EQUAL | T_UNEQUAL | T_LTH | T_LEQ | T_GTH | T_GEQ
  | T_LIST | T_SYMBOL | T_RANGE

fun expr_rank :: "expr_type \<Rightarrow> expr_type list" where
  "expr_rank T_LEQ = [T_EQUAL, T_UNEQUAL, T_NOT, T_AND, T_OR, T_LIST, T_NONE]"
| "expr_rank T_LTH = [T_EQUAL, T_UNEQUAL, T_NOT, T_AND, T_OR, T_LIST, T_NONE]"
| "expr_rank T_GEQ = [T_EQUAL, T_UNEQUAL, T_NOT, T_AND, T_OR, T_LIST, T_NONE]"
| "expr_rank T_GTH = [T_EQUAL, T_UNEQUAL, T_NOT, T_AND, T_OR, T_LIST, T_NONE]"
| "expr_rank T_EQUAL = [T_NOT, T_AND, T_OR, T_LIST, T_NONE]"
| "expr_rank T_UNEQUAL = [T_NOT, T_AND, T_OR, T_LIST, T_NONE]"
| "expr_rank T_NOT = [T_AND, T_OR, T_LIST, T_NONE]"
| "expr_rank T_AND = [T_OR, T_LIST, T_NONE]"
| "expr_rank T_OR = [T_LIST, T_NONE]"
| "expr_rank T_LIST = [T_NONE]"
| "expr_rank _ = []"

definition expr_compare_type :: "expr_type \<Rightarrow> expr_type \<Rightarrow> int" where
  "expr_compare_type t1 t2 = (if t1 = t2 then 0 else if t2 \<in> set (expr_rank t1) then 1 else - 1)"

fun cmp_type :: "cmp_op \<Rightarrow> expr_type" where
  "cmp_type E_EQUAL = T_EQUAL"
| "cmp_type E_UNEQUAL = T_UNEQUAL"
| "cmp_type E_LTH = T_LTH"
| "cmp_type E_LEQ = T_LEQ"
| "cmp_type E_GTH = T_GTH"
| "cmp_type E_GEQ = T_GEQ"

fun type_of :: "expr \<Rightarrow> expr_type" where
  "type_of (E_OR _ _) = T_OR"
| "type_of (E_AND _ _) = T_AND"
| "type_of (E_NOT _) = T_NOT"
| "type_of (E_CMP op _ _) = cmp_type op"
| "type_of (E_SYMBOL _) = T_SYMBOL"

fun cmp_text :: "cmp_op \<Rightarrow> string" where
  "cmp_text E_EQUAL = ''=''"
| "cmp_text E_UNEQUAL = ''!=''"
| "cmp_text E_LTH = ''<''"
| "cmp_text E_LEQ = ''<=''"
| "cmp_text E_GTH = ''>''"
| "cmp_text E_GEQ = ''>=''"

text \<open>The calls of \<open>fn\<close>: the symbol, if any, and the text; a right operand without a name is a null string.\<close>

type_synonym print_call = "sym option \<times> string option"

definition left_name :: "symtab \<Rightarrow> sym \<Rightarrow> print_call" where
  "left_name t s = (case sym_name t s of Some n \<Rightarrow> (Some s, Some n) | None \<Rightarrow> (None, Some ''<choice>''))"

definition right_name :: "symtab \<Rightarrow> sym \<Rightarrow> print_call" where
  "right_name t s = (Some s, sym_name t s)"

definition tok :: "string \<Rightarrow> print_call" where
  "tok s = (None, Some s)"

definition paren :: "expr_type \<Rightarrow> expr_type \<Rightarrow> print_call list \<Rightarrow> print_call list" where
  "paren prevtoken ty out =
    (if expr_compare_type prevtoken ty > 0 then [tok ''(''] @ out @ [tok '')''] else out)"

fun print_tree :: "symtab \<Rightarrow> expr_type \<Rightarrow> expr \<Rightarrow> print_call list" where
  "print_tree t prev (E_SYMBOL s) = paren prev T_SYMBOL [left_name t s]"
| "print_tree t prev (E_NOT a) = paren prev T_NOT ([tok ''!''] @ print_tree t T_NOT a)"
| "print_tree t prev (E_CMP op a b) = paren prev (cmp_type op) [left_name t a, tok (cmp_text op), right_name t b]"
| "print_tree t prev (E_OR a b) = paren prev T_OR (print_tree t T_OR a @ [tok '' || ''] @ print_tree t T_OR b)"
| "print_tree t prev (E_AND a b) = paren prev T_AND (print_tree t T_AND a @ [tok '' && ''] @ print_tree t T_AND b)"

datatype top_expr = Tree expr | List_of "sym list" | Range_of sym sym

fun print_list :: "symtab \<Rightarrow> expr_type \<Rightarrow> sym list \<Rightarrow> print_call list" where
  "print_list t prev [] = []"
| "print_list t prev (s # ss) =
    paren prev T_LIST (right_name t s # (if ss = [] then [] else tok '' ^ '' # print_list t T_LIST ss))"

fun expr_print :: "symtab \<Rightarrow> expr_type \<Rightarrow> top_expr option \<Rightarrow> print_call list" where
  "expr_print t prev None = [tok ''y'']"
| "expr_print t prev (Some (Tree e)) = print_tree t prev e"
| "expr_print t prev (Some (List_of ss)) = print_list t prev ss"
| "expr_print t prev (Some (Range_of a b)) =
    paren prev T_RANGE [tok ''['', right_name t a, tok '' '', right_name t b, tok '']'']"

definition expr_fprint :: "symtab \<Rightarrow> top_expr option \<Rightarrow> string" where
  "expr_fprint t e = concat (map (\<lambda>(s, n). the n) (expr_print t T_NONE e))"

text \<open>\<open>expr_print_revdep\<close>: the title is printed before the first matching operand only.\<close>

fun expr_print_revdep :: "symtab \<Rightarrow> tristate \<Rightarrow> expr \<Rightarrow> string option \<Rightarrow> print_call list \<times> string option" where
  "expr_print_revdep t pr (E_OR a b) title =
    (case expr_print_revdep t pr a title of (out1, title) \<Rightarrow>
      case expr_print_revdep t pr b title of (out2, title) \<Rightarrow> (out1 @ out2, title))"
| "expr_print_revdep t pr e title =
    (if calc t e = pr then
       ((case title of None \<Rightarrow> [] | Some s \<Rightarrow> [tok s]) @ [tok ''  - ''] @ print_tree t T_NONE e @ [tok [CHR 0x0A]], None)
     else ([], title))"

section \<open>Tristate algebra\<close>

lemma EXPR_OR_max [simp]: "EXPR_OR a b = max a b"
  by (auto simp: EXPR_OR_def max_def)

lemma EXPR_AND_min [simp]: "EXPR_AND a b = min a b"
  by (auto simp: EXPR_AND_def min_def)

lemma EXPR_NOT_NOT [simp]: "EXPR_NOT (EXPR_NOT a) = a"
  by (cases a) simp_all

lemma EXPR_NOT_max [simp]: "EXPR_NOT (max a b) = min (EXPR_NOT a) (EXPR_NOT b)"
  by (cases a; cases b) (simp_all add: max_def min_def less_eq_tristate_def)

lemma EXPR_NOT_min [simp]: "EXPR_NOT (min a b) = max (EXPR_NOT a) (EXPR_NOT b)"
  by (cases a; cases b) (simp_all add: max_def min_def less_eq_tristate_def)

lemma tri_bounds [simp]:
  "max tri_no a = a" "max a tri_no = a" "max tri_yes a = tri_yes" "max a tri_yes = tri_yes"
  "min tri_no a = tri_no" "min a tri_no = tri_no" "min tri_yes a = a" "min a tri_yes = a"
  by (cases a; simp add: max_def min_def less_eq_tristate_def)+

section \<open>Value lemmas\<close>

lemma calc_eliminate_yn [simp]: "calc t (expr_eliminate_yn e) = calc t e"
  by (induction e) (simp_all del: expr_eliminate_yn.simps add: expr_eliminate_yn.simps(1,2), auto)

subsection \<open>Comparisons with the three constants\<close>

definition wf_tab :: "symtab \<Rightarrow> bool" where
  "wf_tab t \<longleftrightarrow> (\<forall>n. tab_type t n = S_BOOLEAN \<longrightarrow> tab_tri t n \<noteq> tri_mod)
    \<and> (\<forall>n. tab_type t n = S_TRISTATE \<longrightarrow> tab_tri t n = tri_mod \<longrightarrow> modules_tri t \<noteq> tri_no)"

definition logical :: "symtab \<Rightarrow> sym \<Rightarrow> bool" where
  "logical t a \<longleftrightarrow> sym_type t a = S_BOOLEAN \<or> sym_type t a = S_TRISTATE"

lemma str_compare_0 [simp]: "str_compare a b = 0 \<longleftrightarrow> a = b"
  by (induction a b rule: str_compare.induct) auto

lemma parse_ymn: "fst (expr_parse_string ''y'' S_UNKNOWN) = k_string" "fst (expr_parse_string ''m'' S_UNKNOWN) = k_string"
  "fst (expr_parse_string ''n'' S_UNKNOWN) = k_string"
  by (simp_all add: expr_parse_string_def strto_def base_prefix_def is_space_def in_base_def digit_of_def tail_ok_def isxdigit_def)

fun tri_const :: "tristate \<Rightarrow> sym" where
  "tri_const tri_no = symbol_no"
| "tri_const tri_mod = symbol_mod"
| "tri_const tri_yes = symbol_yes"

lemma sym_compare_const:
  assumes "wf_tab t" "logical t a"
  shows "sym_compare t a (tri_const v) = 0 \<longleftrightarrow> sym_tri t a = v"
proof -
  obtain n where n: "a = Sym n" using assms(2) by (cases a) (auto simp: logical_def)
  have s: "sym_get_string_value t a = sym_val t (tri_const w) \<longleftrightarrow> sym_tri t a = w" for w
    using assms n by (cases w; cases "tab_tri t n") (auto simp: sym_get_string_value_def logical_def wf_tab_def)
  have k: "fst (expr_parse_string (sym_val t (tri_const v)) S_UNKNOWN) = k_string"
    by (cases v) (simp_all add: parse_ymn)
  have u: "sym_type t (tri_const v) = S_UNKNOWN" "sym_get_string_value t (tri_const v) = sym_val t (tri_const v)"
    by (cases v; simp add: sym_get_string_value_def)+
  have "sym_compare t a (tri_const v) = str_compare (sym_get_string_value t a) (sym_val t (tri_const v))"
    using k u by (auto simp: sym_compare_def Let_def split: prod.splits)
  then show ?thesis using s by simp
qed

lemmas compare_consts = sym_compare_const [of _ _ tri_no, simplified] sym_compare_const [of _ _ tri_mod, simplified]
  sym_compare_const [of _ _ tri_yes, simplified]

lemma boolean_tri:
  assumes "wf_tab t" "sym_type t a = S_BOOLEAN"
  shows "sym_tri t a = tri_no \<or> sym_tri t a = tri_yes"
  using assms by (cases a; cases "sym_tri t a") (auto simp: wf_tab_def)

subsection \<open>Equality of expressions\<close>

fun jop :: "junction \<Rightarrow> tristate \<Rightarrow> tristate \<Rightarrow> tristate" where
  "jop J_OR a b = max a b"
| "jop J_AND a b = min a b"

definition common_factor :: "symtab \<Rightarrow> junction \<Rightarrow> expr \<Rightarrow> expr \<Rightarrow> expr \<Rightarrow> expr \<Rightarrow> bool" where
  "common_factor t ty e1 e2 e1' e2' \<longleftrightarrow>
    (\<exists>m. calc t e1 = jop ty (calc t e1') m \<and> calc t e2 = jop ty (calc t e2') m)"

lemma jop_unit: "jop ty a (calc t (neutral ty)) = a" "jop ty (calc t (neutral ty)) a = a"
  by (cases ty; simp add: neutral_def)+

lemma jop_ac: "jop ty (jop ty a b) c = jop ty a (jop ty b c)" "jop ty a b = jop ty b a"
  by (cases ty; simp add: ac_simps)+

lemma elim_leaf_factor:
  assumes "eq e1 e2 \<Longrightarrow> calc t e1 = calc t e2" "elim_leaf eq ty e1 e2 = (e1', e2', n)"
  shows "common_factor t ty e1 e2 e1' e2'"
proof (cases "e1' = e1 \<and> e2' = e2")
  case True
  then show ?thesis
    unfolding common_factor_def by (intro exI [of _ "calc t (neutral ty)"]) (simp add: jop_unit)
next
  case False
  then have "e1' = neutral ty" "e2' = neutral ty" "calc t e1 = calc t e2"
    using assms by (auto simp: elim_leaf_def split: if_splits)
  then show ?thesis unfolding common_factor_def by (intro exI [of _ "calc t e1"]) (simp add: jop_unit)
qed

text \<open>Two rounds of elimination on the operands of a junction are one on the junction.\<close>

lemma common_factor_step:
  assumes "common_factor t ty e c e1 c'" "common_factor t ty e1 d e2 d'"
    "\<And>x y. calc t (mk x y) = jop ty (calc t x) (calc t y)"
  shows "common_factor t ty e (mk c d) e2 (mk c' d')"
proof -
  obtain m k where "calc t e = jop ty (calc t e1) m" "calc t c = jop ty (calc t c') m"
    "calc t e1 = jop ty (calc t e2) k" "calc t d = jop ty (calc t d') k"
    using assms(1,2) by (auto simp: common_factor_def)
  then have "calc t e = jop ty (calc t e2) (jop ty k m)" "calc t (mk c d) = jop ty (calc t (mk c' d')) (jop ty k m)"
    using assms(3) by (cases ty; simp add: ac_simps)+
  then show ?thesis unfolding common_factor_def by blast
qed

lemma common_factor_sym: "common_factor t ty a b a' b' \<longleftrightarrow> common_factor t ty b a b' a'"
  by (auto simp: common_factor_def)

lemma elim_right_factor:
  assumes "\<And>x y. eq x y \<Longrightarrow> calc t x = calc t y"
  shows "elim_right eq ty e1 e2 = (e1', e2', n) \<Longrightarrow> common_factor t ty e1 e2 e1' e2'"
proof (induction e2 arbitrary: e1 e1' e2' n)
  case (E_OR c d)
  show ?case
  proof (cases "ty = J_OR")
    case True
    then obtain f c' k d' l where "elim_right eq ty e1 c = (f, c', k)" "elim_right eq ty f d = (e1', d', l)" "e2' = E_OR c' d'"
      using E_OR.prems by (auto split: prod.splits)
    then show ?thesis using common_factor_step [OF E_OR.IH(1) E_OR.IH(2), of e1 f c' k e1' d' l E_OR] True by simp
  qed (use E_OR.prems assms elim_leaf_factor in \<open>simp, blast\<close>)
next
  case (E_AND c d)
  show ?case
  proof (cases "ty = J_AND")
    case True
    then obtain f c' k d' l where "elim_right eq ty e1 c = (f, c', k)" "elim_right eq ty f d = (e1', d', l)" "e2' = E_AND c' d'"
      using E_AND.prems by (auto split: prod.splits)
    then show ?thesis using common_factor_step [OF E_AND.IH(1) E_AND.IH(2), of e1 f c' k e1' d' l E_AND] True by simp
  qed (use E_AND.prems assms elim_leaf_factor in \<open>simp, blast\<close>)
qed (simp, use assms elim_leaf_factor in blast)+

lemma elim_eq_factor:
  assumes "\<And>x y. eq x y \<Longrightarrow> calc t x = calc t y"
  shows "elim_eq eq ty e1 e2 = (e1', e2', n) \<Longrightarrow> common_factor t ty e1 e2 e1' e2'"
proof (induction e1 arbitrary: e2 e1' e2' n)
  case (E_OR a b)
  show ?case
  proof (cases "ty = J_OR")
    case True
    then obtain f a' k b' l where "elim_eq eq ty a e2 = (a', f, k)" "elim_eq eq ty b f = (b', e2', l)" "e1' = E_OR a' b'"
      using E_OR.prems by (auto split: prod.splits)
    then show ?thesis
      using common_factor_step [OF common_factor_sym [THEN iffD1, OF E_OR.IH(1)] common_factor_sym [THEN iffD1, OF E_OR.IH(2)],
          of e2 a' f k b' e2' l E_OR] True common_factor_sym
      by simp
  qed (use E_OR.prems assms elim_right_factor in \<open>simp, blast\<close>)
next
  case (E_AND a b)
  show ?case
  proof (cases "ty = J_AND")
    case True
    then obtain f a' k b' l where "elim_eq eq ty a e2 = (a', f, k)" "elim_eq eq ty b f = (b', e2', l)" "e1' = E_AND a' b'"
      using E_AND.prems by (auto split: prod.splits)
    then show ?thesis
      using common_factor_step [OF common_factor_sym [THEN iffD1, OF E_AND.IH(1)] common_factor_sym [THEN iffD1, OF E_AND.IH(2)],
          of e2 a' f k b' e2' l E_AND] True common_factor_sym
      by simp
  qed (use E_AND.prems assms elim_right_factor in \<open>simp, blast\<close>)
qed (simp, use assms elim_right_factor in blast)+

lemma same_symbol_calc: "same_symbol a b \<Longrightarrow> calc t a = calc t b"
  by (cases "(a, b)" rule: same_symbol.cases) auto

lemma common_factor_eq: "common_factor t ty e1 e2 e1' e2' \<Longrightarrow> calc t e1' = calc t e2' \<Longrightarrow> calc t e1 = calc t e2"
  by (auto simp: common_factor_def)

text \<open>The comparison only ever sees smaller trees, so it may be replaced by its restriction to those.\<close>

lemma junction_eq_sound:
  assumes "\<And>x y. size x + size y < size e1 + size e2 \<Longrightarrow> eq_tree x y \<Longrightarrow> calc t x = calc t y"
    and "leafmax ty e1 < size e1" "leafmax ty e2 < size e2"
    and "elim_eq eq_tree ty e1 e2 = (x, y, n)" "same_symbol (expr_eliminate_yn x) (expr_eliminate_yn y)"
  shows "calc t e1 = calc t e2"
proof -
  define eq where "eq x y \<longleftrightarrow> eq_tree x y \<and> size x + size y < size e1 + size e2" for x y
  have "elim_eq eq_tree ty e1 e2 = elim_eq eq ty e1 e2"
    using assms(2,3) by (intro elim_eq_cong_aux) (auto simp: eq_def)
  moreover have "eq x y \<Longrightarrow> calc t x = calc t y" for x y using assms(1) by (auto simp: eq_def)
  ultimately have "common_factor t ty e1 e2 x y" using elim_eq_factor [of eq t ty e1 e2 x y n] assms(4) by simp
  then show ?thesis using same_symbol_calc [OF assms(5), of t] common_factor_eq by simp
qed

lemma eq_tree_sound: "eq_tree e1 e2 \<Longrightarrow> calc t e1 = calc t e2"
proof (induction "size e1 + size e2" arbitrary: e1 e2 rule: less_induct)
  case less
  have IH: "size x + size y < size e1 + size e2 \<Longrightarrow> eq_tree x y \<Longrightarrow> calc t x = calc t y" for x y
    using less.hyps by blast
  note eq = less.prems [unfolded eq_tree.simps [of e1 e2]]
  show ?case
  proof (cases e1)
    case (E_OR a b)
    then obtain c d x y n where "e2 = E_OR c d" "elim_eq eq_tree J_OR e1 e2 = (x, y, n)"
      "same_symbol (expr_eliminate_yn x) (expr_eliminate_yn y)"
      using eq by (auto split: expr.splits prod.splits)
    then show ?thesis using junction_eq_sound [of e1 e2 t J_OR x y n] IH E_OR leafmax_less(1) by simp
  next
    case (E_AND a b)
    then obtain c d x y n where "e2 = E_AND c d" "elim_eq eq_tree J_AND e1 e2 = (x, y, n)"
      "same_symbol (expr_eliminate_yn x) (expr_eliminate_yn y)"
      using eq by (auto split: expr.splits prod.splits)
    then show ?thesis using junction_eq_sound [of e1 e2 t J_AND x y n] IH E_AND leafmax_less(2) by simp
  next
    case (E_NOT a)
    then obtain b where "e2 = E_NOT b" "eq_tree a b" using eq by (auto split: expr.splits)
    then show ?thesis using IH [of a b] E_NOT by simp
  qed (use eq in \<open>auto split: expr.splits\<close>)
qed

lemma elim_eq_tree_factor: "elim_eq eq_tree ty e1 e2 = (e1', e2', n) \<Longrightarrow> common_factor t ty e1 e2 e1' e2'"
  by (rule elim_eq_factor) (rule eq_tree_sound)

lemma jop_mono: "mono (\<lambda>v. jop ty v m)"
  by (cases ty; rule monoI; simp only: jop.simps)
    (rule max.mono min.mono, assumption, rule order.refl)+

lemma common_factor_mono:
  "common_factor t ty e1 e2 e1' e2' \<Longrightarrow> \<exists>f. mono f \<and> calc t e1 = f (calc t e1') \<and> calc t e2 = f (calc t e2')"
  using jop_mono by (force simp: common_factor_def)

lemma eliminate_pass:
  assumes "(case junction_of e of None \<Rightarrow> (e1, e2, 0)
      | Some ty \<Rightarrow> if c then elim_eq eq_tree ty e1 e2 else (e1, e2, 0 :: nat)) = (e1', e2', n)"
  shows "\<exists>f. mono f \<and> calc t e1 = f (calc t e1') \<and> calc t e2 = f (calc t e2')"
proof (cases "(e1, e2) = (e1', e2')")
  case True
  then show ?thesis by (intro exI [of _ id]) (simp add: mono_def)
next
  case False
  then obtain ty where "elim_eq eq_tree ty e1 e2 = (e1', e2', n)" using assms by (auto split: option.splits if_splits)
  then show ?thesis using common_factor_mono [OF elim_eq_tree_factor] by blast
qed

lemma eliminate_eq_trees_mono:
  assumes "eliminate_eq_trees e1 e2 = (e1', e2', n)"
  shows "\<exists>f. mono f \<and> calc t e1 = f (calc t e1') \<and> calc t e2 = f (calc t e2')"
proof -
  obtain a b k where p1: "(case junction_of e1 of None \<Rightarrow> (e1, e2, 0) | Some ty \<Rightarrow> elim_eq eq_tree ty e1 e2) = (a, b, k)"
    by (rule prod_cases3)
  obtain c d l where p2: "(case junction_of b of None \<Rightarrow> (a, b, 0)
      | Some ty \<Rightarrow> if junction_of a \<noteq> Some ty then elim_eq eq_tree ty a b else (a, b, 0)) = (c, d, l)"
    by (rule prod_cases3)
  have r: "e1' = expr_eliminate_yn c" "e2' = expr_eliminate_yn d"
    using assms p1 p2 by (simp_all add: eliminate_eq_trees_def)
  obtain f where f: "mono f" "calc t e1 = f (calc t a)" "calc t e2 = f (calc t b)"
    using eliminate_pass [of e1 e2 True e1 a b k t] p1 unfolding if_True by blast
  obtain g where g: "mono g" "calc t a = g (calc t c)" "calc t b = g (calc t d)"
    using eliminate_pass [of a b "junction_of a \<noteq> junction_of b" b c d l t] p2 by (auto split: option.splits)
  have "mono (f \<circ> g)" using f(1) g(1) by (simp add: mono_def)
  then show ?thesis using f g r by (intro exI [of _ "f \<circ> g"]) simp
qed

subsection \<open>Joins\<close>

text \<open>Distinct constants are told apart by every tristate symbol.\<close>

definition consts_apart :: "symtab \<Rightarrow> bool" where
  "consts_apart t \<longleftrightarrow> (\<forall>a b c. sym_type t a = S_TRISTATE \<longrightarrow> sym_const t b \<longrightarrow> sym_const t c \<longrightarrow> b \<noteq> c \<longrightarrow>
    sym_compare t a b = 0 \<longrightarrow> sym_compare t a c \<noteq> 0)"

lemma join_cases:
  "eq_to v e \<Longrightarrow> join_sym i e = Some s \<Longrightarrow> e = E_CMP E_EQUAL s v"
  "neq_to v e \<Longrightarrow> join_sym i e = Some s \<Longrightarrow> e = E_CMP E_UNEQUAL s v"
  "is_symbol e \<Longrightarrow> join_sym i e = Some s \<Longrightarrow> e = E_SYMBOL s"
  "is_not_symbol e \<Longrightarrow> join_sym i e = Some s \<Longrightarrow> e = E_NOT (E_SYMBOL s)"
  by (cases "(i, e)" rule: join_sym.cases; simp add: eq_to_def neq_to_def split: cmp_op.splits if_splits)+

lemma join_calc:
  assumes "wf_tab t" "logical t s" "join_sym i e = Some s"
  shows "eq_to (tri_const v) e \<Longrightarrow> calc t e = (if sym_tri t s = v then tri_yes else tri_no)"
    "neq_to (tri_const v) e \<Longrightarrow> calc t e = (if sym_tri t s = v then tri_no else tri_yes)"
    "is_symbol e \<Longrightarrow> calc t e = sym_tri t s" "is_not_symbol e \<Longrightarrow> calc t e = EXPR_NOT (sym_tri t s)"
proof -
  note c = sym_compare_const [OF assms(1,2)]
  show "eq_to (tri_const v) e \<Longrightarrow> calc t e = (if sym_tri t s = v then tri_yes else tri_no)"
    using join_cases(1) [OF _ assms(3), of "tri_const v"] by (simp add: c)
  show "neq_to (tri_const v) e \<Longrightarrow> calc t e = (if sym_tri t s = v then tri_no else tri_yes)"
    using join_cases(2) [OF _ assms(3), of "tri_const v"] by (simp add: c)
  show "is_symbol e \<Longrightarrow> calc t e = sym_tri t s" "is_not_symbol e \<Longrightarrow> calc t e = EXPR_NOT (sym_tri t s)"
    using join_cases(3,4) [OF _ assms(3)] by auto
qed

lemmas join_calcs = join_calc(1) [where v = tri_no, simplified] join_calc(1) [where v = tri_mod, simplified]
  join_calc(1) [where v = tri_yes, simplified] join_calc(2) [where v = tri_no, simplified]
  join_calc(2) [where v = tri_mod, simplified] join_calc(2) [where v = tri_yes, simplified] join_calc(3,4)

lemma expr_join_or_sound:
  assumes "wf_tab t" "expr_join_or t e1 e2 = Some e"
  shows "calc t e = max (calc t e1) (calc t e2)"
proof (cases "eq_tree e1 e2")
  case True
  then show ?thesis using assms(2) eq_tree_sound [OF True, of t] by (simp add: expr_join_or_def)
next
  case False
  then obtain s where s: "join_sym True e1 = Some s" "join_sym False e2 = Some s" "logical t s"
    using assms(2) by (auto simp: expr_join_or_def logical_def split: option.splits if_splits)
  note j = join_calcs [OF assms(1) s(3)] and c = compare_consts [OF assms(1) s(3)]
  have tri: "sym_tri t s = tri_no \<or> sym_tri t s = tri_mod \<or> sym_tri t s = tri_yes" by (cases "sym_tri t s") simp_all
  show ?thesis
    using assms(2) False s tri boolean_tri [OF assms(1), of s]
    by (auto simp: expr_join_or_def either_way_def j c split: if_splits)
qed

lemma eq_and_neq_sound:
  assumes "consts_apart t" "sym_type t s = S_TRISTATE" "join_sym i e1 = Some s" "join_sym j e2 = Some s"
    and "eq_and_neq t s e1 e2 = Some e"
  shows "calc t e = min (calc t e1) (calc t e2)"
proof -
  obtain b c where e: "e1 = E_CMP E_EQUAL s b" "e2 = E_CMP E_UNEQUAL s c" "sym_const t c" "sym_const t b"
    "e = (if b \<noteq> c then E_CMP E_EQUAL s b else E_SYMBOL symbol_no)"
    using assms(3-5) by (cases "(t, s, e1, e2)" rule: eq_and_neq.cases) (auto split: if_splits)
  then show ?thesis using assms(1,2) by (auto simp: consts_apart_def)
qed

lemma expr_join_and_sound:
  assumes "wf_tab t" "consts_apart t" "expr_join_and t e1 e2 = Some e"
  shows "calc t e = min (calc t e1) (calc t e2)"
proof (cases "eq_tree e1 e2")
  case True
  then show ?thesis using assms(3) eq_tree_sound [OF True, of t] by (simp add: expr_join_and_def)
next
  case False
  then obtain s where s: "join_sym True e1 = Some s" "join_sym False e2 = Some s" "logical t s"
    using assms(3) by (auto simp: expr_join_and_def logical_def split: option.splits if_splits)
  note j = join_calcs [OF assms(1) s(3)] and c = compare_consts [OF assms(1) s(3)]
  have tri: "sym_tri t s = tri_no \<or> sym_tri t s = tri_mod \<or> sym_tri t s = tri_yes" by (cases "sym_tri t s") simp_all
  have n: "eq_and_neq t s e1 e2 = Some e \<Longrightarrow> sym_type t s = S_TRISTATE \<Longrightarrow> ?thesis"
    using eq_and_neq_sound [OF assms(2) _ s(1,2)] by blast
  have n': "eq_and_neq t s e2 e1 = Some e \<Longrightarrow> sym_type t s = S_TRISTATE \<Longrightarrow> ?thesis"
    using eq_and_neq_sound [OF assms(2) _ s(2,1)] by (simp add: min.commute)
  show ?thesis
  proof (cases "sym_type t s = S_TRISTATE \<and> (eq_and_neq t s e1 e2 = Some e \<or> eq_and_neq t s e2 e1 = Some e)")
    case True
    then show ?thesis using n n' by blast
  next
    case notn: False
    have "either_way is_symbol (eq_to symbol_yes) e1 e2 \<and> e = E_CMP E_EQUAL s symbol_yes
      \<or> either_way is_symbol (neq_to symbol_no) e1 e2 \<and> e = E_SYMBOL s
      \<or> either_way is_symbol (neq_to symbol_mod) e1 e2 \<and> e = E_CMP E_EQUAL s symbol_yes
      \<or> either_way (neq_to symbol_yes) (neq_to symbol_no) e1 e2 \<and> e = E_CMP E_EQUAL s symbol_mod
      \<or> either_way (neq_to symbol_yes) (neq_to symbol_mod) e1 e2 \<and> e = E_CMP E_EQUAL s symbol_no
      \<or> either_way (neq_to symbol_mod) (neq_to symbol_no) e1 e2 \<and> e = E_CMP E_EQUAL s symbol_yes"
      using assms(3) False s(1,2) notn by (simp add: expr_join_and_def split: if_splits)
    then show ?thesis
      unfolding either_way_def using tri
      by (elim disjE conjE) (simp_all add: j [OF s(1)] j [OF s(2)] c)
  qed
qed

subsection \<open>Normalisation\<close>

lemma cmp_holds_negate [simp]: "cmp_holds (negate_op op) r \<longleftrightarrow> \<not> cmp_holds op r"
  by (cases op) auto

lemma calc_transform: "wf_tab t \<Longrightarrow> calc t (expr_transform t e) = calc t e"
proof (induction t e rule: expr_transform.induct)
  case (4 t op a b)
  show ?case
  proof (cases "sym_type t a = S_BOOLEAN")
    case True
    then have l: "logical t a" by (simp add: logical_def)
    show ?thesis
      using True boolean_tri [OF 4 True] compare_consts [OF 4 l] by (auto split: cmp_op.split)
  qed simp
next
  case (5 t a)
  show ?case
    using 5 by (cases "expr_transform t a") (auto simp flip: 5(1) split: if_splits)
qed simp_all

text \<open>Negation is pushed to the symbols.\<close>

fun nnf :: "expr \<Rightarrow> bool" where
  "nnf (E_OR a b) \<longleftrightarrow> nnf a \<and> nnf b"
| "nnf (E_AND a b) \<longleftrightarrow> nnf a \<and> nnf b"
| "nnf (E_NOT (E_SYMBOL s)) \<longleftrightarrow> s \<notin> {symbol_yes, symbol_mod, symbol_no}"
| "nnf (E_NOT _) \<longleftrightarrow> False"
| "nnf _ \<longleftrightarrow> True"

lemma nnf_transform: "nnf (expr_transform t e)"
proof (induction t e rule: expr_transform.induct)
  case (4 t op a b)
  then show ?case by (cases a; cases op) auto
next
  case (5 t a)
  then show ?case by (cases "expr_transform t a") auto
qed simp_all

subsection \<open>Explicit comparisons\<close>

text \<open>Every symbol used as an operand is a boolean or tristate symbol, or a constant, and none has the value m.\<close>

fun bivalent :: "symtab \<Rightarrow> expr \<Rightarrow> bool" where
  "bivalent t (E_OR a b) \<longleftrightarrow> bivalent t a \<and> bivalent t b"
| "bivalent t (E_AND a b) \<longleftrightarrow> bivalent t a \<and> bivalent t b"
| "bivalent t (E_NOT a) \<longleftrightarrow> bivalent t a"
| "bivalent t (E_CMP op a b) \<longleftrightarrow> sym_type t a = S_TRISTATE \<longrightarrow> sym_tri t a \<noteq> tri_mod"
| "bivalent t (E_SYMBOL s) \<longleftrightarrow> (logical t s \<or> s = symbol_yes \<or> s = symbol_no) \<and> sym_tri t s \<noteq> tri_mod"

lemma EXPR_NOT_mod [simp]: "EXPR_NOT a = tri_mod \<longleftrightarrow> a = tri_mod"
  by (cases a) simp_all

lemma bivalent_calc: "bivalent t e \<Longrightarrow> calc t e \<noteq> tri_mod"
  by (induction e) (auto simp: max_def min_def)

lemma max_min_ends:
  "max a b = tri_yes \<longleftrightarrow> a = tri_yes \<or> b = tri_yes" "max a b = tri_no \<longleftrightarrow> a = tri_no \<and> b = tri_no"
  "min a b = tri_yes \<longleftrightarrow> a = tri_yes \<and> b = tri_yes" "min a b = tri_no \<longleftrightarrow> a = tri_no \<or> b = tri_no"
  by (cases a; cases b; simp add: max_def min_def less_eq_tristate_def)+

lemma compare_yes_no:
  "sym_compare t symbol_yes symbol_yes = 0" "sym_compare t symbol_no symbol_no = 0"
  "sym_compare t symbol_yes symbol_no \<noteq> 0" "sym_compare t symbol_no symbol_yes \<noteq> 0"
  using parse_ymn by (auto simp: sym_compare_def sym_get_string_value_def Let_def split: prod.splits)

lemma trans_compare_value:
  assumes "wf_tab t" "v = symbol_yes \<or> v = symbol_no"
  shows "bivalent t e \<Longrightarrow>
    \<exists>e'. expr_trans_compare e eq v = Some e' \<and> calc t e' = (if (calc t e = sym_tri t v) = eq then tri_yes else tri_no)"
proof (induction e arbitrary: eq)
  case (E_OR a b)
  have "\<exists>e'. expr_trans_compare a True v = Some e' \<and> calc t e' = (if calc t a = sym_tri t v then tri_yes else tri_no)"
    "\<exists>e'. expr_trans_compare b True v = Some e' \<and> calc t e' = (if calc t b = sym_tri t v then tri_yes else tri_no)"
    using E_OR.IH(1) [of True] E_OR.IH(2) [of True] E_OR.prems by simp_all
  then show ?case using assms(2) by (auto simp: both_def max_min_ends)
next
  case (E_AND a b)
  have "\<exists>e'. expr_trans_compare a True v = Some e' \<and> calc t e' = (if calc t a = sym_tri t v then tri_yes else tri_no)"
    "\<exists>e'. expr_trans_compare b True v = Some e' \<and> calc t e' = (if calc t b = sym_tri t v then tri_yes else tri_no)"
    using E_AND.IH(1) [of True] E_AND.IH(2) [of True] E_AND.prems by simp_all
  then show ?case using assms(2) by (auto simp: both_def max_min_ends)
next
  case (E_NOT a)
  have "(EXPR_NOT (calc t a) = sym_tri t v) = eq \<longleftrightarrow> (calc t a = sym_tri t v) = (\<not> eq)"
    using bivalent_calc [of t a] E_NOT.prems assms(2) by (cases "calc t a") auto
  then show ?case using E_NOT.IH [of "\<not> eq"] E_NOT.prems by simp
next
  case (E_CMP op a b)
  then show ?case using assms(2) by (auto simp: Let_def)
next
  case (E_SYMBOL s)
  then show ?case using assms compare_consts [OF assms(1), of s] compare_yes_no [of t] by auto
qed

lemma trans_bool_value: "wf_tab t \<Longrightarrow> bivalent t e \<Longrightarrow> calc t (expr_trans_bool t e) = calc t e"
proof (induction e)
  case (E_CMP op a b)
  then show ?case using compare_consts [OF E_CMP(1), of a] by (cases "sym_tri t a") (auto simp: logical_def)
qed simp_all

section \<open>Properties\<close>

text \<open>A table with a boolean symbol that is on, a tristate symbol that is off and modules enabled.\<close>

definition sample_tab :: symtab where
  "sample_tab = \<lparr>tab_type = (\<lambda>n. if n = 0 then S_BOOLEAN else if n = 1 then S_TRISTATE else S_STRING),
    tab_const = (\<lambda>n. False), tab_tri = (\<lambda>n. if n = 0 then tri_yes else tri_no), tab_val = (\<lambda>n. ''foo''),
    tab_name = (\<lambda>n. Some ''FOO''), modules_tri = tri_yes\<rparr>"

lemma sample_tab_wf: "wf_tab sample_tab"
  by (simp add: wf_tab_def sample_tab_def)

lemma sample_tab_consts: "consts_apart sample_tab"
proof -
  have "sym_tri sample_tab b \<noteq> sym_tri sample_tab c" if "sym_const sample_tab b" "sym_const sample_tab c" "b \<noteq> c" for b c
    using that by (cases b; cases c) (auto simp: sample_tab_def)
  moreover have "sym_compare sample_tab a b = 0 \<longleftrightarrow> sym_tri sample_tab a = sym_tri sample_tab b"
    if "sym_const sample_tab b" "sym_type sample_tab a = S_TRISTATE" for a b
    using that compare_consts [OF sample_tab_wf, of a] by (cases b) (auto simp: logical_def sample_tab_def)
  ultimately show ?thesis unfolding consts_apart_def by metis
qed

text \<open>
  C20: normalising a dependency expression never changes its value, whatever the symbols' values, and
  leaves negations only directly on symbols that are not constants.
\<close>
theorem transform_preserves:
  assumes "wf_tab t"
  shows "expr_calc_value t (map_option (expr_transform t) e) = expr_calc_value t e
    \<and> pred_option nnf (map_option (expr_transform t) e)"
  using calc_transform [OF assms] nnf_transform by (cases e) (simp_all add: expr_calc_value_def)

theorem transform_preserves_witness:
  "expr_calc_value sample_tab (map_option (expr_transform sample_tab)
       (Some (E_NOT (E_OR (E_CMP E_EQUAL (Sym 0) symbol_no) (E_NOT (E_CMP E_LTH (Sym 1) (Sym 2)))))))
     = expr_calc_value sample_tab (Some (E_NOT (E_OR (E_CMP E_EQUAL (Sym 0) symbol_no) (E_NOT (E_CMP E_LTH (Sym 1) (Sym 2))))))
    \<and> pred_option nnf (map_option (expr_transform sample_tab)
       (Some (E_NOT (E_OR (E_CMP E_EQUAL (Sym 0) symbol_no) (E_NOT (E_CMP E_LTH (Sym 1) (Sym 2)))))))"
  by (rule transform_preserves) (rule sample_tab_wf)

text \<open>
  C21: two expressions that the comparison calls equal have the same value under every assignment; and
  removing their common operands is sound: one monotone function maps the values of the two remainders
  to the values of the two originals.
\<close>
theorem eliminate_eq_sound:
  assumes "expr_eq a b"
  shows "expr_calc_value t a = expr_calc_value t b
    \<and> (\<exists>f. mono f \<and> expr_calc_value t c = f (expr_calc_value t (fst (expr_eliminate_eq c d)))
        \<and> expr_calc_value t d = f (expr_calc_value t (snd (expr_eliminate_eq c d))))"
proof -
  have 1: "expr_calc_value t a = expr_calc_value t b"
    using assms eq_tree_sound
    by (auto simp: expr_eq_def expr_calc_value_def expr_is_yes_def split: option.splits)
  have 2: "\<exists>f. mono f \<and> expr_calc_value t c = f (expr_calc_value t (fst (expr_eliminate_eq c d)))
      \<and> expr_calc_value t d = f (expr_calc_value t (snd (expr_eliminate_eq c d)))"
  proof (cases "c = None \<or> d = None")
    case True
    then show ?thesis by (intro exI [of _ id]) (auto simp: expr_eliminate_eq_def mono_def split: option.split)
  next
    case False
    then obtain x y where xy: "c = Some x" "d = Some y" by auto
    obtain x' y' n where "eliminate_eq_trees x y = (x', y', n)" by (rule prod_cases3)
    then show ?thesis using eliminate_eq_trees_mono [of x y x' y' n t] xy
      by (simp add: expr_eliminate_eq_def expr_calc_value_def)
  qed
  show ?thesis using 1 2 by blast
qed

theorem eliminate_eq_sound_witness:
  "\<forall>t. expr_calc_value t None = expr_calc_value t (Some (E_SYMBOL symbol_yes))
    \<and> (\<exists>f. mono f \<and> expr_calc_value t (Some (E_AND (E_SYMBOL (Sym 0)) (E_SYMBOL (Sym 1))))
          = f (expr_calc_value t (fst (expr_eliminate_eq (Some (E_AND (E_SYMBOL (Sym 0)) (E_SYMBOL (Sym 1)))) (Some (E_SYMBOL (Sym 1))))))
        \<and> expr_calc_value t (Some (E_SYMBOL (Sym 1)))
          = f (expr_calc_value t (snd (expr_eliminate_eq (Some (E_AND (E_SYMBOL (Sym 0)) (E_SYMBOL (Sym 1)))) (Some (E_SYMBOL (Sym 1)))))))"
  by (intro allI eliminate_eq_sound) (simp add: expr_eq_def expr_is_yes_def)

text \<open>
  joining two operands of an || or && into one is sound, provided boolean symbols are never m and
  no tristate symbol equals two different constants.
\<close>
theorem joins_sound:
  assumes "wf_tab t" "consts_apart t"
  shows "pred_option (\<lambda>e. calc t e = EXPR_OR (calc t e1) (calc t e2)) (expr_join_or t e1 e2)
    \<and> pred_option (\<lambda>e. calc t e = EXPR_AND (calc t e1) (calc t e2)) (expr_join_and t e1 e2)"
  using expr_join_or_sound [OF assms(1), of e1 e2] expr_join_and_sound [OF assms, of e1 e2]
  by (simp add: option.pred_set)

theorem joins_sound_witness:
  "pred_option (\<lambda>e. calc sample_tab e = EXPR_OR (calc sample_tab (E_CMP E_EQUAL (Sym 1) symbol_yes)) (calc sample_tab (E_CMP E_EQUAL (Sym 1) symbol_mod)))
      (expr_join_or sample_tab (E_CMP E_EQUAL (Sym 1) symbol_yes) (E_CMP E_EQUAL (Sym 1) symbol_mod))
    \<and> pred_option (\<lambda>e. calc sample_tab e = EXPR_AND (calc sample_tab (E_CMP E_EQUAL (Sym 1) symbol_yes)) (calc sample_tab (E_CMP E_EQUAL (Sym 1) symbol_mod)))
      (expr_join_and sample_tab (E_CMP E_EQUAL (Sym 1) symbol_yes) (E_CMP E_EQUAL (Sym 1) symbol_mod))"
  by (rule joins_sound [OF sample_tab_wf sample_tab_consts])

text \<open>
  when no symbol has the value m, turning an expression into an explicit comparison with y or n
  gives an expression that is y exactly when the comparison holds (and n otherwise), and dropping the
  comparison \<open>!=n\<close> keeps the value.
\<close>
theorem trans_compare_correct:
  assumes "wf_tab t" "bivalent t e" "v = symbol_yes \<or> v = symbol_no"
  shows "(\<exists>e'. expr_trans_compare e eq v = Some e'
        \<and> calc t e' = (if (calc t e = sym_tri t v) = eq then tri_yes else tri_no))
    \<and> calc t (expr_trans_bool t e) = calc t e"
  using trans_compare_value [OF assms(1,3,2), of eq] trans_bool_value [OF assms(1,2)] by blast

theorem trans_compare_correct_witness:
  "(\<exists>e'. expr_trans_compare (E_AND (E_SYMBOL (Sym 0)) (E_NOT (E_SYMBOL (Sym 1)))) False symbol_no = Some e'
        \<and> calc sample_tab e' = (if (calc sample_tab (E_AND (E_SYMBOL (Sym 0)) (E_NOT (E_SYMBOL (Sym 1)))) = sym_tri sample_tab symbol_no) = False
            then tri_yes else tri_no))
    \<and> calc sample_tab (expr_trans_bool sample_tab (E_AND (E_SYMBOL (Sym 0)) (E_NOT (E_SYMBOL (Sym 1)))))
      = calc sample_tab (E_AND (E_SYMBOL (Sym 0)) (E_NOT (E_SYMBOL (Sym 1))))"
  by (rule trans_compare_correct [OF sample_tab_wf]) (simp_all add: logical_def sample_tab_def)

end
