(* ===== verification/Kconfig_Symbol.thy ===== *)
theory Kconfig_Symbol
  imports Kconfig_Expr "HOL-Library.Monad_Syntax"
begin

text \<open>
  Values of configuration symbols: \<open>simulator/tools/kconfig/symbol.c\<close> up to \<open>sym_calc_value\<close>.

  The table of symbols is a record that the operations take and return.  A symbol is a reference
  (\<open>sym\<close>), its fields are a record \<open>ksym\<close>, its list of properties is given with it.
  \<open>prop->visible.tri\<close> is the entry of \<open>prop_tri\<close> at the symbol and the position of the property.  The
  values of symbols are pointers to strings or, for a choice, to a symbol; two pointers are
  equal when the addresses are.

  Calculating a symbol evaluates expressions, which calculates other symbols: the operations
  have the recursive call \<open>rec\<close> as a parameter, and \<open>sym_calc_value\<close> ties the knot.  The result \<open>None\<close>
  stands for a calculation that does not return or follows a null pointer.
\<close>

section \<open>Symbols\<close>

datatype kptr = Null | Str nat string | Ptr sym

datatype flag =
    SYMBOL_CONST | SYMBOL_CHOICE | SYMBOL_CHOICEVAL | SYMBOL_VALID | SYMBOL_OPTIONAL | SYMBOL_WRITE
  | SYMBOL_CHANGED | SYMBOL_NO_WRITE | SYMBOL_DEF_USER | SYMBOL_NEED_SET_CHOICE_VALUES

datatype prop_type =
  P_PROMPT | P_COMMENT | P_MENU | P_DEFAULT | P_CHOICE | P_SELECT | P_IMPLY | P_RANGE | P_SYMBOL

record kprop =
  p_type :: prop_type
  p_text :: bool
  p_visible :: "expr option"
  p_expr :: "top_expr option"
  p_menu :: "nat option"

type_synonym symbol_value = "kptr \<times> tristate"

record ksym =
  s_name :: kptr
  s_type :: symbol_type
  s_curr :: symbol_value
  s_user :: symbol_value
  s_visible :: tristate
  s_flags :: "flag set"
  s_prop :: "kprop list"
  s_dir_dep :: "expr option \<times> tristate"
  s_rev_dep :: "expr option \<times> tristate"
  s_implied :: "expr option \<times> tristate"

text \<open>\<open>for_all_symbols\<close> visits \<open>Sym 0\<close> to \<open>Sym (nsyms - 1)\<close>; \<open>warned\<close> lists the symbols of the
  warnings about unmet dependencies.\<close>

record ktab =
  syms :: "sym \<Rightarrow> ksym"
  nsyms :: nat
  modules_sym :: "sym option"
  modules_val :: tristate
  prop_tri :: "sym \<Rightarrow> nat \<Rightarrow> tristate"
  changed_menus :: "nat set"
  next_str :: nat
  warned :: "sym list"

definition upd :: "sym \<Rightarrow> (ksym \<Rightarrow> ksym) \<Rightarrow> ktab \<Rightarrow> ktab" where
  "upd s f t = t\<lparr>syms := (syms t)(s := f (syms t s))\<rparr>"

definition set_flag :: "flag \<Rightarrow> sym \<Rightarrow> ktab \<Rightarrow> ktab" where
  "set_flag f s = upd s (\<lambda>k. k\<lparr>s_flags := insert f (s_flags k)\<rparr>)"

definition clear_flag :: "flag \<Rightarrow> sym \<Rightarrow> ktab \<Rightarrow> ktab" where
  "clear_flag f s = upd s (\<lambda>k. k\<lparr>s_flags := s_flags k - {f}\<rparr>)"

abbreviation has_flag :: "ktab \<Rightarrow> sym \<Rightarrow> flag \<Rightarrow> bool" where
  "has_flag t s f \<equiv> f \<in> s_flags (syms t s)"

abbreviation curr_tri :: "ktab \<Rightarrow> sym \<Rightarrow> tristate" where
  "curr_tri t s \<equiv> snd (s_curr (syms t s))"

abbreviation curr_val :: "ktab \<Rightarrow> sym \<Rightarrow> kptr" where
  "curr_val t s \<equiv> fst (s_curr (syms t s))"

abbreviation props :: "ktab \<Rightarrow> sym \<Rightarrow> (nat \<times> kprop) list" where
  "props t s \<equiv> enumerate 0 (s_prop (syms t s))"

fun string_at :: "kptr \<Rightarrow> string option" where
  "string_at (Str a str) = Some str"
| "string_at p = None"

text \<open>The constants \<open>symbol_empty.curr.val\<close> and \<open>symbol_no.curr.val\<close>.\<close>

abbreviation empty_val :: kptr where "empty_val \<equiv> Str 0 ''''"
abbreviation no_val :: kptr where "no_val \<equiv> Str 1 ''n''"

definition sym_is_choice :: "ktab \<Rightarrow> sym \<Rightarrow> bool" where
  "sym_is_choice t s \<longleftrightarrow> has_flag t s SYMBOL_CHOICE"

definition sym_is_choice_value :: "ktab \<Rightarrow> sym \<Rightarrow> bool" where
  "sym_is_choice_value t s \<longleftrightarrow> has_flag t s SYMBOL_CHOICEVAL"

definition sym_has_value :: "ktab \<Rightarrow> sym \<Rightarrow> bool" where
  "sym_has_value t s \<longleftrightarrow> has_flag t s SYMBOL_DEF_USER"

definition sym_get_type :: "ktab \<Rightarrow> sym \<Rightarrow> symbol_type" where
  "sym_get_type t s =
    (if s_type (syms t s) = S_TRISTATE then
       (if sym_is_choice_value t s \<and> s_visible (syms t s) = tri_yes then S_BOOLEAN
        else if modules_val t = tri_no then S_BOOLEAN
        else S_TRISTATE)
     else s_type (syms t s))"

definition sym_get_choice_prop :: "ktab \<Rightarrow> sym \<Rightarrow> kprop option" where
  "sym_get_choice_prop t s = find (\<lambda>p. p_type p = P_CHOICE) (s_prop (syms t s))"

definition prop_get_symbol :: "kprop \<Rightarrow> sym option" where
  "prop_get_symbol p = (case p_expr p of Some (Tree (E_SYMBOL s)) \<Rightarrow> Some s | _ \<Rightarrow> None)"

text \<open>The choice a choice value belongs to, and the values of a choice.\<close>

definition choice_of :: "ktab \<Rightarrow> sym \<Rightarrow> sym option" where
  "choice_of t s = do { p \<leftarrow> sym_get_choice_prop t s; prop_get_symbol p }"

definition choice_values :: "ktab \<Rightarrow> sym \<Rightarrow> sym list option" where
  "choice_values t s = do {
     p \<leftarrow> sym_get_choice_prop t s;
     (case p_expr p of None \<Rightarrow> Some [] | Some (List_of vs) \<Rightarrow> Some vs | _ \<Rightarrow> None) }"

definition sym_set_changed :: "sym \<Rightarrow> ktab \<Rightarrow> ktab" where
  "sym_set_changed s t =
    (set_flag SYMBOL_CHANGED s t)
      \<lparr>changed_menus := changed_menus t \<union> set (concat (map (\<lambda>p. case p_menu p of None \<Rightarrow> [] | Some m \<Rightarrow> [m]) (s_prop (syms t s))))\<rparr>"

definition sym_set_all_changed :: "ktab \<Rightarrow> ktab" where
  "sym_set_all_changed t = fold (\<lambda>i. sym_set_changed (Sym i)) [0..<nsyms t] t"

section \<open>Expressions\<close>

type_synonym calculation = "sym \<Rightarrow> ktab \<Rightarrow> ktab option"

definition sym_get_string :: "calculation \<Rightarrow> sym \<Rightarrow> ktab \<Rightarrow> (string \<times> ktab) option" where
  "sym_get_string rec s t =
    (if s_type (syms t s) = S_BOOLEAN \<or> s_type (syms t s) = S_TRISTATE then
       (case curr_tri t s of
          tri_no \<Rightarrow> Some (''n'', t)
        | tri_mod \<Rightarrow> do {
            m \<leftarrow> modules_sym t;
            t \<leftarrow> rec m t;
            Some (if curr_tri t m = tri_no then ''n'' else ''m'', t) }
        | tri_yes \<Rightarrow> Some (''y'', t))
     else do { str \<leftarrow> string_at (curr_val t s); Some (str, t) })"

definition compare_values :: "symbol_type \<Rightarrow> symbol_type \<Rightarrow> string \<Rightarrow> string \<Rightarrow> int" where
  "compare_values ty1 ty2 str1 str2 =
    (let ((k1, lval), (k2, rval)) =
           (if ty1 \<noteq> S_STRING \<or> ty2 \<noteq> S_STRING then (expr_parse_string str1 ty1, expr_parse_string str2 ty2)
            else ((k_string, 0), (k_string, 0)))
     in if k1 = k_string \<or> k2 = k_string then str_compare str1 str2
        else if k1 = k_unsigned \<or> k2 = k_unsigned then (if lval > rval then 1 else if lval < rval then - 1 else 0)
        else (if sint lval > sint rval then 1 else if sint lval < sint rval then - 1 else 0))"

fun eval_expr :: "calculation \<Rightarrow> expr \<Rightarrow> ktab \<Rightarrow> (tristate \<times> ktab) option" where
  "eval_expr rec (E_SYMBOL s) t = do { t \<leftarrow> rec s t; Some (curr_tri t s, t) }"
| "eval_expr rec (E_AND a b) t = do {
     (val1, t) \<leftarrow> eval_expr rec a t; (val2, t) \<leftarrow> eval_expr rec b t; Some (EXPR_AND val1 val2, t) }"
| "eval_expr rec (E_OR a b) t = do {
     (val1, t) \<leftarrow> eval_expr rec a t; (val2, t) \<leftarrow> eval_expr rec b t; Some (EXPR_OR val1 val2, t) }"
| "eval_expr rec (E_NOT a) t = do { (val1, t) \<leftarrow> eval_expr rec a t; Some (EXPR_NOT val1, t) }"
| "eval_expr rec (E_CMP op a b) t = do {
     t \<leftarrow> rec a t;
     t \<leftarrow> rec b t;
     (str1, t) \<leftarrow> sym_get_string rec a t;
     (str2, t) \<leftarrow> sym_get_string rec b t;
     Some (if cmp_holds op (compare_values (s_type (syms t a)) (s_type (syms t b)) str1 str2)
           then tri_yes else tri_no, t) }"

text \<open>A null expression is yes; lists and ranges are no (and a message).\<close>

definition eval_top :: "calculation \<Rightarrow> top_expr option \<Rightarrow> ktab \<Rightarrow> (tristate \<times> ktab) option" where
  "eval_top rec e t =
    (case e of None \<Rightarrow> Some (tri_yes, t) | Some (Tree e) \<Rightarrow> eval_expr rec e t | Some _ \<Rightarrow> Some (tri_no, t))"

definition eval_opt :: "calculation \<Rightarrow> expr option \<Rightarrow> ktab \<Rightarrow> (tristate \<times> ktab) option" where
  "eval_opt rec e t = (case e of None \<Rightarrow> Some (tri_yes, t) | Some e \<Rightarrow> eval_expr rec e t)"

section \<open>Properties\<close>

definition set_prop_tri :: "sym \<Rightarrow> nat \<Rightarrow> tristate \<Rightarrow> ktab \<Rightarrow> ktab" where
  "set_prop_tri s i v t = t\<lparr>prop_tri := (prop_tri t)(s := (prop_tri t s)(i := v))\<rparr>"

text \<open>The first property of a type whose condition is not no.\<close>

fun first_visible :: "calculation \<Rightarrow> sym \<Rightarrow> prop_type \<Rightarrow> (nat \<times> kprop) list \<Rightarrow> ktab
    \<Rightarrow> ((nat \<times> kprop) option \<times> ktab) option" where
  "first_visible rec s ty [] t = Some (None, t)"
| "first_visible rec s ty ((i, p) # ps) t =
    (if p_type p = ty then do {
       (v, t) \<leftarrow> eval_opt rec (p_visible p) t;
       let t = set_prop_tri s i v t;
       if v \<noteq> tri_no then Some (Some (i, p), t) else first_visible rec s ty ps t }
     else first_visible rec s ty ps t)"

definition sym_get_default_prop :: "calculation \<Rightarrow> sym \<Rightarrow> ktab \<Rightarrow> ((nat \<times> kprop) option \<times> ktab) option" where
  "sym_get_default_prop rec s t = first_visible rec s P_DEFAULT (props t s) t"

definition sym_get_range_prop :: "calculation \<Rightarrow> sym \<Rightarrow> ktab \<Rightarrow> ((nat \<times> kprop) option \<times> ktab) option" where
  "sym_get_range_prop rec s t = first_visible rec s P_RANGE (props t s) t"

section \<open>Ranges\<close>

definition strtoll :: "nat \<Rightarrow> string \<Rightarrow> int" where
  "strtoll base str =
    (case strto base str of (neg, n, _) \<Rightarrow>
      if neg then max (- (2 ^ 63)) (- int n) else min (2 ^ 63 - 1) (int n))"

function digits_in :: "nat \<Rightarrow> nat \<Rightarrow> string" where
  "digits_in b n =
    (if n < b \<or> b < 2 then [''0123456789abcdef'' ! n] else digits_in b (n div b) @ [''0123456789abcdef'' ! (n mod b)])"
  by pat_completeness auto
termination by (relation "measure snd") (auto intro: div_less_dividend)

declare digits_in.simps [simp del]

text \<open>\<open>sprintf\<close> with \<open>%lld\<close> and \<open>0x%llx\<close>.\<close>

definition print_lld :: "int \<Rightarrow> string" where
  "print_lld v = (if v < 0 then CHR ''-'' # digits_in 10 (nat (- v)) else digits_in 10 (nat v))"

definition print_llx :: "int \<Rightarrow> string" where
  "print_llx v = ''0x'' @ digits_in 16 (nat (v mod 2 ^ 64))"

definition sym_get_range_val :: "calculation \<Rightarrow> sym \<Rightarrow> nat \<Rightarrow> ktab \<Rightarrow> (int \<times> ktab) option" where
  "sym_get_range_val rec s base t = do {
     t \<leftarrow> rec s t;
     let base = (case s_type (syms t s) of S_INT \<Rightarrow> 10 | S_HEX \<Rightarrow> 16 | _ \<Rightarrow> base);
     str \<leftarrow> string_at (curr_val t s);
     Some (strtoll base str, t) }"

definition range_of :: "kprop \<Rightarrow> (sym \<times> sym) option" where
  "range_of p = (case p_expr p of Some (Range_of a b) \<Rightarrow> Some (a, b) | _ \<Rightarrow> None)"

definition put_number :: "sym \<Rightarrow> int \<Rightarrow> ktab \<Rightarrow> ktab" where
  "put_number s val t =
    (let str = (if s_type (syms t s) = S_INT then print_lld val else print_llx val)
     in (upd s (\<lambda>k. k\<lparr>s_curr := (Str (next_str t) str, snd (s_curr k))\<rparr>) t)\<lparr>next_str := next_str t + 1\<rparr>)"

definition sym_validate_range :: "calculation \<Rightarrow> sym \<Rightarrow> ktab \<Rightarrow> ktab option" where
  "sym_validate_range rec s t =
    (if s_type (syms t s) \<noteq> S_INT \<and> s_type (syms t s) \<noteq> S_HEX then Some t
     else do {
       let base = (if s_type (syms t s) = S_INT then 10 else 16);
       (prop, t) \<leftarrow> sym_get_range_prop rec s t;
       (case prop of
          None \<Rightarrow> Some t
        | Some (i, p) \<Rightarrow> do {
            str \<leftarrow> string_at (curr_val t s);
            let val = strtoll base str;
            (lo, hi) \<leftarrow> range_of p;
            (lo_val, t) \<leftarrow> sym_get_range_val rec lo base t;
            if val \<ge> lo_val then do {
              (hi_val, t) \<leftarrow> sym_get_range_val rec hi base t;
              Some (if val \<le> hi_val then t else put_number s hi_val t) }
            else Some (put_number s lo_val t) }) })"

section \<open>Visibility and dependencies\<close>

fun prompts_visible :: "calculation \<Rightarrow> sym \<Rightarrow> sym option \<Rightarrow> (nat \<times> kprop) list \<Rightarrow> tristate \<Rightarrow> ktab
    \<Rightarrow> (tristate \<times> ktab) option" where
  "prompts_visible rec s choice [] tri t = Some (tri, t)"
| "prompts_visible rec s choice ((i, p) # ps) tri t =
    (if p_text p then do {
       (v, t) \<leftarrow> eval_opt rec (p_visible p) t;
       let v = (case choice of
                  None \<Rightarrow> v
                | Some c \<Rightarrow>
                    if s_type (syms t s) = S_TRISTATE \<and> v = tri_mod \<and> curr_tri t c = tri_yes then tri_no else v);
       prompts_visible rec s choice ps (EXPR_OR tri v) (set_prop_tri s i v t) }
     else prompts_visible rec s choice ps tri t)"

text \<open>The three blocks for \<open>dir_dep\<close>, \<open>rev_dep\<close> and \<open>implied\<close> differ in the field and in the value
  without an expression.\<close>

definition dep_value :: "calculation \<Rightarrow> sym \<Rightarrow> expr option \<Rightarrow> tristate \<Rightarrow> ktab \<Rightarrow> (tristate \<times> ktab) option" where
  "dep_value rec s e dflt t = do {
     (tri, t) \<leftarrow> (case e of None \<Rightarrow> Some (dflt, t) | Some e \<Rightarrow> eval_expr rec e t);
     Some (if tri = tri_mod \<and> sym_get_type t s = S_BOOLEAN then tri_yes else tri, t) }"

definition set_dir_dep :: "sym \<Rightarrow> tristate \<Rightarrow> ktab \<Rightarrow> ktab" where
  "set_dir_dep s tri t =
    (if snd (s_dir_dep (syms t s)) \<noteq> tri
     then sym_set_changed s (upd s (\<lambda>k. k\<lparr>s_dir_dep := (fst (s_dir_dep k), tri)\<rparr>) t) else t)"

definition set_rev_dep :: "sym \<Rightarrow> tristate \<Rightarrow> ktab \<Rightarrow> ktab" where
  "set_rev_dep s tri t =
    (if snd (s_rev_dep (syms t s)) \<noteq> tri
     then sym_set_changed s (upd s (\<lambda>k. k\<lparr>s_rev_dep := (fst (s_rev_dep k), tri)\<rparr>) t) else t)"

definition set_implied :: "sym \<Rightarrow> tristate \<Rightarrow> ktab \<Rightarrow> ktab" where
  "set_implied s tri t =
    (if snd (s_implied (syms t s)) \<noteq> tri
     then sym_set_changed s (upd s (\<lambda>k. k\<lparr>s_implied := (fst (s_implied k), tri)\<rparr>) t) else t)"

definition set_visible :: "sym \<Rightarrow> tristate \<Rightarrow> ktab \<Rightarrow> ktab" where
  "set_visible s tri t =
    (if s_visible (syms t s) \<noteq> tri
     then sym_set_changed s (upd s (\<lambda>k. k\<lparr>s_visible := tri\<rparr>) t) else t)"

definition sym_calc_visibility :: "calculation \<Rightarrow> sym \<Rightarrow> ktab \<Rightarrow> ktab option" where
  "sym_calc_visibility rec s t = do {
     choice \<leftarrow> (if sym_is_choice_value t s then do { p \<leftarrow> sym_get_choice_prop t s; Some (prop_get_symbol p) } else Some None);
     (tri, t) \<leftarrow> prompts_visible rec s choice (props t s) tri_no t;
     let tri = (if tri = tri_mod \<and> (s_type (syms t s) \<noteq> S_TRISTATE \<or> modules_val t = tri_no) then tri_yes else tri);
     let t = set_visible s tri t;
     if sym_is_choice_value t s then Some t
     else do {
       (tri, t) \<leftarrow> dep_value rec s (fst (s_dir_dep (syms t s))) tri_yes t;
       let t = set_dir_dep s tri t;
       (tri, t) \<leftarrow> dep_value rec s (fst (s_rev_dep (syms t s))) tri_no t;
       let t = set_rev_dep s tri t;
       (tri, t) \<leftarrow> dep_value rec s (fst (s_implied (syms t s))) tri_no t;
       Some (set_implied s tri t) } }"

section \<open>Choices\<close>

fun visible_default :: "calculation \<Rightarrow> sym \<Rightarrow> (nat \<times> kprop) list \<Rightarrow> ktab \<Rightarrow> (sym option \<times> ktab) option" where
  "visible_default rec s [] t = Some (None, t)"
| "visible_default rec s ((i, p) # ps) t =
    (if p_type p = P_DEFAULT then do {
       (v, t) \<leftarrow> eval_opt rec (p_visible p) t;
       let t = set_prop_tri s i v t;
       if v = tri_no then visible_default rec s ps t
       else do {
         def_sym \<leftarrow> prop_get_symbol p;
         if s_visible (syms t def_sym) \<noteq> tri_no then Some (Some def_sym, t) else visible_default rec s ps t } }
     else visible_default rec s ps t)"

definition sym_choice_default :: "calculation \<Rightarrow> sym \<Rightarrow> ktab \<Rightarrow> (sym option \<times> ktab) option" where
  "sym_choice_default rec s t = do {
     (d, t) \<leftarrow> visible_default rec s (props t s) t;
     (case d of
        Some def_sym \<Rightarrow> Some (Some def_sym, t)
      | None \<Rightarrow> do {
          vs \<leftarrow> choice_values t s;
          Some (find (\<lambda>v. s_visible (syms t v) \<noteq> tri_no) vs, t) }) }"

fun values_visibility :: "calculation \<Rightarrow> sym list \<Rightarrow> flag set \<Rightarrow> ktab \<Rightarrow> (flag set \<times> ktab) option" where
  "values_visibility rec [] fl t = Some (fl, t)"
| "values_visibility rec (v # vs) fl t = do {
     t \<leftarrow> sym_calc_visibility rec v t;
     values_visibility rec vs (if s_visible (syms t v) \<noteq> tri_no then fl \<inter> s_flags (syms t v) else fl) t }"

text \<open>The end of \<open>sym_calc_choice\<close>.\<close>

definition choice_default :: "calculation \<Rightarrow> sym \<Rightarrow> ktab \<Rightarrow> (sym option \<times> ktab) option" where
  "choice_default rec s t = do {
     (d, t) \<leftarrow> sym_choice_default rec s t;
     Some (d, if d = None then upd s (\<lambda>k. k\<lparr>s_curr := (fst (s_curr k), tri_no)\<rparr>) t else t) }"

definition sym_calc_choice :: "calculation \<Rightarrow> sym \<Rightarrow> ktab \<Rightarrow> (sym option \<times> ktab) option" where
  "sym_calc_choice rec s t = do {
     vs \<leftarrow> choice_values t s;
     (fl, t) \<leftarrow> values_visibility rec vs (s_flags (syms t s)) t;
     let t = (if SYMBOL_DEF_USER \<in> fl then t else clear_flag SYMBOL_DEF_USER s t);
     (case fst (s_user (syms t s)) of
        Ptr d \<Rightarrow> if s_visible (syms t d) \<noteq> tri_no then Some (Some d, t) else choice_default rec s t
      | _ \<Rightarrow> choice_default rec s t) }"

section \<open>Calculating a value\<close>

definition sym_warn_unmet_dep :: "sym \<Rightarrow> ktab \<Rightarrow> ktab" where
  "sym_warn_unmet_dep s t = t\<lparr>warned := warned t @ [s]\<rparr>"

fun set_values_no :: "sym list \<Rightarrow> ktab \<Rightarrow> ktab" where
  "set_values_no [] t = t"
| "set_values_no (v # vs) t =
    set_values_no vs (if sym_has_value t v then t else upd v (\<lambda>k. k\<lparr>s_user := (fst (s_user k), tri_no)\<rparr>) t)"

definition set_all_choice_values :: "sym \<Rightarrow> ktab \<Rightarrow> ktab option" where
  "set_all_choice_values csym t = do {
     vs \<leftarrow> choice_values t csym;
     let t = set_values_no vs t;
     let t = set_flag SYMBOL_DEF_USER csym t;
     Some (clear_flag SYMBOL_VALID csym (clear_flag SYMBOL_NEED_SET_CHOICE_VALUES csym t)) }"

text \<open>The default and the weak reverse dependencies of a symbol that is not a choice; \<open>EXPR_AND\<close> is a
  macro, which evaluates the smaller operand again.\<close>

definition default_tri :: "calculation \<Rightarrow> sym \<Rightarrow> tristate \<Rightarrow> ktab \<Rightarrow> (tristate \<times> ktab) option" where
  "default_tri rec s tri t = do {
     (prop, t) \<leftarrow> sym_get_default_prop rec s t;
     (tri, t) \<leftarrow>
       (case prop of
          None \<Rightarrow> Some (tri, t)
        | Some (i, p) \<Rightarrow> do {
            (v, t) \<leftarrow> eval_top rec (p_expr p) t;
            (tri, t) \<leftarrow> (if v < prop_tri t s i then eval_top rec (p_expr p) t else Some (prop_tri t s i, t));
            Some (tri, if tri \<noteq> tri_no then set_flag SYMBOL_WRITE s t else t) });
     (if snd (s_implied (syms t s)) \<noteq> tri_no then
        Some (EXPR_AND (EXPR_OR tri (snd (s_implied (syms t s)))) (snd (s_dir_dep (syms t s))), set_flag SYMBOL_WRITE s t)
      else Some (tri, t)) }"

definition calc_newval :: "sym \<Rightarrow> tristate \<Rightarrow> ktab \<Rightarrow> tristate \<times> ktab" where
  "calc_newval s tri t =
    (EXPR_OR tri (snd (s_rev_dep (syms t s))),
     if snd (s_dir_dep (syms t s)) < snd (s_rev_dep (syms t s)) then sym_warn_unmet_dep s t else t)"

definition bool_value :: "calculation \<Rightarrow> sym \<Rightarrow> tristate \<Rightarrow> ktab \<Rightarrow> (tristate \<times> ktab) option" where
  "bool_value rec s tri t = do {
     (tri, t) \<leftarrow>
       (if sym_is_choice_value t s \<and> s_visible (syms t s) = tri_yes then do {
          c \<leftarrow> choice_of t s;
          Some (if curr_val t c = Ptr s then tri_yes else tri_no, t) }
        else if s_visible (syms t s) \<noteq> tri_no \<and> sym_has_value t s then
          Some (calc_newval s (EXPR_AND (snd (s_user (syms t s))) (s_visible (syms t s))) t)
        else do {
          let t = (if snd (s_rev_dep (syms t s)) \<noteq> tri_no then set_flag SYMBOL_WRITE s t else t);
          (tri, t) \<leftarrow> (if sym_is_choice t s then Some (tri, t) else default_tri rec s tri t);
          Some (calc_newval s tri t) });
     Some (if tri = tri_mod \<and> sym_get_type t s = S_BOOLEAN then tri_yes else tri, t) }"

definition string_value :: "calculation \<Rightarrow> sym \<Rightarrow> kptr \<Rightarrow> ktab \<Rightarrow> (kptr \<times> ktab) option" where
  "string_value rec s val t =
    (if s_visible (syms t s) \<noteq> tri_no \<and> sym_has_value t s then Some (fst (s_user (syms t s)), t)
     else do {
       (prop, t) \<leftarrow> sym_get_default_prop rec s t;
       (case prop of
          None \<Rightarrow> Some (val, t)
        | Some (i, p) \<Rightarrow>
            (case prop_get_symbol p of
               None \<Rightarrow> Some (val, t)
             | Some ds \<Rightarrow> do {
                 let t = set_flag SYMBOL_WRITE s t;
                 t \<leftarrow> rec ds t;
                 Some (curr_val t ds, t) })) })"

definition set_curr :: "sym \<Rightarrow> symbol_value \<Rightarrow> ktab \<Rightarrow> ktab" where
  "set_curr s v = upd s (\<lambda>k. k\<lparr>s_curr := v\<rparr>)"

fun values_written :: "sym \<Rightarrow> sym list \<Rightarrow> ktab \<Rightarrow> ktab" where
  "values_written s [] t = t"
| "values_written s (v # vs) t =
    (let t = (if has_flag t s SYMBOL_WRITE \<and> s_visible (syms t v) \<noteq> tri_no then set_flag SYMBOL_WRITE v t else t);
         t = (if has_flag t s SYMBOL_CHANGED then sym_set_changed v t else t)
     in values_written s vs t)"

text \<open>The four steps that follow when the new value is known: the choice and the range, the
  comparison with the old value, the values of a choice, and the flags.\<close>

definition choose_value :: "calculation \<Rightarrow> sym \<Rightarrow> symbol_value \<Rightarrow> ktab \<Rightarrow> ktab option" where
  "choose_value rec s newval t = do {
     let t = set_curr s newval t;
     t \<leftarrow> (if sym_is_choice t s \<and> snd newval = tri_yes then do {
              (d, t) \<leftarrow> sym_calc_choice rec s t;
              Some (set_curr s (case d of None \<Rightarrow> Null | Some d \<Rightarrow> Ptr d, curr_tri t s) t) }
           else Some t);
     sym_validate_range rec s t }"

definition note_change :: "symbol_value \<Rightarrow> sym \<Rightarrow> ktab \<Rightarrow> ktab" where
  "note_change oldval s t =
    (if oldval \<noteq> s_curr (syms t s) then
       let t = sym_set_changed s t
       in if modules_sym t = Some s then (sym_set_all_changed t)\<lparr>modules_val := curr_tri t s\<rparr> else t
     else t)"

definition write_values :: "sym \<Rightarrow> ktab \<Rightarrow> ktab option" where
  "write_values s t =
    (if sym_is_choice t s then do { vs \<leftarrow> choice_values t s; Some (values_written s vs t) } else Some t)"

definition finish_value :: "sym \<Rightarrow> ktab \<Rightarrow> ktab option" where
  "finish_value s t =
    (let t = (if has_flag t s SYMBOL_NO_WRITE then clear_flag SYMBOL_WRITE s t else t)
     in if has_flag t s SYMBOL_NEED_SET_CHOICE_VALUES then set_all_choice_values s t else Some t)"

definition store_value :: "calculation \<Rightarrow> sym \<Rightarrow> symbol_value \<Rightarrow> symbol_value \<Rightarrow> ktab \<Rightarrow> ktab option" where
  "store_value rec s oldval newval t = do {
     t \<leftarrow> choose_value rec s newval t;
     t \<leftarrow> write_values s (note_change oldval s t);
     finish_value s t }"

definition new_value :: "calculation \<Rightarrow> sym \<Rightarrow> kptr \<Rightarrow> ktab \<Rightarrow> (symbol_value \<times> ktab) option" where
  "new_value rec s val t =
    (if sym_get_type t s \<in> {S_BOOLEAN, S_TRISTATE} then do {
       (tri, t) \<leftarrow> bool_value rec s tri_no t; Some ((val, tri), t) }
     else do { (val, t) \<leftarrow> string_value rec s val t; Some ((val, tri_no), t) })"

definition calc_known :: "calculation \<Rightarrow> sym \<Rightarrow> ktab \<Rightarrow> ktab option" where
  "calc_known rec s t = do {
     let oldval = s_curr (syms t s);
     let newval = (if s_type (syms t s) \<in> {S_INT, S_HEX, S_STRING} then empty_val else no_val, tri_no);
     t \<leftarrow> sym_calc_visibility rec s (clear_flag SYMBOL_WRITE s t);
     let t = (if s_visible (syms t s) \<noteq> tri_no then set_flag SYMBOL_WRITE s t else t);
     let t = set_curr s newval t;
     (newval, t) \<leftarrow> new_value rec s (fst newval) t;
     store_value rec s oldval newval t }"

text \<open>After the choice of a choice value has been calculated.\<close>

definition calc_rest :: "calculation \<Rightarrow> sym \<Rightarrow> ktab \<Rightarrow> ktab option" where
  "calc_rest rec s t =
    (if s_type (syms t s) = S_UNKNOWN then Some (set_curr s (s_name (syms t s), tri_no) t) else calc_known rec s t)"

definition calc_body :: "calculation \<Rightarrow> sym \<Rightarrow> ktab \<Rightarrow> ktab option" where
  "calc_body rec s t =
    (if has_flag t s SYMBOL_VALID then Some t
     else do {
       t \<leftarrow> (if sym_is_choice_value t s \<and> has_flag t s SYMBOL_NEED_SET_CHOICE_VALUES then do {
                let t = clear_flag SYMBOL_NEED_SET_CHOICE_VALUES s t;
                c \<leftarrow> choice_of t s;
                rec c t }
             else Some t);
       calc_rest rec s (set_flag SYMBOL_VALID s t) })"

section \<open>The recursion\<close>

abbreviation mono_calc :: "((sym \<times> ktab \<Rightarrow> ktab option) \<Rightarrow> 'b option) \<Rightarrow> bool" where
  "mono_calc \<equiv> monotone (fun_ord option_ord) option_ord"

named_theorems calc_mono \<open>monotonicity of the operations in the recursive call\<close>

lemma mono_case_prod: "(\<And>a b. mono_calc (\<lambda>f. F f a b)) \<Longrightarrow> mono_calc (\<lambda>f. case p of (a, b) \<Rightarrow> F f a b)"
  by (cases p) simp

lemma mono_case_option:
  "mono_calc F \<Longrightarrow> (\<And>a. mono_calc (\<lambda>f. G f a)) \<Longrightarrow> mono_calc (\<lambda>f. case x of None \<Rightarrow> F f | Some a \<Rightarrow> G f a)"
  by (cases x) simp_all

lemma mono_case_tristate:
  "mono_calc F \<Longrightarrow> mono_calc G \<Longrightarrow> mono_calc H \<Longrightarrow>
   mono_calc (\<lambda>f. case x of tri_no \<Rightarrow> F f | tri_mod \<Rightarrow> G f | tri_yes \<Rightarrow> H f)"
  by (cases x) simp_all

lemma mono_case_kptr:
  "mono_calc F \<Longrightarrow> (\<And>a b. mono_calc (\<lambda>f. G f a b)) \<Longrightarrow> (\<And>a. mono_calc (\<lambda>f. H f a)) \<Longrightarrow>
   mono_calc (\<lambda>f. case x of Null \<Rightarrow> F f | Str a b \<Rightarrow> G f a b | Ptr a \<Rightarrow> H f a)"
  by (cases x) simp_all

lemma mono_case_top:
  "(\<And>a. mono_calc (\<lambda>f. F f a)) \<Longrightarrow> (\<And>a. mono_calc (\<lambda>f. G f a)) \<Longrightarrow> (\<And>a b. mono_calc (\<lambda>f. H f a b)) \<Longrightarrow>
   mono_calc (\<lambda>f. case x of Tree a \<Rightarrow> F f a | List_of a \<Rightarrow> G f a | Range_of a b \<Rightarrow> H f a b)"
  by (cases x) simp_all

lemmas [calc_mono] = mono_case_prod mono_case_option mono_case_tristate mono_case_kptr mono_case_top
  bind_mono if_mono let_mono option.const_mono

lemma mono_sym_get_string [calc_mono]:
  assumes "\<And>s t. mono_calc (\<lambda>f. R f s t)"
  shows "mono_calc (\<lambda>f. sym_get_string (R f) s t)"
  unfolding sym_get_string_def by (intro calc_mono assms)

lemma mono_eval_expr [calc_mono]:
  assumes "\<And>s t. mono_calc (\<lambda>f. R f s t)"
  shows "mono_calc (\<lambda>f. eval_expr (R f) e t)"
proof (induction e arbitrary: t)
  case (E_OR a b)
  show ?case unfolding eval_expr.simps by (intro calc_mono assms E_OR.IH)
next
  case (E_AND a b)
  show ?case unfolding eval_expr.simps by (intro calc_mono assms E_AND.IH)
next
  case (E_NOT a)
  show ?case unfolding eval_expr.simps by (intro calc_mono assms E_NOT.IH)
qed (simp_all only: eval_expr.simps, (intro calc_mono assms)+)

lemma mono_eval_opt [calc_mono]:
  assumes "\<And>s t. mono_calc (\<lambda>f. R f s t)"
  shows "mono_calc (\<lambda>f. eval_opt (R f) e t)"
  unfolding eval_opt_def by (intro calc_mono assms)

lemma mono_eval_top [calc_mono]:
  assumes "\<And>s t. mono_calc (\<lambda>f. R f s t)"
  shows "mono_calc (\<lambda>f. eval_top (R f) e t)"
  unfolding eval_top_def by (intro calc_mono assms)

lemma mono_first_visible [calc_mono]:
  assumes "\<And>s t. mono_calc (\<lambda>f. R f s t)"
  shows "mono_calc (\<lambda>f. first_visible (R f) s ty ps t)"
proof (induction ps arbitrary: t)
  case (Cons p ps)
  show ?case by (cases p) (simp only: first_visible.simps, intro calc_mono assms Cons.IH)
qed (simp only: first_visible.simps, intro calc_mono)

lemma mono_sym_get_default_prop [calc_mono]:
  assumes "\<And>s t. mono_calc (\<lambda>f. R f s t)"
  shows "mono_calc (\<lambda>f. sym_get_default_prop (R f) s t)"
  unfolding sym_get_default_prop_def by (intro calc_mono assms)

lemma mono_sym_get_range_prop [calc_mono]:
  assumes "\<And>s t. mono_calc (\<lambda>f. R f s t)"
  shows "mono_calc (\<lambda>f. sym_get_range_prop (R f) s t)"
  unfolding sym_get_range_prop_def by (intro calc_mono assms)

lemma mono_sym_get_range_val [calc_mono]:
  assumes "\<And>s t. mono_calc (\<lambda>f. R f s t)"
  shows "mono_calc (\<lambda>f. sym_get_range_val (R f) s b t)"
  unfolding sym_get_range_val_def by (intro calc_mono assms)

lemma mono_sym_validate_range [calc_mono]:
  assumes "\<And>s t. mono_calc (\<lambda>f. R f s t)"
  shows "mono_calc (\<lambda>f. sym_validate_range (R f) s t)"
  unfolding sym_validate_range_def by (intro calc_mono assms)

lemma mono_prompts_visible [calc_mono]:
  assumes "\<And>s t. mono_calc (\<lambda>f. R f s t)"
  shows "mono_calc (\<lambda>f. prompts_visible (R f) s c ps v t)"
proof (induction ps arbitrary: v t)
  case (Cons p ps)
  show ?case by (cases p) (simp only: prompts_visible.simps, intro calc_mono assms Cons.IH)
qed (simp only: prompts_visible.simps, intro calc_mono)

lemma mono_dep_value [calc_mono]:
  assumes "\<And>s t. mono_calc (\<lambda>f. R f s t)"
  shows "mono_calc (\<lambda>f. dep_value (R f) s e d t)"
  unfolding dep_value_def by (intro calc_mono assms)

lemma mono_sym_calc_visibility [calc_mono]:
  assumes "\<And>s t. mono_calc (\<lambda>f. R f s t)"
  shows "mono_calc (\<lambda>f. sym_calc_visibility (R f) s t)"
  unfolding sym_calc_visibility_def by (intro calc_mono assms)

lemma mono_visible_default [calc_mono]:
  assumes "\<And>s t. mono_calc (\<lambda>f. R f s t)"
  shows "mono_calc (\<lambda>f. visible_default (R f) s ps t)"
proof (induction ps arbitrary: t)
  case (Cons p ps)
  show ?case by (cases p) (simp only: visible_default.simps, intro calc_mono assms Cons.IH)
qed (simp only: visible_default.simps, intro calc_mono)

lemma mono_sym_choice_default [calc_mono]:
  assumes "\<And>s t. mono_calc (\<lambda>f. R f s t)"
  shows "mono_calc (\<lambda>f. sym_choice_default (R f) s t)"
  unfolding sym_choice_default_def by (intro calc_mono assms)

lemma mono_values_visibility [calc_mono]:
  assumes "\<And>s t. mono_calc (\<lambda>f. R f s t)"
  shows "mono_calc (\<lambda>f. values_visibility (R f) vs fl t)"
proof (induction vs arbitrary: fl t)
  case (Cons p ps)
  show ?case unfolding values_visibility.simps by (intro calc_mono assms Cons.IH)
qed (simp only: values_visibility.simps, intro calc_mono)

lemma mono_choice_default [calc_mono]:
  assumes "\<And>s t. mono_calc (\<lambda>f. R f s t)"
  shows "mono_calc (\<lambda>f. choice_default (R f) s t)"
  unfolding choice_default_def by (intro calc_mono assms)

lemma mono_sym_calc_choice [calc_mono]:
  assumes "\<And>s t. mono_calc (\<lambda>f. R f s t)"
  shows "mono_calc (\<lambda>f. sym_calc_choice (R f) s t)"
  unfolding sym_calc_choice_def by (intro calc_mono assms)

lemma mono_default_tri [calc_mono]:
  assumes "\<And>s t. mono_calc (\<lambda>f. R f s t)"
  shows "mono_calc (\<lambda>f. default_tri (R f) s v t)"
  unfolding default_tri_def by (intro calc_mono assms)

lemma mono_bool_value [calc_mono]:
  assumes "\<And>s t. mono_calc (\<lambda>f. R f s t)"
  shows "mono_calc (\<lambda>f. bool_value (R f) s v t)"
  unfolding bool_value_def by (intro calc_mono assms)

lemma mono_string_value [calc_mono]:
  assumes "\<And>s t. mono_calc (\<lambda>f. R f s t)"
  shows "mono_calc (\<lambda>f. string_value (R f) s v t)"
  unfolding string_value_def by (intro calc_mono assms)

lemma mono_new_value [calc_mono]:
  assumes "\<And>s t. mono_calc (\<lambda>f. R f s t)"
  shows "mono_calc (\<lambda>f. new_value (R f) s v t)"
  unfolding new_value_def by (intro calc_mono assms)

lemma mono_choose_value [calc_mono]:
  assumes "\<And>s t. mono_calc (\<lambda>f. R f s t)"
  shows "mono_calc (\<lambda>f. choose_value (R f) s nv t)"
  unfolding choose_value_def by (intro calc_mono assms)

lemma mono_store_value [calc_mono]:
  assumes "\<And>s t. mono_calc (\<lambda>f. R f s t)"
  shows "mono_calc (\<lambda>f. store_value (R f) s ov nv t)"
  unfolding store_value_def by (intro calc_mono assms)

lemma mono_calc_known [calc_mono]:
  assumes "\<And>s t. mono_calc (\<lambda>f. R f s t)"
  shows "mono_calc (\<lambda>f. calc_known (R f) s t)"
  unfolding calc_known_def by (intro calc_mono assms)

lemma mono_calc_rest [calc_mono]:
  assumes "\<And>s t. mono_calc (\<lambda>f. R f s t)"
  shows "mono_calc (\<lambda>f. calc_rest (R f) s t)"
  unfolding calc_rest_def by (intro calc_mono assms)

lemma mono_calc_body [calc_mono]:
  assumes "\<And>s t. mono_calc (\<lambda>f. R f s t)"
  shows "mono_calc (\<lambda>f. calc_body (R f) s t)"
  unfolding calc_body_def by (intro calc_mono assms)

declare mono_calc_body [partial_function_mono]

partial_function (option) sym_calc_value :: calculation where
  "sym_calc_value s t = calc_body sym_calc_value s t"

declare sym_calc_value.simps [code]

end
