(* ===== verification/Kconfig_Calc.thy ===== *)
theory Kconfig_Calc
  imports Kconfig_Symbol
begin

text \<open>
  Correctness of \<open>sym_calc_value\<close>: it returns, keeps the types of the values, and gives a symbol the
  value its user, its dependencies and its selectors allow.
\<close>

section \<open>Results that are there\<close>

definition wp :: "'a option \<Rightarrow> ('a \<Rightarrow> bool) \<Rightarrow> bool" where
  "wp r Q \<longleftrightarrow> (\<exists>x. r = Some x \<and> Q x)"

lemma wp_Some [simp]: "wp (Some x) Q \<longleftrightarrow> Q x"
  by (simp add: wp_def)

lemma wp_bind: "wp m Q \<Longrightarrow> (\<And>x. Q x \<Longrightarrow> wp (f x) Q') \<Longrightarrow> wp (Option.bind m f) Q'"
  by (auto simp: wp_def)

lemma wp_bind2: "wp m (\<lambda>(x, t). Q x t) \<Longrightarrow> (\<And>x t. Q x t \<Longrightarrow> wp (f (x, t)) Q') \<Longrightarrow> wp (Option.bind m f) Q'"
  by (auto simp: wp_def)

lemma wp_mono: "wp m Q \<Longrightarrow> (\<And>x. Q x \<Longrightarrow> Q' x) \<Longrightarrow> wp m Q'"
  by (auto simp: wp_def)

section \<open>Tables the tool builds\<close>

text \<open>
  \<open>rank\<close> orders the symbols: what a symbol depends on has no higher rank, and what is read as a
  string while the symbol is calculated (the operands of comparisons, of ranges and of
  defaults) has a lower one.  The symbols of a choice have one rank.  (The tool reports recursive
  dependencies before it calculates anything.)
\<close>

definition is_const :: "sym \<Rightarrow> bool" where
  "is_const s \<longleftrightarrow> s = symbol_yes \<or> s = symbol_mod \<or> s = symbol_no"

definition in_tab :: "ktab \<Rightarrow> sym \<Rightarrow> bool" where
  "in_tab t s \<longleftrightarrow> (case s of Sym i \<Rightarrow> i < nsyms t | _ \<Rightarrow> True)"

fun rank :: "(nat \<Rightarrow> nat) \<Rightarrow> sym \<Rightarrow> nat" where
  "rank rk (Sym i) = rk i"
| "rank rk s = 0"

definition weak_ref :: "(nat \<Rightarrow> nat) \<Rightarrow> ktab \<Rightarrow> nat \<Rightarrow> sym \<Rightarrow> bool" where
  "weak_ref rk t k s \<longleftrightarrow> in_tab t s \<and> rank rk s \<le> k"

definition strict_ref :: "(nat \<Rightarrow> nat) \<Rightarrow> ktab \<Rightarrow> nat \<Rightarrow> sym \<Rightarrow> bool" where
  "strict_ref rk t k s \<longleftrightarrow> in_tab t s \<and> \<not> sym_is_choice t s \<and> (is_const s \<or> rank rk s < k)"

fun expr_ok :: "(nat \<Rightarrow> nat) \<Rightarrow> ktab \<Rightarrow> nat \<Rightarrow> expr \<Rightarrow> bool" where
  "expr_ok rk t k (E_OR a b) \<longleftrightarrow> expr_ok rk t k a \<and> expr_ok rk t k b"
| "expr_ok rk t k (E_AND a b) \<longleftrightarrow> expr_ok rk t k a \<and> expr_ok rk t k b"
| "expr_ok rk t k (E_NOT a) \<longleftrightarrow> expr_ok rk t k a"
| "expr_ok rk t k (E_SYMBOL s) \<longleftrightarrow> weak_ref rk t k s"
| "expr_ok rk t k (E_CMP op a b) \<longleftrightarrow> strict_ref rk t k a \<and> strict_ref rk t k b"

definition opt_ok :: "(nat \<Rightarrow> nat) \<Rightarrow> ktab \<Rightarrow> nat \<Rightarrow> expr option \<Rightarrow> bool" where
  "opt_ok rk t k e \<longleftrightarrow> (case e of None \<Rightarrow> True | Some e \<Rightarrow> expr_ok rk t k e)"

definition top_ok :: "(nat \<Rightarrow> nat) \<Rightarrow> ktab \<Rightarrow> nat \<Rightarrow> top_expr option \<Rightarrow> bool" where
  "top_ok rk t k e \<longleftrightarrow> (case e of Some (Tree e) \<Rightarrow> expr_ok rk t k e | _ \<Rightarrow> True)"

definition is_bool :: "symbol_type \<Rightarrow> bool" where
  "is_bool ty \<longleftrightarrow> ty = S_BOOLEAN \<or> ty = S_TRISTATE"

definition is_stringy :: "symbol_type \<Rightarrow> bool" where
  "is_stringy ty \<longleftrightarrow> ty = S_INT \<or> ty = S_HEX \<or> ty = S_STRING"

lemma type_cases: "is_bool ty \<or> is_stringy ty \<or> ty = S_UNKNOWN"
  by (cases ty) (simp_all add: is_bool_def is_stringy_def)

definition is_Str :: "kptr \<Rightarrow> bool" where
  "is_Str p \<longleftrightarrow> string_at p \<noteq> None"

lemma is_Str_simps [simp]: "is_Str (Str a x)" "\<not> is_Str Null" "\<not> is_Str (Ptr s)"
  by (simp_all add: is_Str_def)

definition prop_ok :: "(nat \<Rightarrow> nat) \<Rightarrow> ktab \<Rightarrow> sym \<Rightarrow> kprop \<Rightarrow> bool" where
  "prop_ok rk t s p \<longleftrightarrow> opt_ok rk t (rank rk s) (p_visible p)
    \<and> (p_type p = P_DEFAULT \<longrightarrow>
         (is_bool (s_type (syms t s)) \<longrightarrow> top_ok rk t (rank rk s) (p_expr p))
         \<and> (is_stringy (s_type (syms t s)) \<longrightarrow>
             (case prop_get_symbol p of None \<Rightarrow> True | Some ds \<Rightarrow> strict_ref rk t (rank rk s) ds))
         \<and> (sym_is_choice t s \<longrightarrow> prop_get_symbol p \<noteq> None))
    \<and> (p_type p = P_RANGE \<longrightarrow>
         (case range_of p of None \<Rightarrow> False
          | Some (a, b) \<Rightarrow> strict_ref rk t (rank rk s) a \<and> strict_ref rk t (rank rk s) b))"

definition sym_ok :: "(nat \<Rightarrow> nat) \<Rightarrow> ktab \<Rightarrow> sym \<Rightarrow> bool" where
  "sym_ok rk t s \<longleftrightarrow> (let k = syms t s; r = rank rk s in
     (\<forall>p \<in> set (s_prop k). prop_ok rk t s p)
     \<and> opt_ok rk t r (fst (s_dir_dep k)) \<and> opt_ok rk t r (fst (s_rev_dep k)) \<and> opt_ok rk t r (fst (s_implied k))
     \<and> (s_type k = S_UNKNOWN \<longrightarrow> is_Str (s_name k))
     \<and> (is_stringy (s_type k) \<longrightarrow> sym_has_value t s \<longrightarrow> is_Str (fst (s_user k)))
     \<and> (sym_is_choice t s \<longrightarrow> \<not> sym_is_choice_value t s \<and> is_bool (s_type k)
         \<and> (case choice_values t s of None \<Rightarrow> False
            | Some vs \<Rightarrow> \<forall>v \<in> set vs. sym_is_choice_value t v \<and> \<not> sym_is_choice t v \<and> in_tab t v \<and> \<not> is_const v \<and> rank rk v = r))
     \<and> (sym_is_choice_value t s \<longrightarrow> is_bool (s_type k) \<and>
          (case choice_of t s of None \<Rightarrow> False | Some c \<Rightarrow> sym_is_choice t c \<and> weak_ref rk t r c)))"

text \<open>Values have the type of their symbol.\<close>

definition typed :: "ksym \<Rightarrow> bool" where
  "typed k \<longleftrightarrow> (s_type k = S_BOOLEAN \<longrightarrow> snd (s_curr k) \<noteq> tri_mod)
    \<and> (is_stringy (s_type k) \<longrightarrow> snd (s_curr k) = tri_no)"

lemma sym_ok_choice: "sym_ok rk t s \<Longrightarrow> sym_is_choice t s \<Longrightarrow> is_bool (s_type (syms t s))"
  by (simp add: sym_ok_def Let_def)

lemma stringy_not_choice: "sym_ok rk t s \<Longrightarrow> is_stringy (s_type (syms t s)) \<Longrightarrow> \<not> sym_is_choice t s"
  using sym_ok_choice [of rk t s] by (auto simp: is_bool_def is_stringy_def)

definition table_ok :: "(nat \<Rightarrow> nat) \<Rightarrow> ktab \<Rightarrow> bool" where
  "table_ok rk t \<longleftrightarrow> (\<forall>i < nsyms t. sym_ok rk t (Sym i))
    \<and> (\<forall>s. is_const s \<longrightarrow> s_type (syms t s) = S_UNKNOWN \<and> \<not> sym_is_choice t s \<and> \<not> sym_is_choice_value t s)
    \<and> (case modules_sym t of None \<Rightarrow> False | Some m \<Rightarrow> weak_ref rk t 0 m \<and> \<not> sym_is_choice t m)"

section \<open>What a calculation keeps\<close>

definition wt :: "ksym \<Rightarrow> nat" where
  "wt k = (if SYMBOL_VALID \<in> s_flags k then 0 else 1) + (if SYMBOL_NEED_SET_CHOICE_VALUES \<in> s_flags k then 2 else 0)"

text \<open>The number of symbols still to calculate, and twice the choices and values to set.\<close>

definition work :: "ktab \<Rightarrow> nat" where
  "work t = (\<Sum>i < nsyms t. wt (syms t (Sym i)))"

definition stat :: "ksym \<Rightarrow> kptr \<times> symbol_type \<times> kprop list \<times> expr option \<times> expr option \<times> expr option \<times> kptr \<times> bool \<times> bool" where
  "stat k = (s_name k, s_type k, s_prop k, fst (s_dir_dep k), fst (s_rev_dep k), fst (s_implied k), fst (s_user k),
    SYMBOL_CHOICE \<in> s_flags k, SYMBOL_CHOICEVAL \<in> s_flags k)"

definition same_static :: "ktab \<Rightarrow> ktab \<Rightarrow> bool" where
  "same_static T t \<longleftrightarrow> nsyms t = nsyms T \<and> modules_sym t = modules_sym T
    \<and> (\<forall>u. stat (syms t u) = stat (syms T u))
    \<and> (\<forall>u. \<not> sym_is_choice T u \<longrightarrow> sym_has_value t u = sym_has_value T u)"

definition inv :: "(nat \<Rightarrow> nat) \<Rightarrow> ktab \<Rightarrow> sym set \<Rightarrow> ktab \<Rightarrow> bool" where
  "inv rk T P t \<longleftrightarrow> table_ok rk T \<and> same_static T t
    \<and> (\<forall>u. typed (syms t u))
    \<and> (\<forall>u. is_const u \<longrightarrow> has_flag t u SYMBOL_VALID)
    \<and> (\<forall>u. u \<notin> P \<longrightarrow> has_flag t u SYMBOL_VALID \<longrightarrow> \<not> sym_is_choice T u \<longrightarrow> is_Str (curr_val t u))
    \<and> (\<forall>u. has_flag t u SYMBOL_NEED_SET_CHOICE_VALUES \<longrightarrow> sym_is_choice T u \<or> sym_is_choice_value T u)"

definition limits :: "ksym \<Rightarrow> tristate \<times> tristate \<times> tristate \<times> tristate \<times> symbol_value \<times> bool" where
  "limits k = (s_visible k, snd (s_dir_dep k), snd (s_rev_dep k), snd (s_implied k), s_user k, SYMBOL_DEF_USER \<in> s_flags k)"

definition keeps :: "ktab \<Rightarrow> sym set \<Rightarrow> sym set \<Rightarrow> ktab \<Rightarrow> ktab \<Rightarrow> bool" where
  "keeps T A C t t' \<longleftrightarrow> work t' \<le> work t
    \<and> (\<forall>u. has_flag t' u SYMBOL_NEED_SET_CHOICE_VALUES \<longrightarrow> has_flag t u SYMBOL_NEED_SET_CHOICE_VALUES)
    \<and> (\<forall>u. \<not> sym_is_choice T u \<longrightarrow> has_flag t u SYMBOL_VALID \<longrightarrow>
         has_flag t' u SYMBOL_VALID
         \<and> (u \<notin> C \<longrightarrow> s_curr (syms t' u) = s_curr (syms t u))
         \<and> (u \<notin> A \<longrightarrow> \<not> sym_is_choice_value T u \<longrightarrow> limits (syms t' u) = limits (syms t u)))"

definition goes :: "(nat \<Rightarrow> nat) \<Rightarrow> ktab \<Rightarrow> sym set \<Rightarrow> sym set \<Rightarrow> sym set \<Rightarrow> ktab \<Rightarrow> ktab \<Rightarrow> bool" where
  "goes rk T P A C t t' \<longleftrightarrow> inv rk T P t' \<and> keeps T A C t t'"

lemma keeps_refl: "keeps T A C t t"
  by (simp add: keeps_def)

lemma keeps_trans: "keeps T A C t t' \<Longrightarrow> keeps T A C t' t'' \<Longrightarrow> keeps T A C t t''"
  by (auto simp: keeps_def intro: le_trans)

lemma keeps_mono: "keeps T A C t t' \<Longrightarrow> A \<subseteq> A' \<Longrightarrow> C \<subseteq> C' \<Longrightarrow> keeps T A' C' t t'"
  by (auto simp: keeps_def)

lemma goes_refl: "inv rk T P t \<Longrightarrow> goes rk T P A C t t"
  by (simp add: goes_def keeps_refl)

lemma goes_trans: "goes rk T P A C t t' \<Longrightarrow> goes rk T P A C t' t'' \<Longrightarrow> goes rk T P A C t t''"
  by (auto simp: goes_def intro: keeps_trans)

lemma goes_step: "goes rk T P A C t t' \<Longrightarrow> (inv rk T P t' \<Longrightarrow> goes rk T P A C t' t'') \<Longrightarrow> goes rk T P A C t t''"
  by (auto simp: goes_def intro: keeps_trans)

lemma goes_mono: "goes rk T P A C t t' \<Longrightarrow> A \<subseteq> A' \<Longrightarrow> C \<subseteq> C' \<Longrightarrow> goes rk T P A' C' t t'"
  by (auto simp: goes_def intro: keeps_mono)

lemma goes_inv: "goes rk T P A C t t' \<Longrightarrow> inv rk T P t'"
  by (simp add: goes_def)

lemma goes_work: "goes rk T P A C t t' \<Longrightarrow> work t' \<le> work t"
  by (simp add: goes_def keeps_def)

section \<open>Elementary steps\<close>

lemma syms_upd: "syms (upd s f t) u = (if u = s then f (syms t s) else syms t u)"
  by (simp add: upd_def)

lemma upd_fields [simp]:
  "nsyms (upd s f t) = nsyms t" "modules_sym (upd s f t) = modules_sym t" "modules_val (upd s f t) = modules_val t"
  by (simp_all add: upd_def)

lemma stat_choice: "stat k = stat k' \<Longrightarrow> SYMBOL_CHOICE \<in> s_flags k \<longleftrightarrow> SYMBOL_CHOICE \<in> s_flags k'"
  by (simp add: stat_def)

lemma work_upd: "wt (f (syms t s)) \<le> wt (syms t s) \<Longrightarrow> work (upd s f t) \<le> work t"
  unfolding work_def by (simp only: upd_fields) (rule sum_mono, simp add: syms_upd)

lemma upd_goes:
  assumes "inv rk T P t"
    and "stat (f (syms t s)) = stat (syms t s)"
    and "sym_is_choice T s \<or> SYMBOL_DEF_USER \<in> s_flags (f (syms t s)) = (SYMBOL_DEF_USER \<in> s_flags (syms t s))"
    and "typed (f (syms t s))"
    and "has_flag t s SYMBOL_VALID \<Longrightarrow> SYMBOL_VALID \<in> s_flags (f (syms t s)) \<or> sym_is_choice T s"
    and "SYMBOL_VALID \<in> s_flags (f (syms t s)) \<Longrightarrow> s \<notin> P \<Longrightarrow> \<not> sym_is_choice T s \<Longrightarrow> is_Str (fst (s_curr (f (syms t s))))"
    and "s \<in> C \<or> sym_is_choice T s \<or> \<not> has_flag t s SYMBOL_VALID \<or> s_curr (f (syms t s)) = s_curr (syms t s)"
    and "s \<in> A \<or> sym_is_choice T s \<or> sym_is_choice_value T s \<or> \<not> has_flag t s SYMBOL_VALID
      \<or> limits (f (syms t s)) = limits (syms t s)"
    and "wt (f (syms t s)) \<le> wt (syms t s)"
    and "SYMBOL_NEED_SET_CHOICE_VALUES \<in> s_flags (f (syms t s)) \<Longrightarrow> has_flag t s SYMBOL_NEED_SET_CHOICE_VALUES"
  shows "goes rk T P A C t (upd s f t)"
proof -
  have T: "table_ok rk T" "same_static T t" using assms(1) by (simp_all add: inv_def)
  have "same_static T (upd s f t)"
    using T(2) assms(2,3) by (auto simp: same_static_def syms_upd sym_has_value_def)
  moreover have "is_const s \<Longrightarrow> \<not> sym_is_choice T s" using T(1) by (simp add: table_ok_def)
  ultimately have "inv rk T P (upd s f t)"
    using assms(1,4-6,10) by (auto simp: inv_def syms_upd)
  moreover have "keeps T A C t (upd s f t)"
    using assms(5,7,8,10) work_upd [of f t s, OF assms(9)] by (auto simp: keeps_def syms_upd)
  ultimately show ?thesis by (simp add: goes_def)
qed

lemma inv_typed: "inv rk T P t \<Longrightarrow> typed (syms t s)"
  by (simp add: inv_def)

lemma inv_Str: "inv rk T P t \<Longrightarrow> s \<notin> P \<Longrightarrow> has_flag t s SYMBOL_VALID \<Longrightarrow> \<not> sym_is_choice T s \<Longrightarrow> is_Str (curr_val t s)"
  by (simp add: inv_def)

text \<open>Flags that only inform.\<close>

definition free_flag :: "flag \<Rightarrow> bool" where
  "free_flag f \<longleftrightarrow> f \<in> {SYMBOL_WRITE, SYMBOL_CHANGED}"

lemma flag_goes:
  assumes "inv rk T P t" "free_flag f"
  shows "goes rk T P A C t (set_flag f s t)" "goes rk T P A C t (clear_flag f s t)"
proof -
  have f: "f \<noteq> SYMBOL_CHOICE" "f \<noteq> SYMBOL_CHOICEVAL" "f \<noteq> SYMBOL_VALID" "f \<noteq> SYMBOL_DEF_USER"
    "f \<noteq> SYMBOL_NEED_SET_CHOICE_VALUES"
    using assms(2) by (auto simp: free_flag_def)
  note facts = f f [symmetric] stat_def typed_def limits_def wt_def
  show "goes rk T P A C t (set_flag f s t)" "goes rk T P A C t (clear_flag f s t)"
    unfolding set_flag_def clear_flag_def
    by (rule upd_goes [OF assms(1)]; use inv_typed [OF assms(1), of s] inv_Str [OF assms(1), of s] in \<open>simp add: facts\<close>)+
qed

lemma free_flags [simp]: "free_flag SYMBOL_WRITE" "free_flag SYMBOL_CHANGED"
  by (simp_all add: free_flag_def)

text \<open>Fields outside the symbols.\<close>

lemma other_goes:
  assumes "inv rk T P t" "syms t' = syms t" "nsyms t' = nsyms t" "modules_sym t' = modules_sym t"
  shows "goes rk T P A C t t'"
  using assms by (simp add: goes_def inv_def same_static_def keeps_def work_def sym_has_value_def)

lemma set_prop_tri_goes: "inv rk T P t \<Longrightarrow> goes rk T P A C t (set_prop_tri s i v t)"
  by (rule other_goes) (simp_all add: set_prop_tri_def)

lemma warn_goes: "inv rk T P t \<Longrightarrow> goes rk T P A C t (sym_warn_unmet_dep s t)"
  by (rule other_goes) (simp_all add: sym_warn_unmet_dep_def)

lemma set_changed_goes: "inv rk T P t \<Longrightarrow> goes rk T P A C t (sym_set_changed s t)"
  unfolding sym_set_changed_def
  by (rule goes_step [OF flag_goes(1)]) (auto intro: other_goes)

lemma goes_changed: "goes rk T P A C t t' \<Longrightarrow> goes rk T P A C t (sym_set_changed s t')"
  by (erule goes_step) (rule set_changed_goes)

lemma set_all_changed_goes: "inv rk T P t \<Longrightarrow> goes rk T P A C t (sym_set_all_changed t)"
proof -
  have "inv rk T P t \<Longrightarrow> goes rk T P A C t (fold (\<lambda>i. sym_set_changed (Sym i)) is t)" for "is"
  proof (induction "is" arbitrary: t)
    case (Cons i "is")
    have g: "goes rk T P A C t (sym_set_changed (Sym i) t)" by (rule set_changed_goes [OF Cons.prems])
    then show ?case using goes_trans [OF g] Cons.IH [OF goes_inv [OF g]] by simp
  qed (simp add: goes_refl)
  then show "inv rk T P t \<Longrightarrow> ?thesis" by (simp add: sym_set_all_changed_def)
qed

text \<open>Values.\<close>

lemma set_curr_goes:
  assumes "inv rk T P t" "s \<in> P \<or> is_Str (fst v) \<or> sym_is_choice T s" "s \<in> C \<or> sym_is_choice T s"
    and "s_type (syms t s) = S_BOOLEAN \<Longrightarrow> snd v \<noteq> tri_mod" "is_stringy (s_type (syms t s)) \<Longrightarrow> snd v = tri_no"
  shows "goes rk T P A C t (set_curr s v t)"
  unfolding set_curr_def using assms
  by (auto intro!: upd_goes simp: stat_def typed_def limits_def wt_def)

lemma put_number_goes:
  assumes "inv rk T P t" "s \<in> C"
  shows "goes rk T P A C t (put_number s v t)"
proof -
  have "goes rk T P A C t (upd s (\<lambda>k. k\<lparr>s_curr := (Str n str, snd (s_curr k))\<rparr>) t)" for n str
    using assms inv_typed [OF assms(1), of s] by (auto intro!: upd_goes simp: stat_def typed_def limits_def wt_def)
  then show ?thesis
    unfolding put_number_def Let_def by (rule goes_step) (rule other_goes, simp_all)
qed

lemma field_goes:
  assumes "inv rk T P t" "s \<in> A \<or> sym_is_choice T s \<or> sym_is_choice_value T s"
    and "\<And>k. stat (f k) = stat k" "\<And>k. s_curr (f k) = s_curr k" "\<And>k. s_flags (f k) = s_flags k"
  shows "goes rk T P A C t (upd s f t)"
proof -
  have "s_type (f k) = s_type k" for k using assms(3) [of k] by (simp add: stat_def)
  then have "typed (f (syms t s))" using inv_typed [OF assms(1), of s] by (simp add: typed_def assms(4))
  then show ?thesis
    using assms(2) inv_Str [OF assms(1), of s] by (intro upd_goes [OF assms(1)]) (auto simp: assms(3-5) wt_def)
qed

lemma set_limits_goes:
  assumes "inv rk T P t" "s \<in> A \<or> sym_is_choice T s \<or> sym_is_choice_value T s"
  shows "goes rk T P A C t (set_visible s v t)" "goes rk T P A C t (set_dir_dep s v t)"
    "goes rk T P A C t (set_rev_dep s v t)" "goes rk T P A C t (set_implied s v t)"
proof -
  have "goes rk T P A C t (upd s (\<lambda>k. k\<lparr>s_visible := v\<rparr>) t)"
    "goes rk T P A C t (upd s (\<lambda>k. k\<lparr>s_dir_dep := (fst (s_dir_dep k), v)\<rparr>) t)"
    "goes rk T P A C t (upd s (\<lambda>k. k\<lparr>s_rev_dep := (fst (s_rev_dep k), v)\<rparr>) t)"
    "goes rk T P A C t (upd s (\<lambda>k. k\<lparr>s_implied := (fst (s_implied k), v)\<rparr>) t)"
    by (rule field_goes [OF assms]; simp add: stat_def)+
  then show "goes rk T P A C t (set_visible s v t)" "goes rk T P A C t (set_dir_dep s v t)"
    "goes rk T P A C t (set_rev_dep s v t)" "goes rk T P A C t (set_implied s v t)"
    using goes_refl [OF assms(1)] unfolding set_visible_def set_dir_dep_def set_rev_dep_def set_implied_def
    by (auto intro: goes_changed)
qed

section \<open>Expressions\<close>

definition below :: "(nat \<Rightarrow> nat) \<Rightarrow> sym set \<Rightarrow> nat \<Rightarrow> bool" where
  "below rk P k \<longleftrightarrow> (\<forall>u \<in> P. \<not> is_const u \<and> k \<le> rank rk u)"

definition done_sym :: "ktab \<Rightarrow> ktab \<Rightarrow> sym \<Rightarrow> bool" where
  "done_sym T t s \<longleftrightarrow> \<not> sym_is_choice T s \<longrightarrow> has_flag t s SYMBOL_VALID"

text \<open>What the recursive call does on tables with less than \<open>n\<close> to do, and the situation in which it is
  used: the symbols of \<open>P\<close> are being calculated and have at least the rank \<open>k\<close>.\<close>

definition rec_ok :: "(nat \<Rightarrow> nat) \<Rightarrow> ktab \<Rightarrow> nat \<Rightarrow> calculation \<Rightarrow> bool" where
  "rec_ok rk T n rec \<longleftrightarrow> (\<forall>P s t. inv rk T P t \<longrightarrow> in_tab T s \<longrightarrow> below rk P (rank rk s) \<longrightarrow> work t < n \<longrightarrow>
     wp (rec s t) (\<lambda>t'. goes rk T P {} {} t t' \<and> done_sym T t' s))"

definition ready :: "(nat \<Rightarrow> nat) \<Rightarrow> ktab \<Rightarrow> sym set \<Rightarrow> nat \<Rightarrow> nat \<Rightarrow> calculation \<Rightarrow> ktab \<Rightarrow> bool" where
  "ready rk T P k n rec t \<longleftrightarrow> inv rk T P t \<and> rec_ok rk T n rec \<and> below rk P k \<and> work t < n"

lemma ready_inv: "ready rk T P k n rec t \<Longrightarrow> inv rk T P t"
  by (simp add: ready_def)

lemma ready_goes: "ready rk T P k n rec t \<Longrightarrow> goes rk T P A C t t' \<Longrightarrow> ready rk T P k n rec t'"
  using goes_work [of rk T P A C t t'] by (auto simp: ready_def goes_def)

text \<open>\<open>m\<close> returns, keeps what is to be kept since \<open>t\<close>, and has a result with \<open>Q\<close>.\<close>

definition runs :: "(nat \<Rightarrow> nat) \<Rightarrow> ktab \<Rightarrow> sym set \<Rightarrow> sym set \<Rightarrow> sym set \<Rightarrow> ktab \<Rightarrow> ('a \<Rightarrow> ktab \<Rightarrow> bool) \<Rightarrow> ('a \<times> ktab) option \<Rightarrow> bool" where
  "runs rk T P A C t Q m \<longleftrightarrow> wp m (\<lambda>(x, t'). goes rk T P A C t t' \<and> Q x t')"

definition runs1 :: "(nat \<Rightarrow> nat) \<Rightarrow> ktab \<Rightarrow> sym set \<Rightarrow> sym set \<Rightarrow> sym set \<Rightarrow> ktab \<Rightarrow> (ktab \<Rightarrow> bool) \<Rightarrow> ktab option \<Rightarrow> bool" where
  "runs1 rk T P A C t Q m \<longleftrightarrow> wp m (\<lambda>t'. goes rk T P A C t t' \<and> Q t')"

lemma runs_Some: "goes rk T P A C t t' \<Longrightarrow> Q x t' \<Longrightarrow> runs rk T P A C t Q (Some (x, t'))"
  and runs1_Some: "goes rk T P A C t t' \<Longrightarrow> Q' t' \<Longrightarrow> runs1 rk T P A C t Q' (Some t')"
  by (simp_all add: runs_def runs1_def)

lemma runs_goes: "runs rk T P A C t' Q m \<Longrightarrow> goes rk T P A C t t' \<Longrightarrow> runs rk T P A C t Q m"
  by (auto simp: runs_def wp_def dest: goes_trans)

lemma runs1_goes: "runs1 rk T P A C t' Q m \<Longrightarrow> goes rk T P A C t t' \<Longrightarrow> runs1 rk T P A C t Q m"
  by (auto simp: runs1_def wp_def dest: goes_trans)

lemma runs_step:
  assumes "ready rk T P k n rec t" "goes rk T P A C t t'" "ready rk T P k n rec t' \<Longrightarrow> runs rk T P A C t' Q m"
  shows "runs rk T P A C t Q m"
  by (rule runs_goes [OF assms(3) [OF ready_goes [OF assms(1,2)]] assms(2)])

lemma runs1_step:
  assumes "ready rk T P k n rec t" "goes rk T P A C t t'" "ready rk T P k n rec t' \<Longrightarrow> runs1 rk T P A C t' Q m"
  shows "runs1 rk T P A C t Q m"
  by (rule runs1_goes [OF assms(3) [OF ready_goes [OF assms(1,2)]] assms(2)])

lemma runs_mono:
  "runs rk T P A C t Q m \<Longrightarrow> A \<subseteq> A' \<Longrightarrow> C \<subseteq> C' \<Longrightarrow> (\<And>x t'. Q x t' \<Longrightarrow> Q' x t') \<Longrightarrow> runs rk T P A' C' t Q' m"
  by (auto simp: runs_def wp_def intro: goes_mono)

lemma runs1_mono:
  "runs1 rk T P A C t Q m \<Longrightarrow> A \<subseteq> A' \<Longrightarrow> C \<subseteq> C' \<Longrightarrow> (\<And>t'. Q t' \<Longrightarrow> Q' t') \<Longrightarrow> runs1 rk T P A' C' t Q' m"
  by (auto simp: runs1_def wp_def intro: goes_mono)

lemma runs_bind:
  assumes "runs rk T P A C t Q m" "ready rk T P k n rec t" "A \<subseteq> A'" "C \<subseteq> C'"
    and "\<And>x t'. ready rk T P k n rec t' \<Longrightarrow> goes rk T P A C t t' \<Longrightarrow> Q x t' \<Longrightarrow> runs rk T P A' C' t' Q' (f (x, t'))"
  shows "runs rk T P A' C' t Q' (Option.bind m f)"
proof -
  obtain x t' where m: "m = Some (x, t')" "goes rk T P A C t t'" "Q x t'" using assms(1) by (auto simp: runs_def wp_def)
  then have "runs rk T P A' C' t' Q' (f (x, t'))" using assms(5) ready_goes [OF assms(2)] by blast
  then show ?thesis using runs_goes [OF _ goes_mono [OF m(2) assms(3,4)]] by (simp add: m(1))
qed

lemma runs_bind1:
  assumes "runs1 rk T P A C t Q m" "ready rk T P k n rec t" "A \<subseteq> A'" "C \<subseteq> C'"
    and "\<And>t'. ready rk T P k n rec t' \<Longrightarrow> goes rk T P A C t t' \<Longrightarrow> Q t' \<Longrightarrow> runs rk T P A' C' t' Q' (f t')"
  shows "runs rk T P A' C' t Q' (Option.bind m f)"
proof -
  obtain t' where m: "m = Some t'" "goes rk T P A C t t'" "Q t'" using assms(1) by (auto simp: runs1_def wp_def)
  then have "runs rk T P A' C' t' Q' (f t')" using assms(5) ready_goes [OF assms(2)] by blast
  then show ?thesis using runs_goes [OF _ goes_mono [OF m(2) assms(3,4)]] by (simp add: m(1))
qed

lemma runs1_bind:
  assumes "runs rk T P A C t Q m" "ready rk T P k n rec t" "A \<subseteq> A'" "C \<subseteq> C'"
    and "\<And>x t'. ready rk T P k n rec t' \<Longrightarrow> goes rk T P A C t t' \<Longrightarrow> Q x t' \<Longrightarrow> runs1 rk T P A' C' t' Q' (f (x, t'))"
  shows "runs1 rk T P A' C' t Q' (Option.bind m f)"
proof -
  obtain x t' where m: "m = Some (x, t')" "goes rk T P A C t t'" "Q x t'" using assms(1) by (auto simp: runs_def wp_def)
  then have "runs1 rk T P A' C' t' Q' (f (x, t'))" using assms(5) ready_goes [OF assms(2)] by blast
  then show ?thesis using runs1_goes [OF _ goes_mono [OF m(2) assms(3,4)]] by (simp add: m(1))
qed

lemma runs1_bind1:
  assumes "runs1 rk T P A C t Q m" "ready rk T P k n rec t" "A \<subseteq> A'" "C \<subseteq> C'"
    and "\<And>t'. ready rk T P k n rec t' \<Longrightarrow> goes rk T P A C t t' \<Longrightarrow> Q t' \<Longrightarrow> runs1 rk T P A' C' t' Q' (f t')"
  shows "runs1 rk T P A' C' t Q' (Option.bind m f)"
proof -
  obtain t' where m: "m = Some t'" "goes rk T P A C t t'" "Q t'" using assms(1) by (auto simp: runs1_def wp_def)
  then have "runs1 rk T P A' C' t' Q' (f t')" using assms(5) ready_goes [OF assms(2)] by blast
  then show ?thesis using runs1_goes [OF _ goes_mono [OF m(2) assms(3,4)]] by (simp add: m(1))
qed

lemma runs_if: "(b \<Longrightarrow> runs rk T P A C t Q m) \<Longrightarrow> (\<not> b \<Longrightarrow> runs rk T P A C t Q m') \<Longrightarrow> runs rk T P A C t Q (if b then m else m')"
  and runs1_if: "(b \<Longrightarrow> runs1 rk T P A C t Q' n) \<Longrightarrow> (\<not> b \<Longrightarrow> runs1 rk T P A C t Q' n') \<Longrightarrow> runs1 rk T P A C t Q' (if b then n else n')"
  by simp_all

lemma runs_here: "ready rk T P k n rec t \<Longrightarrow> Q x t \<Longrightarrow> runs rk T P A C t Q (Some (x, t))"
  and runs1_here: "ready rk T P k n rec t \<Longrightarrow> Q' t \<Longrightarrow> runs1 rk T P A C t Q' (Some t)"
  by (auto intro!: runs_Some runs1_Some goes_refl ready_inv)

abbreviation any :: "ktab \<Rightarrow> bool" where "any \<equiv> \<lambda>t. True"
abbreviation any2 :: "'a \<Rightarrow> ktab \<Rightarrow> bool" where "any2 \<equiv> \<lambda>x t. True"

lemma inv_static: "inv rk T P t \<Longrightarrow> same_static T t"
  by (simp add: inv_def)

lemma static_choice:
  "same_static T t \<Longrightarrow> sym_is_choice t s = sym_is_choice T s"
  "same_static T t \<Longrightarrow> sym_is_choice_value t s = sym_is_choice_value T s"
  "same_static T t \<Longrightarrow> s_type (syms t s) = s_type (syms T s)"
  "same_static T t \<Longrightarrow> s_prop (syms t s) = s_prop (syms T s)"
  "same_static T t \<Longrightarrow> s_name (syms t s) = s_name (syms T s)"
  "same_static T t \<Longrightarrow> fst (s_user (syms t s)) = fst (s_user (syms T s))"
  "same_static T t \<Longrightarrow> fst (s_dir_dep (syms t s)) = fst (s_dir_dep (syms T s))"
  "same_static T t \<Longrightarrow> fst (s_rev_dep (syms t s)) = fst (s_rev_dep (syms T s))"
  "same_static T t \<Longrightarrow> fst (s_implied (syms t s)) = fst (s_implied (syms T s))"
  "same_static T t \<Longrightarrow> modules_sym t = modules_sym T"
  "same_static T t \<Longrightarrow> nsyms t = nsyms T"
  by (auto simp: same_static_def stat_def sym_is_choice_def sym_is_choice_value_def)

lemma static_choice_of:
  assumes "same_static T t"
  shows "sym_get_choice_prop t s = sym_get_choice_prop T s" "choice_of t s = choice_of T s" "choice_values t s = choice_values T s"
proof -
  show "sym_get_choice_prop t s = sym_get_choice_prop T s"
    by (simp add: sym_get_choice_prop_def static_choice(4) [OF assms])
  then show "choice_of t s = choice_of T s" "choice_values t s = choice_values T s"
    by (simp_all add: choice_of_def choice_values_def)
qed

lemma rec_weak:
  assumes "ready rk T P k n rec t" "weak_ref rk T k s"
  shows "runs1 rk T P {} {} t (\<lambda>t'. done_sym T t' s) (rec s t)"
proof -
  have "below rk P (rank rk s)" using assms by (auto simp: ready_def below_def weak_ref_def)
  then show ?thesis using assms by (simp add: ready_def rec_ok_def weak_ref_def runs1_def)
qed

lemma strict_weak: "strict_ref rk T k s \<Longrightarrow> weak_ref rk T k s"
  by (auto simp: strict_ref_def weak_ref_def is_const_def)

lemma strict_notin: "strict_ref rk T k s \<Longrightarrow> ready rk T P k n rec t \<Longrightarrow> s \<notin> P"
  by (auto simp: strict_ref_def ready_def below_def)

text \<open>The symbol's value can be read as a string.\<close>

definition readable :: "ktab \<Rightarrow> sym set \<Rightarrow> ktab \<Rightarrow> sym \<Rightarrow> bool" where
  "readable T P t s \<longleftrightarrow> s \<notin> P \<and> \<not> sym_is_choice T s \<and> has_flag t s SYMBOL_VALID"

lemma readable_goes: "readable T P t s \<Longrightarrow> goes rk T P A C t t' \<Longrightarrow> readable T P t' s"
  by (auto simp: readable_def goes_def keeps_def)

lemma readable_Str: "readable T P t s \<Longrightarrow> ready rk T P k n rec t \<Longrightarrow> \<exists>str. string_at (curr_val t s) = Some str"
  using inv_Str [of rk T P t s] by (auto simp: readable_def is_Str_def ready_def)

lemma rec_strict:
  assumes "ready rk T P k n rec t" "strict_ref rk T k s"
  shows "runs1 rk T P {} {} t (\<lambda>t'. readable T P t' s) (rec s t)"
  using rec_weak [OF assms(1) strict_weak [OF assms(2)]] strict_notin [OF assms(2,1)] assms(2)
  by (elim runs1_mono) (auto simp: readable_def done_sym_def strict_ref_def)

lemma modules_weak:
  assumes "ready rk T P k n rec t"
  obtains m where "modules_sym t = Some m" "weak_ref rk T k m"
  using assms static_choice(10) [OF inv_static [OF ready_inv [OF assms]]]
  by (auto simp: ready_def inv_def table_ok_def weak_ref_def split: option.splits)

lemma get_string_ok:
  assumes "ready rk T P k n rec t" "readable T P t s"
  shows "runs rk T P {} {} t any2 (sym_get_string rec s t)"
proof -
  obtain m where m: "modules_sym t = Some m" "weak_ref rk T k m" using modules_weak [OF assms(1)] .
  obtain str where "string_at (curr_val t s) = Some str" using readable_Str [OF assms(2,1)] by blast
  then show ?thesis
    using rec_weak [OF assms(1) m(2)] goes_refl [OF ready_inv [OF assms(1)]] m(1)
    by (auto simp: sym_get_string_def runs_def runs1_def wp_def split: tristate.split)
qed

lemma eval_expr_ok:
  "ready rk T P k n rec t \<Longrightarrow> expr_ok rk T k e \<Longrightarrow> runs rk T P {} {} t any2 (eval_expr rec e t)"
proof (induction e arbitrary: t)
  case (E_OR a b)
  then show ?case by (auto intro!: runs_bind [OF E_OR.IH(1)] runs_bind [OF E_OR.IH(2)] runs_here)
next
  case (E_AND a b)
  then show ?case by (auto intro!: runs_bind [OF E_AND.IH(1)] runs_bind [OF E_AND.IH(2)] runs_here)
next
  case (E_NOT a)
  then show ?case by (auto intro!: runs_bind [OF E_NOT.IH] runs_here)
next
  case (E_SYMBOL s)
  then show ?case by (auto intro!: runs_bind1 [OF rec_weak] runs_here)
next
  case (E_CMP op a b)
  then have ab: "strict_ref rk T k a" "strict_ref rk T k b" by simp_all
  note a = runs_bind1 [OF rec_strict [where rec = rec, OF _ ab(1)]] runs_bind [OF get_string_ok [where rec = rec and s = a]]
  note b = runs_bind1 [OF rec_strict [where rec = rec, OF _ ab(2)]] runs_bind [OF get_string_ok [where rec = rec and s = b]]
  show ?case unfolding eval_expr.simps
    using E_CMP.prems(1) by (auto intro!: a b runs_here intro: readable_goes)
qed

lemma eval_opt_ok: "ready rk T P k n rec t \<Longrightarrow> opt_ok rk T k e \<Longrightarrow> runs rk T P {} {} t any2 (eval_opt rec e t)"
  by (auto simp: eval_opt_def opt_ok_def split: option.splits intro: eval_expr_ok runs_here)

lemma eval_top_ok: "ready rk T P k n rec t \<Longrightarrow> top_ok rk T k e \<Longrightarrow> runs rk T P {} {} t any2 (eval_top rec e t)"
  by (auto simp: eval_top_def top_ok_def split: option.splits top_expr.splits intro: eval_expr_ok runs_here)

section \<open>Properties\<close>

lemma ready_prop_tri: "ready rk T P k n rec t \<Longrightarrow> goes rk T P A C t (set_prop_tri s i v t)"
  by (rule set_prop_tri_goes [OF ready_inv])

lemma first_visible_ok:
  assumes "ready rk T P k n rec t" "\<forall>(i, p) \<in> set ps. opt_ok rk T k (p_visible p)"
  shows "runs rk T P {} {} t (\<lambda>r t'. \<forall>i p. r = Some (i, p) \<longrightarrow> (i, p) \<in> set ps \<and> p_type p = ty) (first_visible rec s ty ps t)"
  using assms
proof (induction ps arbitrary: t)
  case (Cons q ps)
  obtain i p where q: "q = (i, p)" by (cases q)
  have tail: "runs rk T P {} {} t' (\<lambda>r t'. \<forall>i p. r = Some (i, p) \<longrightarrow> (i, p) \<in> set (q # ps) \<and> p_type p = ty) (first_visible rec s ty ps t')"
    if "ready rk T P k n rec t'" for t'
    using Cons.IH [OF that] Cons.prems(2) by (auto elim: runs_mono)
  have p: "opt_ok rk T k (p_visible p)" using Cons.prems(2) q by simp
  show ?case
  proof (cases "p_type p = ty")
    case True
    have "runs rk T P {} {} t' (\<lambda>r t'. \<forall>i p. r = Some (i, p) \<longrightarrow> (i, p) \<in> set (q # ps) \<and> p_type p = ty)
        (if v \<noteq> tri_no then Some (Some (i, p), set_prop_tri s i v t') else first_visible rec s ty ps (set_prop_tri s i v t'))"
      if "ready rk T P k n rec t'" for v t'
      by (rule runs_step [OF that ready_prop_tri [OF that]], rule runs_if, rule runs_here, assumption)
        (use True q in simp, rule tail, assumption)
    then show ?thesis
      unfolding q first_visible.simps Let_def if_P [OF True]
      by -
        (rule runs_bind [OF eval_opt_ok [OF Cons.prems(1) p] Cons.prems(1)], simp_all)
  next
    case False
    then show ?thesis using tail [OF Cons.prems(1)] q by simp
  qed
qed (simp add: runs_here)

text \<open>The facts about a symbol that its calculation uses.\<close>

definition user_of :: "(nat \<Rightarrow> nat) \<Rightarrow> ktab \<Rightarrow> sym \<Rightarrow> nat \<Rightarrow> bool" where
  "user_of rk T s k \<longleftrightarrow> sym_ok rk T s \<and> rank rk s = k"

lemma prop_static: "ready rk T P k n rec t \<Longrightarrow> props t s = props T s"
  by (simp add: static_choice(4) [OF inv_static [OF ready_inv]])

lemma ready_static:
  assumes "ready rk T P k n rec t"
  shows "s_type (syms t s) = s_type (syms T s)" "sym_is_choice t s = sym_is_choice T s"
    "sym_is_choice_value t s = sym_is_choice_value T s" "choice_of t s = choice_of T s" "choice_values t s = choice_values T s"
    "sym_get_choice_prop t s = sym_get_choice_prop T s"
    "fst (s_user (syms t s)) = fst (s_user (syms T s))" "fst (s_dir_dep (syms t s)) = fst (s_dir_dep (syms T s))"
    "fst (s_rev_dep (syms t s)) = fst (s_rev_dep (syms T s))" "fst (s_implied (syms t s)) = fst (s_implied (syms T s))"
    "s_name (syms t s) = s_name (syms T s)"
  by (simp_all only: static_choice [OF inv_static [OF ready_inv [OF assms]]] static_choice_of [OF inv_static [OF ready_inv [OF assms]]])

lemma sym_ok_props: "sym_ok rk T s \<Longrightarrow> (i, p) \<in> set (props T s) \<Longrightarrow> prop_ok rk T s p"
  by (auto simp: sym_ok_def Let_def enumerate_eq_zip dest: set_zip_rightD)

lemma get_prop_ok:
  assumes "ready rk T P k n rec t" "user_of rk T s k"
  shows "runs rk T P {} {} t (\<lambda>r t'. \<forall>i p. r = Some (i, p) \<longrightarrow> prop_ok rk T s p \<and> p_type p = ty)
    (first_visible rec s ty (props t s) t)"
proof -
  have "\<forall>(i, p) \<in> set (props t s). opt_ok rk T k (p_visible p)"
    using assms(2) sym_ok_props [of rk T s] unfolding prop_static [OF assms(1)]
    by (fastforce simp: user_of_def prop_ok_def)
  then show ?thesis
    using sym_ok_props [of rk T s] assms(2) unfolding prop_static [OF assms(1)]
    by (intro runs_mono [OF first_visible_ok [OF assms(1)]]) (auto simp: user_of_def)
qed

section \<open>Ranges\<close>

lemma range_val_ok:
  assumes "ready rk T P k n rec t" "strict_ref rk T k s"
  shows "runs rk T P {} {} t any2 (sym_get_range_val rec s b t)"
proof -
  have "runs rk T P {} {} t' any2 (do { str \<leftarrow> string_at (curr_val t' s); Some (strtoll b' str, t') })"
    if "ready rk T P k n rec t'" "readable T P t' s" for t' b'
    using readable_Str [OF that(2,1)] by (auto intro: runs_here [OF that(1)])
  then show ?thesis
    unfolding sym_get_range_val_def Let_def
    by (auto intro!: runs_bind1 [OF rec_strict [OF assms]] assms(1))
qed

text \<open>A symbol under calculation, with what is known of it.\<close>

definition valued :: "ktab \<Rightarrow> ktab \<Rightarrow> sym \<Rightarrow> bool" where
  "valued T t s \<longleftrightarrow> (\<not> sym_is_choice T s \<longrightarrow> has_flag t s SYMBOL_VALID \<and> is_Str (curr_val t s))"

lemma valued_goes: "valued T t s \<Longrightarrow> goes rk T P A {} t t' \<Longrightarrow> valued T t' s"
  by (auto simp: valued_def goes_def keeps_def)

lemma valued_put: "valued T t s \<Longrightarrow> valued T (put_number s v t) s"
  by (simp add: valued_def put_number_def Let_def syms_upd)

lemma validate_range_ok:
  assumes "ready rk T P k n rec t" "user_of rk T s k" "valued T t s"
  shows "runs1 rk T P {} {s} t (\<lambda>t'. valued T t' s) (sym_validate_range rec s t)"
proof (cases "s_type (syms T s) \<in> {S_INT, S_HEX}")
  case True
  then have ch: "\<not> sym_is_choice T s" using assms(2) stringy_not_choice [of rk T s] by (auto simp: user_of_def is_stringy_def)
  have put: "runs1 rk T P {} {s} t' (\<lambda>t'. valued T t' s) (Some t')"
    "runs1 rk T P {} {s} t' (\<lambda>t'. valued T t' s) (Some (put_number s v t'))"
    if "ready rk T P k n rec t'" "valued T t' s" for v t'
    using that put_number_goes [OF ready_inv [OF that(1)], of s "{s}" "{}" v]
    by (auto intro!: runs1_Some valued_put goes_refl ready_inv)
  have rest: "runs1 rk T P {} {s} t1 (\<lambda>t'. valued T t' s)
      (do { str \<leftarrow> string_at (curr_val t1 s);
            let val = strtoll b str;
            (lo, hi) \<leftarrow> range_of p;
            (lo_val, t) \<leftarrow> sym_get_range_val rec lo b t1;
            if val \<ge> lo_val then do {
              (hi_val, t) \<leftarrow> sym_get_range_val rec hi b t;
              Some (if val \<le> hi_val then t else put_number s hi_val t) }
            else Some (put_number s lo_val t) })"
    if 1: "ready rk T P k n rec t1" "valued T t1 s" "prop_ok rk T s p" "p_type p = P_RANGE" for t1 p b
  proof -
    obtain lo hi where r: "range_of p = Some (lo, hi)" "strict_ref rk T k lo" "strict_ref rk T k hi"
      using 1(3,4) assms(2) by (auto simp: prop_ok_def user_of_def split: option.splits)
    obtain str where "string_at (curr_val t1 s) = Some str"
      using 1(2) ch by (auto simp: valued_def is_Str_def)
    then show ?thesis
      unfolding Let_def r(1)
      using 1(1,2)
      by (auto intro!: runs1_bind [OF range_val_ok [where rec = rec, OF _ r(2)]] runs1_bind [OF range_val_ok [where rec = rec, OF _ r(3)]] runs1_if put
          intro: valued_goes valued_goes [OF valued_goes])
  qed
  have "sym_validate_range rec s t = do {
      (prop, t) \<leftarrow> first_visible rec s P_RANGE (props t s) t;
      (case prop of
         None \<Rightarrow> Some t
       | Some (i, p) \<Rightarrow> do {
           str \<leftarrow> string_at (curr_val t s);
           let val = strtoll (if s_type (syms T s) = S_INT then 10 else 16) str;
           (lo, hi) \<leftarrow> range_of p;
           (lo_val, t) \<leftarrow> sym_get_range_val rec lo (if s_type (syms T s) = S_INT then 10 else 16) t;
           if val \<ge> lo_val then do {
             (hi_val, t) \<leftarrow> sym_get_range_val rec hi (if s_type (syms T s) = S_INT then 10 else 16) t;
             Some (if val \<le> hi_val then t else put_number s hi_val t) }
           else Some (put_number s lo_val t) }) }"
    using True by (auto simp: sym_validate_range_def sym_get_range_prop_def ready_static(1) [OF assms(1)] cong: if_cong)
  also have "runs1 rk T P {} {s} t (\<lambda>t'. valued T t' s) \<dots>" (is "runs1 _ _ _ _ _ _ _ (Option.bind _ ?f)")
  proof (rule runs1_bind [OF get_prop_ok [OF assms(1,2)] assms(1)])
    fix x :: "(nat \<times> kprop) option" and t'
    assume "ready rk T P k n rec t'" "goes rk T P {} {} t t'" "\<forall>i p. x = Some (i, p) \<longrightarrow> prop_ok rk T s p \<and> p_type p = P_RANGE"
    moreover from this have "valued T t' s" using assms(3) valued_goes by blast
    ultimately show "runs1 rk T P {} {s} t' (\<lambda>t'. valued T t' s) (?f (x, t'))"
      using rest put(1) by (cases x) auto
  qed simp_all
  finally show ?thesis .
next
  case False
  then show ?thesis
    using assms(3) by (auto simp: sym_validate_range_def ready_static [OF assms(1)] intro!: runs1_here [OF assms(1)])
qed

section \<open>Visibility\<close>

lemma prompts_ok:
  assumes "ready rk T P k n rec t" "\<forall>(i, p) \<in> set ps. opt_ok rk T k (p_visible p)"
  shows "runs rk T P {} {} t any2 (prompts_visible rec s c ps tri t)"
  using assms
proof (induction ps arbitrary: t tri)
  case (Cons q ps)
  obtain i p where q: "q = (i, p)" by (cases q)
  have tail: "runs rk T P {} {} t' any2 (prompts_visible rec s c ps tri' t')" if "ready rk T P k n rec t'" for t' tri'
    using Cons.IH [OF that] Cons.prems(2) by simp
  have step: "runs rk T P {} {} t' any2 (prompts_visible rec s c ps tri' (set_prop_tri s i v t'))"
    if "ready rk T P k n rec t'" for t' tri' v
    by (rule runs_step [OF that ready_prop_tri [OF that] tail])
  have p: "opt_ok rk T k (p_visible p)" using Cons.prems(2) q by simp
  show ?case
    unfolding q prompts_visible.simps Let_def
    by (rule runs_if, rule runs_bind [OF eval_opt_ok [OF Cons.prems(1) p] Cons.prems(1)])
      (simp_all add: step tail [OF Cons.prems(1)])
qed (simp add: runs_here)

lemma dep_value_ok:
  assumes "ready rk T P k n rec t" "opt_ok rk T k e"
  shows "runs rk T P {} {} t any2 (dep_value rec s e d t)"
proof -
  have "runs rk T P {} {} t any2 (case e of None \<Rightarrow> Some (d, t) | Some e \<Rightarrow> eval_expr rec e t)"
    using assms by (auto simp: opt_ok_def split: option.splits intro: eval_expr_ok runs_here)
  then show ?thesis
    unfolding dep_value_def by (rule runs_bind [OF _ assms(1)]) (simp_all add: runs_here)
qed

lemma user_deps:
  assumes "user_of rk T s k"
  shows "opt_ok rk T k (fst (s_dir_dep (syms T s)))" "opt_ok rk T k (fst (s_rev_dep (syms T s)))"
    "opt_ok rk T k (fst (s_implied (syms T s)))" "\<forall>(i, p) \<in> set (props T s). opt_ok rk T k (p_visible p)"
  using assms sym_ok_props [of rk T s] by (fastforce simp: user_of_def sym_ok_def Let_def prop_ok_def)+

lemma deps_ok:
  assumes r: "ready rk T P k n rec t" and "user_of rk T s k" "s \<in> A \<or> sym_is_choice T s \<or> sym_is_choice_value T s"
  shows "runs1 rk T P A {} t any (do {
       (tri, t) \<leftarrow> dep_value rec s (fst (s_dir_dep (syms t s))) tri_yes t;
       let t = set_dir_dep s tri t;
       (tri, t) \<leftarrow> dep_value rec s (fst (s_rev_dep (syms t s))) tri_no t;
       let t = set_rev_dep s tri t;
       (tri, t) \<leftarrow> dep_value rec s (fst (s_implied (syms t s))) tri_no t;
       Some (set_implied s tri t) })"
proof -
  note u = user_deps [OF assms(2)]
  have 3: "runs1 rk T P A {} t any (do { (tri, t) \<leftarrow> dep_value rec s (fst (s_implied (syms t s))) tri_no t; Some (set_implied s tri t) })"
    if "ready rk T P k n rec t" for t
    unfolding ready_static(10) [OF that]
    by (rule runs1_bind [OF dep_value_ok [OF that u(3)] that])
      (auto intro!: runs1_Some set_limits_goes ready_inv assms(3))
  have 2: "runs1 rk T P A {} t any (do {
       (tri, t) \<leftarrow> dep_value rec s (fst (s_rev_dep (syms t s))) tri_no t;
       let t = set_rev_dep s tri t;
       (tri, t) \<leftarrow> dep_value rec s (fst (s_implied (syms t s))) tri_no t;
       Some (set_implied s tri t) })"
    if "ready rk T P k n rec t" for t
    unfolding ready_static(9) [OF that] Let_def
    by (rule runs1_bind [OF dep_value_ok [OF that u(2)] that])
      (auto intro!: runs1_step [OF _ set_limits_goes(3) 3] ready_inv assms(3))
  show ?thesis
    unfolding ready_static(8) [OF r] Let_def
    by (rule runs1_bind [OF dep_value_ok [OF r u(1)] r])
      (auto intro!: runs1_step [OF _ set_limits_goes(2) 2 [unfolded Let_def]] ready_inv assms(3))
qed

lemma visibility_ok:
  assumes r: "ready rk T P k n rec t" and "user_of rk T s k" "s \<in> A \<or> sym_is_choice T s \<or> sym_is_choice_value T s"
  shows "runs1 rk T P A {} t any (sym_calc_visibility rec s t)"
proof -
  have cv: "\<exists>p. sym_get_choice_prop T s = Some p" if "sym_is_choice_value T s"
    using assms(2) that by (auto simp: user_of_def sym_ok_def Let_def choice_of_def split: option.splits bind_splits)
  have main: "runs1 rk T P A {} t any (do {
     (tri, t) \<leftarrow> prompts_visible rec s c (props t s) tri_no t;
     let tri = (if tri = tri_mod \<and> (s_type (syms t s) \<noteq> S_TRISTATE \<or> modules_val t = tri_no) then tri_yes else tri);
     let t = set_visible s tri t;
     if sym_is_choice_value t s then Some t
     else do {
       (tri, t) \<leftarrow> dep_value rec s (fst (s_dir_dep (syms t s))) tri_yes t;
       let t = set_dir_dep s tri t;
       (tri, t) \<leftarrow> dep_value rec s (fst (s_rev_dep (syms t s))) tri_no t;
       let t = set_rev_dep s tri t;
       (tri, t) \<leftarrow> dep_value rec s (fst (s_implied (syms t s))) tri_no t;
       Some (set_implied s tri t) } })" for c
    unfolding prop_static [OF r] Let_def
  proof (rule runs1_bind [OF prompts_ok [OF r user_deps(4) [OF assms(2)]] r], goal_cases)
    case (3 x t')
    note g = set_limits_goes(1) [OF ready_inv [OF 3(1)] assms(3)]
    show ?case
      by (simp only: prod.case, rule runs1_step [OF 3(1) g], rule runs1_if, erule runs1_here, simp)
        (rule deps_ok [OF _ assms(2,3), unfolded Let_def], assumption)
  qed simp_all
  show ?thesis
    unfolding sym_calc_visibility_def ready_static(3,6) [OF r]
    using main cv by (cases "sym_is_choice_value T s") auto
qed

section \<open>Choices\<close>

lemma ready_user: "ready rk T P k n rec t \<Longrightarrow> in_tab T s \<Longrightarrow> \<not> is_const s \<Longrightarrow> rank rk s = k \<Longrightarrow> user_of rk T s k"
  by (cases s) (auto simp: ready_def inv_def table_ok_def user_of_def in_tab_def is_const_def)

lemma visible_default_ok:
  assumes "ready rk T P k n rec t" "\<forall>(i, p) \<in> set ps. prop_ok rk T s p" "sym_is_choice T s" "rank rk s = k"
  shows "runs rk T P {} {} t any2 (visible_default rec s ps t)"
  using assms
proof (induction ps arbitrary: t)
  case (Cons q ps)
  obtain i p where q: "q = (i, p)" by (cases q)
  have tail: "runs rk T P {} {} t' any2 (visible_default rec s ps t')" if "ready rk T P k n rec t'" for t'
    using Cons.IH [OF that] Cons.prems by simp
  have p: "opt_ok rk T k (p_visible p)" "p_type p = P_DEFAULT \<Longrightarrow> \<exists>d. prop_get_symbol p = Some d"
    using Cons.prems by (auto simp: prop_ok_def q)
  have step: "runs rk T P {} {} t' any2 (if v = tri_no then visible_default rec s ps (set_prop_tri s i v t')
      else do { def_sym \<leftarrow> prop_get_symbol p;
         if s_visible (syms (set_prop_tri s i v t') def_sym) \<noteq> tri_no then Some (Some def_sym, set_prop_tri s i v t')
         else visible_default rec s ps (set_prop_tri s i v t') })"
    if "ready rk T P k n rec t'" "p_type p = P_DEFAULT" for t' v
    using p(2) [OF that(2)] by (auto intro!: runs_step [OF that(1) ready_prop_tri [OF that(1)]] runs_here tail)
  show ?case
    unfolding q visible_default.simps Let_def
    by (rule runs_if, rule runs_bind [OF eval_opt_ok [OF Cons.prems(1) p(1)] Cons.prems(1)])
      (simp_all only: prod.case step tail [OF Cons.prems(1)] subset_refl)
qed (simp add: runs_here)

text \<open>A choice: what the calculation of its value relies on.\<close>

definition choice_ok :: "(nat \<Rightarrow> nat) \<Rightarrow> ktab \<Rightarrow> sym \<Rightarrow> nat \<Rightarrow> sym list \<Rightarrow> bool" where
  "choice_ok rk T s k vs \<longleftrightarrow> user_of rk T s k \<and> sym_is_choice T s \<and> choice_values T s = Some vs
    \<and> (\<forall>v \<in> set vs. sym_is_choice_value T v \<and> \<not> sym_is_choice T v \<and> in_tab T v \<and> \<not> is_const v \<and> rank rk v = k)"

lemma choice_okI: "user_of rk T s k \<Longrightarrow> sym_is_choice T s \<Longrightarrow> \<exists>vs. choice_ok rk T s k vs"
  by (auto simp: choice_ok_def user_of_def sym_ok_def Let_def split: option.splits)

lemma values_visibility_ok:
  assumes "ready rk T P k n rec t" "\<forall>v \<in> set vs. sym_is_choice_value T v \<and> in_tab T v \<and> \<not> is_const v \<and> rank rk v = k"
  shows "runs rk T P {} {} t any2 (values_visibility rec vs fl t)"
  using assms
proof (induction vs arbitrary: fl t)
  case (Cons v vs)
  then have v: "user_of rk T v k" "sym_is_choice_value T v" using ready_user [OF Cons.prems(1)] by auto
  show ?case
    unfolding values_visibility.simps
    by (rule runs_bind1 [OF visibility_ok [OF Cons.prems(1) v(1), of "{}"] Cons.prems(1)])
      (use v(2) Cons.IH Cons.prems(2) in auto)
qed (simp add: runs_here)

lemma choice_flag_goes:
  assumes "inv rk T P t" "sym_is_choice T s"
  shows "goes rk T P A C t (clear_flag SYMBOL_DEF_USER s t)" "goes rk T P A C t (set_flag SYMBOL_DEF_USER s t)"
  unfolding clear_flag_def set_flag_def
  using assms inv_typed [OF assms(1), of s] by (auto intro!: upd_goes simp: stat_def typed_def limits_def wt_def)

lemma choice_tri_goes:
  assumes "inv rk T P t" "sym_is_choice T s" "user_of rk T s k"
  shows "goes rk T P A C t (upd s (\<lambda>k. k\<lparr>s_curr := (fst (s_curr k), tri_no)\<rparr>) t)"
  using assms by (auto intro!: upd_goes simp: stat_def typed_def limits_def wt_def)

lemma choice_default_ok:
  assumes r: "ready rk T P k n rec t" and c: "choice_ok rk T s k vs"
  shows "runs rk T P {} {} t any2 (choice_default rec s t)"
proof -
  have u: "user_of rk T s k" "sym_is_choice T s" "choice_values T s = Some vs" using c by (simp_all add: choice_ok_def)
  have ps: "\<forall>(i, p) \<in> set (props T s). prop_ok rk T s p" "rank rk s = k"
    using u(1) sym_ok_props by (auto simp: user_of_def)
  have "runs rk T P {} {} t any2 (sym_choice_default rec s t)"
    unfolding sym_choice_default_def prop_static [OF r]
    by (rule runs_bind [OF visible_default_ok [OF r ps(1) u(2) ps(2)] r])
      (auto simp: ready_static u(3) split: option.split intro!: runs_here)
  then show ?thesis
    unfolding choice_default_def
    by (rule runs_bind [OF _ r]) (auto intro!: runs_Some choice_tri_goes [OF ready_inv] u goes_refl ready_inv)
qed

lemma calc_choice_ok:
  assumes r: "ready rk T P k n rec t" and c: "choice_ok rk T s k vs"
  shows "runs rk T P {} {} t any2 (sym_calc_choice rec s t)"
proof -
  have u: "sym_is_choice T s" "choice_values T s = Some vs"
    "\<forall>v \<in> set vs. sym_is_choice_value T v \<and> in_tab T v \<and> \<not> is_const v \<and> rank rk v = k" using c by (auto simp: choice_ok_def)
  have pick: "runs rk T P {} {} t any2 (case fst (s_user (syms t s)) of
        Ptr d \<Rightarrow> if s_visible (syms t d) \<noteq> tri_no then Some (Some d, t) else choice_default rec s t
      | _ \<Rightarrow> choice_default rec s t)" if "ready rk T P k n rec t" for t
    using choice_default_ok [OF that c] by (auto split: kptr.split intro: runs_here [OF that])
  have "runs rk T P {} {} t' any2 (let t = (if b then t' else clear_flag SYMBOL_DEF_USER s t') in
      (case fst (s_user (syms t s)) of
        Ptr d \<Rightarrow> if s_visible (syms t d) \<noteq> tri_no then Some (Some d, t) else choice_default rec s t
      | _ \<Rightarrow> choice_default rec s t))" if "ready rk T P k n rec t'" for b t'
    unfolding Let_def
    by (rule runs_step [OF that _ pick]) (use choice_flag_goes [OF ready_inv [OF that] u(1)] goes_refl [OF ready_inv [OF that]] in auto)
  then show ?thesis
    unfolding sym_calc_choice_def ready_static(5) [OF r] u(2)
    by (simp only: Option.bind.simps) (rule runs_bind [OF values_visibility_ok [OF r u(3)] r], simp_all)
qed

end
