(* ===== verification/Kconfig_Value.thy ===== *)
theory Kconfig_Value
  imports Kconfig_Calc
begin

text \<open>
  \<open>sym_calc_value\<close>: the new value, storing it, the recursion, and the properties.
\<close>

section \<open>New values\<close>

lemma default_tri_ok:
  assumes r: "ready rk T P k n rec t" and u: "user_of rk T s k" "is_bool (s_type (syms T s))"
  shows "runs rk T P {} {} t any2 (default_tri rec s tri t)"
proof -
  have last: "runs rk T P {} {} t any2
      (if snd (s_implied (syms t s)) \<noteq> tri_no then
         Some (EXPR_AND (EXPR_OR v (snd (s_implied (syms t s)))) (snd (s_dir_dep (syms t s))), set_flag SYMBOL_WRITE s t)
       else Some (v, t))" if "ready rk T P k n rec t" for t v
    using that by (auto intro!: runs_if runs_here runs_Some flag_goes goes_refl ready_inv)
  have written: "runs rk T P {} {} t any2 (Some (v, if v \<noteq> tri_no then set_flag SYMBOL_WRITE s t else t))"
    if "ready rk T P k n rec t" for t v
    using that by (auto intro!: runs_Some flag_goes goes_refl ready_inv)
  have val: "runs rk T P {} {} t any2 (do {
            (v, t) \<leftarrow> eval_top rec (p_expr p) t;
            (tri, t) \<leftarrow> (if v < prop_tri t s i then eval_top rec (p_expr p) t else Some (prop_tri t s i, t));
            Some (tri, if tri \<noteq> tri_no then set_flag SYMBOL_WRITE s t else t) })"
    if "ready rk T P k n rec t" "prop_ok rk T s p" "p_type p = P_DEFAULT" for t p i
  proof -
    have e: "top_ok rk T k (p_expr p)" using that u by (auto simp: prop_ok_def user_of_def)
    note ev = eval_top_ok [OF _ e]
    show ?thesis
    proof (rule runs_bind [OF ev [OF that(1)] that(1)], goal_cases)
      case (3 v t')
      show ?case
        unfolding prod.case
        by (rule runs_bind [OF _ 3(1)], rule runs_if, rule ev [OF 3(1)], rule runs_here [OF 3(1)])
          (simp_all only: prod.case written subset_refl)
    qed simp_all
  qed
  show ?thesis
    unfolding default_tri_def sym_get_default_prop_def
  proof (rule runs_bind [OF get_prop_ok [OF r u(1)] r], goal_cases)
    case (3 x t')
    show ?case
      unfolding prod.case
      by (rule runs_bind [OF _ 3(1), where Q = any2 and A = "{}" and C = "{}"])
        (use 3 val last in \<open>auto intro: runs_here split: option.split\<close>)
  qed simp_all
qed

text \<open>
  The value of a symbol that is neither a choice nor a value of one: at least what selects it,
  and what the user asked for as far as the symbol is visible.
\<close>

definition limited :: "ksym \<Rightarrow> tristate \<Rightarrow> bool" where
  "limited k v \<longleftrightarrow> snd (s_rev_dep k) \<le> v
    \<and> (s_visible k \<noteq> tri_no \<longrightarrow> SYMBOL_DEF_USER \<in> s_flags k \<longrightarrow>
        (let m = EXPR_OR (EXPR_AND (snd (s_user k)) (s_visible k)) (snd (s_rev_dep k))
         in v = m \<or> m = tri_mod \<and> v = tri_yes))"

lemma limited_cong: "limits k = limits k' \<Longrightarrow> limited k v = limited k' v"
  by (simp add: limits_def limited_def Let_def)

definition plain :: "ktab \<Rightarrow> sym \<Rightarrow> bool" where
  "plain T s \<longleftrightarrow> \<not> sym_is_choice T s \<and> \<not> sym_is_choice_value T s"

lemma goes_limits: "goes rk T P {} C t t' \<Longrightarrow> plain T s \<Longrightarrow> has_flag t s SYMBOL_VALID \<Longrightarrow> limits (syms t' s) = limits (syms t s)"
  by (simp add: goes_def keeps_def plain_def)

lemma goes_curr: "goes rk T P A {} t t' \<Longrightarrow> \<not> sym_is_choice T s \<Longrightarrow> has_flag t s SYMBOL_VALID \<Longrightarrow> s_curr (syms t' s) = s_curr (syms t s)"
  by (simp add: goes_def keeps_def)

lemma goes_valid: "goes rk T P A C t t' \<Longrightarrow> \<not> sym_is_choice T s \<Longrightarrow> has_flag t s SYMBOL_VALID \<Longrightarrow> has_flag t' s SYMBOL_VALID"
  by (simp add: goes_def keeps_def)

lemma EXPR_OR_le: "b \<le> EXPR_OR a b"
  by (auto simp: EXPR_OR_def)

lemma limited_adj: "limited k v \<Longrightarrow> v = tri_mod \<Longrightarrow> limited k tri_yes"
  by (cases "s_visible k"; cases "snd (s_user k)"; cases "snd (s_rev_dep k)")
    (auto simp: limited_def Let_def EXPR_OR_def EXPR_AND_def less_eq_tristate_def less_tristate_def)

lemma bool_value_ok:
  assumes r: "ready rk T P k n rec t" and u: "user_of rk T s k" "is_bool (s_type (syms T s))"
  shows "runs rk T P {} {} t (\<lambda>v t'. (s_type (syms t' s) = S_BOOLEAN \<longrightarrow> v \<noteq> tri_mod)
      \<and> (plain T s \<longrightarrow> has_flag t s SYMBOL_VALID \<longrightarrow> limited (syms t s) v)) (bool_value rec s tri t)"
proof -
  let ?Q = "\<lambda>v t'. plain T s \<longrightarrow> has_flag t s SYMBOL_VALID \<longrightarrow> limited (syms t s) v"
  have new: "goes rk T P {} {} t (snd (calc_newval s v t))" if "ready rk T P k n rec t" for t v
    using that by (auto simp: calc_newval_def intro!: warn_goes goes_refl ready_inv)
  have cv: "\<exists>c. choice_of T s = Some c" if "sym_is_choice_value T s"
    using u(1) that by (auto simp: user_of_def sym_ok_def Let_def split: option.splits)
  have last: "runs rk T P {} {} t' ?Q (Some (calc_newval s v t'))"
    if "ready rk T P k n rec t'" "goes rk T P {} {} t t'" "\<not> (s_visible (syms t s) \<noteq> tri_no \<and> sym_has_value t s)" for t' v
  proof -
    have "?Q (fst (calc_newval s v t')) t'"
      using goes_limits [OF that(2), of s] that(3) EXPR_OR_le
      by (auto simp: calc_newval_def limited_def limits_def sym_has_value_def)
    then show ?thesis using new [OF that(1), of v] by (cases "calc_newval s v t'") (auto intro: runs_Some)
  qed
  have dflt: "runs rk T P {} {} t' ?Q (do {
          (tri, t) \<leftarrow> (if sym_is_choice t' s then Some (tri, t') else default_tri rec s tri t');
          Some (calc_newval s tri t) })"
    if t': "ready rk T P k n rec t'" "goes rk T P {} {} t t'" "\<not> (s_visible (syms t s) \<noteq> tri_no \<and> sym_has_value t s)" for t' tri
    by (rule runs_bind [OF _ t'(1), where Q = any2 and A = "{}" and C = "{}"])
      (use t' in \<open>auto intro: runs_here default_tri_ok u last goes_trans\<close>)
  have "runs rk T P {} {} t ?Q
      (if sym_is_choice_value t s \<and> s_visible (syms t s) = tri_yes then do {
          c \<leftarrow> choice_of t s;
          Some (if curr_val t c = Ptr s then tri_yes else tri_no, t) }
        else if s_visible (syms t s) \<noteq> tri_no \<and> sym_has_value t s then
          Some (calc_newval s (EXPR_AND (snd (s_user (syms t s))) (s_visible (syms t s))) t)
        else do {
          let t = (if snd (s_rev_dep (syms t s)) \<noteq> tri_no then set_flag SYMBOL_WRITE s t else t);
          (tri, t) \<leftarrow> (if sym_is_choice t s then Some (tri, t) else default_tri rec s tri t);
          Some (calc_newval s tri t) })"
    unfolding Let_def ready_static(3,4) [OF r]
  proof (rule runs_if, goal_cases)
    case 1
    then show ?case using cv by (auto intro: runs_here [OF r] simp: plain_def)
  next
    case 2
    show ?case
    proof (rule runs_if, goal_cases)
      case 1
      have "limited (syms t s) (fst (calc_newval s (EXPR_AND (snd (s_user (syms t s))) (s_visible (syms t s))) t))"
        using EXPR_OR_le by (simp add: calc_newval_def limited_def Let_def)
      then show ?case using new [OF r] by (metis prod.collapse runs_Some)
    next
      case 2
      have g: "goes rk T P {} {} t (if snd (s_rev_dep (syms t s)) \<noteq> tri_no then set_flag SYMBOL_WRITE s t else t)"
        using flag_goes(1) [OF ready_inv [OF r], of SYMBOL_WRITE] goes_refl [OF ready_inv [OF r]] by simp
      show ?case by (rule runs_step [OF r g], rule dflt [OF _ g 2])
    qed
  qed
  then show ?thesis
    unfolding bool_value_def
  proof (rule runs_bind [OF _ r], goal_cases)
    case (3 v t')
    then show ?case by (auto intro!: runs_here simp: sym_get_type_def intro: limited_adj)
  qed simp_all
qed

lemma string_value_ok:
  assumes r: "ready rk T P k n rec t" and u: "user_of rk T s k" "is_stringy (s_type (syms T s))" and v: "is_Str v"
  shows "runs rk T P {} {} t (\<lambda>v t'. is_Str v) (string_value rec s v t)"
proof -
  have ch: "\<not> sym_is_choice T s" using u stringy_not_choice [of rk T s] by (simp add: user_of_def)
  have user: "is_Str (fst (s_user (syms t s)))" if "sym_has_value t s"
    using that u ch inv_static [OF ready_inv [OF r]] ready_static(7) [OF r, of s]
    by (auto simp: user_of_def sym_ok_def Let_def same_static_def)
  have default: "runs rk T P {} {} t (\<lambda>v t'. is_Str v) (do {
                 let t = set_flag SYMBOL_WRITE s t;
                 t \<leftarrow> rec ds t;
                 Some (curr_val t ds, t) })"
    if "ready rk T P k n rec t" "strict_ref rk T k ds" for t ds
    unfolding Let_def
  proof (rule runs_step [OF that(1) flag_goes(1) [OF ready_inv [OF that(1)]]])
    assume w: "ready rk T P k n rec (set_flag SYMBOL_WRITE s t)"
    show "runs rk T P {} {} (set_flag SYMBOL_WRITE s t) (\<lambda>v t'. is_Str v) (rec ds (set_flag SYMBOL_WRITE s t) \<bind> (\<lambda>t. Some (curr_val t ds, t)))"
      by (rule runs_bind1 [OF rec_strict [OF w that(2)] w]) (auto intro!: runs_here dest: readable_Str simp: is_Str_def)
  qed simp
  have d: "runs rk T P {} {} t (\<lambda>v t'. is_Str v) (do {
       (prop, t) \<leftarrow> sym_get_default_prop rec s t;
       (case prop of
          None \<Rightarrow> Some (v, t)
        | Some (i, p) \<Rightarrow>
            (case prop_get_symbol p of
               None \<Rightarrow> Some (v, t)
             | Some ds \<Rightarrow> do {
                 let t = set_flag SYMBOL_WRITE s t;
                 t \<leftarrow> rec ds t;
                 Some (curr_val t ds, t) })) })"
    unfolding sym_get_default_prop_def
  proof (rule runs_bind [OF get_prop_ok [OF r u(1)] r], goal_cases)
    case (3 x t')
    have "strict_ref rk T k ds" if "x = Some (i, p)" "prop_get_symbol p = Some ds" for i p ds
      using 3(3) that u by (auto simp: prop_ok_def user_of_def split: option.splits)
    then show ?case using default [OF 3(1)] by (auto split: option.split intro: runs_here 3(1) v)
  qed simp_all
  show ?thesis
    unfolding string_value_def by (rule runs_if, rule runs_here [OF r]) (use user d in auto)
qed

section \<open>Storing a value\<close>

lemma set_values_no_flags: "s_flags (syms (set_values_no vs t) u) = s_flags (syms t u)"
  by (induction vs arbitrary: t) (simp_all add: syms_upd)

lemma set_values_no_goes:
  "inv rk T P t \<Longrightarrow> \<forall>v \<in> set vs. sym_is_choice_value T v \<and> \<not> sym_is_choice T v \<Longrightarrow> goes rk T P A C t (set_values_no vs t)"
proof (induction vs arbitrary: t)
  case (Cons v vs)
  have g: "goes rk T P A C t (if sym_has_value t v then t else upd v (\<lambda>k. k\<lparr>s_user := (fst (s_user k), tri_no)\<rparr>) t)"
    using Cons.prems by (auto intro!: field_goes goes_refl simp: stat_def)
  show ?case unfolding set_values_no.simps by (rule goes_step [OF g Cons.IH]) (use Cons.prems(2) in auto)
qed (simp add: goes_refl)

lemma values_written_goes: "inv rk T P t \<Longrightarrow> goes rk T P A C t (values_written s vs t)"
proof (induction vs arbitrary: t)
  case (Cons v vs)
  have g: "goes rk T P A C t (if b then set_flag SYMBOL_WRITE v t else t)" if "inv rk T P t" for b t
    using that by (auto intro: flag_goes goes_refl)
  have h: "goes rk T P A C t (if b then sym_set_changed v t else t)" if "inv rk T P t" for b t
    using that by (auto intro: set_changed_goes goes_refl)
  show ?case unfolding values_written.simps Let_def
    by (rule goes_step [OF g [OF Cons.prems]], rule goes_step [OF h]) (assumption, rule Cons.IH)
qed (simp add: goes_refl)

lemma clear_both:
  assumes "inv rk T P t" "sym_is_choice T s" "has_flag t s SYMBOL_NEED_SET_CHOICE_VALUES"
  shows "goes rk T P A C t (clear_flag SYMBOL_VALID s (clear_flag SYMBOL_NEED_SET_CHOICE_VALUES s t))"
proof -
  have "clear_flag SYMBOL_VALID s (clear_flag SYMBOL_NEED_SET_CHOICE_VALUES s t)
      = upd s (\<lambda>k. k\<lparr>s_flags := s_flags k - {SYMBOL_NEED_SET_CHOICE_VALUES} - {SYMBOL_VALID}\<rparr>) t"
    by (simp add: clear_flag_def upd_def)
  also have "goes rk T P A C t \<dots>"
    using assms inv_typed [OF assms(1), of s] by (intro upd_goes) (auto simp: stat_def typed_def limits_def wt_def)
  finally show ?thesis .
qed

lemma set_all_values_ok:
  assumes r: "ready rk T P k n rec t" and c: "choice_ok rk T s k vs" and need: "has_flag t s SYMBOL_NEED_SET_CHOICE_VALUES"
  shows "runs1 rk T P {} {} t any (set_all_choice_values s t)"
proof -
  have u: "sym_is_choice T s" "choice_values T s = Some vs" "\<forall>v \<in> set vs. sym_is_choice_value T v \<and> \<not> sym_is_choice T v"
    using c by (auto simp: choice_ok_def)
  have 1: "goes rk T P {} {} t (set_values_no vs t)" by (rule set_values_no_goes [OF ready_inv [OF r] u(3)])
  have 2: "goes rk T P {} {} t (set_flag SYMBOL_DEF_USER s (set_values_no vs t))"
    by (rule goes_step [OF 1]) (rule choice_flag_goes(2) [OF _ u(1)])
  have n: "has_flag (set_flag SYMBOL_DEF_USER s (set_values_no vs t)) s SYMBOL_NEED_SET_CHOICE_VALUES"
    using need by (simp add: set_flag_def syms_upd set_values_no_flags)
  have "goes rk T P {} {} t (clear_flag SYMBOL_VALID s (clear_flag SYMBOL_NEED_SET_CHOICE_VALUES s
      (set_flag SYMBOL_DEF_USER s (set_values_no vs t))))"
    by (rule goes_step [OF 2]) (rule clear_both [OF _ u(1) n])
  then show ?thesis
    unfolding set_all_choice_values_def Let_def ready_static(5) [OF r] u(2) by (simp add: runs1_def)
qed

lemma validate_range_bool: "is_bool (s_type (syms t s)) \<Longrightarrow> sym_validate_range rec s t = Some t"
  by (auto simp: sym_validate_range_def is_bool_def)

lemma note_change_goes:
  assumes "inv rk T P t"
  shows "goes rk T P A C t (note_change oldval s t)"
proof -
  have a: "goes rk T P A C t ((sym_set_all_changed t)\<lparr>modules_val := v\<rparr>)" if "inv rk T P t" for t v
    by (rule goes_step [OF set_all_changed_goes [OF that]]) (rule other_goes, simp_all)
  show ?thesis
    unfolding note_change_def Let_def
    using set_changed_goes [OF assms, of A C s] goes_step [OF set_changed_goes [OF assms, of A C s] a] goes_refl [OF assms]
    by (cases "oldval = s_curr (syms t s)"; cases "modules_sym (sym_set_changed s t) = Some s") simp_all
qed

lemma write_values_ok:
  assumes r: "ready rk T P k n rec t" and u: "user_of rk T s k"
  shows "runs1 rk T P {} {} t any (write_values s t)"
  using choice_okI [OF u] r unfolding write_values_def
  by (auto simp: choice_ok_def ready_static intro!: runs1_Some values_written_goes goes_refl ready_inv)

lemma finish_value_ok:
  assumes r: "ready rk T P k n rec t" and u: "user_of rk T s k"
    and need: "has_flag t s SYMBOL_NEED_SET_CHOICE_VALUES \<Longrightarrow> sym_is_choice T s"
  shows "runs1 rk T P {} {} t any (finish_value s t)"
proof -
  let ?t = "if has_flag t s SYMBOL_NO_WRITE then clear_flag SYMBOL_WRITE s t else t"
  have g: "goes rk T P {} {} t ?t"
    using flag_goes(2) [OF ready_inv [OF r]] goes_refl [OF ready_inv [OF r]] by simp
  show ?thesis
    unfolding finish_value_def Let_def
  proof (rule runs1_step [OF r g], rule runs1_if)
    assume r': "ready rk T P k n rec ?t" and n: "has_flag ?t s SYMBOL_NEED_SET_CHOICE_VALUES"
    have "sym_is_choice T s" using need n g by (auto simp: goes_def keeps_def)
    then obtain vs where "choice_ok rk T s k vs" using choice_okI [OF u] by blast
    then show "runs1 rk T P {} {} ?t any (set_all_choice_values s ?t)" by (rule set_all_values_ok [OF r' _ n])
  qed (simp add: runs1_here)
qed

definition stored :: "ktab \<Rightarrow> sym \<Rightarrow> symbol_value \<Rightarrow> ktab \<Rightarrow> bool" where
  "stored T s newval t \<longleftrightarrow> valued T t s
    \<and> (\<not> sym_is_choice T s \<longrightarrow> is_bool (s_type (syms T s)) \<longrightarrow> s_curr (syms t s) = newval)"

lemma stored_goes: "stored T s newval t \<Longrightarrow> goes rk T P A {} t t' \<Longrightarrow> stored T s newval t'"
  using goes_curr [of rk T P A t t' s] valued_goes [of T t s rk P A t'] by (auto simp: stored_def valued_def)

lemma set_newval_goes:
  assumes r: "ready rk T P k n rec t" and P: "s \<in> P"
    and v: "s_type (syms T s) = S_BOOLEAN \<Longrightarrow> snd newval \<noteq> tri_mod" "is_stringy (s_type (syms T s)) \<Longrightarrow> snd newval = tri_no"
  shows "goes rk T P {} {s} t (set_curr s newval t)"
  by (rule set_curr_goes [OF ready_inv [OF r]]) (use P v ready_static(1) [OF r] in auto)

lemma choose_value_ok:
  assumes r: "ready rk T P k n rec t" and u: "user_of rk T s k" and P: "s \<in> P"
    and v: "\<not> sym_is_choice T s \<Longrightarrow> has_flag t s SYMBOL_VALID" "is_Str (fst newval)"
      "s_type (syms T s) = S_BOOLEAN \<Longrightarrow> snd newval \<noteq> tri_mod" "is_stringy (s_type (syms T s)) \<Longrightarrow> snd newval = tri_no"
  shows "runs1 rk T P {} {s} t (stored T s newval) (choose_value rec s newval t)"
proof -
  have g: "goes rk T P {} {s} t (set_curr s newval t)" by (rule set_newval_goes [OF r P v(3,4)])
  have st: "stored T s newval (set_curr s newval t)" using v(1,2) by (auto simp: stored_def valued_def set_curr_def syms_upd)
  have chosen: "runs1 rk T P {} {s} t' (stored T s newval) (if sym_is_choice t' s \<and> snd newval = tri_yes then do {
              (d, t) \<leftarrow> sym_calc_choice rec s t';
              Some (set_curr s (case d of None \<Rightarrow> Null | Some d \<Rightarrow> Ptr d, curr_tri t s) t) }
           else Some t')" if t': "ready rk T P k n rec t'" "stored T s newval t'" for t'
  proof (rule runs1_if)
    assume c: "sym_is_choice t' s \<and> snd newval = tri_yes"
    then have c: "sym_is_choice T s" using ready_static(2) [OF t'(1)] by simp
    then obtain vs where vs: "choice_ok rk T s k vs" using choice_okI [OF u] by blast
    have set: "goes rk T P {} {s} t1 (set_curr s (d, curr_tri t1 s) t1)" if "ready rk T P k n rec t1" for d t1
      using inv_typed [OF ready_inv [OF that], of s] P
      by (intro set_curr_goes [OF ready_inv [OF that]]) (auto simp: typed_def)
    show "runs1 rk T P {} {s} t' (stored T s newval) (do {
              (d, t) \<leftarrow> sym_calc_choice rec s t';
              Some (set_curr s (case d of None \<Rightarrow> Null | Some d \<Rightarrow> Ptr d, curr_tri t s) t) })"
      by (rule runs1_bind [OF calc_choice_ok [OF t'(1) vs] t'(1)]) (auto intro!: runs1_Some set simp: c stored_def valued_def)
  qed (use t' in \<open>auto intro: runs1_here\<close>)
  have validated: "runs1 rk T P {} {s} t' (stored T s newval) (sym_validate_range rec s t')"
    if t': "ready rk T P k n rec t'" "stored T s newval t'" for t'
  proof (cases "is_bool (s_type (syms T s))")
    case True
    then have "sym_validate_range rec s t' = Some t'"
      by (intro validate_range_bool) (simp add: ready_static(1) [OF t'(1)])
    then show ?thesis using t'(2) by (simp add: runs1_here [OF t'(1)])
  next
    case False
    then show ?thesis
      using t'(2) by (intro runs1_mono [OF validate_range_ok [OF t'(1) u]]) (auto simp: stored_def)
  qed
  show ?thesis
    unfolding choose_value_def Let_def
  proof (rule runs1_step [OF r g])
    assume r': "ready rk T P k n rec (set_curr s newval t)"
    show "runs1 rk T P {} {s} (set_curr s newval t) (stored T s newval) (do {
        t \<leftarrow> (if sym_is_choice (set_curr s newval t) s \<and> snd newval = tri_yes then do {
              (d, t) \<leftarrow> sym_calc_choice rec s (set_curr s newval t);
              Some (set_curr s (case d of None \<Rightarrow> Null | Some d \<Rightarrow> Ptr d, curr_tri t s) t) }
           else Some (set_curr s newval t));
        sym_validate_range rec s t })"
      by (rule runs1_bind1 [OF chosen [OF r' st] r']) (simp_all add: validated)
  qed
qed

lemma store_value_ok:
  assumes r: "ready rk T P k n rec t" and u: "user_of rk T s k" and P: "s \<in> P"
    and v: "\<not> sym_is_choice T s \<Longrightarrow> has_flag t s SYMBOL_VALID" "is_Str (fst newval)"
      "s_type (syms T s) = S_BOOLEAN \<Longrightarrow> snd newval \<noteq> tri_mod" "is_stringy (s_type (syms T s)) \<Longrightarrow> snd newval = tri_no"
    and need: "has_flag t s SYMBOL_NEED_SET_CHOICE_VALUES \<Longrightarrow> sym_is_choice T s"
  shows "runs1 rk T P {} {s} t (stored T s newval) (store_value rec s oldval newval t)"
proof -
  have c: "runs1 rk T P {} {s} t (stored T s newval) (choose_value rec s newval t)"
    by (rule choose_value_ok [OF r u P v])
  show ?thesis
    unfolding store_value_def
  proof (rule runs1_bind1 [OF c r], goal_cases)
    case (3 t1)
    note g = note_change_goes [OF ready_inv [OF 3(1)], of "{}" "{}" oldval s]
    have r1: "ready rk T P k n rec (note_change oldval s t1)" by (rule ready_goes [OF 3(1) g])
    have "runs1 rk T P {} {s} (note_change oldval s t1) (stored T s newval)
        (write_values s (note_change oldval s t1) \<bind> finish_value s)"
    proof (rule runs1_bind1 [OF write_values_ok [OF r1 u] r1], goal_cases)
      case (3 t2)
      have st: "stored T s newval t2"
        by (rule stored_goes [OF stored_goes [OF \<open>stored T s newval t1\<close> g] 3(2)])
      have "goes rk T P {} {s} t t2"
        by (rule goes_trans [OF \<open>goes rk T P {} {s} t t1\<close> goes_mono [OF goes_trans [OF g 3(2)]]]) simp_all
      then have "sym_is_choice T s" if "has_flag t2 s SYMBOL_NEED_SET_CHOICE_VALUES"
        using need that by (auto simp: goes_def keeps_def)
      from finish_value_ok [OF 3(1) u this] show ?case
        by (auto simp: runs1_def wp_def intro: goes_mono stored_goes [OF st])
    qed simp_all
    then show ?case by (rule runs1_goes) (rule goes_mono [OF g], simp_all)
  qed simp_all
qed

section \<open>Calculating\<close>

lemma goes_need: "goes rk T P A C t t' \<Longrightarrow> has_flag t' s SYMBOL_NEED_SET_CHOICE_VALUES \<Longrightarrow> has_flag t s SYMBOL_NEED_SET_CHOICE_VALUES"
  by (simp add: goes_def keeps_def)

definition right_value :: "ktab \<Rightarrow> sym \<Rightarrow> ktab \<Rightarrow> bool" where
  "right_value T s t \<longleftrightarrow> (plain T s \<longrightarrow> is_bool (s_type (syms T s)) \<longrightarrow> limited (syms t s) (curr_tri t s))"

text \<open>From the place where the new value is initialised.\<close>

lemma new_value_ok:
  assumes r: "ready rk T P k n rec t" and u: "user_of rk T s k" and P: "s \<in> P" and ty: "s_type (syms T s) \<noteq> S_UNKNOWN"
    and v: "\<not> sym_is_choice T s \<Longrightarrow> has_flag t s SYMBOL_VALID" "is_Str str"
    and need: "has_flag t s SYMBOL_NEED_SET_CHOICE_VALUES \<Longrightarrow> sym_is_choice T s"
  shows "runs1 rk T P {} {s} t (\<lambda>t'. valued T t' s \<and> right_value T s t')
    (do { (newval, t) \<leftarrow> new_value rec s str t; store_value rec s oldval newval t })"
proof -
  let ?Q = "\<lambda>newval t'. is_Str (fst newval) \<and> (s_type (syms T s) = S_BOOLEAN \<longrightarrow> snd newval \<noteq> tri_mod)
    \<and> (is_stringy (s_type (syms T s)) \<longrightarrow> snd newval = tri_no)
    \<and> (plain T s \<longrightarrow> is_bool (s_type (syms T s)) \<longrightarrow> limited (syms t s) (snd newval))"
  have ty': "is_bool (s_type (syms T s)) \<and> sym_get_type t s \<in> {S_BOOLEAN, S_TRISTATE}
      \<or> is_stringy (s_type (syms T s)) \<and> sym_get_type t s \<notin> {S_BOOLEAN, S_TRISTATE}"
    using ty type_cases [of "s_type (syms T s)"] ready_static(1) [OF r, of s]
    by (auto simp: sym_get_type_def is_bool_def is_stringy_def)
  have new: "runs rk T P {} {} t ?Q (new_value rec s str t)"
  proof (cases "is_bool (s_type (syms T s))")
    case True
    then have b: "sym_get_type t s \<in> {S_BOOLEAN, S_TRISTATE}" "\<not> is_stringy (s_type (syms T s))"
      using ty' by (auto simp: is_bool_def is_stringy_def)
    show ?thesis
      unfolding new_value_def if_P [OF b(1)]
      by (rule runs_bind [OF bool_value_ok [OF r u True] r])
        (use v b(2) in \<open>auto intro!: runs_here simp: plain_def ready_static(1)\<close>)
  next
    case False
    then have b: "sym_get_type t s \<notin> {S_BOOLEAN, S_TRISTATE}" "is_stringy (s_type (syms T s))" using ty' by auto
    show ?thesis
      unfolding new_value_def if_not_P [OF b(1)]
      by (rule runs_bind [OF string_value_ok [OF r u b(2) v(2)] r]) (use False in \<open>auto intro!: runs_here\<close>)
  qed
  show ?thesis
  proof (rule runs1_bind [OF new r], goal_cases)
    case (3 newval t')
    have V: "\<not> sym_is_choice T s \<Longrightarrow> has_flag t' s SYMBOL_VALID" using goes_valid [OF 3(2) _ v(1)] by blast
    have "runs1 rk T P {} {s} t' (stored T s newval) (store_value rec s oldval newval t')"
      by (rule store_value_ok [OF 3(1) u P V]) (use 3(3) need goes_need [OF 3(2)] in auto)
    moreover have "valued T t'' s \<and> right_value T s t''"
      if "stored T s newval t''" "goes rk T P {} {s} t' t''" for t''
    proof -
      have "limits (syms t'' s) = limits (syms t s)" if "plain T s"
        using goes_limits [OF 3(2) that] goes_limits [OF \<open>goes rk T P {} {s} t' t''\<close> that] V v(1) that by (simp add: plain_def)
      then show ?thesis
        using that(1) 3(3) limited_cong [of "syms t'' s" "syms t s"] by (auto simp: stored_def right_value_def plain_def)
    qed
    ultimately show ?case by (auto simp: runs1_def wp_def)
  qed simp_all
qed

lemma calc_known_ok:
  assumes r: "ready rk T P k n rec t" and u: "user_of rk T s k" and P: "s \<in> P" and ty: "s_type (syms T s) \<noteq> S_UNKNOWN"
    and v: "\<not> sym_is_choice T s \<Longrightarrow> has_flag t s SYMBOL_VALID"
    and need: "has_flag t s SYMBOL_NEED_SET_CHOICE_VALUES \<Longrightarrow> sym_is_choice T s"
  shows "runs1 rk T P {s} {s} t (\<lambda>t'. valued T t' s \<and> right_value T s t') (calc_known rec s t)"
proof -
  note g0 = flag_goes(2) [OF ready_inv [OF r] free_flags(1), of "{s}" "{}" s]
  have r0: "ready rk T P k n rec (clear_flag SYMBOL_WRITE s t)" by (rule ready_goes [OF r g0])
  have vis: "runs1 rk T P {s} {} (clear_flag SYMBOL_WRITE s t) any (sym_calc_visibility rec s (clear_flag SYMBOL_WRITE s t))"
    by (rule visibility_ok [OF r0 u]) simp
  note vis = runs1_goes [OF vis g0]
  show ?thesis
    unfolding calc_known_def Let_def
  proof (rule runs1_bind1 [OF vis r], goal_cases)
    case (3 t1)
    let ?v = "if s_type (syms t s) \<in> {S_INT, S_HEX, S_STRING} then empty_val else no_val"
    let ?t2 = "if s_visible (syms t1 s) \<noteq> tri_no then set_flag SYMBOL_WRITE s t1 else t1"
    let ?t3 = "set_curr s (?v, tri_no) ?t2"
    have g2: "goes rk T P {s} {s} t1 ?t2"
      using flag_goes(1) [OF ready_inv [OF 3(1)] free_flags(1)] goes_refl [OF ready_inv [OF 3(1)]] by simp
    have r2: "ready rk T P k n rec ?t2" by (rule ready_goes [OF 3(1) g2])
    have g3: "goes rk T P {s} {s} ?t2 ?t3"
      by (rule goes_mono [OF set_newval_goes [OF r2 P]]) (simp_all split: if_split)
    have g: "goes rk T P {s} {s} t ?t3"
      by (rule goes_trans [OF goes_mono [OF 3(2)] goes_trans [OF g2 g3]]) simp_all
    have r3: "ready rk T P k n rec ?t3" by (rule ready_goes [OF r g])
    have "runs1 rk T P {} {s} ?t3 (\<lambda>t'. valued T t' s \<and> right_value T s t') (do { (newval, t') \<leftarrow> new_value rec s ?v ?t3; store_value rec s (s_curr (syms t s)) newval t' })"
      by (rule new_value_ok [OF r3 u P ty]) (use v need goes_valid [OF g] goes_need [OF g] in auto)
    then have "runs1 rk T P {s} {s} ?t3 (\<lambda>t'. valued T t' s \<and> right_value T s t')
        (do { (newval, t') \<leftarrow> new_value rec s ?v ?t3; store_value rec s (s_curr (syms t s)) newval t' })"
      by (rule runs1_mono) simp_all
    from runs1_goes [OF this goes_trans [OF g2 g3]] show ?case by simp
  qed simp_all
qed

lemma inv_more: "inv rk T P t \<Longrightarrow> P \<subseteq> P' \<Longrightarrow> inv rk T P' t"
  by (auto simp: inv_def)

lemma inv_done: "inv rk T (insert s P) t \<Longrightarrow> valued T t s \<Longrightarrow> inv rk T P t"
  by (auto simp: inv_def valued_def)

lemma keeps_done: "keeps T {s} {s} t t' \<Longrightarrow> \<not> has_flag t s SYMBOL_VALID \<Longrightarrow> keeps T {} {} t t'"
  by (auto simp: keeps_def)

lemma set_valid_goes:
  assumes "inv rk T P t" "s \<in> P"
  shows "goes rk T P {} {} t (set_flag SYMBOL_VALID s t)"
  unfolding set_flag_def using assms inv_typed [OF assms(1), of s]
  by (intro upd_goes) (auto simp: stat_def typed_def limits_def wt_def insert_absorb)

lemma set_valid_work:
  assumes "in_tab t s" "\<not> is_const s" "\<not> has_flag t s SYMBOL_VALID"
  shows "work (set_flag SYMBOL_VALID s t) < work t"
proof -
  obtain i where i: "s = Sym i" "i < nsyms t" using assms(1,2) by (cases s) (auto simp: in_tab_def is_const_def)
  show ?thesis
    unfolding work_def set_flag_def upd_fields
    by (rule sum_strict_mono_ex1) (use i assms(3) in \<open>auto simp: syms_upd wt_def\<close>)
qed

lemma clear_need_goes:
  assumes "inv rk T P t"
  shows "goes rk T P {} {} t (clear_flag SYMBOL_NEED_SET_CHOICE_VALUES s t)"
  unfolding clear_flag_def using inv_typed [OF assms, of s] inv_Str [OF assms, of s]
  by (intro upd_goes [OF assms]) (auto simp: stat_def typed_def limits_def wt_def)

lemma clear_need_work:
  assumes "in_tab t s" "\<not> is_const s" "has_flag t s SYMBOL_NEED_SET_CHOICE_VALUES"
  shows "work (clear_flag SYMBOL_NEED_SET_CHOICE_VALUES s t) < work t"
proof -
  obtain i where i: "s = Sym i" "i < nsyms t" using assms(1,2) by (cases s) (auto simp: in_tab_def is_const_def)
  show ?thesis
    unfolding work_def clear_flag_def upd_fields
    by (rule sum_strict_mono_ex1) (use i assms(3) in \<open>auto simp: syms_upd wt_def\<close>)
qed

lemma calc_rest_ok:
  assumes r: "ready rk T P k n rec t" and u: "user_of rk T s k" and P: "s \<in> P"
    and v: "\<not> sym_is_choice T s \<Longrightarrow> has_flag t s SYMBOL_VALID"
    and need: "has_flag t s SYMBOL_NEED_SET_CHOICE_VALUES \<Longrightarrow> sym_is_choice T s"
  shows "runs1 rk T P {s} {s} t (\<lambda>t'. valued T t' s \<and> right_value T s t') (calc_rest rec s t)"
proof (cases "s_type (syms T s) = S_UNKNOWN")
  case True
  have "is_Str (s_name (syms T s))" "\<not> is_bool (s_type (syms T s))"
    using u True by (auto simp: user_of_def sym_ok_def Let_def is_bool_def)
  then show ?thesis
    using v P True ready_static(1,11) [OF r, of s]
    by (auto simp: calc_rest_def is_stringy_def right_value_def valued_def set_curr_def [of s] syms_upd
        intro!: runs1_Some set_curr_goes [unfolded set_curr_def] ready_inv [OF r])
next
  case False
  then show ?thesis
    using calc_known_ok [OF r u P False v need] ready_static(1) [OF r, of s] by (simp add: calc_rest_def)
qed

text \<open>The body of the recursion: a symbol is calculated when all smaller tables are.\<close>

lemma calc_body_ok:
  assumes inv: "inv rk T P t" and s: "in_tab T s" and low: "below rk P (rank rk s)" and rec: "rec_ok rk T (work t) rec"
  shows "wp (calc_body rec s t) (\<lambda>t'. goes rk T P {} {} t t' \<and> done_sym T t' s
    \<and> (has_flag t s SYMBOL_VALID \<or> right_value T s t'))"
proof (cases "has_flag t s SYMBOL_VALID")
  case True
  then show ?thesis using goes_refl [OF inv] by (simp add: calc_body_def done_sym_def)
next
  case False
  let ?k = "rank rk s"
  have c: "\<not> is_const s" using False inv by (auto simp: inv_def)
  have st: "same_static T t" by (rule inv_static [OF inv])
  have s': "in_tab t s" using s static_choice(11) [OF st] by (simp add: in_tab_def split: sym.splits)
  have u: "user_of rk T s ?k" using s c inv by (cases s) (auto simp: inv_def table_ok_def user_of_def in_tab_def is_const_def)
  have first: "wp (if sym_is_choice_value t s \<and> has_flag t s SYMBOL_NEED_SET_CHOICE_VALUES then do {
                let t = clear_flag SYMBOL_NEED_SET_CHOICE_VALUES s t;
                c \<leftarrow> choice_of t s;
                rec c t }
             else Some t) (\<lambda>t1. goes rk T P {} {} t t1 \<and> work (set_flag SYMBOL_VALID s t1) < work t
               \<and> (has_flag t1 s SYMBOL_NEED_SET_CHOICE_VALUES \<longrightarrow> sym_is_choice T s))"
  proof (cases "sym_is_choice_value t s \<and> has_flag t s SYMBOL_NEED_SET_CHOICE_VALUES")
    case True
    then have cv: "sym_is_choice_value T s" using static_choice(2) [OF st] by simp
    then obtain c where c': "choice_of T s = Some c" "weak_ref rk T ?k c"
      using u by (auto simp: user_of_def sym_ok_def Let_def split: option.splits)
    let ?t = "clear_flag SYMBOL_NEED_SET_CHOICE_VALUES s t"
    have g: "goes rk T P {} {} t ?t" by (rule clear_need_goes [OF inv])
    have w: "work ?t < work t" by (rule clear_need_work [OF s' c]) (use True in simp)
    have r: "ready rk T P ?k (work t) rec ?t" using goes_inv [OF g] rec low w by (simp add: ready_def)
    have ch: "choice_of ?t s = Some c" using c'(1) by (simp add: ready_static(4) [OF r])
    have "runs1 rk T P {} {} ?t any (rec c ?t)" by (rule runs1_mono [OF rec_weak [OF r c'(2)]]) simp_all
    moreover have "goes rk T P {} {} t t1 \<and> work (set_flag SYMBOL_VALID s t1) < work t
               \<and> (has_flag t1 s SYMBOL_NEED_SET_CHOICE_VALUES \<longrightarrow> sym_is_choice T s)" if g1: "goes rk T P {} {} ?t t1" for t1
    proof (intro conjI impI)
      show "goes rk T P {} {} t t1" by (rule goes_trans [OF g g1])
      have "work (set_flag SYMBOL_VALID s t1) \<le> work t1"
        unfolding set_flag_def by (rule work_upd) (simp add: wt_def)
      then show "work (set_flag SYMBOL_VALID s t1) < work t" using goes_work [OF g1] w by simp
      show "sym_is_choice T s" if "has_flag t1 s SYMBOL_NEED_SET_CHOICE_VALUES"
        using goes_need [OF g1 that] by (simp add: clear_flag_def syms_upd)
    qed
    ultimately show ?thesis using True ch by (auto simp: runs1_def wp_def Let_def)
  next
    case no: False
    have "sym_is_choice T s" if "has_flag t s SYMBOL_NEED_SET_CHOICE_VALUES"
      using that no inv static_choice(2) [OF st, of s] by (auto simp: inv_def)
    then show ?thesis using no goes_refl [OF inv] set_valid_work [OF s' c False] by auto
  qed
  have second: "wp (calc_rest rec s (set_flag SYMBOL_VALID s t1)) (\<lambda>t'. goes rk T P {} {} t t' \<and> done_sym T t' s \<and> right_value T s t')"
    if t1: "goes rk T P {} {} t t1" "work (set_flag SYMBOL_VALID s t1) < work t"
      "has_flag t1 s SYMBOL_NEED_SET_CHOICE_VALUES \<longrightarrow> sym_is_choice T s" for t1
  proof -
    let ?P = "insert s P" and ?t = "set_flag SYMBOL_VALID s t1"
    have g: "goes rk T ?P {} {} t1 ?t"
      by (rule set_valid_goes) (use inv_more [OF goes_inv [OF t1(1)]] in auto)
    have r: "ready rk T ?P ?k (work t) rec ?t"
      using goes_inv [OF g] rec low c t1(2) by (auto simp: ready_def below_def)
    have "runs1 rk T ?P {s} {s} ?t (\<lambda>t'. valued T t' s \<and> right_value T s t') (calc_rest rec s ?t)"
      by (rule calc_rest_ok [OF r u]) (use t1(3) in \<open>auto simp: set_flag_def syms_upd\<close>)
    moreover have "goes rk T P {} {} t t'" if t': "goes rk T ?P {s} {s} ?t t'" "valued T t' s" for t'
    proof -
      have "keeps T {s} {s} t t1" using t1(1) keeps_mono by (force simp: goes_def)
      moreover have "keeps T {s} {s} t1 t'"
        using goes_trans [OF goes_mono [OF g, of "{s}" "{s}"] t'(1)] by (simp add: goes_def)
      ultimately have "keeps T {} {} t t'" by (intro keeps_done [OF keeps_trans False])
      moreover have "inv rk T P t'" by (rule inv_done [OF goes_inv [OF t'(1)] t'(2)])
      ultimately show ?thesis by (simp add: goes_def)
    qed
    ultimately show ?thesis by (auto simp: runs1_def wp_def valued_def done_sym_def)
  qed
  show ?thesis
    unfolding calc_body_def if_not_P [OF False]
    by (rule wp_bind [OF first]) (auto intro: wp_mono [OF second])
qed

section \<open>The recursion\<close>

lemma rec_ok_less: "rec_ok rk T n rec \<Longrightarrow> m \<le> n \<Longrightarrow> rec_ok rk T m rec"
  by (auto simp: rec_ok_def)

lemma sym_calc_value_rec: "rec_ok rk T n sym_calc_value"
proof (induction n)
  case (Suc n)
  show ?case
    unfolding rec_ok_def
  proof (intro allI impI)
    fix P s t
    assume a: "inv rk T P t" "in_tab T s" "below rk P (rank rk s)" "work t < Suc n"
    from calc_body_ok [OF a(1-3) rec_ok_less [OF Suc.IH]] a(4)
    show "wp (sym_calc_value s t) (\<lambda>t'. goes rk T P {} {} t t' \<and> done_sym T t' s)"
      by (subst sym_calc_value.simps) (auto elim: wp_mono)
  qed
qed (simp add: rec_ok_def)

lemma sym_calc_value_ok:
  assumes "inv rk T {} t" "in_tab T s"
  shows "wp (sym_calc_value s t) (\<lambda>t'. goes rk T {} {} {} t t' \<and> done_sym T t' s \<and> (has_flag t s SYMBOL_VALID \<or> right_value T s t'))"
  using calc_body_ok [OF assms _ sym_calc_value_rec] by (subst sym_calc_value.simps) (simp add: below_def)

section \<open>Chaining calculations\<close>

text \<open>Tables that differ in values, flags and user values of boolean symbols only.\<close>

definition same_shape :: "ktab \<Rightarrow> ktab \<Rightarrow> bool" where
  "same_shape T t \<longleftrightarrow> nsyms t = nsyms T \<and> modules_sym t = modules_sym T
    \<and> (\<forall>u. s_name (syms t u) = s_name (syms T u) \<and> s_type (syms t u) = s_type (syms T u)
        \<and> s_prop (syms t u) = s_prop (syms T u) \<and> fst (s_dir_dep (syms t u)) = fst (s_dir_dep (syms T u))
        \<and> fst (s_rev_dep (syms t u)) = fst (s_rev_dep (syms T u)) \<and> fst (s_implied (syms t u)) = fst (s_implied (syms T u))
        \<and> sym_is_choice t u = sym_is_choice T u \<and> sym_is_choice_value t u = sym_is_choice_value T u
        \<and> (is_stringy (s_type (syms T u)) \<longrightarrow> sym_is_choice T u \<or>
            (sym_has_value t u \<longrightarrow> sym_has_value T u \<and> fst (s_user (syms t u)) = fst (s_user (syms T u)))))"


lemma shape_refl: "same_shape t t"
  by (simp add: same_shape_def)



text \<open>A table on which a calculation can start: as the parser leaves it, or after other calculations.\<close>

definition well_formed :: "(nat \<Rightarrow> nat) \<Rightarrow> ktab \<Rightarrow> bool" where
  "well_formed rk t \<longleftrightarrow> inv rk t {} t"


lemma well_formedI:
  assumes "\<forall>i < nsyms t. sym_ok rk t (Sym i)"
    and "\<forall>s. is_const s \<longrightarrow> s_type (syms t s) = S_UNKNOWN \<and> \<not> sym_is_choice t s \<and> \<not> sym_is_choice_value t s
      \<and> has_flag t s SYMBOL_VALID \<and> is_Str (curr_val t s)"
    and "modules_sym t = Some m" "weak_ref rk t 0 m" "\<not> sym_is_choice t m"
    and "\<forall>i. \<not> has_flag t (Sym i) SYMBOL_VALID \<and> typed (syms t (Sym i))"
    and "\<forall>s. has_flag t s SYMBOL_NEED_SET_CHOICE_VALUES \<longrightarrow> sym_is_choice t s \<or> sym_is_choice_value t s"
  shows "well_formed rk t"
proof -
  have c: "is_const u \<or> (\<exists>i. u = Sym i)" for u by (cases u) (simp_all add: is_const_def)
  have "typed (syms t u)" for u
    using c [of u] assms(2,6) by (auto simp: typed_def is_stringy_def)
  moreover have "has_flag t u SYMBOL_VALID \<longrightarrow> \<not> sym_is_choice t u \<longrightarrow> is_Str (curr_val t u)" for u
    using c [of u] assms(2,6) by auto
  ultimately show ?thesis
    using assms by (simp add: well_formed_def inv_def table_ok_def same_static_def)
qed

section \<open>An example\<close>

text \<open>Modules are enabled; A is a tristate symbol with a prompt that the user has set to m; A selects the boolean
  symbol B; N is a number with the default 7 and the range from 7 to 9, and S a string whose default is B.\<close>

definition demo_sym :: ksym where
  "demo_sym = \<lparr>s_name = Null, s_type = S_UNKNOWN, s_curr = (Null, tri_no), s_user = (Null, tri_no), s_visible = tri_no,
     s_flags = {}, s_prop = [], s_dir_dep = (None, tri_no), s_rev_dep = (None, tri_no), s_implied = (None, tri_no)\<rparr>"

definition demo_prop :: kprop where
  "demo_prop = \<lparr>p_type = P_PROMPT, p_text = True, p_visible = None, p_expr = None, p_menu = Some 1\<rparr>"

definition demo_table :: ktab where
  "demo_table = \<lparr>syms = (\<lambda>s. case s of
       symbol_yes \<Rightarrow> demo_sym\<lparr>s_curr := (Str 2 ''y'', tri_yes), s_flags := {SYMBOL_CONST, SYMBOL_VALID}\<rparr>
     | symbol_mod \<Rightarrow> demo_sym\<lparr>s_curr := (Str 3 ''m'', tri_mod), s_flags := {SYMBOL_CONST, SYMBOL_VALID}\<rparr>
     | symbol_no \<Rightarrow> demo_sym\<lparr>s_curr := (Str 1 ''n'', tri_no), s_flags := {SYMBOL_CONST, SYMBOL_VALID}\<rparr>
     | Sym i \<Rightarrow>
         if i = 0 then demo_sym\<lparr>s_type := S_BOOLEAN, s_name := Str 10 ''MODULES'', s_prop := [demo_prop],
           s_user := (Null, tri_yes), s_flags := {SYMBOL_DEF_USER}\<rparr>
         else if i = 1 then demo_sym\<lparr>s_type := S_TRISTATE, s_name := Str 11 ''A'', s_prop := [demo_prop],
           s_user := (Null, tri_mod), s_flags := {SYMBOL_DEF_USER}\<rparr>
         else if i = 2 then demo_sym\<lparr>s_type := S_BOOLEAN, s_name := Str 12 ''B'', s_rev_dep := (Some (E_SYMBOL (Sym 1)), tri_no)\<rparr>
         else if i = 3 then demo_sym\<lparr>s_type := S_INT, s_name := Str 13 ''N'', s_prop :=
           [demo_prop\<lparr>p_type := P_DEFAULT, p_text := False, p_expr := Some (Tree (E_SYMBOL (Sym 4)))\<rparr>,
            demo_prop\<lparr>p_type := P_RANGE, p_text := False, p_expr := Some (Range_of (Sym 4) (Sym 5))\<rparr>]\<rparr>
         else if i = 6 then demo_sym\<lparr>s_type := S_STRING, s_name := Str 16 ''S'', s_prop :=
           [demo_prop\<lparr>p_type := P_DEFAULT, p_text := False, p_expr := Some (Tree (E_SYMBOL (Sym 2)))\<rparr>]\<rparr>
         else demo_sym\<lparr>s_name := Str (10 + i) (if i = 4 then ''7'' else ''9'')\<rparr>),
     nsyms = 7, modules_sym = Some (Sym 0), modules_val = tri_yes, prop_tri = (\<lambda>s i. tri_no), changed_menus = {},
     next_str = 100, warned = []\<rparr>"

definition demo_rank :: "nat \<Rightarrow> nat" where
  "demo_rank i = (if i = 3 \<or> i = 6 then 1 else 0)"

lemmas demo_table_simps =
  demo_table_def demo_rank_def demo_sym_def demo_prop_def sym_ok_def Let_def prop_ok_def opt_ok_def top_ok_def sym_is_choice_def
  sym_is_choice_value_def sym_has_value_def weak_ref_def strict_ref_def in_tab_def is_const_def is_bool_def is_stringy_def
  prop_get_symbol_def range_of_def typed_def

lemma demo_well_formed: "well_formed demo_rank demo_table"
proof (rule well_formedI)
  have "i < 7 \<Longrightarrow> i = 0 \<or> i = 1 \<or> i = 2 \<or> i = 3 \<or> i = 4 \<or> i = 5 \<or> i = (6 :: nat)" for i by arith
  then show "\<forall>i < nsyms demo_table. sym_ok demo_rank demo_table (Sym i)"
    by (auto simp: demo_table_simps)
qed (auto simp: demo_table_simps split: sym.splits)

text \<open>A selects B with m; the range of N; and S, whose default is a boolean symbol: it gets the string n
  although B is y.\<close>

definition demo_calc :: "sym \<Rightarrow> ktab" where
  "demo_calc s = (case sym_calc_value s demo_table of None \<Rightarrow> demo_table | Some t \<Rightarrow> t)"

lemma demo_calculated:
  "in_tab demo_table (Sym i) \<Longrightarrow> sym_calc_value (Sym i) demo_table = Some (demo_calc (Sym i))"
  using sym_calc_value_ok [OF demo_well_formed [unfolded well_formed_def]] by (fastforce simp: demo_calc_def wp_def)

lemma demo_selected: "curr_tri (demo_calc (Sym 2)) (Sym 2) = tri_yes" "curr_tri (demo_calc (Sym 2)) (Sym 1) = tri_mod"
  by code_simp+

lemma demo_range: "string_at (curr_val (demo_calc (Sym 3)) (Sym 3)) = Some ''7''"
  by code_simp

lemma string_default_of_bool: "string_at (curr_val (demo_calc (Sym 6)) (Sym 6)) = Some ''n''" "curr_tri (demo_calc (Sym 6)) (Sym 2) = tri_yes"
  by code_simp+

lemma demo_in_tab: "in_tab demo_table (Sym 2)" "in_tab demo_table (Sym 3)" "in_tab demo_table (Sym 1)"
  by (simp_all add: in_tab_def demo_table_def)

section \<open>Properties\<close>




text \<open>the value of a boolean or tristate symbol outside choices.  It is at least what the symbols that
  select it demand; and if the symbol is visible and the user has set it, it is the user's value, at most
  the visibility and at least what is demanded, with m raised to yes where m is not possible.\<close>
theorem sym_calc_value_limits:
  assumes "well_formed rk t" "in_tab t s" "sym_calc_value s t = Some t'"
    and "s_type (syms t s) \<in> {S_BOOLEAN, S_TRISTATE}" "\<not> sym_is_choice t s" "\<not> sym_is_choice_value t s"
    and "\<not> has_flag t s SYMBOL_VALID"
  shows "snd (s_rev_dep (syms t' s)) \<le> curr_tri t' s
    \<and> (s_visible (syms t' s) \<noteq> tri_no \<longrightarrow> sym_has_value t s \<longrightarrow>
        (let m = max (min (snd (s_user (syms t' s))) (s_visible (syms t' s))) (snd (s_rev_dep (syms t' s)))
         in curr_tri t' s = m \<or> m = tri_mod \<and> curr_tri t' s = tri_yes))"
proof -
  have w: "inv rk t {} t'" "right_value t s t'"
    using sym_calc_value_ok [OF assms(1) [unfolded well_formed_def] assms(2)] assms(3,7) by (auto simp: wp_def goes_def)
  have "EXPR_OR a b = max a b" "EXPR_AND a b = min a b" for a b
    by (auto simp: EXPR_OR_def EXPR_AND_def max_def min_def)
  then show ?thesis
    using w(2) inv_static [OF w(1)] assms(4-6)
    by (auto simp: right_value_def plain_def limited_def is_bool_def same_static_def sym_has_value_def)
qed

theorem sym_calc_value_limits_witness:
  "curr_tri (demo_calc (Sym 1)) (Sym 1) = tri_mod \<and>
    snd (s_rev_dep (syms (demo_calc (Sym 1)) (Sym 1))) \<le> curr_tri (demo_calc (Sym 1)) (Sym 1)"
proof -
  have "curr_tri (demo_calc (Sym 1)) (Sym 1) = tri_mod" by code_simp
  then show ?thesis
    using sym_calc_value_limits [OF demo_well_formed demo_in_tab(3) demo_calculated [OF demo_in_tab(3)]]
    by (simp add: demo_table_simps)
qed

end
