(* ===== verification/Spec2Isabelle.thy ===== *)
theory Spec2Isabelle
  imports Tests_String Am_Ioe Am_Smp Int64 Am_Libgcc Am_Cte Sim_Main Klib_String Klib_Stdio Coremark_Printf Coremark_Main Kconfig_Value
begin

text \<open>
  A verification library for the RISC-V teaching system of this repository.

  \<^bold>\<open>The system.\<close>  The directory \<open>riscv32-cpu\<close> holds processors written in Verilog (\<open>IP\<close>), the
  simulator that runs one of them and compares it with a reference model (\<open>simulator\<close>), the bare
  machine library the simulated programs are linked with (\<open>abstract-machine\<close>: the run-time
  library \<open>klib\<close> and the machine layer \<open>am\<close> for several targets), and the programs themselves
  (\<open>software-test\<close>, above all the benchmark CoreMark).  The development models the C code and
  the assembly routines it depends on.  All paths below are under \<open>src/riscv32-cpu\<close>.

  \<^bold>\<open>How the parts interact.\<close>  \<open>main\<close> of the simulator parses its arguments, loads an image into
  physical memory, starts the log, the processor and the reference model (\<open>Sim_Main\<close>), and then
  calls \<open>cpu_exec\<close> (\<open>Sim_Exec\<close>).  That loop clocks the processor until it commits an
  instruction; the processor calls back into the DPI functions, which read and write physical
  memory and the clock (\<open>Sim_Memory\<close>).  A commit updates the architectural state (\<open>Sim_Cpu\<close>), is
  recorded in the instruction trace (\<open>Itrace\<close>) and is compared with the reference
  (\<open>Difftest\<close>).  The programs that run on the processor call \<open>klib\<close> and, since the processor
  has no multiplier, the routines of \<open>libgcc\<close> for every product and quotient.

  \<^bold>\<open>Conventions.\<close>  C integers are words of their width (\<open>u8\<close>, \<open>u16\<close>, \<open>u32\<close>, \<open>u64\<close>), read
  with \<open>unat\<close>, \<open>uint\<close> or \<open>sint\<close> as their C type asks; counters that cannot leave
  their range are \<open>nat\<close> or \<open>int\<close>.  Structs are records, enums are datatypes.  Global
  variables are fields of the state record of their component, which the operations take and
  return.  A failing \<open>assert\<close>, a \<open>panic\<close> and an exit of the program are values of a sum or option
  type and never a default result.  So are accesses outside an array, divisions by zero and, in
  \<open>Am_Ioe\<close> (\<open>gpu_fbdraw\<close>) and the test programs, signed operations that overflow (\<open>i32\<close>, \<open>i64\<close> of the
  prelude), which C leaves undefined.  In the other theories signed values that C computes in \<open>int\<close> wrap
  or are unbounded, and the cases in which C would overflow are these: the last increment of the index of
  \<open>memmove\<close> when exactly \<open>2 ^ 31\<close> bytes are copied forwards; the negation of the least \<open>long\<close> and the
  arithmetic on field widths near \<open>2 ^ 31\<close> in \<open>ee_printf.c\<close> (\<open>number\<close>); products of sizes in the
  renderer of \<open>ioe.c\<close>, whose buffers hold far fewer pixels.  Where C leaves an order of evaluation open and
  the result depends on it, the order is an argument (\<open>read_rtc_async\<close>).  Fuel is used only
  where the data of a client may be cyclic (\<open>render\<close>): a
  loop that may run forever is a \<open>partial_function\<close> into \<open>option\<close>, where \<open>None\<close> says that it
  does not return, and the theorems about such loops state that the result is \<open>Some\<close>.  All
  other loops have a termination proof.

  \<^bold>\<open>Code outside the repository\<close> is an argument of the definitions that use it: the processor
  that Verilator generates (\<open>dut_api\<close>), the reference model (\<open>ref_api\<close>), the disassembler
  (\<open>disasm\<close>), the host's files and its clock, \<open>sscanf\<close>, the client's page allocator and event
  handler, and the constants of the generated \<open>autoconf.h\<close> (\<open>mem_cfg\<close>).

  \<^bold>\<open>The theories.\<close>

  \<^item> \<open>Prelude\<close>: the types, the collections \<open>word_nat\<close> and \<open>c_shift\<close>, lemmas on words and lists, and
    the contract \<open>byte_store\<close> of a memory of bytes (reading back a little-endian value after a
    write, and what a write leaves alone).

  \<^item> \<open>Int64\<close>: \<open>klib/src/int64.c\<close>.  \<open>__udivmoddi4\<close> with its branches for the sizes of the
    operands and its shift-and-subtract loop, the signed division and remainder routines, counting of
    leading and trailing zeros.  They are the operations on 64-bit integers; the division traps exactly for
    a zero divisor.  The contract \<open>unsigned_divider\<close> carries the
    signed routines and is interpreted on \<open>udivmoddi4\<close>.

  \<^item> \<open>Am_Libgcc\<close>: \<open>am/src/riscv/npc/libgcc\<close>.  The software multiplication and division equals what
    the instructions of the M extension compute, division by zero and overflow included.

  \<^item> \<open>Am_Vme\<close>, \<open>Am_Cte\<close>: \<open>am/src/x86/qemu/vme.c\<close>, \<open>cte.c\<close>, \<open>trap32.S\<close> in the 32-bit build.
    Page tables live in memory as the code writes them; \<open>mmu_walk\<close> reads them as the processor
    does.  Every sequence of \<open>map\<close> calls refines the update of a finite map from pages to frames,
    the panics included; the address space of the kernel, sharing it with user spaces and
    releasing a user space are correct.  A handler that returns a saved context resumes that
    program unchanged; new contexts start as documented; the descriptor table protects the
    kernel's vectors; interrupts are classified into events.  The register \<open>es\<close>, which \<open>trap32.S\<close> sets on
    the way in and out but does not save, and the arithmetic flags are not part of the machine.

  \<^item> \<open>Am_Disk\<close>, \<open>Am_Ioe\<close>: \<open>am/src/x86/qemu/ioe.c\<close> and the boot loader \<open>boot/main.c\<close>.  The port and
    memory instructions are the parameters \<open>bus\<close> and \<open>hw\<close>; what the drivers rely on are the hypotheses
    \<open>ata_ok\<close>, \<open>cmos_ok\<close> and \<open>ioapic_ok\<close>, each with a device for which it holds.  The disk driver
    transfers exactly the requested blocks, the boot loader places the segments of an ELF file and jumps to
    its entry, a date is not torn if the seconds are read first, the frame buffer is clipped unless the
    coordinates overflow, interrupts are routed one by one.  The contracts say nothing of accesses the
    drivers do not make: \<open>ata_ok\<close> covers the address registers and the two commands, \<open>ioapic_ok\<close> writes to
    the redirection table only.  The
    recursion of the renderer has fuel, since its links are data of the client.

  \<^item> \<open>Am_Smp\<close>: \<open>am/src/x86/qemu/mpe.c\<close> and \<open>trm.c\<close>.  The start of the other processors is a step
    relation whose steps interleave in every order; an invariant of the reachable states and a rank
    function give safety and progress.  Processor table of the firmware, segment table, what
    \<open>halt\<close> prints, limits of the heap.

  \<^item> \<open>Sim_Memory\<close>, \<open>Sim_Cpu\<close>, \<open>Itrace\<close>, \<open>Difftest\<close>, \<open>Sim_Exec\<close>, \<open>Sim_Main\<close>: \<open>simulator/src\<close> and
    the headers it uses.  Memory reads back what was written and aligned accesses of the processor
    stay inside the array; the ring of the trace shows the last thirty instructions (contract
    \<open>bounded_history\<close>); a snapshot restores what was saved; the comparison of registers reports
    the first difference; the run loop executes exactly the requested number of instructions (the
    relation \<open>exec_steps\<close>), counts exactly the clock cycles of the processor's run (\<open>hw_run\<close>), returns
    when the processor keeps committing, and ends the program exactly at an \<open>ebreak\<close> or a reported
    mismatch; after loading, instruction fetches see the image.  The file of a snapshot takes each \<open>fwrite\<close>
    at once: a failure that shows only in \<open>fclose\<close>, whose result the code ignores, is not represented.

  \<^item> \<open>Klib_String\<close>, \<open>Klib_Stdio\<close>: \<open>klib/src/string.c\<close>, \<open>stdio.c\<close>, \<open>stdlib.c\<close>.  Copying (also
    between overlapping blocks), concatenation, comparison as dictionary order, formatted output
    against a specification of the directives, conversion of numbers; \<open>malloc\<close> only panics.

  \<^item> \<open>Coremark_Util\<close>, \<open>Coremark_Matrix\<close>, \<open>Coremark_State\<close>, \<open>Coremark_List\<close>, \<open>Coremark_Printf\<close>,
    \<open>Coremark_Main\<close>: \<open>software-test/coremark\<close>.  The checksum against the polynomial CRC, matrix
    products, the scanner against the grammar of numbers, the merge sort on linked cells in an
    explicit store (contract \<open>stable_cmp\<close>, interpreted on the comparison by index), list
    reversal, \<open>ee_printf\<close> against a specification of its directives, and what the driver
    reports on the bare machine port.

  \<^item> \<open>Kconfig_Expr\<close>: \<open>simulator/tools/kconfig/expr.c\<close>.  The simplifications of dependency
    expressions keep their three-valued meaning.

  \<^item> \<open>Kconfig_Symbol\<close>, \<open>Kconfig_Calc\<close>, \<open>Kconfig_Value\<close>: \<open>simulator/tools/kconfig/symbol.c\<close> up to
    \<open>sym_calc_value\<close>.  The model of the calculation of symbol values, whose recursion through expressions,
    ranges and choices is a \<open>partial_function\<close>; what each step preserves; and the theorems: the
    calculation returns on every table the tool builds, keeps the values calculated before and the types of
    all values, and respects what selects a symbol and its visibility.  \<open>well_formed\<close> says what the parser
    guarantees of a table, among it that the operands of comparisons and the defaults and ranges of numbers
    and strings are not circular (a rank decreases along them; the tool rejects such circles when it has read
    the files); other dependencies between boolean and tristate symbols may be.

  \<^item> \<open>Tests_Sort\<close>, \<open>Tests_Number\<close>, \<open>Tests_Machine\<close>, \<open>Tests_String\<close>: \<open>software-test/cpu-tests\<close>.  All 35
    programs with their tables: thirty end with code 0, two do where the processor supports unaligned
    accesses, three compute a signed overflow; and the algorithms among them (sorting, primality,
    checksums, factor search) are correct for every input they could be given.

  \<^bold>\<open>Divergences\<close> between the code and its comments or purpose are stated as theorems about the
  model of the code as it is (\<open>end_of_memory_overrun\<close>, \<open>checkcsrs_vacuous\<close>, \<open>verdict_inverted\<close>,
  \<open>automatic_iterations_never_return\<close>, \<open>irq_event_correct\<close>, \<open>timer_uptime_too_fast\<close>, \<open>keyboard_events_correct\<close>,
  \<open>timer_rtc_consistent\<close>, \<open>gpu_fbdraw_correct\<close>, \<open>test_programs_pass\<close>).

  \<^bold>\<open>Not modelled.\<close>  The Verilog sources, and the C that the Verilog tools generate from them
  (\<open>csrc\<close>): they are not C programs of the repository.  The generated scanner and parser of the
  configuration tool.  The terminal dialogs (\<open>lxdialog\<close>, \<open>mconf.c\<close>), the \<open>native\<close> machine layer
  on POSIX signals and shared memory, the posix, simple and rtems ports of CoreMark: input and
  output through host libraries.  The binding of the disassembler.  The headers
  \<open>longlong.h\<close> and \<open>libgcc2.h\<close>, which are copies of compiler sources of which \<open>multi3.c\<close> and
  \<open>ashldi3.c\<close> use a few macros; those are part of the definitions that use them.  Candidates for
  extension: user values, the menu layer and the file formats of the configuration tool.
\<close>

end
